(* ===== verification/Dion_Base.thy ===== *)
theory Dion_Base
  imports Main "HOL-Library.List_Lexorder" "HOL-Library.Char_ord"
begin

text \<open>
  The vocabulary shared by every component theory: Go maps and the order in which a
  \<open>range\<close> loop visits them, run-time panics, byte strings, and the list lemmas that
  several components use. The collection \<open>go_simps\<close> gathers the equations that unfold
  this vocabulary.
\<close>

named_theorems go_simps \<open>equations that unfold the shared vocabulary of Go maps and panics\<close>

section \<open>Panics\<close>

text \<open>
  An operation that can stop with a Go run-time panic (a nil pointer dereference, a failed
  type assertion, an index out of range) returns an \<^typ>\<open>'a option\<close>: \<^const>\<open>None\<close> is the
  panic. Go strings are byte strings, so they are HOL's \<^typ>\<open>string\<close>; the order of
  \<open>HOL-Library.List_Lexorder\<close> over \<open>HOL-Library.Char_ord\<close> is the bytewise lexicographic
  order of Go's \<open>strings.Compare\<close>.
\<close>

section \<open>Go maps and the order of range loops\<close>

text \<open>
  A Go map is a partial function with a finite domain. Go leaves the order in which a
  \<open>range\<close> loop visits the keys open and may choose another one for every loop, so an
  operation with such a loop takes the choice as an argument: a value of the type
  \<open>range_order\<close>, which lists every finite set of keys without repetition. A theorem about the
  operation holds for every such choice.
\<close>

type_synonym ('k, 'v) gomap = "'k \<rightharpoonup> 'v"

typedef 'k range_order =
  "{ord :: 'k set \<Rightarrow> 'k list. \<forall>A. finite A \<longrightarrow> distinct (ord A) \<and> set (ord A) = A}"
  morphisms visit range_order_of
proof
  have "\<forall>A. finite A \<longrightarrow> (\<exists>xs :: 'k list. distinct xs \<and> set xs = A)"
    using finite_distinct_list by blast
  then have "\<exists>ord. \<forall>A. finite A \<longrightarrow> distinct (ord A) \<and> set (ord A :: 'k list) = A"
    by (rule_tac choice [of "\<lambda>A xs. finite A \<longrightarrow> distinct xs \<and> set xs = A"]) blast
  then show "(SOME ord. \<forall>A. finite A \<longrightarrow> distinct (ord A) \<and> set (ord A :: 'k list) = A)
      \<in> {ord. \<forall>A. finite A \<longrightarrow> distinct (ord A) \<and> set (ord A) = A}"
    unfolding mem_Collect_eq by (rule someI_ex)
qed

setup_lifting type_definition_range_order

text \<open>The order the witnesses use: ascending keys.\<close>

lift_definition ascending :: "'k::linorder range_order" is sorted_list_of_set
  by simp

lemma visit_ascending [simp]: "visit ascending = sorted_list_of_set"
  by transfer simp

lemma set_visit [simp]: "finite A \<Longrightarrow> set (visit ord A) = A"
  using visit [of ord] by simp

lemma distinct_visit [simp]: "finite A \<Longrightarrow> distinct (visit ord A)"
  using visit [of ord] by simp

lemma length_visit [simp]: "finite A \<Longrightarrow> length (visit ord A) = card A"
  by (metis distinct_card set_visit distinct_visit)

lemma visit_Nil_iff [simp]: "finite A \<Longrightarrow> visit ord A = [] \<longleftrightarrow> A = {}"
  by (metis set_visit set_empty)

lemma visit_empty [simp]: "visit ord {} = []"
  by simp

lemma visit_singleton [simp]: "visit ord {a} = [a]"
proof -
  have "length (visit ord {a}) = 1" and "set (visit ord {a}) = {a}" by simp_all
  then show ?thesis by (cases "visit ord {a}") auto
qed

section \<open>Lists\<close>

text \<open>The last element that satisfies a predicate: what a loop that overwrites leaves.\<close>

fun last_such :: "('a \<Rightarrow> bool) \<Rightarrow> 'a list \<Rightarrow> 'a option" where
  "last_such P [] = None"
| "last_such P (x # xs) =
     (case last_such P xs of Some y \<Rightarrow> Some y | None \<Rightarrow> (if P x then Some x else None))"

lemma last_such_None_iff: "last_such P xs = None \<longleftrightarrow> (\<forall>x \<in> set xs. \<not> P x)"
  by (induction xs) (auto split: option.splits)

lemma last_such_SomeD: "last_such P xs = Some x \<Longrightarrow> x \<in> set xs \<and> P x"
  by (induction xs) (auto split: option.splits if_splits)

lemma last_such_unique:
  "distinct (map f xs) \<Longrightarrow> x \<in> set xs \<Longrightarrow> f x = k \<Longrightarrow> last_such (\<lambda>y. f y = k) xs = Some x"
proof (induction xs)
  case (Cons a xs)
  show ?case
  proof (cases "x = a")
    case True
    with Cons.prems have "f y \<noteq> k" if "y \<in> set xs" for y
      using that by (metis distinct.simps(2) image_eqI list.set_map list.simps(9))
    then have "last_such (\<lambda>y. f y = k) xs = None"
      by (simp add: last_such_None_iff)
    with True Cons.prems show ?thesis by simp
  next
    case False
    with Cons show ?thesis by simp
  qed
qed simp

lemma last_such_only:
  assumes "x \<in> set xs" "P x" "\<And>y. y \<in> set xs \<Longrightarrow> P y \<Longrightarrow> y = x"
  shows "last_such P xs = Some x"
proof (cases "last_such P xs")
  case None
  with assms(1,2) show ?thesis by (simp add: last_such_None_iff)
next
  case (Some y)
  with last_such_SomeD [OF Some] assms(3) show ?thesis by simp
qed

lemma last_such_filter_only:
  assumes "x \<in> set xs" "P x" "\<And>y. y \<in> set xs \<Longrightarrow> P y \<Longrightarrow> y = x"
  shows "last_such P (filter Q xs) = (if Q x then Some x else None)"
proof (cases "Q x")
  case True
  then have "x \<in> set (filter Q xs)" using assms(1) by simp
  moreover have "y = x" if "y \<in> set (filter Q xs)" "P y" for y
    using that(1) by (intro assms(3) that(2)) simp
  ultimately have "last_such P (filter Q xs) = Some x"
    using assms(2) by (intro last_such_only)
  with True show ?thesis by simp
next
  case False
  then have "\<forall>y \<in> set (filter Q xs). \<not> P y" using assms(3) by (metis mem_Collect_eq set_filter)
  then have "last_such P (filter Q xs) = None" by (simp only: last_such_None_iff)
  with False show ?thesis by simp
qed

lemma last_such_map: "last_such P (map f xs) = map_option f (last_such (\<lambda>x. P (f x)) xs)"
  by (induction xs) (auto split: option.split)

text \<open>A text is cut at the first separator in one way only.\<close>

lemma cut_at_separator:
  "c \<notin> set xs \<Longrightarrow> c \<notin> set ys \<Longrightarrow> xs @ c # as = ys @ c # bs \<Longrightarrow> xs = ys \<and> as = bs"
proof (induction xs arbitrary: ys)
  case Nil
  then show ?case by (cases ys) auto
next
  case (Cons x xs)
  then show ?case by (cases ys) auto
qed

text \<open>A fold that overwrites one map entry per list element.\<close>

lemma foldl_upd_apply:
  "foldl (\<lambda>m x. m(f x \<mapsto> g x)) m xs k =
     (case last_such (\<lambda>x. f x = k) xs of None \<Rightarrow> m k | Some x \<Rightarrow> Some (g x))"
  by (induction xs arbitrary: m) (auto split: option.splits)

lemma finite_dom_upd [simp, intro]: "finite (dom m) \<Longrightarrow> finite (dom (m(k := v)))"
  by (rule finite_subset [of _ "insert k (dom m)"]) auto

section \<open>Reachable states\<close>

text \<open>
  The components with concurrent parts are step relations; a state is reachable when finitely
  many steps lead to it, and an invariant is proved over the steps.
\<close>

definition reachable :: "('s \<Rightarrow> 's \<Rightarrow> bool) \<Rightarrow> 's \<Rightarrow> 's \<Rightarrow> bool" where
  "reachable step s0 s = step\<^sup>*\<^sup>* s0 s"

lemma reachable_refl [simp]: "reachable step s0 s0"
  by (simp add: reachable_def)

lemma reachable_step: "reachable step s0 s \<Longrightarrow> step s s' \<Longrightarrow> reachable step s0 s'"
  by (simp add: reachable_def)

lemma reachable_first: "step s0 s \<Longrightarrow> reachable step s0 s"
  by (rule reachable_step, rule reachable_refl)

lemma reachable_invariant [consumes 1, case_names init step]:
  assumes "reachable step s0 s" and "P s0"
    and "\<And>s s'. reachable step s0 s \<Longrightarrow> P s \<Longrightarrow> step s s' \<Longrightarrow> P s'"
  shows "P s"
  using assms(1) unfolding reachable_def
  by (induction rule: rtranclp_induct) (use assms(2,3) in \<open>auto simp: reachable_def\<close>)

end
