(* ===== verification/Disorder_Set.thy ===== *)
theory Disorder_Set
  imports Dion_Base
begin

text \<open>
  The keyed set of \<open>util/set.go\<close>, generic in its items. Go passes the item type's methods
  with the item; here they are a record of three functions, the first argument of every
  operation. The locale \<open>disorder_item\<close> states what the set needs of them, and holds the
  lemmas that make the set correct: what \<open>Update\<close> leaves in the index, what it reports as
  added, deleted and replaced, what \<open>IsSame\<close> decides, and that \<open>Sort\<close> does not depend on the
  order in which the map is visited.
\<close>

section \<open>Items\<close>

text \<open>
  \<open>DisorderSetItem\<close>: the key (which may panic on a nil submessage), the comparison and the
  copy of an item.
\<close>

record 'a item_ops =
  Key :: "'a \<Rightarrow> string option"
  Compare :: "'a \<Rightarrow> 'a \<Rightarrow> bool"
  Clone :: "'a \<Rightarrow> 'a"

record 'a itemTuple =
  data :: 'a
  checked :: bool

type_synonym 'a DisorderSet = "(string, 'a itemTuple) gomap"

record 'a replaceTuple =
  Old :: 'a
  New :: 'a

section \<open>Operations\<close>

definition NewDisorderSet :: "'a DisorderSet" where
  "NewDisorderSet = Map.empty"

definition Add :: "'a item_ops \<Rightarrow> 'a DisorderSet \<Rightarrow> 'a \<Rightarrow> 'a DisorderSet option" where
  "Add I s d =
     (case Key I d of
        None \<Rightarrow> None
      | Some k \<Rightarrow> Some (s(k \<mapsto> \<lparr>data = Clone I d, checked = False\<rparr>)))"

definition Del :: "'a item_ops \<Rightarrow> 'a DisorderSet \<Rightarrow> 'a \<Rightarrow> 'a DisorderSet option" where
  "Del I s d = (case Key I d of None \<Rightarrow> None | Some k \<Rightarrow> Some (s(k := None)))"

definition Exist :: "'a item_ops \<Rightarrow> 'a DisorderSet \<Rightarrow> 'a \<Rightarrow> bool option" where
  "Exist I s d =
     (case Key I d of
        None \<Rightarrow> None
      | Some k \<Rightarrow> Some (case s k of Some tuple \<Rightarrow> Compare I (data tuple) d | None \<Rightarrow> False))"

definition reset :: "'a DisorderSet \<Rightarrow> 'a DisorderSet" where
  "reset s = (\<lambda>k. map_option (\<lambda>tuple. tuple\<lparr>checked := False\<rparr>) (s k))"

text \<open>
  The first loop of \<open>Update\<close>: index, additions and replacements so far go through the loop.
\<close>

fun Update_scan :: "'a item_ops \<Rightarrow> 'a list \<Rightarrow> 'a DisorderSet \<Rightarrow> 'a list \<Rightarrow> 'a replaceTuple list
    \<Rightarrow> ('a DisorderSet \<times> 'a list \<times> 'a replaceTuple list) option" where
  "Update_scan I [] s add replace = Some (s, add, replace)"
| "Update_scan I (d # ds) s add replace =
     (case Key I d of
        None \<Rightarrow> None
      | Some k \<Rightarrow>
          (case s k of
             Some tuple \<Rightarrow>
               if Compare I (data tuple) d
               then Update_scan I ds (s(k \<mapsto> tuple\<lparr>checked := True\<rparr>)) add replace
               else Update_scan I ds (s(k \<mapsto> tuple\<lparr>data := Clone I d, checked := True\<rparr>)) add
                      (replace @ [\<lparr>Old = data tuple, New = d\<rparr>])
           | None \<Rightarrow>
               Update_scan I ds (s(k \<mapsto> \<lparr>data = Clone I d, checked = True\<rparr>)) (add @ [d]) replace))"

text \<open>The second loop of \<open>Update\<close>, over the keys in the order the range loop visits them.\<close>

fun Update_sweep :: "string list \<Rightarrow> 'a DisorderSet \<Rightarrow> 'a list \<Rightarrow> 'a DisorderSet \<times> 'a list" where
  "Update_sweep [] s del = (s, del)"
| "Update_sweep (k # ks) s del =
     (case s k of
        Some tuple \<Rightarrow>
          if \<not> checked tuple then Update_sweep ks (s(k := None)) (del @ [data tuple])
          else Update_sweep ks s del
      | None \<Rightarrow> Update_sweep ks s del)"

definition Update :: "'a item_ops \<Rightarrow> string range_order \<Rightarrow> 'a DisorderSet \<Rightarrow> 'a list
    \<Rightarrow> ('a DisorderSet \<times> 'a list \<times> 'a list \<times> 'a replaceTuple list) option" where
  "Update I ord s list =
     (case Update_scan I list (reset s) [] [] of
        None \<Rightarrow> None
      | Some (s1, add, replace) \<Rightarrow>
          (let (s2, del) = Update_sweep (visit ord (dom s1)) s1 [] in Some (s2, add, del, replace)))"

text \<open>The loop of \<open>IsSame\<close>; the first component is False when it returned early.\<close>

fun IsSame_scan :: "'a item_ops \<Rightarrow> 'a list \<Rightarrow> 'a DisorderSet \<Rightarrow> (bool \<times> 'a DisorderSet) option" where
  "IsSame_scan I [] s = Some (True, s)"
| "IsSame_scan I (d # ds) s =
     (case Key I d of
        None \<Rightarrow> None
      | Some k \<Rightarrow>
          (case s k of
             Some tuple \<Rightarrow>
               if Compare I (data tuple) d
               then IsSame_scan I ds (s(k \<mapsto> tuple\<lparr>checked := True\<rparr>))
               else Some (False, s)
           | None \<Rightarrow> Some (False, s)))"

definition all_checked :: "string list \<Rightarrow> 'a DisorderSet \<Rightarrow> bool" where
  "all_checked ks s = list_all (\<lambda>k. case s k of Some tuple \<Rightarrow> checked tuple | None \<Rightarrow> True) ks"

definition IsSame :: "'a item_ops \<Rightarrow> string range_order \<Rightarrow> 'a DisorderSet \<Rightarrow> 'a list
    \<Rightarrow> (bool \<times> 'a DisorderSet) option" where
  "IsSame I ord s list =
     (case IsSame_scan I list (reset s) of
        None \<Rightarrow> None
      | Some (found, s1) \<Rightarrow> Some (found \<and> all_checked (visit ord (dom s1)) s1, s1))"

fun add_all :: "'a item_ops \<Rightarrow> 'a DisorderSet \<Rightarrow> 'a list \<Rightarrow> 'a DisorderSet option" where
  "add_all I s [] = Some s"
| "add_all I s (d # ds) = (case Add I s d of None \<Rightarrow> None | Some s1 \<Rightarrow> add_all I s1 ds)"

definition NewDisorderSetFromList :: "'a item_ops \<Rightarrow> 'a list \<Rightarrow> 'a DisorderSet option" where
  "NewDisorderSetFromList I list = add_all I NewDisorderSet list"

text \<open>
  \<open>sort.Sort\<close> leaves a permutation of the list that is sorted by \<open>Less\<close>, the order of the
  keys. The key of an item is only computed when the list has two elements to compare.
\<close>

definition Less :: "'a item_ops \<Rightarrow> 'a \<Rightarrow> 'a \<Rightarrow> bool option" where
  "Less I a b =
     (case (Key I a, Key I b) of (Some x, Some y) \<Rightarrow> Some (x < y) | _ \<Rightarrow> None)"

definition Sort :: "'a item_ops \<Rightarrow> string range_order \<Rightarrow> 'a DisorderSet \<Rightarrow> 'a list option" where
  "Sort I ord s =
     (let list = map (\<lambda>k. Clone I (data (the (s k)))) (visit ord (dom s))
      in if length list \<le> 1 \<or> list_all (\<lambda>d. Key I d \<noteq> None) list
         then Some (sort_key (\<lambda>d. the (Key I d)) list) else None)"

text \<open>What the set holds, without the marks of the last scan.\<close>

definition contents :: "'a DisorderSet \<Rightarrow> (string, 'a) gomap" where
  "contents s = (\<lambda>k. map_option data (s k))"

text \<open>Every entry is filed under the key of its item.\<close>

definition dset_inv :: "'a item_ops \<Rightarrow> 'a DisorderSet \<Rightarrow> bool" where
  "dset_inv I s \<longleftrightarrow> finite (dom s) \<and> (\<forall>k tuple. s k = Some tuple \<longrightarrow> Key I (data tuple) = Some k)"

section \<open>Facts that need nothing of the items\<close>

lemma contents_simps [simp]:
  "contents (reset s) = contents s"
  "contents (s(k := None)) = (contents s)(k := None)"
  "dom (contents s) = dom s"
  by (auto simp: contents_def reset_def option.map_comp o_def fun_eq_iff dom_def)

lemma contents_upd: "contents (s(k \<mapsto> tuple)) = (contents s)(k \<mapsto> data tuple)"
  by (auto simp: contents_def fun_eq_iff)

lemma dom_reset [simp]: "dom (reset s) = dom s"
  by (auto simp: reset_def dom_def)

lemma reset_SomeD: "reset s k = Some tuple \<Longrightarrow> \<not> checked tuple"
  by (auto simp: reset_def)

lemma contents_None_iff [simp]: "contents s k = None \<longleftrightarrow> s k = None"
  by (simp add: contents_def)

lemma contents_SomeD: "contents s k = Some d \<Longrightarrow> \<exists>tuple. s k = Some tuple \<and> data tuple = d"
  by (auto simp: contents_def)

lemma finite_dset_reset: "dset_inv I s \<Longrightarrow> dset_inv I (reset s)"
  by (auto simp: dset_inv_def) (auto simp: reset_def)

lemma dset_inv_iff_contents:
  "dset_inv I s \<longleftrightarrow> finite (dom s) \<and> (\<forall>k d. contents s k = Some d \<longrightarrow> Key I d = Some k)"
  by (auto simp: dset_inv_def contents_def)

lemma dset_inv_cong: "contents s = contents t \<Longrightarrow> dset_inv I s \<longleftrightarrow> dset_inv I t"
  unfolding dset_inv_iff_contents by (metis contents_simps(3))

text \<open>The entries the last scan did not meet.\<close>

definition stale :: "'a DisorderSet \<Rightarrow> string \<Rightarrow> bool" where
  "stale s k = (case s k of Some tuple \<Rightarrow> \<not> checked tuple | None \<Rightarrow> False)"

lemma stale_upd [simp]:
  "stale (s(k := None)) j = (j \<noteq> k \<and> stale s j)"
  "stale (s(k \<mapsto> tuple)) j = (if j = k then \<not> checked tuple else stale s j)"
  by (auto simp: stale_def)

lemma Update_sweep_Cons:
  "Update_sweep (k # ks) s del =
     (if stale s k then Update_sweep ks (s(k := None)) (del @ [data (the (s k))])
      else Update_sweep ks s del)"
  by (simp add: stale_def split: option.split)

lemma Update_sweep_none: "(\<And>k. \<not> stale s k) \<Longrightarrow> Update_sweep ks s del = (s, del)"
  by (induction ks) (simp_all add: Update_sweep_Cons del: Update_sweep.simps(2))

lemma stale_empty [simp]: "\<not> stale Map.empty k"
  by (simp add: stale_def)

lemma reset_upd [simp]:
  "reset Map.empty = Map.empty"
  "reset (s(k \<mapsto> tuple)) = (reset s)(k \<mapsto> tuple\<lparr>checked := False\<rparr>)"
  by (auto simp: reset_def)

lemma Update_without_deletions:
  "Update_scan I xs (reset s) [] [] = Some (s', add, rep) \<Longrightarrow> (\<And>k. \<not> stale s' k) \<Longrightarrow>
   Update I ord s xs = Some (s', add, [], rep)"
  by (simp add: Update_def Update_sweep_none)

lemma Update_sweep_index:
  "fst (Update_sweep ks s del) j = (if j \<in> set ks \<and> stale s j then None else s j)"
  by (induction ks arbitrary: s del) (auto simp: stale_def split: option.splits)

lemma Update_sweep_deleted:
  "distinct ks \<Longrightarrow>
   snd (Update_sweep ks s del) = del @ map (\<lambda>k. data (the (s k))) (filter (stale s) ks)"
proof (induction ks arbitrary: s del)
  case (Cons k ks)
  have "map (\<lambda>j. data (the ((s(k := None)) j))) (filter (stale (s(k := None))) ks)
      = map (\<lambda>j. data (the (s j))) (filter (stale s) ks)"
    using Cons.prems by (intro map_cong filter_cong) auto
  with Cons show ?case by (simp add: Update_sweep_Cons del: Update_sweep.simps)
qed simp

lemma Update_scan_None_iff:
  "Update_scan I xs s add rep = None \<longleftrightarrow> (\<exists>x \<in> set xs. Key I x = None)"
  by (induction xs arbitrary: s add rep) (auto split: option.splits)

lemma Update_None_iff: "Update I ord s xs = None \<longleftrightarrow> (\<exists>x \<in> set xs. Key I x = None)"
  using Update_scan_None_iff [of I xs "reset s" "[]" "[]"]
  by (auto simp: Update_def Let_def split: option.splits prod.splits)

text \<open>An input item agrees with the set when the entry of its key compares equal to it.\<close>

definition agrees :: "'a item_ops \<Rightarrow> (string, 'a) gomap \<Rightarrow> 'a \<Rightarrow> bool" where
  "agrees I c x = (\<exists>k d. Key I x = Some k \<and> c k = Some d \<and> Compare I d x)"

lemma contents_mark [simp]:
  "s k = Some t \<Longrightarrow> contents (s(k \<mapsto> t\<lparr>checked := b\<rparr>)) = contents s"
  by (auto simp: contents_def fun_eq_iff)

lemma IsSame_scan_contents: "IsSame_scan I xs s = Some (b, s') \<Longrightarrow> contents s' = contents s"
proof (induction xs arbitrary: s)
  case (Cons x xs)
  show ?case
  proof (cases "\<exists>k t. Key I x = Some k \<and> s k = Some t \<and> Compare I (data t) x")
    case True
    then obtain k t where "Key I x = Some k" and t: "s k = Some t" and "Compare I (data t) x"
      by blast
    with Cons.prems have "IsSame_scan I xs (s(k \<mapsto> t\<lparr>checked := True\<rparr>)) = Some (b, s')"
      by simp
    from Cons.IH [OF this] show ?thesis by (simp only: contents_mark [of s, OF t])
  next
    case False
    with Cons.prems show ?thesis by (auto split: option.splits if_splits)
  qed
qed simp

lemma IsSame_scan_result:
  "IsSame_scan I xs s = Some (b, s') \<Longrightarrow> b \<longleftrightarrow> (\<forall>x \<in> set xs. agrees I (contents s) x)"
proof (induction xs arbitrary: s)
  case (Cons x xs)
  from Cons.prems obtain k where k: "Key I x = Some k" by (auto split: option.splits)
  show ?case
  proof (cases "agrees I (contents s) x")
    case True
    with k obtain t where t: "s k = Some t" "Compare I (data t) x"
      by (auto simp: agrees_def contents_def)
    with k Cons.prems have "IsSame_scan I xs (s(k \<mapsto> t\<lparr>checked := True\<rparr>)) = Some (b, s')"
      by simp
    from Cons.IH [OF this] True show ?thesis by (simp only: contents_mark [of s, OF t(1)]) simp
  next
    case False
    with k Cons.prems show ?thesis
      by (auto simp: agrees_def contents_def split: option.splits if_splits)
  qed
qed simp

lemma IsSame_scan_marks:
  "IsSame_scan I xs s = Some (True, s') \<Longrightarrow>
   stale s' k \<longleftrightarrow> stale s k \<and> (\<forall>x \<in> set xs. Key I x \<noteq> Some k)"
  by (induction xs arbitrary: s) (auto split: option.splits if_splits)

lemma stale_reset [simp]: "stale (reset s) k \<longleftrightarrow> k \<in> dom s"
  by (auto simp: stale_def reset_def split: option.splits)

lemma all_checked_iff: "all_checked ks s \<longleftrightarrow> (\<forall>k \<in> set ks. \<not> stale s k)"
  by (auto simp: all_checked_def list_all_iff stale_def split: option.splits)

lemma IsSame_contents: "IsSame I ord s xs = Some (b, s') \<Longrightarrow> contents s' = contents s"
  by (auto simp: IsSame_def dest: IsSame_scan_contents split: option.splits)

lemma Sort_empty: "Sort I ord Map.empty = Some []"
  by (simp add: Sort_def)

lemma IsSame_empty: "IsSame I ord Map.empty [] = Some (True, Map.empty)"
  by (simp add: IsSame_def all_checked_iff)

text \<open>
  \<open>IsSame\<close> holds exactly when every item of the list agrees with the set and every key of the
  set occurs in the list.
\<close>

lemma IsSame_result:
  assumes "finite (dom s)" "IsSame I ord s xs = Some (b, s')"
  shows "b \<longleftrightarrow> (\<forall>x \<in> set xs. agrees I (contents s) x)
      \<and> (\<forall>k \<in> dom s. \<exists>x \<in> set xs. Key I x = Some k)"
proof -
  obtain found where scan: "IsSame_scan I xs (reset s) = Some (found, s')"
    and b: "b \<longleftrightarrow> found \<and> all_checked (visit ord (dom s')) s'"
    using assms(2) by (auto simp: IsSame_def split: option.splits)
  have "dom s' = dom s"
    using IsSame_scan_contents [OF scan] by (metis contents_simps(1,3))
  with assms(1) have "set (visit ord (dom s')) = dom s" by simp
  then have "found \<Longrightarrow> all_checked (visit ord (dom s')) s' \<longleftrightarrow> (\<forall>k \<in> dom s. \<exists>x \<in> set xs. Key I x = Some k)"
    using IsSame_scan_marks [of I xs "reset s" s'] scan by (auto simp: all_checked_iff)
  with b IsSame_scan_result [OF scan] show ?thesis by auto
qed

lemma IsSame_returns: "\<forall>x \<in> set xs. Key I x \<noteq> None \<Longrightarrow> IsSame I ord s xs \<noteq> None"
proof -
  have "\<forall>x \<in> set xs. Key I x \<noteq> None \<Longrightarrow> IsSame_scan I xs s \<noteq> None" for s
    by (induction xs arbitrary: s) (auto split: option.splits)
  then show "\<forall>x \<in> set xs. Key I x \<noteq> None \<Longrightarrow> IsSame I ord s xs \<noteq> None"
    by (auto simp: IsSame_def split: option.splits)
qed

text \<open>
  On a list without duplicate keys the reports are exact: the additions are the items whose
  key was absent, the replacements pair the old entry with the new item that differs.
\<close>

definition fresh :: "'a item_ops \<Rightarrow> (string, 'a) gomap \<Rightarrow> 'a \<Rightarrow> bool" where
  "fresh I c x = (c (the (Key I x)) = None)"

definition differs :: "'a item_ops \<Rightarrow> (string, 'a) gomap \<Rightarrow> 'a \<Rightarrow> bool" where
  "differs I c x = (case c (the (Key I x)) of Some d \<Rightarrow> \<not> Compare I d x | None \<Rightarrow> False)"

definition replacing :: "'a item_ops \<Rightarrow> (string, 'a) gomap \<Rightarrow> 'a \<Rightarrow> 'a replaceTuple" where
  "replacing I c x = \<lparr>Old = the (c (the (Key I x))), New = x\<rparr>"

lemmas report_defs = fresh_def differs_def replacing_def

lemma Update_scan_reports:
  assumes "distinct (map (Key I) xs)" "Update_scan I xs s add rep = Some (s', add', rep')"
  shows "add' = add @ filter (fresh I (contents s)) xs"
    and "rep' = rep @ map (replacing I (contents s)) (filter (differs I (contents s)) xs)"
proof -
  have "add' = add @ filter (fresh I (contents s)) xs
      \<and> rep' = rep @ map (replacing I (contents s)) (filter (differs I (contents s)) xs)"
    using assms
  proof (induction xs arbitrary: s add rep)
    case (Cons d ds)
    from Cons.prems(2) obtain j where j: "Key I d = Some j" by (auto split: option.splits)
    have other: "the (Key I x) \<noteq> j" if "x \<in> set ds" for x
    proof -
      have "Key I x \<noteq> None"
        using Cons.prems(2) j that Update_scan_None_iff [of I "d # ds" s add rep] by force
      with that j Cons.prems(1) show ?thesis by (auto simp: image_iff)
    qed
    then have same: "filter (fresh I ((contents s)(j \<mapsto> v))) ds = filter (fresh I (contents s)) ds"
      "map (replacing I ((contents s)(j \<mapsto> v))) (filter (differs I ((contents s)(j \<mapsto> v))) ds)
        = map (replacing I (contents s)) (filter (differs I (contents s)) ds)" for v
      by (auto simp: report_defs intro!: filter_cong map_cong)
    show ?case
    proof (cases "s j")
      case None
      then have "fresh I (contents s) d" "\<not> differs I (contents s) d"
        using j by (simp_all add: report_defs contents_def)
      with Cons.IH Cons.prems j None same show ?thesis by (fastforce simp: contents_upd)
    next
      case (Some t)
      then have "\<not> fresh I (contents s) d"
        "differs I (contents s) d \<longleftrightarrow> \<not> Compare I (data t) d"
        "replacing I (contents s) d = \<lparr>Old = data t, New = d\<rparr>"
        using j by (simp_all add: report_defs contents_def)
      with Cons.IH Cons.prems j Some same show ?thesis
        by (cases "Compare I (data t) d") (fastforce simp: contents_upd)+
    qed
  qed simp
  then show "add' = add @ filter (fresh I (contents s)) xs"
    and "rep' = rep @ map (replacing I (contents s)) (filter (differs I (contents s)) xs)"
    by simp_all
qed

section \<open>The contract of items, and what the set guarantees under it\<close>

locale disorder_item =
  fixes I :: "'a item_ops"
  assumes Key_Clone: "Key I (Clone I x) = Key I x"
    and Compare_refl: "Compare I x x"
    and Compare_sym: "Compare I x y \<Longrightarrow> Compare I y x"
    and Compare_trans: "Compare I x y \<Longrightarrow> Compare I y z \<Longrightarrow> Compare I x z"
    and Compare_Clone: "Compare I (Clone I x) x"
begin

lemma Add_inv: "dset_inv I s \<Longrightarrow> Add I s d = Some s' \<Longrightarrow> dset_inv I s'"
  by (auto simp: Add_def dset_inv_def Key_Clone split: option.splits if_splits)

lemma Del_inv: "dset_inv I s \<Longrightarrow> Del I s d = Some s' \<Longrightarrow> dset_inv I s'"
  by (auto simp: Del_def dset_inv_def split: option.splits if_splits)

lemma Exist_Add: "Add I s d = Some s' \<Longrightarrow> Exist I s' d = Some True"
  by (auto simp: Add_def Exist_def Compare_Clone split: option.splits)

lemma Exist_Del: "Del I s d = Some s' \<Longrightarrow> Exist I s' d = Some False"
  by (auto simp: Del_def Exist_def split: option.splits)

text \<open>One round of the scan writes a marked entry that agrees with the item it met.\<close>

lemma Update_scan_ConsE:
  assumes "Update_scan I (d # ds) s add rep = Some r"
  obtains j t a b where "Key I d = Some j" "checked t" "Compare I (data t) d"
    "dset_inv I s \<Longrightarrow> Key I (data t) = Some j"
    "Update_scan I ds (s(j \<mapsto> t)) a b = Some r"
proof -
  obtain j where j: "Key I d = Some j" using assms by (auto split: option.splits)
  show thesis
  proof (cases "s j")
    case None
    with assms j show thesis by (intro that [of j]) (auto simp: Compare_Clone Key_Clone)
  next
    case (Some t)
    with assms j show thesis
      by (cases "Compare I (data t) d")
        (rule that [of j], (auto simp: Compare_Clone Key_Clone dset_inv_def)[5])+
  qed
qed

text \<open>After the scan, an entry named by the list agrees with the last item of that key.\<close>

lemma Update_scan_index:
  "Update_scan I xs s add rep = Some (s', add', rep') \<Longrightarrow>
   (case last_such (\<lambda>x. Key I x = Some k) xs of
      None \<Rightarrow> s' k = s k
    | Some x \<Rightarrow> \<exists>tuple. s' k = Some tuple \<and> checked tuple \<and> Compare I (data tuple) x)"
proof (induction xs arbitrary: s add rep)
  case (Cons d ds)
  from Cons.prems obtain j t a b where j: "Key I d = Some j"
    and t: "checked t" "Compare I (data t) d"
    and rest: "Update_scan I ds (s(j \<mapsto> t)) a b = Some (s', add', rep')"
    by (rule Update_scan_ConsE)
  show ?case using Cons.IH [OF rest] j t by (auto split: option.splits)
qed simp

lemma Update_scan_inv:
  "dset_inv I s \<Longrightarrow> Update_scan I xs s add rep = Some (s', add', rep') \<Longrightarrow> dset_inv I s'"
proof (induction xs arbitrary: s add rep)
  case (Cons d ds)
  from Cons.prems(2) obtain j t a b where "Key I d = Some j" "checked t" "Compare I (data t) d"
    and "dset_inv I s \<Longrightarrow> Key I (data t) = Some j"
    and rest: "Update_scan I ds (s(j \<mapsto> t)) a b = Some (s', add', rep')"
    using Update_scan_ConsE by blast
  with Cons.prems(1) have "dset_inv I (s(j \<mapsto> t))"
    by (simp add: dset_inv_def)
  from this rest show ?case by (rule Cons.IH)
qed simp

lemma Update_scan_dom:
  "Update_scan I xs s add rep = Some (s', add', rep') \<Longrightarrow>
   dom s' = dom s \<union> {k. \<exists>x \<in> set xs. Key I x = Some k}"
  by (induction xs arbitrary: s add rep) (auto split: option.splits if_splits)

lemma Update_scan_stale:
  assumes "Update_scan I xs (reset s) add rep = Some (s', add', rep')"
  shows "stale s' k \<longleftrightarrow> k \<in> dom s \<and> (\<forall>x \<in> set xs. Key I x \<noteq> Some k)"
proof (cases "last_such (\<lambda>x. Key I x = Some k) xs")
  case None
  with Update_scan_index [OF assms, of k] have "s' k = reset s k" by simp
  with None show ?thesis
    by (auto simp: stale_def last_such_None_iff reset_def split: option.splits)
next
  case (Some x)
  with Update_scan_index [OF assms, of k] last_such_SomeD [OF Some] show ?thesis
    by (auto simp: stale_def)
qed

text \<open>
  \<open>Update\<close> makes the index the input list: the keys are those of the list and each entry agrees
  with the last item of its key.
\<close>

lemma Update_index:
  assumes "dset_inv I s" "Update I ord s xs = Some (s', add, del, rep)"
  shows "case last_such (\<lambda>x. Key I x = Some k) xs of
      None \<Rightarrow> contents s' k = None
    | Some x \<Rightarrow> \<exists>d. contents s' k = Some d \<and> Compare I d x"
proof -
  obtain s1 where scan: "Update_scan I xs (reset s) [] [] = Some (s1, add, rep)"
    and s': "s' = fst (Update_sweep (visit ord (dom s1)) s1 [])"
    using assms(2) by (auto simp: Update_def Let_def split: option.splits prod.splits)
  have "finite (dom s1)"
    using Update_scan_inv [OF finite_dset_reset [OF assms(1)] scan] by (simp add: dset_inv_def)
  then have ord: "set (visit ord (dom s1)) = dom s1" by simp
  note idx = Update_sweep_index [of "visit ord (dom s1)" s1 "[]" k, folded s', unfolded ord]
  show ?thesis
  proof (cases "last_such (\<lambda>x. Key I x = Some k) xs")
    case None
    with Update_scan_index [OF scan, of k] have "s1 k = reset s k" by simp
    with idx None show ?thesis
      by (auto simp: stale_def dest: reset_SomeD split: option.splits if_splits)
  next
    case (Some x)
    with Update_scan_index [OF scan, of k] obtain t
      where "s1 k = Some t" "checked t" "Compare I (data t) x" by auto
    with idx Some show ?thesis by (simp add: stale_def contents_def)
  qed
qed

lemma Update_inv:
  assumes "dset_inv I s" "Update I ord s xs = Some (s', add, del, rep)"
  shows "dset_inv I s'"
proof -
  obtain s1 where scan: "Update_scan I xs (reset s) [] [] = Some (s1, add, rep)"
    and s': "s' = fst (Update_sweep (visit ord (dom s1)) s1 [])"
    using assms(2) by (auto simp: Update_def Let_def split: option.splits prod.splits)
  have inv: "dset_inv I s1" by (rule Update_scan_inv [OF finite_dset_reset [OF assms(1)] scan])
  have sub: "s' k = Some t \<Longrightarrow> s1 k = Some t" for k t
    by (auto simp: s' Update_sweep_index split: if_splits)
  then have "dom s' \<subseteq> dom s1" by blast
  with inv sub show ?thesis by (auto simp: dset_inv_def intro: finite_subset)
qed

lemma Update_scanE:
  assumes "dset_inv I s" "Update I ord s xs = Some (s', add, del, rep)"
  obtains s1 where "Update_scan I xs (reset s) [] [] = Some (s1, add, rep)"
    and "s' = fst (Update_sweep (visit ord (dom s1)) s1 [])"
    and "del = map (\<lambda>k. data (the (s1 k))) (filter (stale s1) (visit ord (dom s1)))"
    and "set (visit ord (dom s1)) = dom s1"
proof -
  obtain s1 where scan: "Update_scan I xs (reset s) [] [] = Some (s1, add, rep)"
    and sweep: "Update_sweep (visit ord (dom s1)) s1 [] = (s', del)"
    using assms(2) by (auto simp: Update_def Let_def split: option.splits prod.splits)
  have fin: "finite (dom s1)"
    using Update_scan_inv [OF finite_dset_reset [OF assms(1)] scan] by (simp add: dset_inv_def)
  show thesis
    using scan sweep Update_sweep_deleted [OF distinct_visit [OF fin], of ord s1 "[]"]
    by (intro that) (auto simp: fin)
qed

text \<open>The reported deletions are the entries whose key is not in the list.\<close>

lemma Update_deleted:
  assumes "dset_inv I s" "Update I ord s xs = Some (s', add, del, rep)"
  shows "set del = {d. \<exists>k. contents s k = Some d \<and> (\<forall>x \<in> set xs. Key I x \<noteq> Some k)}"
proof -
  obtain s1 where scan: "Update_scan I xs (reset s) [] [] = Some (s1, add, rep)"
    and del: "del = map (\<lambda>k. data (the (s1 k))) (filter (stale s1) (visit ord (dom s1)))"
    and ord: "set (visit ord (dom s1)) = dom s1"
    using assms by (rule Update_scanE)
  have st: "stale s1 k \<longleftrightarrow> k \<in> dom s \<and> (\<forall>x \<in> set xs. Key I x \<noteq> Some k)" for k
    using scan by (rule Update_scan_stale)
  have same: "data (the (s1 k)) = the (contents s k) \<and> k \<in> dom s1" if "stale s1 k" for k
  proof -
    have "last_such (\<lambda>x. Key I x = Some k) xs = None"
      using that st by (simp add: last_such_None_iff)
    with Update_scan_index [OF scan, of k] have "s1 k = reset s k" by simp
    with that st show ?thesis by (auto simp: contents_def reset_def)
  qed
  have "set del = {the (contents s k) |k. stale s1 k}"
    using same by (auto simp: del ord)
  also have "\<dots> = {d. \<exists>k. contents s k = Some d \<and> (\<forall>x \<in> set xs. Key I x \<noteq> Some k)}"
  proof (intro set_eqI iffI)
    fix d assume "d \<in> {the (contents s k) |k. stale s1 k}"
    then obtain k where "stale s1 k" "d = the (contents s k)" by blast
    moreover from this st have "contents s k = Some d" by (auto simp: contents_def)
    ultimately show "d \<in> {d. \<exists>k. contents s k = Some d \<and> (\<forall>x \<in> set xs. Key I x \<noteq> Some k)}"
      using st by blast
  next
    fix d assume "d \<in> {d. \<exists>k. contents s k = Some d \<and> (\<forall>x \<in> set xs. Key I x \<noteq> Some k)}"
    then obtain k where k: "contents s k = Some d" "\<forall>x \<in> set xs. Key I x \<noteq> Some k" by blast
    then have "stale s1 k" by (auto simp: st contents_def)
    with k(1) show "d \<in> {the (contents s k) |k. stale s1 k}" by force
  qed
  finally show ?thesis .
qed

lemma Update_added:
  assumes "dset_inv I s" "distinct (map (Key I) xs)"
    "Update I ord s xs = Some (s', add, del, rep)"
  shows "add = filter (fresh I (contents s)) xs"
    and "rep = map (replacing I (contents s)) (filter (differs I (contents s)) xs)"
proof -
  obtain s1 where "Update_scan I xs (reset s) [] [] = Some (s1, add, rep)"
    using assms(1,3) by (rule Update_scanE)
  from Update_scan_reports [OF assms(2) this]
  show "add = filter (fresh I (contents s)) xs"
    and "rep = map (replacing I (contents s)) (filter (differs I (contents s)) xs)"
    by simp_all
qed

text \<open>
  After \<open>Update\<close>, \<open>IsSame\<close> of the same list holds, provided items of one key agree with each
  other.
\<close>

lemma Update_then_IsSame:
  assumes "dset_inv I s" "Update I ord s xs = Some (s', add, del, rep)"
    and coherent: "\<And>x y. x \<in> set xs \<Longrightarrow> y \<in> set xs \<Longrightarrow> Key I x = Key I y \<Longrightarrow> Compare I x y"
  shows "\<exists>s''. IsSame I ord' s' xs = Some (True, s'')"
proof -
  have keys: "\<forall>x \<in> set xs. Key I x \<noteq> None"
    using Update_None_iff [of I ord s xs] assms(2) by auto
  then obtain b s'' where same: "IsSame I ord' s' xs = Some (b, s'')"
    using IsSame_returns [of xs I ord' s'] by auto
  have "finite (dom s')" using Update_inv [OF assms(1,2)] by (simp add: dset_inv_def)
  note iff = IsSame_result [OF this same]
  have idx: "\<And>k. case last_such (\<lambda>x. Key I x = Some k) xs of None \<Rightarrow> contents s' k = None
      | Some x \<Rightarrow> \<exists>d. contents s' k = Some d \<and> Compare I d x"
    using assms(1,2) by (rule Update_index)
  have "agrees I (contents s') x" if x: "x \<in> set xs" for x
  proof -
    obtain k where k: "Key I x = Some k" using keys x by blast
    then obtain y where y: "last_such (\<lambda>x. Key I x = Some k) xs = Some y"
      using x last_such_None_iff [of "\<lambda>x. Key I x = Some k" xs]
      by (cases "last_such (\<lambda>x. Key I x = Some k) xs") auto
    with idx [of k] obtain d where "contents s' k = Some d" "Compare I d y" by auto
    moreover have "Compare I y x"
      using coherent last_such_SomeD [OF y] x k by simp
    ultimately show ?thesis using k Compare_trans by (auto simp: agrees_def)
  qed
  moreover have "\<exists>x \<in> set xs. Key I x = Some k" if "k \<in> dom s'" for k
  proof (rule ccontr)
    assume "\<not> ?thesis"
    then have "last_such (\<lambda>x. Key I x = Some k) xs = None" by (simp add: last_such_None_iff)
    with idx [of k] that show False by auto
  qed
  ultimately have b by (simp add: iff)
  with same show ?thesis by simp
qed

text \<open>
  \<open>Sort\<close> lists the copies of the entries in ascending order of their keys, whatever the order
  in which the map was visited.
\<close>

lemma Sort_ascending:
  assumes "dset_inv I s"
  shows "Sort I ord s =
    Some (map (\<lambda>k. Clone I (data (the (s k)))) (sorted_list_of_set (dom s)))"
proof -
  define g where "g k = Clone I (data (the (s k)))" for k
  define f where "f d = the (Key I d)" for d
  define xs where "xs = map g (visit ord (dom s))"
  have fin: "finite (dom s)" using assms by (simp add: dset_inv_def)
  have Key_g: "Key I (g k) = Some k" if "k \<in> dom s" for k
    using assms that by (auto simp: g_def Key_Clone dset_inv_def)
  then have fg: "f (g k) = k" if "k \<in> dom s" for k using that by (simp add: f_def)
  have set_xs: "set xs = g ` dom s" by (simp add: xs_def fin)
  have "map f xs = visit ord (dom s)"
    unfolding xs_def map_map o_def
    by (rule map_idI) (simp add: fg fin)
  then have "distinct (map f xs)" and "set (map f xs) = dom s"
    by (simp_all only: set_visit [OF fin] distinct_visit [OF fin])
  then have "sorted (map f (sort_key f xs))" "distinct (map f (sort_key f xs))"
      "set (map f (sort_key f xs)) = dom s"
    by (simp_all add: distinct_map)
  then have keys: "map f (sort_key f xs) = sorted_list_of_set (dom s)"
    by (metis fin sorted_list_of_set.distinct_sorted_key_list_of_set sorted_distinct_set_unique
        sorted_list_of_set.set_sorted_key_list_of_set sorted_list_of_set.sorted_sorted_key_list_of_set list.map_id)
  have "map g (map f (sort_key f xs)) = map (\<lambda>d. d) (sort_key f xs)"
    unfolding map_map
  proof (rule map_cong)
    fix d assume "d \<in> set (sort_key f xs)"
    then obtain k where "k \<in> dom s" "d = g k" by (auto simp: set_xs)
    then show "(g \<circ> f) d = d" by (simp add: fg)
  qed simp
  then have "sort_key f xs = map g (sorted_list_of_set (dom s))"
    by (simp add: keys)
  moreover have "list_all (\<lambda>d. Key I d \<noteq> None) xs"
    by (auto simp: list_all_iff set_xs Key_g)
  ultimately show ?thesis
    by (simp add: Sort_def Let_def xs_def g_def [abs_def] f_def [abs_def])
qed

end

end
