(* ===== verification/Set_Delta.thy ===== *)
theory Set_Delta
  imports Disorder_Set
begin

text \<open>
  What a client of \<open>DisorderSet.Update\<close> does with its three reports: it removes the deleted
  items, replaces the replaced ones and adds the added ones. The locale \<open>disorder_value\<close> extends
  the contract of items by copies that are equal to the original; under it \<open>replay_Update\<close>
  shows that a client which started with what the set held ends with what the set holds.
\<close>

section \<open>Replaying the reports\<close>

definition replay_del :: "'a item_ops \<Rightarrow> (string, 'a) gomap \<Rightarrow> 'a list \<Rightarrow> (string, 'a) gomap" where
  "replay_del I r del = foldl (\<lambda>r d. r(the (Key I d) := None)) r del"

definition replay_replace :: "'a item_ops \<Rightarrow> (string, 'a) gomap \<Rightarrow> 'a replaceTuple list \<Rightarrow> (string, 'a) gomap" where
  "replay_replace I r replace = foldl (\<lambda>r t. r(the (Key I (New t)) \<mapsto> New t)) r replace"

definition replay_add :: "'a item_ops \<Rightarrow> (string, 'a) gomap \<Rightarrow> 'a list \<Rightarrow> (string, 'a) gomap" where
  "replay_add I r add = foldl (\<lambda>r d. r(the (Key I d) \<mapsto> d)) r add"

definition replay :: "'a item_ops \<Rightarrow> (string, 'a) gomap \<Rightarrow> 'a list \<Rightarrow> 'a replaceTuple list \<Rightarrow> 'a list
    \<Rightarrow> (string, 'a) gomap" where
  "replay I r del replace add = replay_add I (replay_replace I (replay_del I r del) replace) add"

lemma replay_del_apply:
  "replay_del I r del k = (if k \<in> (\<lambda>d. the (Key I d)) ` set del then None else r k)"
  unfolding replay_del_def by (induction del arbitrary: r) auto

lemma replay_apply:
  "replay I r del replace add k =
     (case last_such (\<lambda>d. the (Key I d) = k) add of
        Some d \<Rightarrow> Some d
      | None \<Rightarrow> (case last_such (\<lambda>t. the (Key I (New t)) = k) replace of
            Some t \<Rightarrow> Some (New t)
          | None \<Rightarrow> if k \<in> (\<lambda>d. the (Key I d)) ` set del then None else r k))"
  by (simp add: replay_def replay_add_def replay_replace_def foldl_upd_apply replay_del_apply
      split: option.split)

section \<open>The contents after an update, exactly\<close>

definition merged :: "'a item_ops \<Rightarrow> 'a option \<Rightarrow> 'a \<Rightarrow> 'a" where
  "merged I old x = (case old of Some d \<Rightarrow> if Compare I d x then d else Clone I x | None \<Rightarrow> Clone I x)"

lemma Update_scan_contents:
  "distinct (map (Key I) xs) \<Longrightarrow> Update_scan I xs s add rep = Some (s', add', rep') \<Longrightarrow>
   contents s' k = (case last_such (\<lambda>x. Key I x = Some k) xs of
      None \<Rightarrow> contents s k | Some x \<Rightarrow> Some (merged I (contents s k) x))"
proof (induction xs arbitrary: s add rep)
  case (Cons d ds)
  from Cons.prems(2) obtain j where j: "Key I d = Some j" by (auto split: option.splits)
  from Cons.prems(2) j obtain t a b
    where rest: "Update_scan I ds (s(j \<mapsto> t)) a b = Some (s', add', rep')"
      and t: "data t = merged I (contents s j) d"
    by (cases "s j") (auto simp: merged_def contents_def split: if_splits)
  have "last_such (\<lambda>x. Key I x = Some k) ds = None" if "k = j"
    using Cons.prems(1) j that by (force simp: last_such_None_iff image_iff)
  with Cons.IH [OF _ rest] Cons.prems(1) t j show ?case
    by (auto simp: contents_upd split: option.split)
qed simp

locale disorder_value = disorder_item +
  assumes Clone_id: "Clone I x = x"
begin

lemma Update_contents:
  assumes "dset_inv I s" "distinct (map (Key I) xs)" "Update I ord s xs = Some (s', add, del, rep)"
  shows "contents s' k = (case last_such (\<lambda>x. Key I x = Some k) xs of
      None \<Rightarrow> None | Some x \<Rightarrow> Some (merged I (contents s k) x))"
proof -
  obtain s1 where scan: "Update_scan I xs (reset s) [] [] = Some (s1, add, rep)"
    and s': "s' = fst (Update_sweep (visit ord (dom s1)) s1 [])"
    and ord: "set (visit ord (dom s1)) = dom s1"
    using assms(1,3) by (rule Update_scanE)
  have s1: "contents s1 k = (case last_such (\<lambda>x. Key I x = Some k) xs of
      None \<Rightarrow> contents s k | Some x \<Rightarrow> Some (merged I (contents s k) x))"
    using Update_scan_contents [OF assms(2) scan, of k] by (simp only: contents_simps)
  have st: "stale s1 k \<longleftrightarrow> k \<in> dom s \<and> last_such (\<lambda>x. Key I x = Some k) xs = None"
    unfolding last_such_None_iff using scan by (rule Update_scan_stale)
  have "contents s' k = (if stale s1 k then None else contents s1 k)"
    by (auto simp: s' contents_def Update_sweep_index ord stale_def)
  then show ?thesis
    by (auto simp: s1 st split: option.split)
qed

text \<open>A client that replays the reports holds what the set holds.\<close>

lemma replay_Update:
  assumes inv: "dset_inv I s" and dist: "distinct (map (Key I) xs)"
    and upd: "Update I ord s xs = Some (s', add, del, rep)"
  shows "replay I (contents s) del rep add = contents s'"
proof
  fix k
  let ?named = "last_such (\<lambda>x. Key I x = Some k) xs"
  have keyed: "Key I x \<noteq> None" if "x \<in> set xs" for x
    using Update_None_iff [of I ord s xs] upd that by auto
  have the_Key: "the (Key I x) = k \<longleftrightarrow> Key I x = Some k" if "x \<in> set xs" for x
    using keyed [OF that] by auto
  have unique: "x = y" if "x \<in> set xs" "y \<in> set xs" "Key I x = Key I y" for x y
    using dist that by (auto simp: distinct_map inj_on_def)
  have filed: "Key I d = Some j" if "contents s j = Some d" for j d
    using inv that by (simp add: dset_inv_iff_contents)
  have del: "k \<in> (\<lambda>d. the (Key I d)) ` set del \<longleftrightarrow> k \<in> dom s \<and> ?named = None"
  proof
    assume "k \<in> (\<lambda>d. the (Key I d)) ` set del"
    then obtain d j where d: "contents s j = Some d" "\<forall>x \<in> set xs. Key I x \<noteq> Some j" "k = the (Key I d)"
      unfolding Update_deleted [OF inv upd] by blast
    then have "k = j" using filed by simp
    with d(1) have "k \<in> dom (contents s)" by blast
    with d(2) \<open>k = j\<close> show "k \<in> dom s \<and> ?named = None" by (simp add: last_such_None_iff)
  next
    assume right: "k \<in> dom s \<and> ?named = None"
    then have "k \<in> dom (contents s)" by simp
    then obtain d where d: "contents s k = Some d" by blast
    with right have "d \<in> set del"
      unfolding Update_deleted [OF inv upd] last_such_None_iff by blast
    with filed [OF d] show "k \<in> (\<lambda>d. the (Key I d)) ` set del" by force
  qed
  note add = Update_added(1) [OF inv dist upd] and rep = Update_added(2) [OF inv dist upd]
  show "replay I (contents s) del rep add k = contents s' k"
  proof (cases ?named)
    case None
    then have "\<forall>x \<in> set xs. the (Key I x) \<noteq> k" using the_Key by (simp add: last_such_None_iff)
    then have "last_such (\<lambda>d. the (Key I d) = k) add = None"
      "last_such (\<lambda>t. the (Key I (New t)) = k) rep = None"
      by (simp_all add: last_such_None_iff add rep replacing_def)
    then show ?thesis
      using None del by (simp add: replay_apply Update_contents [OF inv dist upd] domIff)
  next
    case (Some x)
    then have x: "x \<in> set xs" "Key I x = Some k" using last_such_SomeD by fastforce+
    have only: "y = x" if "y \<in> set xs" "the (Key I y) = k" for y
      using unique [OF that(1) x(1)] the_Key [OF that(1)] that(2) x(2) by simp
    have last: "last_such (\<lambda>d. the (Key I d) = k) (filter Q xs) = (if Q x then Some x else None)" for Q
      using x(1) _ only by (rule last_such_filter_only) (simp add: x(2))
    have added: "last_such (\<lambda>d. the (Key I d) = k) add = (if fresh I (contents s) x then Some x else None)"
      by (simp only: add last)
    have replaced: "last_such (\<lambda>t. the (Key I (New t)) = k) rep =
        (if differs I (contents s) x then Some (replacing I (contents s) x) else None)"
      by (simp add: rep last_such_map replacing_def last)
    have "k \<notin> (\<lambda>d. the (Key I d)) ` set del" using del Some by simp
    then show ?thesis
      unfolding replay_apply added replaced Update_contents [OF inv dist upd] Some
      by (cases "contents s k") (simp_all add: report_defs x(2) merged_def Clone_id del: contents_None_iff)
  qed
qed

text \<open>What is reported as replaced is held under the key of its replacement, and is not deleted.\<close>

lemma Update_replaced:
  assumes inv: "dset_inv I s" and dist: "distinct (map (Key I) xs)"
    and upd: "Update I ord s xs = Some (s', add, del, rep)" and t: "t \<in> set rep"
  shows "\<exists>k. Key I (Old t) = Some k \<and> Key I (New t) = Some k \<and> contents s k = Some (Old t) \<and>
    k \<notin> (\<lambda>d. the (Key I d)) ` set del"
proof -
  obtain x where x: "x \<in> set xs" "differs I (contents s) x" "t = replacing I (contents s) x"
    using t by (auto simp: Update_added [OF inv dist upd])
  obtain k where "Key I x = Some k" using Update_None_iff [of I ord s xs] upd x(1) by auto
  with x(2) obtain d where k: "Key I x = Some k" "contents s k = Some d"
    by (auto simp: differs_def split: option.splits)
  have filed: "Key I d = Some j" if "contents s j = Some d" for j d
    using inv that by (simp add: dset_inv_iff_contents)
  have "j \<noteq> k" if "contents s j = Some e" "\<forall>x \<in> set xs. Key I x \<noteq> Some j" for j e
    using that(2) x(1) k(1) by auto
  then have "k \<notin> (\<lambda>d. the (Key I d)) ` set del"
    unfolding Update_deleted [OF inv upd] using filed by fastforce
  then show ?thesis using k filed [OF k(2)] by (simp add: x(3) replacing_def)
qed

text \<open>A second update with the same list reports nothing.\<close>

lemma Update_again:
  assumes inv: "dset_inv I s" and dist: "distinct (map (Key I) xs)"
    and upd: "Update I ord s xs = Some (s', add, del, rep)"
    and again: "Update I ord' s' xs = Some (s'', add', del', rep')"
  shows "add' = [] \<and> del' = [] \<and> rep' = []"
proof -
  have inv': "dset_inv I s'" by (rule Update_inv [OF inv upd])
  have held: "\<exists>d. contents s' (the (Key I x)) = Some d \<and> Compare I d x" if x: "x \<in> set xs" for x
  proof -
    obtain k where k: "Key I x = Some k" using Update_None_iff [of I ord s xs] upd x by auto
    have "last_such (\<lambda>y. Key I y = Some k) xs = Some x"
      using dist x k by (rule last_such_unique)
    then have "contents s' k = Some (merged I (contents s k) x)"
      by (simp add: Update_contents [OF inv dist upd])
    moreover have "Compare I (merged I (contents s k) x) x"
      by (simp add: merged_def Compare_Clone split: option.split)
    ultimately show ?thesis using k by simp
  qed
  have "\<not> fresh I (contents s') x" "\<not> differs I (contents s') x" if "x \<in> set xs" for x
    using held [OF that] by (auto simp: fresh_def differs_def simp del: contents_None_iff)
  then have "add' = []" "rep' = []"
    by (simp_all add: Update_added [OF inv' dist again])
  moreover have "set del' = {}"
    unfolding Update_deleted [OF inv' again]
    using last_such_None_iff [of "\<lambda>x. Key I x = Some k" xs for k]
    by (auto simp: Update_contents [OF inv dist upd] split: option.splits dest: last_such_SomeD)
  ultimately show ?thesis by simp
qed

end

end
