(* ===== verification/Dion_Messages.thy ===== *)
theory Dion_Messages
  imports Dion_Base "HOL-Library.Word"
begin

text \<open>
  The protocol messages of \<open>proto/isglb.proto\<close> and \<open>proto/room.proto\<close> as the generated Go
  structs of \<open>proto/isglb.pb.go\<close> and \<open>proto/room.pb.go\<close> carry them: one record per struct,
  without the bookkeeping fields of the protobuf runtime. A pointer to a submessage may be
  nil, so it is an option. The messages of other packages that the structs mention
  (\<open>ion.Node\<close>, \<open>ion.RPC\<close>, \<open>anypb.Any\<close>, \<open>timestamppb.Timestamp\<close>) are records of the fields
  their published schema gives them; the development only reads the fields named here.
\<close>

record rpc =
  Addr :: string

record node =
  Dc :: string
  Nid :: string
  Service :: string
  Rpc :: "rpc option"

record any_msg =
  TypeUrl :: string
  Value :: string

record timestamp =
  Seconds :: int
  Nanos :: int

text \<open>Proto3 enums are open: any 32-bit value can arrive, the three below have names.\<close>

type_synonym subscription_layer = "32 word"

definition Subscription_Q :: subscription_layer where "Subscription_Q = 0"

definition Subscription_H :: subscription_layer where "Subscription_H = 1"

definition Subscription_F :: subscription_layer where "Subscription_F = 2"

lemmas subscription_layer_defs [go_simps] =
  Subscription_Q_def Subscription_H_def Subscription_F_def

record subscription =
  TrackId :: string
  Mute :: bool
  Layer :: subscription_layer

record forward_track =
  Src :: "node option"
  RemoteSessionId :: string
  LocalSessionId :: string
  Tracks :: "subscription list"

record proceed_track =
  DstSessionId :: string
  Procedure :: "any_msg option"
  SrcSessionIdList :: "string list"

record client_needed_session =
  Session :: string
  User :: string

record sfu_status =
  SFU :: "node option"
  ForwardTracks :: "forward_track list"
  ProceedTracks :: "proceed_track list"
  Clients :: "client_needed_session list"

record transmission_report =
  TR_Src :: "node option"
  TR_Dst :: "node option"
  TR_Report :: "any_msg option"

record computation_report =
  CR_Node :: "node option"
  CR_Report :: "any_msg option"

datatype report_body =
    Transmission transmission_report
  | Computation computation_report

record quality_report =
  Timestamp :: "timestamp option"
  Report :: "report_body option"

text \<open>
  The oneof of a \<open>SyncRequest\<close>. Its member is a pointer inside a wrapper struct; the wrapper
  may also be absent.
\<close>

datatype sync_request =
    SyncRequest_Status sfu_status
  | SyncRequest_Report quality_report

record health_reply =
  Ok :: bool

end
