(* ===== verification/Proto_Items.thy ===== *)
theory Proto_Items
  imports Set_Delta Dion_Messages
begin

text \<open>
  The items the program keeps in disorder sets: \<open>util/pbimpl.go\<close>, \<open>util/nodeimpl.go\<close> and
  \<open>util/stringimpl.go\<close>. Each item type's \<open>Key\<close>, \<open>Compare\<close> and \<open>Clone\<close> become a record of
  operations, shown to meet the contracts \<open>disorder_item\<close> and \<open>disorder_value\<close>.

  \<open>String()\<close> of a generated message calls the protobuf runtime, which is not part of this
  repository: the rendering is an argument (\<open>render\<close>) of the operations that use it. It is a
  function of the message's value, as the runtime documents for one process; nothing else is
  assumed of it except where a lemma says so. \<open>proto.Clone\<close> returns a deep copy, which is
  the same value.
\<close>

section \<open>Strings\<close>

definition StringDisorderSetItem :: "string item_ops" where
  "StringDisorderSetItem = \<lparr>Key = (\<lambda>s. Some s), Compare = (\<lambda>s item. item = s), Clone = (\<lambda>s. s)\<rparr>"

definition Strings_ToDisorderSetItemList :: "string list \<Rightarrow> string list" where
  "Strings_ToDisorderSetItemList ss = map (\<lambda>s. s) ss"

section \<open>Clients\<close>

record ClientNeededSessionItem =
  Client :: client_needed_session

definition client_key :: "client_needed_session \<Rightarrow> string" where
  "client_key c = ''{ User: '' @ User c @ '', Session: '' @ Session c @ '' }''"

definition ClientNeededSessionItem_ops ::
    "(client_needed_session \<Rightarrow> string) \<Rightarrow> ClientNeededSessionItem item_ops" where
  "ClientNeededSessionItem_ops render =
     \<lparr>Key = (\<lambda>i. Some (client_key (Client i))),
      Compare = (\<lambda>i d. render (Client i) = render (Client d)),
      Clone = (\<lambda>i. \<lparr>Client = Client i\<rparr>)\<rparr>"

definition Clients_ToDisorderSetItemList ::
    "client_needed_session list \<Rightarrow> ClientNeededSessionItem list" where
  "Clients_ToDisorderSetItemList clients = map (\<lambda>client. \<lparr>Client = client\<rparr>) clients"

definition ToClientSessions :: "ClientNeededSessionItem list \<Rightarrow> client_needed_session list" where
  "ToClientSessions list = map Client list"

section \<open>Forwarded tracks\<close>

record ForwardTrackItem =
  FT_Track :: forward_track

text \<open>\<open>i.Track.Src.Nid\<close> dereferences the source node, which panics when it is nil.\<close>

definition forward_key :: "forward_track \<Rightarrow> string option" where
  "forward_key t =
     (case Src t of
        None \<Rightarrow> None
      | Some src \<Rightarrow> Some (''{ NID: '' @ Nid src @ '', RemoteSessionId: '' @ RemoteSessionId t @ '' }''))"

definition ForwardTrackItem_ops :: "(forward_track \<Rightarrow> string) \<Rightarrow> ForwardTrackItem item_ops" where
  "ForwardTrackItem_ops render =
     \<lparr>Key = (\<lambda>i. forward_key (FT_Track i)),
      Compare = (\<lambda>i d. render (FT_Track i) = render (FT_Track d)),
      Clone = (\<lambda>i. \<lparr>FT_Track = FT_Track i\<rparr>)\<rparr>"

definition ForwardTracks_ToDisorderSetItemList :: "forward_track list \<Rightarrow> ForwardTrackItem list" where
  "ForwardTracks_ToDisorderSetItemList tracks = map (\<lambda>track. \<lparr>FT_Track = track\<rparr>) tracks"

definition ToForwardTracks :: "ForwardTrackItem list \<Rightarrow> forward_track list" where
  "ToForwardTracks list = map FT_Track list"

section \<open>Proceeded tracks\<close>

record ProceedTrackItem =
  PT_Track :: proceed_track

text \<open>
  The source sessions are compared as a set first; the set is built from the argument's list
  and asked whether it is the same as the receiver's list. The string items never panic, so
  the \<^const>\<open>None\<close> cases below are not reached.
\<close>

definition same_sources :: "string range_order \<Rightarrow> proceed_track \<Rightarrow> proceed_track \<Rightarrow> bool" where
  "same_sources ord i d =
     (case NewDisorderSetFromList StringDisorderSetItem
             (Strings_ToDisorderSetItemList (SrcSessionIdList d)) of
        None \<Rightarrow> False
      | Some srcTrackSet1 \<Rightarrow>
          (case IsSame StringDisorderSetItem ord srcTrackSet1
                  (Strings_ToDisorderSetItemList (SrcSessionIdList i)) of
             None \<Rightarrow> False
           | Some (same, _) \<Rightarrow> same))"

definition ProceedTrackItem_ops ::
    "(proceed_track \<Rightarrow> string) \<Rightarrow> string range_order \<Rightarrow> ProceedTrackItem item_ops" where
  "ProceedTrackItem_ops render ord =
     \<lparr>Key = (\<lambda>i. Some (DstSessionId (PT_Track i))),
      Compare = (\<lambda>i d. if \<not> same_sources ord (PT_Track i) (PT_Track d) then False
                       else render (PT_Track i) = render (PT_Track d)),
      Clone = (\<lambda>i. \<lparr>PT_Track = PT_Track i\<rparr>)\<rparr>"

definition ProceedTracks_ToDisorderSetItemList :: "proceed_track list \<Rightarrow> ProceedTrackItem list" where
  "ProceedTracks_ToDisorderSetItemList tracks = map (\<lambda>track. \<lparr>PT_Track = track\<rparr>) tracks"

definition ToProceedTracks :: "ProceedTrackItem list \<Rightarrow> proceed_track list" where
  "ToProceedTracks list = map PT_Track list"

section \<open>Nodes and statuses\<close>

text \<open>
  \<open>discovery.Node\<close> belongs to nats-discovery; the record has the fields the source reads or
  writes. Values behind Go's \<open>interface{}\<close> are never inspected.
\<close>

typedecl iface

record discovery_rpc =
  Protocol :: string
  RPC_Addr :: string
  Params :: "(string, iface) gomap"

record discovery_node =
  DC :: string
  DN_Service :: string
  NID :: string
  RPC :: discovery_rpc
  ExtraInfo :: "(string, iface) gomap"

record DiscoveryNodeItem =
  Node :: discovery_node

definition DiscoveryNodeItem_Clone :: "DiscoveryNodeItem \<Rightarrow> DiscoveryNodeItem" where
  "DiscoveryNodeItem_Clone i =
     \<lparr>Node = \<lparr>DC = DC (Node i), DN_Service = DN_Service (Node i), NID = NID (Node i),
        RPC = \<lparr>Protocol = Protocol (RPC (Node i)), RPC_Addr = RPC_Addr (RPC (Node i)),
               Params = Params (RPC (Node i))\<rparr>,
        ExtraInfo = ExtraInfo (Node i)\<rparr>\<rparr>"

definition DiscoveryNodeItem_ops :: "DiscoveryNodeItem item_ops" where
  "DiscoveryNodeItem_ops =
     \<lparr>Key = (\<lambda>i. Some (NID (Node i))),
      Compare = (\<lambda>i d. NID (Node i) = NID (Node d) \<and> DC (Node i) = DC (Node d) \<and>
                   DN_Service (Node i) = DN_Service (Node d) \<and>
                   Protocol (RPC (Node i)) = Protocol (RPC (Node d)) \<and>
                   RPC_Addr (RPC (Node i)) = RPC_Addr (RPC (Node d))),
      Clone = DiscoveryNodeItem_Clone\<rparr>"

record SFUStatusItem =
  SFUStatus :: sfu_status

definition SFUStatusItem_ops :: "(sfu_status \<Rightarrow> string) \<Rightarrow> SFUStatusItem item_ops" where
  "SFUStatusItem_ops render =
     \<lparr>Key = (\<lambda>i. case SFU (SFUStatus i) of None \<Rightarrow> None | Some n \<Rightarrow> Some (Nid n)),
      Compare = (\<lambda>i d. render (SFUStatus i) = render (SFUStatus d)),
      Clone = (\<lambda>i. \<lparr>SFUStatus = SFUStatus i\<rparr>)\<rparr>"

lemma SFUStatusItem_collapse [simp]: "\<lparr>SFUStatus = SFUStatus i\<rparr> = (i :: SFUStatusItem)"
  by simp

lemmas item_ops_defs [go_simps] =
  StringDisorderSetItem_def ClientNeededSessionItem_ops_def ForwardTrackItem_ops_def
  ProceedTrackItem_ops_def DiscoveryNodeItem_ops_def SFUStatusItem_ops_def
  DiscoveryNodeItem_Clone_def

section \<open>The items meet the contract\<close>

interpretation str: disorder_value StringDisorderSetItem
  by unfold_locales (auto simp: go_simps)

interpretation client: disorder_value "ClientNeededSessionItem_ops render" for render
  by unfold_locales (auto simp: go_simps)

interpretation fwd: disorder_value "ForwardTrackItem_ops render" for render
  by unfold_locales (auto simp: go_simps)

interpretation disc: disorder_value DiscoveryNodeItem_ops
  by unfold_locales (auto simp: go_simps)

interpretation stat: disorder_value "SFUStatusItem_ops render" for render
  by unfold_locales (auto simp: go_simps)

text \<open>The set comparison of the source sessions is set equality.\<close>

lemma add_all_strings:
  "add_all StringDisorderSetItem s xs =
     Some (\<lambda>k. if k \<in> set xs then Some \<lparr>data = k, checked = False\<rparr> else s k)"
proof (induction xs arbitrary: s)
  case (Cons x xs)
  then show ?case by (auto simp: Add_def StringDisorderSetItem_def fun_eq_iff)
qed simp

lemma same_sources_iff:
  "same_sources ord i d \<longleftrightarrow> set (SrcSessionIdList i) = set (SrcSessionIdList d)"
proof -
  define s where "s = (\<lambda>k. if k \<in> set (SrcSessionIdList d)
    then Some \<lparr>data = k, checked = False\<rparr> else None)"
  have new: "NewDisorderSetFromList StringDisorderSetItem (SrcSessionIdList d) = Some s"
    by (simp add: NewDisorderSetFromList_def add_all_strings NewDisorderSet_def s_def)
  have dom: "dom s = set (SrcSessionIdList d)" by (auto simp: s_def split: if_splits)
  obtain b s' where same: "IsSame StringDisorderSetItem ord s (SrcSessionIdList i) = Some (b, s')"
    using IsSame_returns [of "SrcSessionIdList i" StringDisorderSetItem ord s]
    by (auto simp: StringDisorderSetItem_def)
  have "agrees StringDisorderSetItem (contents s) x \<longleftrightarrow> x \<in> set (SrcSessionIdList d)" for x
    by (simp add: agrees_def StringDisorderSetItem_def contents_def s_def)
  moreover have "finite (dom s)" by (simp add: dom)
  ultimately have "b \<longleftrightarrow> set (SrcSessionIdList i) = set (SrcSessionIdList d)"
    using IsSame_result [OF _ same]
    by (auto simp: dom StringDisorderSetItem_def)
  then show ?thesis
    by (simp add: same_sources_def Strings_ToDisorderSetItemList_def new same)
qed

lemma proceed_Compare_iff:
  "Compare (ProceedTrackItem_ops render ord) i d \<longleftrightarrow>
     set (SrcSessionIdList (PT_Track i)) = set (SrcSessionIdList (PT_Track d)) \<and>
     render (PT_Track i) = render (PT_Track d)"
  by (simp add: ProceedTrackItem_ops_def same_sources_iff)

lemma proceed_ops_any: "ProceedTrackItem_ops render ord = ProceedTrackItem_ops render ord'"
  by (simp add: ProceedTrackItem_ops_def same_sources_iff)

interpretation proc: disorder_value "ProceedTrackItem_ops render ord" for render ord
  by unfold_locales (auto simp: proceed_Compare_iff, auto simp: go_simps)

section \<open>Keys\<close>

text \<open>
  A key determines its parts when the first part is free of the separator; without that, two
  different clients can have the same key.
\<close>

lemma client_key_determines:
  assumes "CHR '','' \<notin> set (User c)" "CHR '','' \<notin> set (User d)" "client_key c = client_key d"
  shows "User c = User d \<and> Session c = Session d"
proof -
  have "User c @ CHR '','' # ('' Session: '' @ Session c @ '' }'')
      = User d @ CHR '','' # ('' Session: '' @ Session d @ '' }'')"
    using assms(3) by (simp add: client_key_def)
  from cut_at_separator [OF assms(1,2) this] show ?thesis by simp
qed

lemma forward_key_determines:
  assumes "Src t = Some a" "Src u = Some b"
    "CHR '','' \<notin> set (Nid a)" "CHR '','' \<notin> set (Nid b)" "forward_key t = forward_key u"
  shows "Nid a = Nid b \<and> RemoteSessionId t = RemoteSessionId u"
proof -
  have "Nid a @ CHR '','' # ('' RemoteSessionId: '' @ RemoteSessionId t @ '' }'')
      = Nid b @ CHR '','' # ('' RemoteSessionId: '' @ RemoteSessionId u @ '' }'')"
    using assms(1,2,5) by (simp add: forward_key_def)
  from cut_at_separator [OF assms(3,4) this] show ?thesis by simp
qed

lemma round_trips [simp]:
  "ToClientSessions (Clients_ToDisorderSetItemList cs) = cs"
  "ToForwardTracks (ForwardTracks_ToDisorderSetItemList ts) = ts"
  "ToProceedTracks (ProceedTracks_ToDisorderSetItemList ps) = ps"
  by (simp_all add: ToClientSessions_def Clients_ToDisorderSetItemList_def ToForwardTracks_def
      ForwardTracks_ToDisorderSetItemList_def ToProceedTracks_def
      ProceedTracks_ToDisorderSetItemList_def o_def)

end
