(* ===== verification/Set_Map.thy ===== *)
theory Set_Map
  imports Dion_Base
begin

text \<open>
  \<open>util/setmap.go\<close>: a map from keys to sets of values (\<open>SetMap\<close>) and the many-to-many
  relation \<open>SetMapaMteS\<close> that keeps such a map and its reverse. A Go \<open>map[V]struct{}\<close> is a
  set of values. The abstraction of a map is the relation it stores; the invariant says that
  no empty set is left behind and that the two maps are converses of each other. The locale
  \<open>relation_index\<close> is the interface that the ISGLB service relies on.
\<close>

section \<open>SetMap\<close>

type_synonym ('k, 'v) SetMap = "('k, 'v set) gomap"

definition NewSetMap :: "('k, 'v) SetMap" where
  "NewSetMap = Map.empty"

definition SetMap_Add :: "('k, 'v) SetMap \<Rightarrow> 'k \<Rightarrow> 'v \<Rightarrow> ('k, 'v) SetMap" where
  "SetMap_Add m key val =
     (case m key of
        Some items \<Rightarrow> m(key \<mapsto> insert val items)
      | None \<Rightarrow> m(key \<mapsto> {val}))"

definition SetMap_Remove :: "('k, 'v) SetMap \<Rightarrow> 'k \<Rightarrow> 'v \<Rightarrow> ('k, 'v) SetMap" where
  "SetMap_Remove m key val =
     (case m key of
        Some items \<Rightarrow>
          (let items' = items - {val} in
           if card items' \<le> 0 then m(key := None) else m(key \<mapsto> items'))
      | None \<Rightarrow> m)"

definition SetMap_Exists :: "('k, 'v) SetMap \<Rightarrow> 'k \<Rightarrow> 'v \<Rightarrow> bool" where
  "SetMap_Exists m key val = (case m key of Some items \<Rightarrow> val \<in> items | None \<Rightarrow> False)"

definition SetMap_GetSet :: "'v range_order \<Rightarrow> ('k, 'v) SetMap \<Rightarrow> 'k \<Rightarrow> 'v list" where
  "SetMap_GetSet ord m key = (case m key of Some items \<Rightarrow> visit ord items | None \<Rightarrow> [])"

text \<open>The relation a \<open>SetMap\<close> stores, and its invariant.\<close>

definition rel_of :: "('k, 'v) SetMap \<Rightarrow> ('k \<times> 'v) set" where
  "rel_of m = {(k, v). \<exists>S. m k = Some S \<and> v \<in> S}"

definition setmap_inv :: "('k, 'v) SetMap \<Rightarrow> bool" where
  "setmap_inv m \<longleftrightarrow> finite (dom m) \<and> (\<forall>k S. m k = Some S \<longrightarrow> finite S \<and> S \<noteq> {})"

lemma setmap_inv_lookup: "setmap_inv m \<Longrightarrow> m k = (let S = rel_of m `` {k} in if S = {} then None else Some S)"
  by (cases "m k") (auto simp: setmap_inv_def rel_of_def Let_def Image_def)

lemma setmap_inv_new [simp]: "setmap_inv NewSetMap" "rel_of NewSetMap = {}"
  by (auto simp: setmap_inv_def rel_of_def NewSetMap_def)

lemma SetMap_Add_rel [simp]: "rel_of (SetMap_Add m k v) = insert (k, v) (rel_of m)"
  by (auto simp: rel_of_def SetMap_Add_def split: option.splits if_splits)

lemma SetMap_Add_inv [simp]: "setmap_inv m \<Longrightarrow> setmap_inv (SetMap_Add m k v)"
  by (auto simp: setmap_inv_def SetMap_Add_def split: option.splits if_splits)

lemma SetMap_Remove_rel [simp]: "setmap_inv m \<Longrightarrow> rel_of (SetMap_Remove m k v) = rel_of m - {(k, v)}"
  by (auto simp: rel_of_def setmap_inv_def SetMap_Remove_def Let_def split: option.splits if_splits)

lemma SetMap_Remove_inv [simp]: "setmap_inv m \<Longrightarrow> setmap_inv (SetMap_Remove m k v)"
  by (auto simp: setmap_inv_def SetMap_Remove_def Let_def split: option.splits if_splits)

lemma SetMap_Exists_rel: "SetMap_Exists m k v \<longleftrightarrow> (k, v) \<in> rel_of m"
  by (auto simp: SetMap_Exists_def rel_of_def split: option.splits)

lemma SetMap_delete_rel [simp]: "rel_of (m(k := None)) = {(k', v) \<in> rel_of m. k' \<noteq> k}"
  by (auto simp: rel_of_def split: if_splits)

lemma SetMap_delete_inv [simp]: "setmap_inv m \<Longrightarrow> setmap_inv (m(k := None))"
  by (auto simp: setmap_inv_def split: if_splits)

lemma SetMap_GetSet_set: "setmap_inv m \<Longrightarrow> set (SetMap_GetSet ord m k) = rel_of m `` {k}"
  by (cases "m k") (auto simp: SetMap_GetSet_def rel_of_def setmap_inv_def)

lemma SetMap_GetSet_distinct: "setmap_inv m \<Longrightarrow> distinct (SetMap_GetSet ord m k)"
  by (auto simp: SetMap_GetSet_def setmap_inv_def split: option.splits)

lemma setmap_inv_finite: "setmap_inv m \<Longrightarrow> finite (rel_of m `` {k})"
  by (metis SetMap_GetSet_set List.finite_set)

lemma SetMap_GetSet_length: "setmap_inv m \<Longrightarrow> length (SetMap_GetSet ord m k) = card (rel_of m `` {k})"
  by (metis SetMap_GetSet_distinct SetMap_GetSet_set distinct_card)

lemma foldl_SetMap_Remove:
  "setmap_inv m \<Longrightarrow>
   setmap_inv (foldl (\<lambda>m x. SetMap_Remove m (f x) (g x)) m xs) \<and>
   rel_of (foldl (\<lambda>m x. SetMap_Remove m (f x) (g x)) m xs) = rel_of m - (\<lambda>x. (f x, g x)) ` set xs"
  by (induction xs arbitrary: m) auto

section \<open>SetMapaMteS\<close>

text \<open>The embedded \<open>SetMap\<close> and its reverse.\<close>

record ('k, 'v) SetMapaMteS =
  SetMap :: "('k, 'v) SetMap"
  rev_map :: "('v, 'k) SetMap"

definition NewSetMapaMteS :: "('k, 'v) SetMapaMteS" where
  "NewSetMapaMteS = \<lparr>SetMap = NewSetMap, rev_map = NewSetMap\<rparr>"

definition MM_Add :: "('k, 'v) SetMapaMteS \<Rightarrow> 'k \<Rightarrow> 'v \<Rightarrow> ('k, 'v) SetMapaMteS" where
  "MM_Add m key val =
     \<lparr>SetMap = SetMap_Add (SetMap m) key val, rev_map = SetMap_Add (rev_map m) val key\<rparr>"

definition MM_Remove :: "('k, 'v) SetMapaMteS \<Rightarrow> 'k \<Rightarrow> 'v \<Rightarrow> ('k, 'v) SetMapaMteS" where
  "MM_Remove m key val =
     \<lparr>SetMap = SetMap_Remove (SetMap m) key val, rev_map = SetMap_Remove (rev_map m) val key\<rparr>"

definition RemoveValue ::
    "'k range_order \<Rightarrow> ('k, 'v) SetMapaMteS \<Rightarrow> 'v \<Rightarrow> ('k, 'v) SetMapaMteS" where
  "RemoveValue ord m val =
     (case rev_map m val of
        Some items \<Rightarrow>
          \<lparr>SetMap = foldl (\<lambda>sm key. SetMap_Remove sm key val) (SetMap m) (visit ord items),
           rev_map = (rev_map m)(val := None)\<rparr>
      | None \<Rightarrow> m)"

definition RemoveKey ::
    "'v range_order \<Rightarrow> ('k, 'v) SetMapaMteS \<Rightarrow> 'k \<Rightarrow> ('k, 'v) SetMapaMteS" where
  "RemoveKey ord m key =
     (case SetMap m key of
        Some items \<Rightarrow>
          \<lparr>SetMap = (SetMap m)(key := None),
           rev_map = foldl (\<lambda>rm val. SetMap_Remove rm val key) (rev_map m) (visit ord items)\<rparr>
      | None \<Rightarrow> m)"

definition GetKeys :: "'k range_order \<Rightarrow> ('k, 'v) SetMapaMteS \<Rightarrow> 'v \<Rightarrow> 'k list" where
  "GetKeys ord m val = SetMap_GetSet ord (rev_map m) val"

definition GetUniqueValues ::
    "'k range_order \<Rightarrow> 'v range_order \<Rightarrow> ('k, 'v) SetMapaMteS \<Rightarrow> 'k \<Rightarrow> 'v list" where
  "GetUniqueValues ordk ordv m key =
     (case SetMap m key of
        Some items \<Rightarrow> filter (\<lambda>val. length (SetMap_GetSet ordk (rev_map m) val) \<le> 1) (visit ordv items)
      | None \<Rightarrow> [])"

definition GetUniqueKeys ::
    "'k range_order \<Rightarrow> 'v range_order \<Rightarrow> ('k, 'v) SetMapaMteS \<Rightarrow> 'v \<Rightarrow> 'k list" where
  "GetUniqueKeys ordk ordv m val =
     (case rev_map m val of
        Some items \<Rightarrow> filter (\<lambda>key. length (SetMap_GetSet ordv (SetMap m) key) \<le> 1) (visit ordk items)
      | None \<Rightarrow> [])"

text \<open>The abstraction and the invariant: the two maps are converses of each other.\<close>

definition mm_rel :: "('k, 'v) SetMapaMteS \<Rightarrow> ('k \<times> 'v) set" where
  "mm_rel m = rel_of (SetMap m)"

definition mm_inv :: "('k, 'v) SetMapaMteS \<Rightarrow> bool" where
  "mm_inv m \<longleftrightarrow>
     setmap_inv (SetMap m) \<and> setmap_inv (rev_map m) \<and> rel_of (rev_map m) = (rel_of (SetMap m))\<inverse>"

lemma mm_new: "mm_inv NewSetMapaMteS" "mm_rel NewSetMapaMteS = {}"
  by (simp_all add: mm_inv_def mm_rel_def NewSetMapaMteS_def)

lemma MM_Add_spec:
  "mm_inv m \<Longrightarrow> mm_inv (MM_Add m k v)" "mm_rel (MM_Add m k v) = insert (k, v) (mm_rel m)"
  by (auto simp: mm_inv_def mm_rel_def MM_Add_def)

lemma MM_Remove_spec:
  assumes "mm_inv m"
  shows "mm_inv (MM_Remove m k v)" "mm_rel (MM_Remove m k v) = mm_rel m - {(k, v)}"
  using assms by (auto simp: mm_inv_def mm_rel_def MM_Remove_def)

lemma mm_rev_image: "mm_inv m \<Longrightarrow> rel_of (rev_map m) `` {v} = {k. (k, v) \<in> mm_rel m}"
  by (auto simp: mm_inv_def mm_rel_def)

lemma mm_rev_lookup:
  "mm_inv m \<Longrightarrow> rev_map m v =
     (let S = {k. (k, v) \<in> mm_rel m} in if S = {} then None else Some S)"
  using setmap_inv_lookup [of "rev_map m" v] mm_rev_image [of m v] by (simp add: mm_inv_def)

lemma mm_lookup:
  "mm_inv m \<Longrightarrow> SetMap m k =
     (let S = {v. (k, v) \<in> mm_rel m} in if S = {} then None else Some S)"
  using setmap_inv_lookup [of "SetMap m" k] by (simp add: mm_inv_def mm_rel_def Image_def)

lemma mm_finite: "mm_inv m \<Longrightarrow> finite {k. (k, v) \<in> mm_rel m}" "mm_inv m \<Longrightarrow> finite {v. (k, v) \<in> mm_rel m}"
  using setmap_inv_finite [of "rev_map m" v] setmap_inv_finite [of "SetMap m" k] mm_rev_image [of m v]
  by (auto simp: mm_inv_def mm_rel_def Image_def)

lemma RemoveValue_spec:
  assumes "mm_inv m"
  shows "mm_inv (RemoveValue ord m v)" "mm_rel (RemoveValue ord m v) = {(k, w) \<in> mm_rel m. w \<noteq> v}"
proof -
  have fin: "finite {k. (k, v) \<in> mm_rel m}" using assms by (rule mm_finite)
  have fold: "setmap_inv (foldl (\<lambda>sm key. SetMap_Remove sm key v) (SetMap m) xs) \<and>
     rel_of (foldl (\<lambda>sm key. SetMap_Remove sm key v) (SetMap m) xs) = mm_rel m - (\<lambda>k. (k, v)) ` set xs"
    for xs using foldl_SetMap_Remove [of "SetMap m" "\<lambda>k. k" "\<lambda>_. v" xs] assms
    by (simp add: mm_inv_def mm_rel_def)
  show "mm_inv (RemoveValue ord m v)" "mm_rel (RemoveValue ord m v) = {(k, w) \<in> mm_rel m. w \<noteq> v}"
    using assms fold [of "visit ord {k. (k, v) \<in> mm_rel m}"] fin
    by (auto simp: RemoveValue_def mm_rev_lookup [OF assms] Let_def mm_inv_def mm_rel_def)
qed

lemma RemoveKey_spec:
  assumes "mm_inv m"
  shows "mm_inv (RemoveKey ord m k)" "mm_rel (RemoveKey ord m k) = {(j, w) \<in> mm_rel m. j \<noteq> k}"
proof -
  have fin: "finite {v. (k, v) \<in> mm_rel m}" using assms by (rule mm_finite)
  have fold: "setmap_inv (foldl (\<lambda>rm val. SetMap_Remove rm val k) (rev_map m) xs) \<and>
     rel_of (foldl (\<lambda>rm val. SetMap_Remove rm val k) (rev_map m) xs) = (mm_rel m)\<inverse> - (\<lambda>v. (v, k)) ` set xs"
    for xs using foldl_SetMap_Remove [of "rev_map m" "\<lambda>v. v" "\<lambda>_. k" xs] assms
    by (simp add: mm_inv_def mm_rel_def)
  show "mm_inv (RemoveKey ord m k)" "mm_rel (RemoveKey ord m k) = {(j, w) \<in> mm_rel m. j \<noteq> k}"
    using assms fold [of "visit ord {v. (k, v) \<in> mm_rel m}"] fin
    by (auto simp: RemoveKey_def mm_lookup [OF assms] Let_def mm_inv_def mm_rel_def)
qed

lemma GetSet_spec:
  assumes "mm_inv m"
  shows "set (SetMap_GetSet ord (SetMap m) k) = {v. (k, v) \<in> mm_rel m}"
    "distinct (SetMap_GetSet ord (SetMap m) k)"
  using assms SetMap_GetSet_set [of "SetMap m" ord k] SetMap_GetSet_distinct [of "SetMap m" ord k]
  by (auto simp: mm_inv_def mm_rel_def)

lemma GetKeys_spec:
  assumes "mm_inv m"
  shows "set (GetKeys ord m v) = {k. (k, v) \<in> mm_rel m}" "distinct (GetKeys ord m v)"
  using assms SetMap_GetSet_set [of "rev_map m" ord v] SetMap_GetSet_distinct [of "rev_map m" ord v]
  by (auto simp: GetKeys_def mm_inv_def mm_rel_def)

lemma card_le_1_iff: "finite A \<Longrightarrow> a \<in> A \<Longrightarrow> card A \<le> 1 \<longleftrightarrow> A = {a}"
  by (metis One_nat_def card_1_singleton_iff card_gt_0_iff empty_iff insertE le_antisym Suc_leI order_refl)

lemma GetUniqueKeys_spec:
  assumes "mm_inv m"
  shows "set (GetUniqueKeys ordk ordv m v) = {k. {w. (k, w) \<in> mm_rel m} = {v}}"
    "distinct (GetUniqueKeys ordk ordv m v)"
proof -
  have len: "length (SetMap_GetSet ordv (SetMap m) k) = card {w. (k, w) \<in> mm_rel m}" for k
    using GetSet_spec [OF assms, of ordv k] by (metis distinct_card)
  have one: "(k, v) \<in> mm_rel m \<Longrightarrow> card {w. (k, w) \<in> mm_rel m} \<le> 1 \<longleftrightarrow> {w. (k, w) \<in> mm_rel m} = {v}" for k
    using card_le_1_iff [OF mm_finite(2) [OF assms], of v k] by simp
  show "set (GetUniqueKeys ordk ordv m v) = {k. {w. (k, w) \<in> mm_rel m} = {v}}"
    "distinct (GetUniqueKeys ordk ordv m v)"
    using mm_finite(1) [OF assms, of v] one
    by (auto simp: GetUniqueKeys_def mm_rev_lookup [OF assms] Let_def len)
qed

lemma GetUniqueValues_spec:
  assumes "mm_inv m"
  shows "set (GetUniqueValues ordk ordv m k) = {v. {j. (j, v) \<in> mm_rel m} = {k}}"
    "distinct (GetUniqueValues ordk ordv m k)"
proof -
  have len: "length (SetMap_GetSet ordk (rev_map m) v) = card {j. (j, v) \<in> mm_rel m}" for v
    using GetKeys_spec [OF assms, of ordk v] by (metis GetKeys_def distinct_card)
  have one: "(k, v) \<in> mm_rel m \<Longrightarrow> card {j. (j, v) \<in> mm_rel m} \<le> 1 \<longleftrightarrow> {j. (j, v) \<in> mm_rel m} = {k}" for v
    using card_le_1_iff [OF mm_finite(1) [OF assms], of k v] by simp
  show "set (GetUniqueValues ordk ordv m k) = {v. {j. (j, v) \<in> mm_rel m} = {k}}"
    "distinct (GetUniqueValues ordk ordv m k)"
    using mm_finite(2) [OF assms, of k] one
    by (auto simp: GetUniqueValues_def mm_lookup [OF assms] Let_def len)
qed

section \<open>The interface the service relies on\<close>

locale relation_index =
  fixes rel :: "'m \<Rightarrow> ('k \<times> 'v) set"
    and inv :: "'m \<Rightarrow> bool"
    and empty :: 'm
    and add :: "'m \<Rightarrow> 'k \<Rightarrow> 'v \<Rightarrow> 'm"
    and remove_key :: "'m \<Rightarrow> 'k \<Rightarrow> 'm"
    and remove_value :: "'m \<Rightarrow> 'v \<Rightarrow> 'm"
    and unique_keys :: "'m \<Rightarrow> 'v \<Rightarrow> 'k list"
    and get_set :: "'m \<Rightarrow> 'k \<Rightarrow> 'v list"
  assumes inv_empty: "inv empty"
    and rel_empty: "rel empty = {}"
    and inv_add: "inv m \<Longrightarrow> inv (add m k v)"
    and rel_add: "inv m \<Longrightarrow> rel (add m k v) = insert (k, v) (rel m)"
    and inv_remove_key: "inv m \<Longrightarrow> inv (remove_key m k)"
    and rel_remove_key: "inv m \<Longrightarrow> rel (remove_key m k) = {(j, w) \<in> rel m. j \<noteq> k}"
    and inv_remove_value: "inv m \<Longrightarrow> inv (remove_value m v)"
    and rel_remove_value: "inv m \<Longrightarrow> rel (remove_value m v) = {(j, w) \<in> rel m. w \<noteq> v}"
    and set_unique_keys: "inv m \<Longrightarrow> set (unique_keys m v) = {k. {w. (k, w) \<in> rel m} = {v}}"
    and set_get_set: "inv m \<Longrightarrow> set (get_set m k) = {v. (k, v) \<in> rel m}"
begin

text \<open>
  Disconnecting a value: the keys that only it holds are removed, then the value itself. No
  trace of the value is left, and the keys that lose their last value are exactly the ones
  that were removed first.
\<close>

lemma foldl_remove_key:
  "inv m \<Longrightarrow> inv (foldl remove_key m ks) \<and> rel (foldl remove_key m ks) = {(j, w) \<in> rel m. j \<notin> set ks}"
  by (induction ks arbitrary: m) (auto simp: inv_remove_key rel_remove_key)

lemma disconnect:
  assumes "inv m"
  shows "inv (remove_value (foldl remove_key m (unique_keys m v)) v)"
    and "rel (remove_value (foldl remove_key m (unique_keys m v)) v) = {(j, w) \<in> rel m. w \<noteq> v}"
    and "Domain (rel (remove_value (foldl remove_key m (unique_keys m v)) v)) =
      Domain (rel m) - set (unique_keys m v)"
proof -
  note fold = foldl_remove_key [OF assms, of "unique_keys m v"]
  show "inv (remove_value (foldl remove_key m (unique_keys m v)) v)"
    using fold inv_remove_value by blast
  have "(j, w) \<in> rel m \<Longrightarrow> w \<noteq> v \<Longrightarrow> j \<notin> set (unique_keys m v)" for j w
    by (auto simp: set_unique_keys [OF assms])
  then show rel: "rel (remove_value (foldl remove_key m (unique_keys m v)) v) = {(j, w) \<in> rel m. w \<noteq> v}"
    using fold rel_remove_value by auto
  show "Domain (rel (remove_value (foldl remove_key m (unique_keys m v)) v)) =
      Domain (rel m) - set (unique_keys m v)"
    unfolding rel set_unique_keys [OF assms] by auto
qed

lemma get_set_Nil_iff: "inv m \<Longrightarrow> get_set m k = [] \<longleftrightarrow> k \<notin> Domain (rel m)"
  using set_get_set [of m k] by (metis (mono_tags, lifting) Domain.cases DomainI emptyE mem_Collect_eq
      set_empty equals0I)

end

interpretation mm: relation_index mm_rel mm_inv NewSetMapaMteS MM_Add "RemoveKey ordv"
    "RemoveValue ordk" "GetUniqueKeys ordk ordv" "\<lambda>m. SetMap_GetSet ordv (SetMap m)" for ordk ordv
  by unfold_locales (simp_all add: mm_new MM_Add_spec RemoveKey_spec RemoveValue_spec
      GetUniqueKeys_spec GetSet_spec)

end
