(* ===== verification/Algorithms.thy ===== *)
theory Algorithms
  imports Dion_Messages
begin

text \<open>
  The node selection algorithms of \<open>algorithms/\<close>: the interface the ISGLB service calls and
  its implementations \<open>EmptyAlgorithm\<close> and \<open>StupidAlgorithm\<close> of \<open>algorithms/impl\<close>. The locale
  \<open>pointwise_algorithm\<close> is the contract both of them meet: every status is answered on its own,
  keeps its node, and is answered the same when it comes back.
\<close>

section \<open>The interface\<close>

text \<open>
  An algorithm maps its state, the current statuses and the reports to its next state and the
  expected statuses, or panics.
\<close>

type_synonym 'a algorithm =
  "'a \<Rightarrow> sfu_status list \<Rightarrow> quality_report list \<Rightarrow> ('a \<times> sfu_status list) option"

text \<open>The constants of \<open>config/proto.go\<close> that the program compares or sends.\<close>

definition ServiceStupid :: string where "ServiceStupid = ''rtc''"

definition ServiceNameStupid :: string where "ServiceNameStupid = ''stupid''"

definition ServiceSessionStupid :: string where "ServiceSessionStupid = ''stupid''"

section \<open>The algorithms\<close>

definition EmptyAlgorithm :: "unit algorithm" where
  "EmptyAlgorithm a current reports = Some (a, current)"

text \<open>
  The inner loop of \<open>StupidAlgorithm\<close>: True when a track makes it continue with the next status.
  A track without a source is dereferenced, which panics.
\<close>

fun stupid_scan :: "forward_track list \<Rightarrow> bool option" where
  "stupid_scan [] = Some False"
| "stupid_scan (track # tracks) =
     (case Src track of
        None \<Rightarrow> None
      | Some src \<Rightarrow>
          if Service src = ServiceStupid \<and> Nid src = ServiceNameStupid \<and>
             RemoteSessionId track = ServiceSessionStupid
          then Some True else stupid_scan tracks)"

definition stupid_track :: forward_track where
  "stupid_track =
     \<lparr>Src = Some \<lparr>Dc = '''', Nid = ServiceNameStupid, Service = ServiceStupid, Rpc = None\<rparr>,
      RemoteSessionId = ServiceSessionStupid, LocalSessionId = ServiceSessionStupid, Tracks = []\<rparr>"

definition stupid_one :: "sfu_status \<Rightarrow> sfu_status option" where
  "stupid_one n =
     (case stupid_scan (ForwardTracks n) of
        None \<Rightarrow> None
      | Some True \<Rightarrow> Some n
      | Some False \<Rightarrow> Some (n\<lparr>ForwardTracks := ForwardTracks n @ [stupid_track]\<rparr>))"

fun stupid_loop :: "sfu_status list \<Rightarrow> sfu_status list option" where
  "stupid_loop [] = Some []"
| "stupid_loop (n # ns) =
     (case stupid_one n of
        None \<Rightarrow> None
      | Some n' \<Rightarrow> (case stupid_loop ns of None \<Rightarrow> None | Some ns' \<Rightarrow> Some (n' # ns')))"

definition StupidAlgorithm :: "unit algorithm" where
  "StupidAlgorithm a current reports =
     (case stupid_loop current of None \<Rightarrow> None | Some current' \<Rightarrow> Some (a, current'))"

section \<open>The contract\<close>

locale pointwise_algorithm =
  fixes alg :: "'a algorithm" and answer :: "sfu_status \<Rightarrow> sfu_status option"
  assumes alg_answers: "alg a current reports = map_option (Pair a) (those (map answer current))"
    and answer_SFU: "answer x = Some y \<Longrightarrow> SFU y = SFU x"
    and answer_again: "answer x = Some y \<Longrightarrow> answer y = Some y"
begin

lemma alg_panics_iff: "alg a current reports = None \<longleftrightarrow> (\<exists>x \<in> set current. answer x = None)"
proof -
  have "those (map answer current) = None \<longleftrightarrow> (\<exists>x \<in> set current. answer x = None)"
    by (induction current) (auto split: option.splits)
  then show ?thesis by (simp add: alg_answers)
qed

lemma alg_SomeD:
  assumes "alg a current reports = Some (a', expected)"
  shows "a' = a" and "expected = map (\<lambda>x. the (answer x)) current"
    and "x \<in> set current \<Longrightarrow> answer x \<noteq> None"
proof -
  have those: "those (map answer current) = Some expected" and a: "a' = a"
    using assms by (auto simp: alg_answers)
  show "a' = a" by (rule a)
  show "expected = map (\<lambda>x. the (answer x)) current" using those
    by (induction current arbitrary: expected) (auto split: option.splits)
  show "x \<in> set current \<Longrightarrow> answer x \<noteq> None"
    using alg_panics_iff [of a current reports] assms by auto
qed

text \<open>An answer that comes back is final.\<close>

lemma alg_idempotent:
  assumes "alg a current reports = Some (a', expected)"
  shows "alg a' expected reports' = Some (a', expected)"
proof -
  have again: "answer x = Some x" if x: "x \<in> set expected" for x
  proof -
    obtain y where y: "y \<in> set current" "x = the (answer y)"
      using x unfolding alg_SomeD(2) [OF assms] by auto
    with alg_SomeD(3) [OF assms] have "answer y = Some x" by auto
    then show ?thesis by (rule answer_again)
  qed
  then have "map answer expected = map Some expected" by simp
  moreover have "those (map Some xs) = Some xs" for xs :: "sfu_status list"
    by (induction xs) simp_all
  ultimately have "those (map answer expected) = Some expected" by (simp only:)
  then show ?thesis by (simp add: alg_answers)
qed

end

lemma stupid_scan_append:
  "stupid_scan xs = Some False \<Longrightarrow> stupid_scan (xs @ ys) = stupid_scan ys"
  by (induction xs) (auto split: option.splits if_splits)

lemma stupid_scan_extended:
  "stupid_scan ts = Some False \<Longrightarrow> stupid_scan (ts @ [stupid_track]) = Some True"
  by (simp add: stupid_scan_append stupid_track_def)

text \<open>The scan finds exactly what it looks for, unless it meets a track without a source first.\<close>

lemma stupid_scan_True:
  "stupid_scan ts = Some True \<Longrightarrow>
   \<exists>t src. t \<in> set ts \<and> Src t = Some src \<and> Nid src = ServiceNameStupid \<and> Service src = ServiceStupid \<and>
     RemoteSessionId t = ServiceSessionStupid"
  by (induction ts) (auto split: option.splits if_splits)

lemma stupid_scan_returns: "\<forall>t \<in> set ts. Src t \<noteq> None \<Longrightarrow> stupid_scan ts \<noteq> None"
  by (induction ts) (auto split: option.splits)

lemma stupid_loop_those: "stupid_loop ns = those (map stupid_one ns)"
  by (induction ns) (simp_all split: option.splits)

lemma stupid_oneD:
  assumes "stupid_one n = Some n'"
  shows "SFU n' = SFU n" "stupid_scan (ForwardTracks n') = Some True"
  using assms by (auto simp: stupid_one_def stupid_scan_extended split: option.splits if_splits
      bool.splits)

interpretation empty_alg: pointwise_algorithm EmptyAlgorithm Some
proof
  have "those (map Some xs) = Some xs" for xs :: "sfu_status list"
    by (induction xs) simp_all
  then show "EmptyAlgorithm a current reports = map_option (Pair a) (those (map Some current))"
    for a current reports by (simp add: EmptyAlgorithm_def)
qed simp_all

interpretation stupid_alg: pointwise_algorithm StupidAlgorithm stupid_one
proof
  show "StupidAlgorithm a current reports = map_option (Pair a) (those (map stupid_one current))"
    for a current reports by (simp add: StupidAlgorithm_def stupid_loop_those split: option.split)
  show "SFU y = SFU x" if "stupid_one x = Some y" for x y using that by (rule stupid_oneD)
  show "stupid_one y = Some y" if "stupid_one x = Some y" for x y
    using stupid_oneD(2) [OF that] by (simp add: stupid_one_def)
qed

section \<open>Properties\<close>

text \<open>
  The stupid algorithm panics exactly when a status has a track without a source before any
  track of the stupid session; otherwise it answers every status in place, each with its node
  kept, a stupid track present, and its other tracks kept in front.
\<close>

theorem stupid_algorithm_answers:
  "(case StupidAlgorithm a current reports of
      None \<Rightarrow> \<exists>n \<in> set current. stupid_scan (ForwardTracks n) = None
    | Some (a', expected) \<Rightarrow>
        a' = a \<and> (\<forall>n \<in> set current. stupid_scan (ForwardTracks n) \<noteq> None) \<and>
        list_all2 (\<lambda>n e. SFU e = SFU n \<and> stupid_scan (ForwardTracks e) = Some True \<and>
           (\<exists>more. ForwardTracks e = ForwardTracks n @ more \<and> length more \<le> 1)) current expected)"
proof -
  have one: "stupid_one n = None \<longleftrightarrow> stupid_scan (ForwardTracks n) = None" for n
    by (auto simp: stupid_one_def split: option.splits bool.splits)
  have grow: "\<exists>more. ForwardTracks e = ForwardTracks n @ more \<and> length more \<le> 1" if "stupid_one n = Some e" for n e
    using that by (auto simp: stupid_one_def split: option.splits bool.splits)
  have "case stupid_loop current of
      None \<Rightarrow> \<exists>n \<in> set current. stupid_scan (ForwardTracks n) = None
    | Some expected \<Rightarrow> (\<forall>n \<in> set current. stupid_scan (ForwardTracks n) \<noteq> None) \<and>
        list_all2 (\<lambda>n e. SFU e = SFU n \<and> stupid_scan (ForwardTracks e) = Some True \<and>
           (\<exists>more. ForwardTracks e = ForwardTracks n @ more \<and> length more \<le> 1)) current expected"
  proof (induction current)
    case (Cons n ns)
    show ?case
    proof (cases "stupid_one n")
      case None
      then show ?thesis using one [of n] by (simp add: None)
    next
      case (Some e)
      from Cons one [of n] stupid_oneD [OF Some] grow [OF Some] show ?thesis
        by (auto simp: Some split: option.splits)
    qed
  qed simp
  then show ?thesis by (auto simp: StupidAlgorithm_def split: option.splits)
qed

theorem stupid_algorithm_answers_witness:
  "\<exists>e. StupidAlgorithm () [\<lparr>SFU = None, ForwardTracks = [], ProceedTracks = [], Clients = []\<rparr>] [] = Some ((), [e]) \<and>
     SFU e = None \<and> (\<exists>more. ForwardTracks e = [] @ more \<and> length more \<le> 1)"
proof -
  let ?n = "\<lparr>SFU = None, ForwardTracks = [], ProceedTracks = [], Clients = []\<rparr>"
  obtain e where e: "StupidAlgorithm () [?n] [] = Some ((), [e])"
    by (simp add: StupidAlgorithm_def stupid_one_def)
  from stupid_algorithm_answers [where a = "()" and current = "[?n]" and reports = "[]"] e show ?thesis by simp
qed

end
