(* ===== verification/ISGLB_Service.thy ===== *)
theory ISGLB_Service
  imports Proto_Items Set_Map Algorithms
begin

text \<open>
  The ISGLB service of \<open>pkg/isglb/service.go\<close>: the goroutine \<open>routineSFUStatusRecv\<close>, which
  owns the routing relation \<open>WhereToSend\<close> and the latest statuses, one message at a time
  (\<open>handle_message\<close>) and one batch at a time (\<open>process_batch\<close>); the connection handlers
  \<open>SyncSFU\<close>, which feed it; and the per-connection sender \<open>routineSFUStatusSend\<close>. The step
  relation \<open>isglb_step\<close> interleaves them. The selection algorithm is a parameter: a function
  of its own state that may panic.
\<close>

section \<open>State\<close>

text \<open>A connection is identified by the address of its stream, a number here.\<close>

type_synonym sig = nat

text \<open>
  \<open>isglbRecvMessage\<close>. The request is a pointer; the oneof in it may be unset.
\<close>

record isglbRecvMessage =
  request :: "sync_request option option"
  sigkey :: "sig option"
  deleted :: "sig option"

text \<open>The variables of the goroutine: the first two live across batches.\<close>

record recv_state =
  WhereToSend :: "(string, sig) SetMapaMteS"
  latestStatus :: "(string, SFUStatusItem) gomap"
  recvCount :: nat
  savedReports :: "(string, quality_report) gomap"

text \<open>The orders in which one activation of the goroutine visits its maps.\<close>

record visits =
  by_nid :: "string range_order"
  by_sig :: "sig range_order"

definition recv_init :: recv_state where
  "recv_init = \<lparr>WhereToSend = NewSetMapaMteS, latestStatus = Map.empty, recvCount = 0,
     savedReports = Map.empty\<rparr>"

section \<open>Handling one message\<close>

text \<open>The loop over the keys that only the departed connection serves.\<close>

fun drop_keys :: "visits \<Rightarrow> string list \<Rightarrow> recv_state \<Rightarrow> recv_state" where
  "drop_keys vis [] s = s"
| "drop_keys vis (nid # nids) s =
     (let s1 = s\<lparr>WhereToSend := RemoveKey (by_sig vis) (WhereToSend s) nid\<rparr> in
      drop_keys vis nids
        (case latestStatus s1 nid of
           Some lastStatus \<Rightarrow>
             s1\<lparr>latestStatus := (latestStatus s1)(nid := None), recvCount := recvCount s1 + 1\<rparr>
         | None \<Rightarrow> s1))"

definition handle_deleted :: "visits \<Rightarrow> sig \<Rightarrow> recv_state \<Rightarrow> recv_state" where
  "handle_deleted vis deletedSig s =
     (let s1 = drop_keys vis (GetUniqueKeys (by_nid vis) (by_sig vis) (WhereToSend s) deletedSig) s
      in s1\<lparr>WhereToSend := RemoveValue (by_nid vis) (WhereToSend s1) deletedSig\<rparr>)"

definition handle_report :: "(quality_report \<Rightarrow> string) \<Rightarrow> quality_report \<Rightarrow> recv_state \<Rightarrow> recv_state" where
  "handle_report render_report report s =
     (case savedReports s (render_report report) of
        None \<Rightarrow>
          s\<lparr>savedReports := (savedReports s)(render_report report \<mapsto> report),
            recvCount := recvCount s + 1\<rparr>
      | Some _ \<Rightarrow> s)"

text \<open>A status without an SFU panics in \<open>Key\<close>.\<close>

definition handle_status ::
    "(sfu_status \<Rightarrow> string) \<Rightarrow> sfu_status \<Rightarrow> sig \<Rightarrow> recv_state \<Rightarrow> recv_state option" where
  "handle_status render status sig s =
     (let I = SFUStatusItem_ops render; reportedStatus = \<lparr>SFUStatus = status\<rparr> in
      case Key I reportedStatus of
        None \<Rightarrow> None
      | Some nid \<Rightarrow>
          (let s1 = s\<lparr>WhereToSend := MM_Add (WhereToSend s) nid sig\<rparr>;
               save = s1\<lparr>latestStatus := (latestStatus s1)(nid \<mapsto> Clone I reportedStatus),
                         recvCount := recvCount s1 + 1\<rparr> in
           case latestStatus s1 nid of
             Some lastStatus \<Rightarrow> if Compare I lastStatus reportedStatus then Some s1 else Some save
           | None \<Rightarrow> Some save))"

definition handle_message ::
    "(sfu_status \<Rightarrow> string) \<Rightarrow> (quality_report \<Rightarrow> string) \<Rightarrow> visits \<Rightarrow> isglbRecvMessage \<Rightarrow> recv_state
      \<Rightarrow> recv_state option" where
  "handle_message render render_report vis msg s =
     (let s1 = (case deleted msg of Some deletedSig \<Rightarrow> handle_deleted vis deletedSig s | None \<Rightarrow> s) in
      case (request msg, sigkey msg) of
        (Some req, Some sig) \<Rightarrow>
          (case req of
             Some (SyncRequest_Report report) \<Rightarrow> Some (handle_report render_report report s1)
           | Some (SyncRequest_Status status) \<Rightarrow> handle_status render status sig s1
           | None \<Rightarrow> Some s1)
      | _ \<Rightarrow> Some s1)"

section \<open>Processing a batch\<close>

fun expected_dict :: "SFUStatusItem item_ops \<Rightarrow> sfu_status list \<Rightarrow> (string, SFUStatusItem) gomap
    \<Rightarrow> (string, SFUStatusItem) gomap option" where
  "expected_dict I [] dict = Some dict"
| "expected_dict I (expectedStatus # rest) dict =
     (let item = \<lparr>SFUStatus = expectedStatus\<rparr> in
      case Key I item of
        None \<Rightarrow> None
      | Some k \<Rightarrow> expected_dict I rest (dict(k \<mapsto> Clone I item)))"

text \<open>
  One round of the loop over the expected statuses. \<open>sendChs\<close> is the set of connections that
  have a send channel when the round looks; the second result is what the round sends.
\<close>

definition send_one :: "SFUStatusItem item_ops \<Rightarrow> visits \<Rightarrow> sig set \<Rightarrow> (string, SFUStatusItem) gomap
    \<Rightarrow> string \<Rightarrow> recv_state \<Rightarrow> recv_state \<times> (sig \<times> sfu_status) list" where
  "send_one I vis sendChs dict nid s =
     (let expectedStatus = the (dict nid);
          unchanged = (case latestStatus s nid of
                         Some lastStatus \<Rightarrow> Compare I lastStatus expectedStatus
                       | None \<Rightarrow> False);
          sigs = SetMap_GetSet (by_sig vis) (SetMap (WhereToSend s)) nid in
      if unchanged then (s, [])
      else if length sigs \<le> 0 then (s, [])
      else if sigs ! 0 \<in> sendChs
      then (s\<lparr>latestStatus := (latestStatus s)(nid \<mapsto> expectedStatus)\<rparr>,
            [(sigs ! 0, SFUStatus expectedStatus)])
      else (s, []))"

fun send_expected :: "SFUStatusItem item_ops \<Rightarrow> visits \<Rightarrow> sig set \<Rightarrow> (string, SFUStatusItem) gomap
    \<Rightarrow> string list \<Rightarrow> recv_state \<Rightarrow> recv_state \<times> (sig \<times> sfu_status) list" where
  "send_expected I vis sendChs dict [] s = (s, [])"
| "send_expected I vis sendChs dict (nid # nids) s =
     (let (s1, sent1) = send_one I vis sendChs dict nid s;
          (s2, sent2) = send_expected I vis sendChs dict nids s1
      in (s2, sent1 @ sent2))"

text \<open>The start of a batch: the counter and the saved reports are new.\<close>

definition new_batch :: "recv_state \<Rightarrow> recv_state" where
  "new_batch s = s\<lparr>recvCount := 0, savedReports := Map.empty\<rparr>"

definition current_statuses :: "visits \<Rightarrow> (sfu_status \<Rightarrow> string) \<Rightarrow> recv_state \<Rightarrow> sfu_status list" where
  "current_statuses vis render s =
     map (\<lambda>nid. SFUStatus (Clone (SFUStatusItem_ops render) (the (latestStatus s nid))))
         (visit (by_nid vis) (dom (latestStatus s)))"

definition current_reports :: "visits \<Rightarrow> recv_state \<Rightarrow> quality_report list" where
  "current_reports vis s =
     map (\<lambda>k. the (savedReports s k)) (visit (by_nid vis) (dom (savedReports s)))"

text \<open>The call of the algorithm and the index of its answer by node.\<close>

definition consult ::
    "(sfu_status \<Rightarrow> string) \<Rightarrow> 'a algorithm \<Rightarrow> visits \<Rightarrow> 'a \<Rightarrow> recv_state
      \<Rightarrow> ('a \<times> (string, SFUStatusItem) gomap) option" where
  "consult render alg vis a s =
     (case alg a (current_statuses vis render s) (current_reports vis s) of
        None \<Rightarrow> None
      | Some (a', expectedStatusList) \<Rightarrow>
          (case expected_dict (SFUStatusItem_ops render) expectedStatusList Map.empty of
             None \<Rightarrow> None
           | Some dict \<Rightarrow> Some (a', dict)))"

text \<open>A whole batch, when no connection comes or goes while it is sent.\<close>

definition process_batch ::
    "(sfu_status \<Rightarrow> string) \<Rightarrow> 'a algorithm \<Rightarrow> visits \<Rightarrow> sig set \<Rightarrow> 'a \<Rightarrow> recv_state
      \<Rightarrow> ('a \<times> recv_state \<times> (sig \<times> sfu_status) list) option" where
  "process_batch render alg vis sendChs a s =
     (if recvCount s \<le> 0 then Some (a, new_batch s, [])
      else
        (case consult render alg vis a s of
           None \<Rightarrow> None
         | Some (a', dict) \<Rightarrow>
             (let (s', sent) = send_expected (SFUStatusItem_ops render) vis sendChs dict
                                 (visit (by_nid vis) (dom dict)) s
              in Some (a', new_batch s', sent))))"

section \<open>Invariant of the goroutine's variables\<close>

text \<open>
  The relation is well formed; a status is kept exactly for the nodes some connection serves;
  and each status is filed under its own node id.
\<close>

definition filed_by_nid :: "(string, SFUStatusItem) gomap \<Rightarrow> bool" where
  "filed_by_nid dict \<longleftrightarrow> finite (dom dict) \<and>
     (\<forall>nid item. dict nid = Some item \<longrightarrow> map_option Nid (SFU (SFUStatus item)) = Some nid)"

definition recv_inv :: "recv_state \<Rightarrow> bool" where
  "recv_inv s \<longleftrightarrow>
     mm_inv (WhereToSend s) \<and>
     (\<forall>nid. latestStatus s nid = None \<longleftrightarrow> (\<forall>g. (nid, g) \<notin> mm_rel (WhereToSend s))) \<and>
     filed_by_nid (latestStatus s) \<and> finite (dom (savedReports s))"

lemma filed_by_nid_simps [simp]:
  "filed_by_nid Map.empty"
  "filed_by_nid d \<Longrightarrow> filed_by_nid (d(k := None))"
  "filed_by_nid d \<Longrightarrow> map_option Nid (SFU (SFUStatus item)) = Some k \<Longrightarrow> filed_by_nid (d(k \<mapsto> item))"
  by (auto simp: filed_by_nid_def split: if_splits)

lemma filed_by_nidD:
  "filed_by_nid d \<Longrightarrow> nid \<in> dom d \<Longrightarrow>
   \<exists>item n. d nid = Some item \<and> SFU (SFUStatus item) = Some n \<and> Nid n = nid"
  by (fastforce simp: filed_by_nid_def)

lemma filed_by_nid_restrict: "filed_by_nid d \<Longrightarrow> filed_by_nid (\<lambda>k. if P k then None else d k)"
  by (auto simp: filed_by_nid_def intro: finite_subset [of _ "dom d"] split: if_splits)

lemma recv_inv_init: "recv_inv recv_init"
  by (simp add: recv_inv_def recv_init_def mm_new)

lemma served_iff:
  "recv_inv s \<Longrightarrow> nid \<in> dom (latestStatus s) \<longleftrightarrow> nid \<in> Domain (mm_rel (WhereToSend s))"
  unfolding recv_inv_def Domain_iff domIff by simp

lemma status_Key: "Key (SFUStatusItem_ops render) item = map_option Nid (SFU (SFUStatus item))"
  by (simp add: go_simps split: option.split)

lemma status_Clone [simp]: "Clone (SFUStatusItem_ops render) item = item"
  by (simp add: go_simps)

lemma status_Compare [simp]:
  "Compare (SFUStatusItem_ops render) x y \<longleftrightarrow> render (SFUStatus x) = render (SFUStatus y)"
  by (simp add: go_simps)

lemma drop_keys_fields:
  "WhereToSend (drop_keys vis ks s) = foldl (RemoveKey (by_sig vis)) (WhereToSend s) ks"
  "latestStatus (drop_keys vis ks s) = (\<lambda>k. if k \<in> set ks then None else latestStatus s k)"
  "savedReports (drop_keys vis ks s) = savedReports s"
  "distinct ks \<Longrightarrow>
     recvCount (drop_keys vis ks s) = recvCount s + length (filter (\<lambda>k. latestStatus s k \<noteq> None) ks)"
proof (induction ks arbitrary: s)
  case (Cons k ks)
  { case 1 show ?case using Cons.IH(1) by (simp add: Let_def split: option.split) }
  { case 2 show ?case using Cons.IH(2) by (auto simp: Let_def fun_eq_iff split: option.split) }
  { case 3 show ?case using Cons.IH(3) by (simp add: Let_def split: option.split) }
  { case 4
    have "filter (\<lambda>j. ((latestStatus s)(k := None)) j \<noteq> None) ks = filter (\<lambda>j. latestStatus s j \<noteq> None) ks"
      using 4 by (intro filter_cong) auto
    with 4 show ?case using Cons.IH(4) by (simp add: Let_def split: option.split) }
qed simp_all


lemma handle_deleted_fields:
  "WhereToSend (handle_deleted vis g s) =
     RemoveValue (by_nid vis)
       (foldl (RemoveKey (by_sig vis)) (WhereToSend s)
         (GetUniqueKeys (by_nid vis) (by_sig vis) (WhereToSend s) g)) g"
  "latestStatus (handle_deleted vis g s) =
     (\<lambda>k. if k \<in> set (GetUniqueKeys (by_nid vis) (by_sig vis) (WhereToSend s) g)
          then None else latestStatus s k)"
  "savedReports (handle_deleted vis g s) = savedReports s"
  by (simp_all add: handle_deleted_def Let_def drop_keys_fields)

text \<open>
  A departed connection leaves no trace in the relation, and the statuses that go with it are
  those of the nodes that no other connection serves.
\<close>

lemma handle_deleted_rel:
  assumes "recv_inv s"
  shows "mm_rel (WhereToSend (handle_deleted vis g s)) = {(nid, w) \<in> mm_rel (WhereToSend s). w \<noteq> g}"
  using assms by (simp add: handle_deleted_fields recv_inv_def mm.disconnect(2))

lemma handle_deleted_status:
  assumes "recv_inv s"
  shows "latestStatus (handle_deleted vis g s) nid =
    (if \<exists>w. (nid, w) \<in> mm_rel (WhereToSend s) \<and> w \<noteq> g then latestStatus s nid else None)"
proof -
  have inv: "mm_inv (WhereToSend s)"
    and none: "latestStatus s nid = None \<longleftrightarrow> (\<forall>g. (nid, g) \<notin> mm_rel (WhereToSend s))"
    using assms by (simp_all add: recv_inv_def)
  show ?thesis
  proof (cases "\<exists>w. (nid, w) \<in> mm_rel (WhereToSend s)")
    case True
    then show ?thesis
      by (auto simp: handle_deleted_fields GetUniqueKeys_spec [OF inv])
  next
    case False
    with none show ?thesis by (auto simp: handle_deleted_fields)
  qed
qed

lemma handle_deleted_inv:
  assumes "recv_inv s"
  shows "recv_inv (handle_deleted vis g s)"
proof -
  let ?s = "handle_deleted vis g s"
  have "mm_inv (WhereToSend ?s)"
    using assms by (simp add: handle_deleted_fields recv_inv_def mm.disconnect(1))
  moreover have "latestStatus ?s nid = None \<longleftrightarrow> (\<forall>w. (nid, w) \<notin> mm_rel (WhereToSend ?s))" for nid
    using assms by (auto simp: handle_deleted_rel handle_deleted_status recv_inv_def)
  moreover have "filed_by_nid (latestStatus ?s)" "finite (dom (savedReports ?s))"
    using assms by (simp_all add: handle_deleted_fields recv_inv_def filed_by_nid_restrict)
  ultimately show ?thesis by (simp add: recv_inv_def)
qed

lemma handle_report_inv: "recv_inv s \<Longrightarrow> recv_inv (handle_report rr r s)"
  by (simp add: handle_report_def recv_inv_def split: option.splits)

text \<open>What an accepted status leaves, whether or not it changed anything.\<close>

lemma handle_status_SomeD:
  assumes "handle_status render st g s = Some s'"
  obtains n where "SFU st = Some n"
    and "WhereToSend s' = MM_Add (WhereToSend s) (Nid n) g" "savedReports s' = savedReports s"
    and "latestStatus s' = latestStatus s \<and> (\<exists>last. latestStatus s (Nid n) = Some last \<and>
            render (SFUStatus last) = render st) \<and> recvCount s' = recvCount s \<or>
         latestStatus s' = (latestStatus s)(Nid n \<mapsto> \<lparr>SFUStatus = st\<rparr>) \<and> recvCount s' = recvCount s + 1"
  using assms by (cases "SFU st") (auto simp: handle_status_def Let_def status_Key
      split: option.splits if_splits)

lemma handle_status_inv:
  assumes "recv_inv s" "handle_status render st g s = Some s'"
  shows "recv_inv s'"
proof -
  obtain n where n: "SFU st = Some n"
    and s': "WhereToSend s' = MM_Add (WhereToSend s) (Nid n) g" "savedReports s' = savedReports s"
    and latest: "latestStatus s' = latestStatus s \<and> (\<exists>last. latestStatus s (Nid n) = Some last \<and>
            render (SFUStatus last) = render st) \<and> recvCount s' = recvCount s \<or>
         latestStatus s' = (latestStatus s)(Nid n \<mapsto> \<lparr>SFUStatus = st\<rparr>) \<and> recvCount s' = recvCount s + 1"
    using assms(2) by (rule handle_status_SomeD)
  have "latestStatus s' nid = None \<longleftrightarrow> (\<forall>w. (nid, w) \<notin> mm_rel (WhereToSend s'))" for nid
    using latest assms(1) by (auto simp: s' MM_Add_spec recv_inv_def split: if_splits)
  moreover have "filed_by_nid (latestStatus s')"
    using latest n assms(1) by (auto simp: recv_inv_def)
  ultimately show ?thesis using assms(1) by (simp add: recv_inv_def s' MM_Add_spec)
qed

lemma handle_message_inv:
  assumes "recv_inv s" "handle_message render rr vis msg s = Some s'"
  shows "recv_inv s'"
proof -
  let ?s1 = "case deleted msg of Some g \<Rightarrow> handle_deleted vis g s | None \<Rightarrow> s"
  have "recv_inv ?s1" using assms(1) by (simp add: handle_deleted_inv split: option.split)
  with assms(2) show ?thesis
    unfolding handle_message_def Let_def
    by (auto simp: handle_report_inv intro: handle_status_inv
        split: option.splits sync_request.splits)
qed

text \<open>What a round of the sending loop does.\<close>

lemma send_one_cases:
  assumes "send_one I vis chs dict nid s = (s', sent)"
  shows "s' = s \<and> sent = [] \<or>
    (\<exists>g. sent = [(g, SFUStatus (the (dict nid)))] \<and> g \<in> chs \<and>
       g \<in> set (SetMap_GetSet (by_sig vis) (SetMap (WhereToSend s)) nid) \<and>
       (\<forall>last. latestStatus s nid = Some last \<longrightarrow> \<not> Compare I last (the (dict nid))) \<and>
       s' = s\<lparr>latestStatus := (latestStatus s)(nid \<mapsto> the (dict nid))\<rparr>)"
  using assms by (auto simp: send_one_def Let_def split: if_splits option.splits)

lemma expected_dict_inv:
  "expected_dict (SFUStatusItem_ops render) es d = Some dict \<Longrightarrow> filed_by_nid d \<Longrightarrow> filed_by_nid dict"
proof (induction es arbitrary: d)
  case (Cons e es)
  then obtain k where k: "map_option Nid (SFU e) = Some k"
    "expected_dict (SFUStatusItem_ops render) es (d(k \<mapsto> \<lparr>SFUStatus = e\<rparr>)) = Some dict"
    by (auto simp: Let_def status_Key split: option.splits)
  have "filed_by_nid (d(k \<mapsto> \<lparr>SFUStatus = e\<rparr>))" using Cons.prems(2) k(1) by simp
  with k(2) show ?case by (rule Cons.IH)
qed simp

lemma consult_dict_inv: "consult render alg vis a s = Some (a', dict) \<Longrightarrow> filed_by_nid dict"
  by (auto simp: consult_def split: option.splits intro: expected_dict_inv [where d = Map.empty])

lemma send_one_inv:
  assumes "recv_inv s" "filed_by_nid dict" "nid \<in> dom dict" "send_one I vis chs dict nid s = (s', sent)"
  shows "recv_inv s'"
proof -
  have inv: "mm_inv (WhereToSend s)" using assms(1) by (simp add: recv_inv_def)
  from send_one_cases [OF assms(4)] show ?thesis
  proof
    assume "s' = s \<and> sent = []"
    with assms(1) show ?thesis by simp
  next
    assume "\<exists>g. sent = [(g, SFUStatus (the (dict nid)))] \<and> g \<in> chs \<and>
       g \<in> set (SetMap_GetSet (by_sig vis) (SetMap (WhereToSend s)) nid) \<and>
       (\<forall>last. latestStatus s nid = Some last \<longrightarrow> \<not> Compare I last (the (dict nid))) \<and>
       s' = s\<lparr>latestStatus := (latestStatus s)(nid \<mapsto> the (dict nid))\<rparr>"
    then obtain g where g: "(nid, g) \<in> mm_rel (WhereToSend s)"
      and s': "s' = s\<lparr>latestStatus := (latestStatus s)(nid \<mapsto> the (dict nid))\<rparr>"
      by (auto simp: GetSet_spec [OF inv])
    have "map_option Nid (SFU (SFUStatus (the (dict nid)))) = Some nid"
      using assms(2,3) by (auto simp: filed_by_nid_def)
    with assms(1) g show ?thesis by (auto simp: s' recv_inv_def)
  qed
qed

lemma send_one_frame:
  "send_one I vis chs dict nid s = (s', sent) \<Longrightarrow>
   WhereToSend s' = WhereToSend s \<and> recvCount s' = recvCount s \<and> savedReports s' = savedReports s"
  by (drule send_one_cases) auto

lemma new_batch_inv: "recv_inv s \<Longrightarrow> recv_inv (new_batch s)"
  by (simp add: recv_inv_def new_batch_def)

section \<open>The service as a step relation\<close>

text \<open>
  The life of a connection handler \<open>SyncSFU\<close>: it serves, then its deferred functions close the
  send channel (\<open>Leaving\<close>) and announce the departure (\<open>Left\<close>).
\<close>

datatype conn = Unused | Serving | Leaving | Left

text \<open>
  The goroutine is collecting messages, or it is in the loop over the expected statuses with
  the nodes it has still to visit, or a panic has ended the process.
\<close>

datatype phase = Receiving | Sending "(string, SFUStatusItem) gomap" "string list" | Crashed

record 'a isglb_state =
  recv :: recv_state
  Alg :: 'a
  recvCh :: "isglbRecvMessage list"
  sendChs :: "sig set"
  conns :: "sig \<Rightarrow> conn"
  phase :: phase
  outbox :: "(sig \<times> sfu_status) list"

definition recvCh_cap :: nat where "recvCh_cap = 4096"

definition isglb_init :: "'a \<Rightarrow> 'a isglb_state" where
  "isglb_init a = \<lparr>recv = recv_init, Alg = a, recvCh = [], sendChs = {}, conns = (\<lambda>_. Unused),
     phase = Receiving, outbox = []\<rparr>"

definition request_msg :: "sig \<Rightarrow> sync_request option \<Rightarrow> isglbRecvMessage" where
  "request_msg g req = \<lparr>request = Some req, sigkey = Some g, deleted = None\<rparr>"

definition deleted_msg :: "sig \<Rightarrow> isglbRecvMessage" where
  "deleted_msg g = \<lparr>request = None, sigkey = None, deleted = Some g\<rparr>"

text \<open>
  The goroutine holds the read lock while it sends, so a send channel is not closed meanwhile
  and a round of the sending loop is one step. A push to the full channel waits.
\<close>

inductive isglb_step ::
    "(sfu_status \<Rightarrow> string) \<Rightarrow> (quality_report \<Rightarrow> string) \<Rightarrow> 'a algorithm
      \<Rightarrow> 'a isglb_state \<Rightarrow> 'a isglb_state \<Rightarrow> bool"
  for render :: "sfu_status \<Rightarrow> string" and render_report :: "quality_report \<Rightarrow> string"
    and alg :: "'a algorithm" where
  accept: "phase s \<noteq> Crashed \<Longrightarrow> conns s g = Unused \<Longrightarrow>
    isglb_step render render_report alg s
      (s\<lparr>conns := (conns s)(g := Serving), sendChs := insert g (sendChs s)\<rparr>)"
| receive: "phase s \<noteq> Crashed \<Longrightarrow> conns s g = Serving \<Longrightarrow> length (recvCh s) < recvCh_cap \<Longrightarrow>
    isglb_step render render_report alg s (s\<lparr>recvCh := recvCh s @ [request_msg g req]\<rparr>)"
| leave: "phase s \<noteq> Crashed \<Longrightarrow> conns s g = Serving \<Longrightarrow>
    isglb_step render render_report alg s
      (s\<lparr>conns := (conns s)(g := Leaving), sendChs := sendChs s - {g}\<rparr>)"
| bye: "phase s \<noteq> Crashed \<Longrightarrow> conns s g = Leaving \<Longrightarrow> length (recvCh s) < recvCh_cap \<Longrightarrow>
    isglb_step render render_report alg s
      (s\<lparr>conns := (conns s)(g := Left), recvCh := recvCh s @ [deleted_msg g]\<rparr>)"
| take_msg: "phase s = Receiving \<Longrightarrow> recvCh s = msg # rest \<Longrightarrow>
    handle_message render render_report vis msg (recv s) = Some r \<Longrightarrow>
    isglb_step render render_report alg s (s\<lparr>recv := r, recvCh := rest\<rparr>)"
| take_panic: "phase s = Receiving \<Longrightarrow> recvCh s = msg # rest \<Longrightarrow>
    handle_message render render_report vis msg (recv s) = None \<Longrightarrow>
    isglb_step render render_report alg s (s\<lparr>phase := Crashed\<rparr>)"
| flush: "phase s = Receiving \<Longrightarrow> recvCh s = [] \<Longrightarrow> 0 < recvCount (recv s) \<Longrightarrow>
    consult render alg vis (Alg s) (recv s) = Some (a, dict) \<Longrightarrow>
    isglb_step render render_report alg s
      (s\<lparr>Alg := a, phase := Sending dict (visit (by_nid vis) (dom dict))\<rparr>)"
| flush_panic: "phase s = Receiving \<Longrightarrow> recvCh s = [] \<Longrightarrow> 0 < recvCount (recv s) \<Longrightarrow>
    consult render alg vis (Alg s) (recv s) = None \<Longrightarrow>
    isglb_step render render_report alg s (s\<lparr>phase := Crashed\<rparr>)"
| send: "phase s = Sending dict (nid # nids) \<Longrightarrow>
    send_one (SFUStatusItem_ops render) vis (sendChs s) dict nid (recv s) = (r, sent) \<Longrightarrow>
    isglb_step render render_report alg s
      (s\<lparr>recv := r, phase := Sending dict nids, outbox := outbox s @ sent\<rparr>)"
| finish: "phase s = Sending dict [] \<Longrightarrow>
    isglb_step render render_report alg s (s\<lparr>recv := new_batch (recv s), phase := Receiving\<rparr>)"

inductive_cases isglb_stepE: "isglb_step render render_report alg s s'"

abbreviation isglb_reachable ::
    "(sfu_status \<Rightarrow> string) \<Rightarrow> (quality_report \<Rightarrow> string) \<Rightarrow> 'a algorithm \<Rightarrow> 'a
      \<Rightarrow> 'a isglb_state \<Rightarrow> bool" where
  "isglb_reachable render render_report alg a \<equiv>
     reachable (isglb_step render render_report alg) (isglb_init a)"

text \<open>The first invariant: the goroutine's variables, and the dictionary it is sending from.\<close>

definition service_inv :: "'a isglb_state \<Rightarrow> bool" where
  "service_inv s \<longleftrightarrow> recv_inv (recv s) \<and>
     (case phase s of Sending dict nids \<Rightarrow> filed_by_nid dict \<and> set nids \<subseteq> dom dict | _ \<Rightarrow> True)"

lemma service_inv_step:
  assumes "isglb_step render render_report alg s s'" "service_inv s"
  shows "service_inv s'"
  using assms
proof cases
  case (take_msg msg rest vis r)
  with assms(2) show ?thesis by (auto simp: service_inv_def intro: handle_message_inv)
next
  case (flush vis a dict)
  then have "filed_by_nid dict" by (auto intro: consult_dict_inv)
  with flush assms(2) show ?thesis by (auto simp: service_inv_def filed_by_nid_def)
next
  case (send dict nid nids vis r sent)
  with assms(2) show ?thesis by (auto simp: service_inv_def intro: send_one_inv)
qed (auto simp: service_inv_def new_batch_inv)

lemma service_inv_reachable:
  "isglb_reachable render render_report alg a s \<Longrightarrow> service_inv s"
  by (induction rule: reachable_invariant)
    (auto simp: service_inv_step, simp add: service_inv_def isglb_init_def recv_inv_init)

text \<open>
  The second invariant: what remains of a connection. A connection that has left has its farewell
  in the channel after all its requests, or is in the relation no more.
\<close>

fun farewell :: "sig \<Rightarrow> isglbRecvMessage list \<Rightarrow> bool" where
  "farewell g [] = False"
| "farewell g (m # q) =
     (farewell g q \<or> deleted m = Some g \<and> (\<forall>m' \<in> set (m # q). sigkey m' \<noteq> Some g))"

definition tracked :: "'a isglb_state \<Rightarrow> sig \<Rightarrow> bool" where
  "tracked s g \<longleftrightarrow>
     (g \<in> sendChs s \<longleftrightarrow> conns s g = Serving) \<and>
     (conns s g \<in> {Unused, Left} \<and> \<not> (conns s g = Left \<and> farewell g (recvCh s)) \<longrightarrow>
        g \<notin> Range (mm_rel (WhereToSend (recv s))) \<and> (\<forall>m \<in> set (recvCh s). sigkey m \<noteq> Some g))"

lemma farewell_append:
  "farewell g (q @ [request_msg h req]) \<longleftrightarrow> h \<noteq> g \<and> farewell g q"
  "farewell g q \<Longrightarrow> farewell g (q @ [deleted_msg h])"
  "farewell g (q @ [deleted_msg g])"
  by (induction q) (auto simp: request_msg_def deleted_msg_def)

lemma msg_simps [simp]:
  "sigkey (request_msg g req) = Some g" "sigkey (deleted_msg g) = None"
  by (simp_all add: request_msg_def deleted_msg_def)

text \<open>The messages the connection handlers make.\<close>

lemma handle_message_simps:
  "handle_message render rr vis (request_msg g (Some (SyncRequest_Status st))) s = handle_status render st g s"
  "handle_message render rr vis (request_msg g (Some (SyncRequest_Report r))) s = Some (handle_report rr r s)"
  "handle_message render rr vis (request_msg g None) s = Some s"
  "handle_message render rr vis (deleted_msg g) s = Some (handle_deleted vis g s)"
  by (simp_all add: handle_message_def request_msg_def deleted_msg_def)

text \<open>Handling a message forgets the departed connection and adds at most the sender.\<close>

lemma handle_message_rel:
  assumes "recv_inv s" "handle_message render rr vis msg s = Some s'"
  shows "mm_rel (WhereToSend s') \<subseteq>
    {(nid, w) \<in> mm_rel (WhereToSend s). deleted msg \<noteq> Some w} \<union> {(nid, w). sigkey msg = Some w}"
proof -
  define s1 where "s1 = (case deleted msg of Some g \<Rightarrow> handle_deleted vis g s | None \<Rightarrow> s)"
  have s1: "mm_rel (WhereToSend s1) = {(nid, w) \<in> mm_rel (WhereToSend s). deleted msg \<noteq> Some w}"
    using handle_deleted_rel [OF assms(1), of vis]
    by (cases "deleted msg") (auto simp: s1_def)
  have "mm_rel (WhereToSend s') \<subseteq> mm_rel (WhereToSend s1) \<union> {(nid, w). sigkey msg = Some w}"
    using assms(2) unfolding handle_message_def Let_def s1_def [symmetric]
    by (auto simp: handle_report_def MM_Add_spec elim!: handle_status_SomeD
        split: option.splits sync_request.splits)
  then show ?thesis unfolding s1 .
qed

lemma tracked_step:
  assumes "isglb_step render render_report alg s s'" "service_inv s" "tracked s g"
  shows "tracked s' g"
  using assms(1)
proof cases
  case (take_msg msg rest vis r)
  have "recv_inv (recv s)" using assms(2) by (simp add: service_inv_def)
  note rel = handle_message_rel [OF this take_msg(4)]
  with assms(3) take_msg show ?thesis by (auto simp: tracked_def)
next
  case (send dict nid nids vis r sent)
  then have "WhereToSend r = WhereToSend (recv s)" by (auto dest: send_one_frame)
  with assms(3) send show ?thesis by (simp add: tracked_def)
qed (use assms(3) in \<open>auto simp: tracked_def farewell_append new_batch_def\<close>)

lemma tracked_reachable: "isglb_reachable render render_report alg a s \<Longrightarrow> tracked s g"
  by (induction rule: reachable_invariant)
    (auto intro: tracked_step service_inv_reachable,
     simp add: tracked_def isglb_init_def recv_init_def mm_new)

section \<open>What is sent\<close>

text \<open>
  A round of the sending loop either leaves everything as it is, or sends one status: to a
  connection that serves, that reported the node, and whose last status reads differently.
\<close>

lemma isglb_sends:
  assumes "isglb_step render render_report alg s s'" "service_inv s" "tracked s g"
    "outbox s' \<noteq> outbox s"
  shows "\<exists>g st n. outbox s' = outbox s @ [(g, st)] \<and> SFU st = Some n \<and> g \<in> sendChs s \<and>
    (Nid n, g) \<in> mm_rel (WhereToSend (recv s)) \<and>
    (\<forall>last. latestStatus (recv s) (Nid n) = Some last \<longrightarrow> render (SFUStatus last) \<noteq> render st) \<and>
    latestStatus (recv s') = (latestStatus (recv s))(Nid n \<mapsto> \<lparr>SFUStatus = st\<rparr>)"
  using assms(1)
proof cases
  case (send dict nid nids vis r sent)
  have inv: "mm_inv (WhereToSend (recv s))" and dict: "filed_by_nid dict" "nid \<in> dom dict"
    using assms(2) send(2) by (auto simp: service_inv_def recv_inv_def)
  then obtain item n where item: "dict nid = Some item" "SFU (SFUStatus item) = Some n" "Nid n = nid"
    using filed_by_nidD by blast
  have "sent \<noteq> []" using assms(4) send by auto
  with send_one_cases [OF send(3)] show ?thesis
    by (auto simp: send(1) item GetSet_spec [OF inv])
qed (use assms(4) in auto)

text \<open>The dictionary of an algorithm that answers pointwise.\<close>

lemma expected_dict_map:
  assumes "\<And>nid. nid \<in> set nids \<Longrightarrow> map_option Nid (SFU (f nid)) = Some nid"
  shows "expected_dict (SFUStatusItem_ops render) (map f nids) d =
    Some (\<lambda>nid. if nid \<in> set nids then Some \<lparr>SFUStatus = f nid\<rparr> else d nid)"
  using assms
proof (induction nids arbitrary: d)
  case (Cons nid nids)
  have IH: "expected_dict (SFUStatusItem_ops render) (map f nids) d' =
      Some (\<lambda>nid. if nid \<in> set nids then Some \<lparr>SFUStatus = f nid\<rparr> else d' nid)" for d'
    using Cons.prems by (intro Cons.IH) simp
  from Cons.prems [of nid] show ?case
    by (auto simp: Let_def status_Key IH fun_eq_iff)
qed simp

context pointwise_algorithm
begin

lemma consult_pointwise:
  assumes "recv_inv s" "consult render alg vis a s = Some (a', dict)"
  shows "a' = a" and "dict = (\<lambda>nid. map_option
      (\<lambda>item. \<lparr>SFUStatus = the (answer (SFUStatus item))\<rparr>) (latestStatus s nid))"
    and "latestStatus s nid = Some item \<Longrightarrow> answer (SFUStatus item) \<noteq> None"
proof -
  define f where "f nid = the (answer (SFUStatus (the (latestStatus s nid))))" for nid
  let ?nids = "visit (by_nid vis) (dom (latestStatus s))"
  have filed: "filed_by_nid (latestStatus s)" using assms(1) by (simp add: recv_inv_def)
  then have nids: "set ?nids = dom (latestStatus s)" by (simp add: filed_by_nid_def)
  obtain es where alg: "alg a (current_statuses vis render s) (current_reports vis s) = Some (a', es)"
    and dict: "expected_dict (SFUStatusItem_ops render) es Map.empty = Some dict"
    using assms(2) by (auto simp: consult_def split: option.splits)
  show "a' = a" using alg by (rule alg_SomeD)
  have ans: "answer (SFUStatus item) \<noteq> None" if "latestStatus s nid = Some item" for nid item
    using alg_SomeD(3) [OF alg, of "SFUStatus item"] that nids
    by (force simp: current_statuses_def dom_def)
  then show "latestStatus s nid = Some item \<Longrightarrow> answer (SFUStatus item) \<noteq> None" .
  have "es = map f ?nids"
    unfolding alg_SomeD(2) [OF alg] by (simp add: current_statuses_def f_def)
  moreover have "map_option Nid (SFU (f nid)) = Some nid" if "nid \<in> set ?nids" for nid
    using that nids ans filed by (fastforce simp: f_def filed_by_nid_def answer_SFU)
  ultimately have "dict = (\<lambda>nid. if nid \<in> dom (latestStatus s) then Some \<lparr>SFUStatus = f nid\<rparr> else None)"
    using dict expected_dict_map [of ?nids f render Map.empty] nids by simp
  then show "dict = (\<lambda>nid. map_option
      (\<lambda>item. \<lparr>SFUStatus = the (answer (SFUStatus item))\<rparr>) (latestStatus s nid))"
    by (auto simp: fun_eq_iff f_def split: option.splits)
qed

end

text \<open>With the empty algorithm nothing is ever sent.\<close>

definition quiet :: "'a isglb_state \<Rightarrow> bool" where
  "quiet s \<longleftrightarrow> outbox s = [] \<and>
     (\<forall>dict nids. phase s = Sending dict nids \<longrightarrow> dict = latestStatus (recv s))"

lemma quiet_step:
  assumes "isglb_step render render_report EmptyAlgorithm s s'" "service_inv s" "quiet s"
  shows "quiet s'"
  using assms(1)
proof cases
  case (flush vis a dict)
  have "recv_inv (recv s)" using assms(2) by (simp add: service_inv_def)
  from empty_alg.consult_pointwise(2) [OF this flush(5)] have "dict = latestStatus (recv s)"
    by (simp add: fun_eq_iff option.map_ident)
  with flush assms(3) show ?thesis by (simp add: quiet_def)
next
  case (send dict nid nids vis r sent)
  with assms(2,3) have "dict = latestStatus (recv s)" "nid \<in> dom dict"
    by (auto simp: quiet_def service_inv_def)
  then have "send_one (SFUStatusItem_ops render) vis (sendChs s) dict nid (recv s) = (recv s, [])"
    by (auto simp: send_one_def)
  with send assms(3) show ?thesis by (simp add: quiet_def)
qed (use assms(3) in \<open>auto simp: quiet_def\<close>)

lemma quiet_reachable: "isglb_reachable render render_report EmptyAlgorithm a s \<Longrightarrow> quiet s"
  by (induction rule: reachable_invariant)
    (auto intro: quiet_step service_inv_reachable, simp add: quiet_def isglb_init_def)

section \<open>A batch settles\<close>

text \<open>
  When every connection in the relation has its channel, the sending loop leaves each node it
  visits with a status that reads as expected.
\<close>

definition reads_as :: "(sfu_status \<Rightarrow> string) \<Rightarrow> SFUStatusItem option \<Rightarrow> SFUStatusItem option \<Rightarrow> bool" where
  "reads_as render x y \<longleftrightarrow>
     (case (x, y) of (Some a, Some b) \<Rightarrow> render (SFUStatus a) = render (SFUStatus b) | _ \<Rightarrow> False)"

lemma send_one_reaches:
  assumes "mm_inv (WhereToSend s)" "Range (mm_rel (WhereToSend s)) \<subseteq> chs"
    "nid \<in> Domain (mm_rel (WhereToSend s))" "dict nid = Some item"
  shows "send_one (SFUStatusItem_ops render) vis chs dict nid s =
    (if reads_as render (latestStatus s nid) (dict nid) then (s, [])
     else (s\<lparr>latestStatus := (latestStatus s)(nid \<mapsto> item)\<rparr>,
           [(SetMap_GetSet (by_sig vis) (SetMap (WhereToSend s)) nid ! 0, SFUStatus item)]))"
proof -
  let ?sigs = "SetMap_GetSet (by_sig vis) (SetMap (WhereToSend s)) nid"
  have sigs: "set ?sigs = {g. (nid, g) \<in> mm_rel (WhereToSend s)}" by (rule GetSet_spec [OF assms(1)])
  then have "?sigs \<noteq> []" using assms(3) by auto
  then have "?sigs ! 0 \<in> set ?sigs" by simp
  then have "?sigs ! 0 \<in> chs" using sigs assms(2) by auto
  with \<open>?sigs \<noteq> []\<close> show ?thesis
    by (auto simp: send_one_def Let_def assms(4) reads_as_def split: option.splits)
qed

lemma send_expected_latest:
  assumes "mm_inv (WhereToSend s)" "Range (mm_rel (WhereToSend s)) \<subseteq> chs"
    "\<And>nid. nid \<in> set nids \<Longrightarrow> nid \<in> Domain (mm_rel (WhereToSend s)) \<and> nid \<in> dom dict" "distinct nids"
    "send_expected (SFUStatusItem_ops render) vis chs dict nids s = (s', sent)"
  shows "WhereToSend s' = WhereToSend s"
    and "latestStatus s' = (\<lambda>nid. if nid \<in> set nids \<and> \<not> reads_as render (latestStatus s nid) (dict nid)
      then dict nid else latestStatus s nid)"
    and "sent = [] \<longleftrightarrow> (\<forall>nid \<in> set nids. reads_as render (latestStatus s nid) (dict nid))"
proof -
  have "WhereToSend s' = WhereToSend s \<and>
    latestStatus s' = (\<lambda>nid. if nid \<in> set nids \<and> \<not> reads_as render (latestStatus s nid) (dict nid)
      then dict nid else latestStatus s nid) \<and>
    (sent = [] \<longleftrightarrow> (\<forall>nid \<in> set nids. reads_as render (latestStatus s nid) (dict nid)))"
    using assms
  proof (induction nids arbitrary: s sent)
    case (Cons nid nids)
    obtain item where item: "dict nid = Some item" using Cons.prems(3) [of nid] by auto
    obtain s1 sent1 where one: "send_one (SFUStatusItem_ops render) vis chs dict nid s = (s1, sent1)"
      by fastforce
    obtain sent2 where rest: "send_expected (SFUStatusItem_ops render) vis chs dict nids s1 = (s', sent2)"
      and sent: "sent = sent1 @ sent2"
      using Cons.prems(5) by (auto simp: one split: prod.splits)
    have where1: "WhereToSend s1 = WhereToSend s" using send_one_frame [OF one] by simp
    have s1: "(s1, sent1) = (if reads_as render (latestStatus s nid) (dict nid) then (s, [])
     else (s\<lparr>latestStatus := (latestStatus s)(nid \<mapsto> item)\<rparr>,
           [(SetMap_GetSet (by_sig vis) (SetMap (WhereToSend s)) nid ! 0, SFUStatus item)]))"
      unfolding one [symmetric]
      by (rule send_one_reaches [of s chs nid dict item, OF Cons.prems(1,2) _ item]) (simp add: Cons.prems(3))
    have dist: "nid \<notin> set nids" "distinct nids" using Cons.prems(4) by auto
    note IH = Cons.IH [of s1 sent2, unfolded where1, OF Cons.prems(1,2) _ dist(2) rest]
    have "latestStatus s1 j = latestStatus s j" if "j \<in> set nids" for j
      using s1 that dist(1) by (auto split: if_splits)
    with IH s1 dist Cons.prems(3) show ?case
      by (auto simp: sent item fun_eq_iff split: if_splits)
  qed (auto split: prod.splits)
  then show "WhereToSend s' = WhereToSend s"
    and "latestStatus s' = (\<lambda>nid. if nid \<in> set nids \<and> \<not> reads_as render (latestStatus s nid) (dict nid)
      then dict nid else latestStatus s nid)"
    and "sent = [] \<longleftrightarrow> (\<forall>nid \<in> set nids. reads_as render (latestStatus s nid) (dict nid))"
    by blast+
qed

context pointwise_algorithm
begin

text \<open>
  After a batch whose expected statuses could all be sent, another batch over the same statuses
  sends nothing: an answer that is echoed is not answered again.
\<close>

lemma batch_settles:
  assumes "recv_inv s" "Range (mm_rel (WhereToSend s)) \<subseteq> chs" "0 < recvCount s"
    "process_batch render alg vis chs a s = Some (a', s', sent)"
    and again: "WhereToSend t = WhereToSend s'" "latestStatus t = latestStatus s'" "finite (dom (savedReports t))"
    "process_batch render alg vis' chs a' t = Some (a'', t', sent')"
  shows "sent' = []"
proof -
  have inv: "mm_inv (WhereToSend s)" and filed: "filed_by_nid (latestStatus s)"
    using assms(1) by (auto simp: recv_inv_def)
  obtain dict s1 where con: "consult render alg vis a s = Some (a', dict)"
    and snd: "send_expected (SFUStatusItem_ops render) vis chs dict (visit (by_nid vis) (dom dict)) s = (s1, sent)"
    and s': "s' = new_batch s1"
    using assms(3,4) by (auto simp: process_batch_def Let_def split: option.splits prod.splits)
  note dict = consult_pointwise [OF assms(1) con]
  have dd: "dom dict = dom (latestStatus s)" by (auto simp: dict(2) dom_def)
  then have nids: "set (visit (by_nid vis) (dom dict)) = dom (latestStatus s)"
    "distinct (visit (by_nid vis) (dom dict))"
    using filed by (simp_all add: filed_by_nid_def)
  have sub: "nid \<in> set (visit (by_nid vis) (dom dict)) \<Longrightarrow>
      nid \<in> Domain (mm_rel (WhereToSend s)) \<and> nid \<in> dom dict" for nid
    using nids(1) served_iff [OF assms(1)] dd by blast
  note sending = send_expected_latest [of s chs _ dict, OF inv assms(2) sub nids(2) snd]
  show ?thesis
  proof (cases "recvCount t = 0")
    case True
    with again(4) show ?thesis by (simp add: process_batch_def)
  next
    case False
    then obtain dict' t1 where con': "consult render alg vis' a' t = Some (a'', dict')"
      and snd': "send_expected (SFUStatusItem_ops render) vis' chs dict'
        (visit (by_nid vis') (dom dict')) t = (t1, sent')"
      using again(4) by (auto simp: process_batch_def Let_def split: option.splits prod.splits)
    have latest: "latestStatus t = (\<lambda>nid. if nid \<in> dom (latestStatus s) \<and>
        \<not> reads_as render (latestStatus s nid) (dict nid) then dict nid else latestStatus s nid)"
      using sending(2) by (simp add: again(2) s' new_batch_def nids(1))
    have where_t: "WhereToSend t = WhereToSend s"
      using sending(1) by (simp add: again(1) s' new_batch_def)
    have answered: "\<exists>y. answer (SFUStatus x) = Some y \<and> dict nid = Some \<lparr>SFUStatus = y\<rparr>"
      if "latestStatus s nid = Some x" for nid x
      using dict(3) [OF that] that by (auto simp: dict(2))
    have t_inv: "recv_inv t"
    proof -
      have none: "latestStatus t nid = None \<longleftrightarrow> latestStatus s nid = None" for nid
        by (cases "latestStatus s nid") (use answered in \<open>auto simp: latest\<close>)
      then have "dom (latestStatus t) = dom (latestStatus s)" by (auto simp: dom_def)
      then have "filed_by_nid (latestStatus t)"
        using filed consult_dict_inv [OF con] by (auto simp: filed_by_nid_def latest split: if_splits)
      with none assms(1) again(3) show ?thesis by (simp add: recv_inv_def where_t)
    qed
    note dict' = consult_pointwise [OF t_inv con']
    have reads: "reads_as render (latestStatus t nid) (dict' nid)" if nid: "nid \<in> dom dict'" for nid
    proof -
      obtain x where x: "latestStatus s nid = Some x"
        using nid answered by (fastforce simp: dict'(2) latest split: if_splits)
      obtain y where y: "answer (SFUStatus x) = Some y" "dict nid = Some \<lparr>SFUStatus = y\<rparr>"
        using answered [OF x] by blast
      show ?thesis
        using x y answer_again [OF y(1)]
        by (cases "reads_as render (latestStatus s nid) (dict nid)")
          (auto simp: dict'(2) latest reads_as_def)
    qed
    have dd': "dom dict' = dom (latestStatus t)" by (auto simp: dict'(2) dom_def)
    then have nids': "set (visit (by_nid vis') (dom dict')) = dom dict'"
      "distinct (visit (by_nid vis') (dom dict'))"
      using t_inv by (simp_all add: recv_inv_def filed_by_nid_def)
    have t: "mm_inv (WhereToSend t)" "Range (mm_rel (WhereToSend t)) \<subseteq> chs"
      using inv assms(2) by (simp_all add: where_t)
    have sub': "nid \<in> set (visit (by_nid vis') (dom dict')) \<Longrightarrow>
        nid \<in> Domain (mm_rel (WhereToSend t)) \<and> nid \<in> dom dict'" for nid
      using served_iff [OF t_inv] nids'(1) dd' by blast
    from send_expected_latest(3) [of t chs _ dict', OF t sub' nids'(2) snd'] reads nids'(1)
    show ?thesis by auto
  qed
qed

end

end
