(* ===== verification/ISGLB_Sender.thy ===== *)
theory ISGLB_Sender
  imports ISGLB_Service "HOL-Library.Sublist"
begin

text \<open>
  The sending half of a connection, \<open>routineSFUStatusSend\<close> of \<open>pkg/isglb/service.go\<close>: a goroutine
  that takes the statuses of its connection and keeps, for every node, a channel of one place and
  a goroutine that sends what is in it. A status that has not been sent yet is replaced by the next
  one of its node. What \<open>Send\<close> returns is free.
\<close>

section \<open>State\<close>

text \<open>
  A node's goroutine waits for its channel, has a status in \<open>Send\<close>, or has returned. The channel
  holds a status or not, and is closed or not.
\<close>

datatype sender_pc = SS_Wait | SS_Send sfu_status | SS_Returned

record node_sender =
  slot :: "sfu_status option"
  slot_closed :: bool
  ss_pc :: sender_pc

text \<open>
  The taker waits for \<open>sendCh\<close>, is at the \<open>select\<close> with a status, or before the push that follows the
  default case; it ends when \<open>sendCh\<close> is closed. \<open>queued\<close>, the statuses it has taken, and
  \<open>handed\<close>, those that were given to \<open>Send\<close> and whether it accepted them, are histories.
\<close>

datatype taker_pc = T_Recv | T_Select sfu_status | T_Drain sfu_status | T_Push sfu_status | T_Done

record status_sender =
  taker :: taker_pc
  latestStatusChs :: "(string, node_sender) gomap"
  queued :: "sfu_status list"
  handed :: "(sfu_status \<times> bool) list"

definition sender_init :: status_sender where
  "sender_init = \<lparr>taker = T_Recv, latestStatusChs = Map.empty, queued = [], handed = []\<rparr>"

text \<open>\<open>msg.GetSFU().GetNid()\<close>: the getters of the messages accept nil.\<close>

definition status_nid :: "sfu_status \<Rightarrow> string" where
  "status_nid st = (case SFU st of Some n \<Rightarrow> Nid n | None \<Rightarrow> [])"

section \<open>Operations\<close>

definition new_sender :: node_sender where
  "new_sender = \<lparr>slot = None, slot_closed = False, ss_pc = SS_Wait\<rparr>"

definition take_status :: "sfu_status \<Rightarrow> status_sender \<Rightarrow> status_sender" where
  "take_status st s =
     (let nid = status_nid st; s1 = s\<lparr>taker := T_Select st, queued := queued s @ [st]\<rparr> in
      case latestStatusChs s nid of
        None \<Rightarrow> s1\<lparr>latestStatusChs := (latestStatusChs s)(nid \<mapsto> new_sender)\<rparr>
      | Some _ \<Rightarrow> s1)"

definition at_node :: "string \<Rightarrow> (node_sender \<Rightarrow> node_sender) \<Rightarrow> status_sender \<Rightarrow> status_sender" where
  "at_node nid f s = s\<lparr>latestStatusChs := (latestStatusChs s)(nid := map_option f (latestStatusChs s nid))\<rparr>"

text \<open>The first \<open>select\<close>: push when there is place, else go on to the default case.\<close>

definition select_push :: "sfu_status \<Rightarrow> status_sender \<Rightarrow> status_sender" where
  "select_push st s =
     (case latestStatusChs s (status_nid st) of
        Some c \<Rightarrow> (if slot c = None then at_node (status_nid st) (slot_update (\<lambda>_. Some st)) (s\<lparr>taker := T_Recv\<rparr>)
                   else s\<lparr>taker := T_Drain st\<rparr>)
      | None \<Rightarrow> s)"

text \<open>The default case: delete what is there, if it still is, and push; the push waits for place.\<close>

definition drain :: "sfu_status \<Rightarrow> status_sender \<Rightarrow> status_sender" where
  "drain st s = at_node (status_nid st) (slot_update (\<lambda>_. None)) (s\<lparr>taker := T_Push st\<rparr>)"

definition push_latest :: "sfu_status \<Rightarrow> status_sender \<Rightarrow> status_sender" where
  "push_latest st s = at_node (status_nid st) (slot_update (\<lambda>_. Some st)) (s\<lparr>taker := T_Recv\<rparr>)"

text \<open>The deferred function closes every channel.\<close>

definition close_all :: "status_sender \<Rightarrow> status_sender" where
  "close_all s = s\<lparr>taker := T_Done,
     latestStatusChs := (\<lambda>nid. map_option (slot_closed_update (\<lambda>_. True)) (latestStatusChs s nid))\<rparr>"

definition node_take :: "string \<Rightarrow> sfu_status \<Rightarrow> status_sender \<Rightarrow> status_sender" where
  "node_take nid st s = at_node nid (\<lambda>c. c\<lparr>slot := None, ss_pc := SS_Send st\<rparr>) s"

definition node_end :: "string \<Rightarrow> status_sender \<Rightarrow> status_sender" where
  "node_end nid s = at_node nid (ss_pc_update (\<lambda>_. SS_Returned)) s"

datatype send_result = Send_ok | Send_gone | Send_error

definition node_send :: "send_result \<Rightarrow> string \<Rightarrow> sfu_status \<Rightarrow> status_sender \<Rightarrow> status_sender" where
  "node_send res nid st s =
     at_node nid (ss_pc_update (\<lambda>_. if res = Send_gone then SS_Returned else SS_Wait))
       (s\<lparr>handed := handed s @ [(st, res = Send_ok)]\<rparr>)"

text \<open>\<open>fails\<close>: whether \<open>Send\<close> may fail.\<close>

inductive sender_step :: "bool \<Rightarrow> status_sender \<Rightarrow> status_sender \<Rightarrow> bool" for fails where
  take: "taker s = T_Recv \<Longrightarrow> sender_step fails s (take_status st s)"
| select: "taker s = T_Select st \<Longrightarrow> sender_step fails s (select_push st s)"
| drained: "taker s = T_Drain st \<Longrightarrow> sender_step fails s (drain st s)"
| push: "taker s = T_Push st \<Longrightarrow> latestStatusChs s (status_nid st) = Some c \<Longrightarrow> slot c = None \<Longrightarrow>
    sender_step fails s (push_latest st s)"
| close: "taker s = T_Recv \<Longrightarrow> sender_step fails s (close_all s)"
| n_take: "latestStatusChs s nid = Some c \<Longrightarrow> ss_pc c = SS_Wait \<Longrightarrow> slot c = Some st \<Longrightarrow>
    sender_step fails s (node_take nid st s)"
| n_end: "latestStatusChs s nid = Some c \<Longrightarrow> ss_pc c = SS_Wait \<Longrightarrow> slot c = None \<Longrightarrow> slot_closed c \<Longrightarrow>
    sender_step fails s (node_end nid s)"
| n_send: "latestStatusChs s nid = Some c \<Longrightarrow> ss_pc c = SS_Send st \<Longrightarrow> res = Send_ok \<or> fails \<Longrightarrow>
    sender_step fails s (node_send res nid st s)"

abbreviation sender_reachable :: "bool \<Rightarrow> status_sender \<Rightarrow> bool" where
  "sender_reachable fails \<equiv> reachable (sender_step fails) sender_init"

section \<open>What is sent for a node\<close>

definition of_node :: "string \<Rightarrow> sfu_status list \<Rightarrow> sfu_status list" where
  "of_node nid sts = filter (\<lambda>st. status_nid st = nid) sts"

text \<open>The status in the taker's hand.\<close>

fun hand :: "taker_pc \<Rightarrow> sfu_status list" where
  "hand (T_Select st) = [st]"
| "hand (T_Drain st) = [st]"
| "hand (T_Push st) = [st]"
| "hand _ = []"

text \<open>The statuses of a node on their way: being sent, in the channel, in the taker's hand.\<close>

definition in_flight :: "status_sender \<Rightarrow> string \<Rightarrow> sfu_status list" where
  "in_flight s nid =
     (case latestStatusChs s nid of
        Some c \<Rightarrow> (case ss_pc c of SS_Send st \<Rightarrow> [st] | _ \<Rightarrow> []) @ (case slot c of Some st \<Rightarrow> [st] | None \<Rightarrow> [])
      | None \<Rightarrow> []) @
     of_node nid (hand (taker s))"

definition all_last :: "'x list \<Rightarrow> 'x list \<Rightarrow> bool" where
  "all_last xs ys \<longleftrightarrow> subseq xs ys \<and> (ys \<noteq> [] \<longrightarrow> xs \<noteq> [] \<and> last xs = last ys)"

text \<open>Node by node, what was handed over and what is on its way is what was queued, some older ones dropped.\<close>

definition flows :: "status_sender \<Rightarrow> string \<Rightarrow> bool" where
  "flows s nid \<longleftrightarrow> all_last (of_node nid (map fst (handed s)) @ in_flight s nid) (of_node nid (queued s))"

definition node_ok :: "bool \<Rightarrow> taker_pc \<Rightarrow> string \<Rightarrow> node_sender \<Rightarrow> bool" where
  "node_ok fails t nid c \<longleftrightarrow>
     (\<forall>st. slot c = Some st \<or> ss_pc c = SS_Send st \<longrightarrow> status_nid st = nid) \<and>
     (slot_closed c \<longleftrightarrow> t = T_Done) \<and>
     (ss_pc c = SS_Returned \<longrightarrow> fails \<or> slot_closed c \<and> slot c = None) \<and>
     (\<forall>st. t = T_Push st \<longrightarrow> status_nid st = nid \<longrightarrow> slot c = None)"

definition sender_inv :: "bool \<Rightarrow> status_sender \<Rightarrow> bool" where
  "sender_inv fails s \<longleftrightarrow> (\<forall>nid. flows s nid) \<and>
     (\<forall>nid c. latestStatusChs s nid = Some c \<longrightarrow> node_ok fails (taker s) nid c) \<and>
     (\<forall>st. hand (taker s) = [st] \<longrightarrow> latestStatusChs s (status_nid st) \<noteq> None) \<and>
     (fails \<or> list_all snd (handed s))"

lemma sender_invD:
  assumes "sender_inv fails s"
  shows "flows s nid" "latestStatusChs s nid = Some c \<Longrightarrow> node_ok fails (taker s) nid c"
    "hand (taker s) = [st] \<Longrightarrow> \<exists>c. latestStatusChs s (status_nid st) = Some c"
  using assms by (auto simp: sender_inv_def)

lemma all_last_snoc: "all_last xs ys \<Longrightarrow> all_last (xs @ [y]) (ys @ [y])"
  by (simp add: all_last_def list_emb_append_mono)

lemma all_last_drop: "all_last (xs @ d # zs) ys \<Longrightarrow> zs \<noteq> [] \<Longrightarrow> all_last (xs @ zs) ys"
proof -
  assume a: "all_last (xs @ d # zs) ys" "zs \<noteq> []"
  have "subseq (xs @ zs) (xs @ d # zs)" by (intro list_emb_append_mono) auto
  with a show ?thesis unfolding all_last_def using subseq_order.order_trans by fastforce
qed

lemma of_node_simps [simp]:
  "of_node nid [] = []" "of_node nid (xs @ ys) = of_node nid xs @ of_node nid ys"
  "of_node nid [st] = (if status_nid st = nid then [st] else [])"
  by (simp_all add: of_node_def)

lemma at_node_simps [simp]:
  "latestStatusChs (at_node nid f s) k = (if k = nid then map_option f (latestStatusChs s nid) else latestStatusChs s k)"
  "taker (at_node nid f s) = taker s" "queued (at_node nid f s) = queued s" "handed (at_node nid f s) = handed s"
  by (simp_all add: at_node_def)

text \<open>Every step either keeps the flow of a node as a list, or drops a status that has a successor.\<close>

lemma flows_same:
  assumes "flows s nid" "of_node nid (map fst (handed s')) @ in_flight s' nid = of_node nid (map fst (handed s)) @ in_flight s nid"
    "queued s' = queued s"
  shows "flows s' nid"
  using assms by (simp add: flows_def)

lemma flows_step:
  assumes "sender_step fails s s'" "sender_inv fails s"
  shows "flows s' nid"
  using assms(1)
proof cases
  case (take st)
  have "all_last ((of_node nid (map fst (handed s)) @ in_flight s nid) @ of_node nid [st]) (of_node nid (queued s) @ of_node nid [st])"
    using sender_invD(1) [OF assms(2), of nid]
      all_last_snoc [of "of_node nid (map fst (handed s)) @ in_flight s nid" "of_node nid (queued s)" st]
    by (simp add: flows_def)
  moreover have "in_flight s' nid = in_flight s nid @ of_node nid [st]" "queued s' = queued s @ [st]" "handed s' = handed s"
    using take by (auto simp: in_flight_def take_status_def new_sender_def Let_def split: option.split)
  ultimately show ?thesis unfolding flows_def by simp
next
  case (select st)
  obtain c where c: "latestStatusChs s (status_nid st) = Some c" using sender_invD(3) [OF assms(2)] select(2) by auto
  show ?thesis
    by (rule flows_same [OF sender_invD(1) [OF assms(2)]])
      (use select c in \<open>auto simp: select_push_def in_flight_def split: option.split\<close>)
next
  case (drained st)
  obtain c where c: "latestStatusChs s (status_nid st) = Some c" using sender_invD(3) [OF assms(2)] drained(2) by auto
  note fl = sender_invD(1) [OF assms(2), of nid]
  show ?thesis
  proof (cases "nid = status_nid st \<and> slot c \<noteq> None")
    case True
    then obtain old where old: "slot c = Some old" by blast
    define pre where "pre = of_node nid (map fst (handed s)) @ (case ss_pc c of SS_Send st \<Rightarrow> [st] | _ \<Rightarrow> [])"
    have "all_last (pre @ old # [st]) (of_node nid (queued s))"
      using fl True c old drained(2) by (simp add: flows_def in_flight_def pre_def)
    then have "all_last (pre @ [st]) (of_node nid (queued s))" by (rule all_last_drop) simp
    then show ?thesis using True c drained by (simp add: flows_def in_flight_def pre_def drain_def)
  next
    case False
    show ?thesis
      by (rule flows_same [OF fl]) (use False c drained in \<open>auto simp: drain_def in_flight_def split: option.split\<close>)
  qed
next
  case (push st c)
  show ?thesis
    by (rule flows_same [OF sender_invD(1) [OF assms(2)]])
      (use push in \<open>auto simp: push_latest_def in_flight_def split: option.split\<close>)
next
  case close
  show ?thesis
    by (rule flows_same [OF sender_invD(1) [OF assms(2)]])
      (use close in \<open>auto simp: close_all_def in_flight_def split: option.split\<close>)
next
  case (n_take k c st)
  show ?thesis
    by (rule flows_same [OF sender_invD(1) [OF assms(2)]])
      (use n_take in \<open>auto simp: node_take_def in_flight_def split: option.split\<close>)
next
  case (n_end k c)
  show ?thesis
    by (rule flows_same [OF sender_invD(1) [OF assms(2)]])
      (use n_end in \<open>auto simp: node_end_def in_flight_def split: option.split\<close>)
next
  case (n_send k c st res)
  have "status_nid st = k" using sender_invD(2) [OF assms(2) n_send(2)] n_send(3) by (simp add: node_ok_def)
  then show ?thesis
    by (intro flows_same [OF sender_invD(1) [OF assms(2)]])
      (use n_send in \<open>auto simp: node_send_def in_flight_def split: option.split\<close>)
qed

text \<open>A step that changes one node's goroutine, and a step of the taker.\<close>

lemma sender_inv_nodes:
  assumes "sender_inv fails s" "\<And>nid. flows s' nid"
    and "\<And>nid c. latestStatusChs s' nid = Some c \<Longrightarrow> node_ok fails (taker s') nid c"
    and "\<And>st. hand (taker s') = [st] \<Longrightarrow> latestStatusChs s' (status_nid st) \<noteq> None"
    and "fails \<or> list_all snd (handed s) \<Longrightarrow> fails \<or> list_all snd (handed s')"
  shows "sender_inv fails s'"
  using assms by (auto simp: sender_inv_def)

lemma at_node_ok:
  assumes "latestStatusChs (at_node k f s) nid = Some c"
    and "\<And>c0. latestStatusChs s nid = Some c0 \<Longrightarrow> node_ok fails t nid (if nid = k then f c0 else c0)"
  shows "node_ok fails t nid c"
  using assms by (auto split: if_splits)

lemma node_ok_drain:
  "node_ok fails (T_Drain st) nid c \<Longrightarrow> node_ok fails (T_Push st) nid (if nid = status_nid st then c\<lparr>slot := None\<rparr> else c)"
  by (auto simp: node_ok_def)

lemma node_ok_push:
  "node_ok fails (T_Push st) nid c \<Longrightarrow> node_ok fails T_Recv nid (if nid = status_nid st then c\<lparr>slot := Some st\<rparr> else c)"
  by (cases "status_nid st = nid"; simp add: node_ok_def; blast)

lemma node_ok_take:
  "node_ok fails t nid c \<and> (nid = k \<longrightarrow> slot c = Some st) \<Longrightarrow>
    node_ok fails t nid (if nid = k then c\<lparr>slot := None, ss_pc := SS_Send st\<rparr> else c)"
  by (auto simp: node_ok_def)

lemma node_ok_end:
  "node_ok fails t nid c \<and> (nid = k \<longrightarrow> slot c = None \<and> slot_closed c) \<Longrightarrow>
    node_ok fails t nid (if nid = k then ss_pc_update (\<lambda>_. SS_Returned) c else c)"
  by (auto simp: node_ok_def)

lemma node_ok_send:
  "node_ok fails t nid c \<and> (res = Send_ok \<or> fails) \<Longrightarrow>
    node_ok fails t nid (if nid = k then ss_pc_update (\<lambda>_. if res = Send_gone then SS_Returned else SS_Wait) c else c)"
  by (cases "nid = k"; simp add: node_ok_def; blast)

lemma sender_inv_step:
  assumes "sender_step fails s s'" "sender_inv fails s"
  shows "sender_inv fails s'"
proof (rule sender_inv_nodes [OF assms(2) flows_step [OF assms]])
  note inv = sender_invD [OF assms(2)]
  show "node_ok fails (taker s') nid c" if "latestStatusChs s' nid = Some c" for nid c
    using assms(1)
  proof cases
    case (take st)
    with that inv(2) [of nid c] show ?thesis
      by (auto simp: take_status_def Let_def node_ok_def new_sender_def split: option.splits if_splits)
  next
    case (select st)
    obtain d where d: "latestStatusChs s (status_nid st) = Some d" using inv(3) [of st] select(2) by auto
    show ?thesis
    proof (cases "slot d = None")
      case True
      with that d select have "nid = status_nid st \<and> c = d\<lparr>slot := Some st\<rparr> \<or> nid \<noteq> status_nid st \<and> latestStatusChs s nid = Some c"
        by (simp add: select_push_def split: if_splits)
      moreover have "taker s' = T_Recv" using True d select by (simp add: select_push_def)
      moreover note inv(2) [OF d]
      ultimately show ?thesis using inv(2) [of nid c] select(2) True by (elim disjE) (auto simp: node_ok_def)
    next
      case False
      then obtain old where "slot d = Some old" by blast
      then have "s' = s\<lparr>taker := T_Drain st\<rparr>" using d select by (simp add: select_push_def)
      then have "latestStatusChs s nid = Some c" "taker s' = T_Drain st" using that by simp_all
      with inv(2) [of nid c] select(2) show ?thesis by (auto simp: node_ok_def)
    qed
  next
    case (drained st)
    have t: "taker s' = T_Push st" unfolding drained(1) drain_def by simp
    show ?thesis unfolding t
      using that unfolding drained(1) drain_def
      by (rule at_node_ok) (rule node_ok_drain, use inv(2) [of nid] drained(2) in simp)
  next
    case (push st d)
    have t: "taker s' = T_Recv" unfolding push(1) push_latest_def by simp
    show ?thesis unfolding t
      using that unfolding push(1) push_latest_def
      by (rule at_node_ok) (rule node_ok_push, use inv(2) [of nid] push(2) in simp)
  next
    case close
    have "\<exists>c0. latestStatusChs s nid = Some c0 \<and> c = c0\<lparr>slot_closed := True\<rparr>"
      using that unfolding close(1) close_all_def by auto
    then obtain c0 where "latestStatusChs s nid = Some c0" "c = c0\<lparr>slot_closed := True\<rparr>" by blast
    moreover have "taker s' = T_Done" unfolding close(1) close_all_def by simp
    ultimately show ?thesis using inv(2) [of nid c0] close(2) by (auto simp: node_ok_def)
  next
    case (n_take k d st)
    have t: "taker s' = taker s" unfolding n_take(1) node_take_def by simp
    show ?thesis unfolding t
      using that unfolding n_take(1) node_take_def
      by (rule at_node_ok) (rule node_ok_take, use inv(2) [of nid] n_take(2-4) in auto)
  next
    case (n_end k d)
    have t: "taker s' = taker s" unfolding n_end(1) node_end_def by simp
    show ?thesis unfolding t
      using that unfolding n_end(1) node_end_def
      by (rule at_node_ok) (rule node_ok_end, use inv(2) [of nid] n_end(2-5) in auto)
  next
    case (n_send k d st res)
    have t: "taker s' = taker s" unfolding n_send(1) node_send_def by simp
    show ?thesis unfolding t
      using that unfolding n_send(1) node_send_def
      by (rule at_node_ok) (rule node_ok_send, use inv(2) [of nid] n_send(2-4) in auto)
  qed
  show "latestStatusChs s' (status_nid st) \<noteq> None" if "hand (taker s') = [st]" for st
    using assms(1)
  proof cases
    case (take st')
    with that show ?thesis by (auto simp: take_status_def Let_def split: option.splits)
  next
    case (select st')
    with that inv(3) [of st'] show ?thesis by (auto simp: select_push_def split: option.splits if_splits)
  qed (use that inv(3) [of st] in \<open>auto simp: drain_def push_latest_def close_all_def node_take_def node_end_def node_send_def split: if_splits\<close>)
  show "fails \<or> list_all snd (handed s')" if "fails \<or> list_all snd (handed s)"
    using assms(1) that
    by cases (auto simp: take_status_def select_push_def drain_def push_latest_def close_all_def node_take_def
        node_end_def node_send_def Let_def split: option.splits)
qed

lemma sender_inv_reachable: "sender_reachable fails s \<Longrightarrow> sender_inv fails s"
  by (induction rule: reachable_invariant)
    (auto intro: sender_inv_step, simp add: sender_inv_def sender_init_def flows_def in_flight_def all_last_def)

text \<open>
  The taker always gets on. A step of its own is one that changes where it is; \<open>taker_steps\<close> bounds
  how many of them a status takes from the \<open>select\<close> to its channel.
\<close>

fun taker_steps :: "taker_pc \<Rightarrow> nat" where
  "taker_steps (T_Select st) = 3"
| "taker_steps (T_Drain st) = 2"
| "taker_steps (T_Push st) = 1"
| "taker_steps _ = 0"

lemma taker_goes_on:
  assumes "sender_inv fails s" "hand (taker s) \<noteq> []"
  shows "\<exists>s'. sender_step fails s s' \<and> taker s' \<noteq> taker s"
proof (cases "taker s")
  case (T_Select st)
  then obtain c where c: "latestStatusChs s (status_nid st) = Some c" using sender_invD(3) [OF assms(1)] by auto
  have "taker (select_push st s) \<noteq> taker s" by (simp add: select_push_def c T_Select)
  with sender_step.select [OF T_Select, of fails] show ?thesis by blast
next
  case (T_Drain st)
  have "taker (drain st s) \<noteq> taker s" by (simp add: drain_def T_Drain)
  with sender_step.drained [OF T_Drain, of fails] show ?thesis by blast
next
  case (T_Push st)
  then obtain c where c: "latestStatusChs s (status_nid st) = Some c" using sender_invD(3) [OF assms(1)] by auto
  then have "slot c = None" using sender_invD(2) [OF assms(1) c] T_Push by (simp add: node_ok_def)
  note st = sender_step.push [OF T_Push c this, of fails]
  have "taker (push_latest st s) \<noteq> taker s" by (simp add: push_latest_def T_Push)
  with st show ?thesis by blast
qed (use assms(2) in simp_all)

lemma taker_own_step:
  assumes "sender_inv fails s" "hand (taker s) = [st]" "sender_step fails s s'" "taker s' \<noteq> taker s"
  shows "taker_steps (taker s') < taker_steps (taker s) \<and>
    (hand (taker s') = [st] \<or>
     taker s' = T_Recv \<and> (\<exists>c. latestStatusChs s' (status_nid st) = Some c \<and> slot c = Some st))"
  using assms(3)
proof cases
  case (select x)
  obtain c where "latestStatusChs s (status_nid x) = Some c" using sender_invD(3) [OF assms(1)] select(2) by auto
  then show ?thesis using select assms(2) by (simp add: select_push_def)
qed (use assms(2,4) in \<open>simp_all add: drain_def push_latest_def node_take_def node_end_def node_send_def\<close>)

text \<open>Without failures a goroutine that has something to do has not returned.\<close>

lemma node_goes_on:
  assumes "sender_inv False s" "latestStatusChs s nid = Some c" "slot c = Some st"
  shows "(\<exists>x. ss_pc c = SS_Send x) \<or>
    (\<exists>s'. sender_step False s s' \<and> taker s' = taker s \<and>
      latestStatusChs s' nid = Some (c\<lparr>slot := None, ss_pc := SS_Send st\<rparr>))"
proof (cases "ss_pc c")
  case SS_Wait
  from sender_step.n_take [OF assms(2) this assms(3), of False]
  have "sender_step False s (node_take nid st s)" .
  moreover have "taker (node_take nid st s) = taker s"
    "latestStatusChs (node_take nid st s) nid = Some (c\<lparr>slot := None, ss_pc := SS_Send st\<rparr>)"
    by (simp_all add: node_take_def assms(2))
  ultimately show ?thesis by blast
next
  case SS_Returned
  then show ?thesis using sender_invD(2) [OF assms(1,2)] assms(3) by (simp add: node_ok_def)
qed simp

section \<open>Properties\<close>

text \<open>
  C10. The statuses of a node are handed to \<open>Send\<close> in the order they were queued, some older ones left
  out; when none is on its way, the last one handed over is the last one queued. Without failures
  \<open>Send\<close> has accepted all of them.
\<close>

theorem sender_keeps_latest:
  assumes "sender_reachable fails s"
  shows "subseq (of_node nid (map fst (handed s)) @ in_flight s nid) (of_node nid (queued s)) \<and>
    (in_flight s nid = [] \<and> of_node nid (queued s) \<noteq> [] \<longrightarrow>
      of_node nid (map fst (handed s)) \<noteq> [] \<and> last (of_node nid (map fst (handed s))) = last (of_node nid (queued s))) \<and>
    (fails \<or> list_all snd (handed s))"
  using sender_inv_reachable [OF assms] by (auto simp: sender_inv_def flows_def all_last_def)

definition demo_node_status :: "forward_track list \<Rightarrow> sfu_status" where
  "demo_node_status ts = \<lparr>SFU = Some \<lparr>Dc = [], Nid = ''a'', Service = [], Rpc = None\<rparr>, ForwardTracks = ts,
     ProceedTracks = [], Clients = []\<rparr>"

text \<open>A status queued while an older one waits in the channel.\<close>

definition demo_sender :: status_sender where
  "demo_sender =
     (let st = demo_node_status []; st' = demo_node_status [stupid_track] in
      drain st' (select_push st' (take_status st' (select_push st (take_status st sender_init)))))"

lemma demo_sender_facts:
  shows demo_sender_reachable: "sender_reachable False demo_sender"
    and demo_sender_flight: "in_flight demo_sender ''a'' = [demo_node_status [stupid_track]]"
    and demo_sender_queued: "queued demo_sender = [demo_node_status [], demo_node_status [stupid_track]]"
proof -
  define st where "st = demo_node_status []"
  define st' where "st' = demo_node_status [stupid_track]"
  have nid: "status_nid st = ''a''" "status_nid st' = ''a''"
    by (simp_all add: st_def st'_def demo_node_status_def status_nid_def)
  define s1 where "s1 = take_status st sender_init"
  define s2 where "s2 = select_push st s1"
  define s3 where "s3 = take_status st' s2"
  define s4 where "s4 = select_push st' s3"
  define s5 where "s5 = drain st' s4"
  have 1: "taker s1 = T_Select st" "latestStatusChs s1 ''a'' = Some new_sender" "queued s1 = [st]"
    by (simp_all add: s1_def take_status_def sender_init_def nid)
  have 2: "taker s2 = T_Recv" "latestStatusChs s2 ''a'' = Some (new_sender\<lparr>slot := Some st\<rparr>)" "queued s2 = [st]"
    by (simp_all add: s2_def select_push_def nid 1 new_sender_def)
  have 3: "taker s3 = T_Select st'" "latestStatusChs s3 ''a'' = Some (new_sender\<lparr>slot := Some st\<rparr>)" "queued s3 = [st, st']"
    by (simp_all add: s3_def take_status_def nid 2)
  have 4: "taker s4 = T_Drain st'" "latestStatusChs s4 ''a'' = Some (new_sender\<lparr>slot := Some st\<rparr>)" "queued s4 = [st, st']"
    by (simp_all add: s4_def select_push_def nid 3)
  have 5: "taker s5 = T_Push st'" "latestStatusChs s5 ''a'' = Some new_sender" "queued s5 = [st, st']"
    by (simp_all add: s5_def drain_def nid 4 new_sender_def)
  have demo: "demo_sender = s5"
    unfolding demo_sender_def Let_def s5_def s4_def s3_def s2_def s1_def st_def st'_def by (rule refl)
  have "sender_reachable False s1" unfolding s1_def
    by (rule reachable_first, rule sender_step.take) (simp add: sender_init_def)
  then have "sender_reachable False s2" unfolding s2_def by (rule reachable_step) (rule sender_step.select [OF 1(1)])
  then have "sender_reachable False s3" unfolding s3_def by (rule reachable_step) (rule sender_step.take [OF 2(1)])
  then have "sender_reachable False s4" unfolding s4_def by (rule reachable_step) (rule sender_step.select [OF 3(1)])
  then have "sender_reachable False s5" unfolding s5_def by (rule reachable_step) (rule sender_step.drained [OF 4(1)])
  then show "sender_reachable False demo_sender" by (simp only: demo)
  show "in_flight demo_sender ''a'' = [demo_node_status [stupid_track]]"
    unfolding demo using nid 5 by (simp add: in_flight_def new_sender_def st'_def)
  show "queued demo_sender = [demo_node_status [], demo_node_status [stupid_track]]"
    unfolding demo 5 by (simp add: st_def st'_def)
qed

theorem sender_keeps_latest_witness:
  "subseq (of_node ''a'' (map fst (handed demo_sender)) @ [demo_node_status [stupid_track]])
     (of_node ''a'' (queued demo_sender)) \<and> length (queued demo_sender) = 2"
  using sender_keeps_latest [OF demo_sender_reachable, of "''a''"]
  by (simp add: demo_sender_flight demo_sender_queued)

text \<open>
  C11. The goroutine that takes the statuses never waits for a connection: while it has a status in
  hand, a step of its own is possible, whatever the goroutines that send do; every step of its own
  brings it nearer to waiting for the next status, at most three of them from the \<open>select\<close>, with the
  status still in hand or in the channel of its node. And when \<open>Send\<close> does not fail, the goroutine of
  a node whose channel holds a status is in \<open>Send\<close> or can take that status and send it: none has
  returned.
\<close>

theorem sender_never_stuck:
  assumes "sender_reachable fails s"
  shows "(hand (taker s) \<noteq> [] \<longrightarrow> taker_steps (taker s) \<le> 3 \<and> (\<exists>s'. sender_step fails s s' \<and> taker s' \<noteq> taker s)) \<and>
    (\<forall>st s'. hand (taker s) = [st] \<and> sender_step fails s s' \<and> taker s' \<noteq> taker s \<longrightarrow>
      taker_steps (taker s') < taker_steps (taker s) \<and>
      (hand (taker s') = [st] \<or>
       taker s' = T_Recv \<and> (\<exists>c. latestStatusChs s' (status_nid st) = Some c \<and> slot c = Some st))) \<and>
    (\<forall>nid c st. \<not> fails \<and> latestStatusChs s nid = Some c \<and> slot c = Some st \<longrightarrow>
      (\<exists>x. ss_pc c = SS_Send x) \<or>
      (\<exists>s'. sender_step fails s s' \<and> taker s' = taker s \<and>
        latestStatusChs s' nid = Some (c\<lparr>slot := None, ss_pc := SS_Send st\<rparr>)))"
proof (intro conjI allI impI)
  note inv = sender_inv_reachable [OF assms]
  show "taker_steps (taker s) \<le> 3" by (cases "taker s") simp_all
  show "\<exists>s'. sender_step fails s s' \<and> taker s' \<noteq> taker s" if "hand (taker s) \<noteq> []"
    by (rule taker_goes_on [OF inv that])
  fix st s' assume "hand (taker s) = [st] \<and> sender_step fails s s' \<and> taker s' \<noteq> taker s"
  then have "hand (taker s) = [st]" "sender_step fails s s'" "taker s' \<noteq> taker s" by auto
  note own = taker_own_step [OF inv this]
  from own show "taker_steps (taker s') < taker_steps (taker s)" by blast
  from own show "hand (taker s') = [st] \<or>
    taker s' = T_Recv \<and> (\<exists>c. latestStatusChs s' (status_nid st) = Some c \<and> slot c = Some st)" by blast
next
  fix nid c st assume "\<not> fails \<and> latestStatusChs s nid = Some c \<and> slot c = Some st"
  with node_goes_on [of s nid c st] sender_inv_reachable [OF assms]
  show "(\<exists>x. ss_pc c = SS_Send x) \<or> (\<exists>s'. sender_step fails s s' \<and> taker s' = taker s \<and>
      latestStatusChs s' nid = Some (c\<lparr>slot := None, ss_pc := SS_Send st\<rparr>))" by (cases fails) simp_all
qed

theorem sender_never_stuck_witness:
  "taker demo_sender = T_Push (demo_node_status [stupid_track]) \<and>
   (\<exists>s'. sender_step False demo_sender s' \<and> taker s' = T_Recv \<and>
     (\<exists>c. latestStatusChs s' ''a'' = Some c \<and> slot c = Some (demo_node_status [stupid_track])))"
proof -
  have t: "taker demo_sender = T_Push (demo_node_status [stupid_track])"
    by (simp add: demo_sender_def Let_def drain_def)
  note stuck = sender_never_stuck [OF demo_sender_reachable]
  from conjunct1 [OF stuck] t obtain s' where s': "sender_step False demo_sender s'" "taker s' \<noteq> taker demo_sender" by auto
  have nid: "status_nid (demo_node_status [stupid_track]) = ''a''" by (simp add: demo_node_status_def status_nid_def)
  have "taker_steps (taker s') < 1 \<and> (hand (taker s') = [demo_node_status [stupid_track]] \<or>
    taker s' = T_Recv \<and> (\<exists>c. latestStatusChs s' ''a'' = Some c \<and> slot c = Some (demo_node_status [stupid_track])))"
    using conjunct1 [OF conjunct2 [OF stuck], rule_format, of "demo_node_status [stupid_track]" s'] s' t nid by simp
  with s'(1) t show ?thesis by (cases "taker s'") auto
qed

end
