(* ===== verification/Syncer.thy ===== *)
theory Syncer
  imports Proto_Items "HOL-Library.Word"
begin

text \<open>
  The SXU's syncer of \<open>pkg/sxu/syncer/syncer.go\<close>: its three disorder sets, the three channels
  the \<open>main\<close> goroutine selects from, the comparison and adoption of an expected status
  (\<open>syncStatus\<close>), the session events, and \<open>Stop\<close>. The calls on the router and the statuses
  handed to the ISGLB client are logs in the state, in the order the code makes them.
\<close>

section \<open>State\<close>

text \<open>
  \<open>SessionEvent\<close>; its state is an \<open>int32\<close>, of which two values have names. The session is a
  message: no producer in the repository makes an event without one.
\<close>

record session_event =
  SE_Session :: client_needed_session
  State :: "32 word"

definition SessionEvent_ADD :: "32 word" where "SessionEvent_ADD = 0"

definition SessionEvent_REMOVE :: "32 word" where "SessionEvent_REMOVE = 1"

definition SessionEvent_Clone :: "session_event \<Rightarrow> session_event" where
  "SessionEvent_Clone event = \<lparr>SE_Session = SE_Session event, State = State event\<rparr>"

datatype router_call =
    StopForwardTrack forward_track
  | ReplaceForwardTrack forward_track forward_track
  | StartForwardTrack forward_track
  | StopProceedTrack proceed_track
  | ReplaceProceedTrack proceed_track proceed_track
  | StartProceedTrack proceed_track

text \<open>The texts of the messages, and the orders in which the sets are visited.\<close>

record texts =
  node_text :: "node option \<Rightarrow> string"
  client_text :: "client_needed_session \<Rightarrow> string"
  forward_text :: "forward_track \<Rightarrow> string"
  proceed_text :: "proceed_track \<Rightarrow> string"

record syncer_visits =
  set_ord :: "string range_order"
  src_ord :: "string range_order"

text \<open>
  \<open>closed\<close> is set by \<open>Stop\<close>, which closes the three channels; \<open>running\<close> is False once \<open>main\<close> has
  returned.
\<close>

record ISGLBSyncer =
  descSFU :: node
  clientSet :: "ClientNeededSessionItem DisorderSet"
  forwardTrackSet :: "ForwardTrackItem DisorderSet"
  proceedTrackSet :: "ProceedTrackItem DisorderSet"
  statusRecvCh :: "sfu_status option"
  statusSendCh :: bool
  sessionEventCh :: "session_event list"
  router_log :: "router_call list"
  sent :: "sfu_status list"
  closed :: bool
  running :: bool

definition sessionEventCh_cap :: nat where "sessionEventCh_cap = 1024"

definition NewSFUStatusSyncer :: "node \<Rightarrow> ISGLBSyncer" where
  "NewSFUStatusSyncer desc = \<lparr>descSFU = desc, clientSet = NewDisorderSet,
     forwardTrackSet = NewDisorderSet, proceedTrackSet = NewDisorderSet, statusRecvCh = None,
     statusSendCh = True, sessionEventCh = [], router_log = [], sent = [], closed = False,
     running = True\<rparr>"

abbreviation client_ops :: "texts \<Rightarrow> ClientNeededSessionItem item_ops" where
  "client_ops E \<equiv> ClientNeededSessionItem_ops (client_text E)"

abbreviation forward_ops :: "texts \<Rightarrow> ForwardTrackItem item_ops" where
  "forward_ops E \<equiv> ForwardTrackItem_ops (forward_text E)"

abbreviation proceed_ops :: "texts \<Rightarrow> syncer_visits \<Rightarrow> ProceedTrackItem item_ops" where
  "proceed_ops E vis \<equiv> ProceedTrackItem_ops (proceed_text E) (src_ord vis)"

section \<open>Operations\<close>

text \<open>
  The callback the ISGLB client runs on a received status: an old one is dropped. It returns when
  it finds the channel closed and empty; a closed channel that still held a status is drained,
  and the send that follows panics.
\<close>

definition OnSFUStatusRecv :: "sfu_status \<Rightarrow> ISGLBSyncer \<Rightarrow> ISGLBSyncer option" where
  "OnSFUStatusRecv st s =
     (if closed s then (if statusRecvCh s = None then Some s else None)
      else Some (s\<lparr>statusRecvCh := Some st\<rparr>))"

text \<open>A send on a closed channel panics, also in a \<open>select\<close> with a default.\<close>

definition NotifySFUStatus :: "ISGLBSyncer \<Rightarrow> ISGLBSyncer option" where
  "NotifySFUStatus s = (if closed s then None else Some (s\<lparr>statusSendCh := True\<rparr>))"

definition forward_calls ::
    "ForwardTrackItem list \<Rightarrow> ForwardTrackItem replaceTuple list \<Rightarrow> ForwardTrackItem list \<Rightarrow> router_call list" where
  "forward_calls forwardDel forwardReplace forwardAdd =
     map (\<lambda>track. StopForwardTrack (FT_Track track)) forwardDel @
     map (\<lambda>track. ReplaceForwardTrack (FT_Track (Old track)) (FT_Track (New track))) forwardReplace @
     map (\<lambda>track. StartForwardTrack (FT_Track track)) forwardAdd"

definition proceed_calls ::
    "ProceedTrackItem list \<Rightarrow> ProceedTrackItem replaceTuple list \<Rightarrow> ProceedTrackItem list \<Rightarrow> router_call list" where
  "proceed_calls proceedDel proceedReplace proceedAdd =
     map (\<lambda>track. StopProceedTrack (PT_Track track)) proceedDel @
     map (\<lambda>track. ReplaceProceedTrack (PT_Track (Old track)) (PT_Track (New track))) proceedReplace @
     map (\<lambda>track. StartProceedTrack (PT_Track track)) proceedAdd"

definition sync_forward :: "texts \<Rightarrow> syncer_visits \<Rightarrow> sfu_status \<Rightarrow> ISGLBSyncer \<Rightarrow> ISGLBSyncer option" where
  "sync_forward E vis expectedStatus s =
     (case Update (forward_ops E) (set_ord vis) (forwardTrackSet s)
             (ForwardTracks_ToDisorderSetItemList (ForwardTracks expectedStatus)) of
        None \<Rightarrow> None
      | Some (index, forwardAdd, forwardDel, forwardReplace) \<Rightarrow>
          Some (s\<lparr>forwardTrackSet := index,
                  router_log := router_log s @ forward_calls forwardDel forwardReplace forwardAdd\<rparr>))"

definition sync_proceed :: "texts \<Rightarrow> syncer_visits \<Rightarrow> sfu_status \<Rightarrow> ISGLBSyncer \<Rightarrow> ISGLBSyncer option" where
  "sync_proceed E vis expectedStatus s =
     (case Update (proceed_ops E vis) (set_ord vis) (proceedTrackSet s)
             (ProceedTracks_ToDisorderSetItemList (ProceedTracks expectedStatus)) of
        None \<Rightarrow> None
      | Some (index, proceedAdd, proceedDel, proceedReplace) \<Rightarrow>
          Some (s\<lparr>proceedTrackSet := index,
                  router_log := router_log s @ proceed_calls proceedDel proceedReplace proceedAdd\<rparr>))"

definition syncStatus :: "texts \<Rightarrow> syncer_visits \<Rightarrow> sfu_status \<Rightarrow> ISGLBSyncer \<Rightarrow> ISGLBSyncer option" where
  "syncStatus E vis expectedStatus s =
     (if node_text E (SFU expectedStatus) \<noteq> node_text E (Some (descSFU s)) then NotifySFUStatus s
      else
        (case IsSame (client_ops E) (set_ord vis) (clientSet s)
                (Clients_ToDisorderSetItemList (Clients expectedStatus)) of
           None \<Rightarrow> None
         | Some (same, index) \<Rightarrow>
             (let s1 = s\<lparr>clientSet := index\<rparr> in
              if \<not> same then NotifySFUStatus s1
              else
                (case sync_forward E vis expectedStatus s1 of
                   None \<Rightarrow> None
                 | Some s2 \<Rightarrow> sync_proceed E vis expectedStatus s2))))"

definition handleSessionEvent :: "texts \<Rightarrow> session_event \<Rightarrow> ISGLBSyncer \<Rightarrow> ISGLBSyncer option" where
  "handleSessionEvent E event s =
     (if State event = SessionEvent_ADD then
        (case Add (client_ops E) (clientSet s) \<lparr>Client = SE_Session event\<rparr> of
           None \<Rightarrow> None
         | Some index \<Rightarrow> NotifySFUStatus (s\<lparr>clientSet := index\<rparr>))
      else if State event = SessionEvent_REMOVE then
        (case Del (client_ops E) (clientSet s) \<lparr>Client = SE_Session event\<rparr> of
           None \<Rightarrow> None
         | Some index \<Rightarrow> NotifySFUStatus (s\<lparr>clientSet := index\<rparr>))
      else Some s)"

text \<open>The status that \<open>main\<close> hands to the ISGLB client.\<close>

definition current_status :: "texts \<Rightarrow> syncer_visits \<Rightarrow> ISGLBSyncer \<Rightarrow> sfu_status option" where
  "current_status E vis s =
     (case (Sort (forward_ops E) (set_ord vis) (forwardTrackSet s),
            Sort (proceed_ops E vis) (set_ord vis) (proceedTrackSet s),
            Sort (client_ops E) (set_ord vis) (clientSet s)) of
        (Some fs, Some ps, Some cs) \<Rightarrow>
          Some \<lparr>SFU = Some (descSFU s), ForwardTracks = ToForwardTracks fs,
                ProceedTracks = ToProceedTracks ps, Clients = ToClientSessions cs\<rparr>
      | _ \<Rightarrow> None)"

text \<open>The three cases of \<open>main\<close>'s \<open>select\<close>. A closed channel yields what it still buffers first.\<close>

definition main_event :: "texts \<Rightarrow> ISGLBSyncer \<Rightarrow> ISGLBSyncer option" where
  "main_event E s =
     (case sessionEventCh s of
        event # rest \<Rightarrow> handleSessionEvent E event (s\<lparr>sessionEventCh := rest\<rparr>)
      | [] \<Rightarrow> Some (s\<lparr>running := False\<rparr>))"

definition main_recv :: "texts \<Rightarrow> syncer_visits \<Rightarrow> ISGLBSyncer \<Rightarrow> ISGLBSyncer option" where
  "main_recv E vis s =
     (case statusRecvCh s of
        Some st \<Rightarrow> syncStatus E vis st (s\<lparr>statusRecvCh := None\<rparr>)
      | None \<Rightarrow> Some (s\<lparr>running := False\<rparr>))"

definition main_send :: "texts \<Rightarrow> syncer_visits \<Rightarrow> ISGLBSyncer \<Rightarrow> ISGLBSyncer option" where
  "main_send E vis s =
     (if statusSendCh s
      then (case current_status E vis s of
              None \<Rightarrow> None
            | Some st \<Rightarrow> Some (s\<lparr>statusSendCh := False, sent := sent s @ [st]\<rparr>))
      else Some (s\<lparr>running := False\<rparr>))"

text \<open>Closing a closed channel panics.\<close>

definition Stop :: "ISGLBSyncer \<Rightarrow> ISGLBSyncer option" where
  "Stop s = (if closed s then None else Some (s\<lparr>closed := True\<rparr>))"

text \<open>
  The syncer among the goroutines that feed it: \<open>allowed\<close> are the statuses its server may send.
  A step to \<^const>\<open>None\<close> is a panic. A case of the \<open>select\<close> is ready when its channel holds a value
  or is closed.
\<close>

inductive syncer_step ::
    "texts \<Rightarrow> (sfu_status \<Rightarrow> bool) \<Rightarrow> ISGLBSyncer \<Rightarrow> ISGLBSyncer option \<Rightarrow> bool"
  for E :: texts and allowed :: "sfu_status \<Rightarrow> bool" where
  status: "allowed st \<Longrightarrow> syncer_step E allowed s (OnSFUStatusRecv st s)"
| fetched: "\<not> closed s \<Longrightarrow> length (sessionEventCh s) < sessionEventCh_cap \<Longrightarrow>
    syncer_step E allowed s
      (Some (s\<lparr>sessionEventCh := sessionEventCh s @ [SessionEvent_Clone event]\<rparr>))"
| event: "running s \<Longrightarrow> sessionEventCh s \<noteq> [] \<or> closed s \<Longrightarrow>
    syncer_step E allowed s (main_event E s)"
| recv: "running s \<Longrightarrow> statusRecvCh s \<noteq> None \<or> closed s \<Longrightarrow>
    syncer_step E allowed s (main_recv E vis s)"
| send: "running s \<Longrightarrow> statusSendCh s \<or> closed s \<Longrightarrow>
    syncer_step E allowed s (main_send E vis s)"
| stop: "syncer_step E allowed s (Stop s)"

inductive_cases syncer_stepE: "syncer_step E allowed s r"

abbreviation syncer_reachable :: "texts \<Rightarrow> (sfu_status \<Rightarrow> bool) \<Rightarrow> node \<Rightarrow> ISGLBSyncer \<Rightarrow> bool" where
  "syncer_reachable E allowed desc \<equiv>
     reachable (\<lambda>s s'. syncer_step E allowed s (Some s')) (NewSFUStatusSyncer desc)"

lemma syncer_reachable_init: "syncer_reachable E allowed desc (NewSFUStatusSyncer desc)"
  by (rule reachable_refl)

lemma syncer_reachable_step:
  "syncer_reachable E allowed desc s \<Longrightarrow> syncer_step E allowed s (Some s') \<Longrightarrow>
   syncer_reachable E allowed desc s'"
  by (rule reachable_step)

section \<open>The sets stay well formed\<close>

definition syncer_inv :: "texts \<Rightarrow> ISGLBSyncer \<Rightarrow> bool" where
  "syncer_inv E s \<longleftrightarrow>
     dset_inv (client_ops E) (clientSet s) \<and> dset_inv (forward_ops E) (forwardTrackSet s) \<and>
     (\<forall>vis. dset_inv (proceed_ops E vis) (proceedTrackSet s))"

lemma proceed_inv_any:
  "dset_inv (ProceedTrackItem_ops render ord) s \<longleftrightarrow> dset_inv (ProceedTrackItem_ops render ord') s"
  by (simp add: dset_inv_def ProceedTrackItem_ops_def)

lemma NotifySFUStatus_SomeD:
  "NotifySFUStatus s = Some s' \<Longrightarrow> \<not> closed s \<and> s' = s\<lparr>statusSendCh := True\<rparr>"
  by (simp add: NotifySFUStatus_def split: if_splits)

text \<open>A status that is adopted: it is for this SFU and names the clients this SFU has.\<close>

definition accepted :: "texts \<Rightarrow> sfu_status \<Rightarrow> ISGLBSyncer \<Rightarrow> bool" where
  "accepted E st s \<longleftrightarrow>
     node_text E (SFU st) = node_text E (Some (descSFU s)) \<and>
     (\<forall>c \<in> set (Clients st). agrees (client_ops E) (contents (clientSet s)) \<lparr>Client = c\<rparr>) \<and>
     (\<forall>k \<in> dom (clientSet s). \<exists>c \<in> set (Clients st). client_key c = k)"

lemma client_IsSame:
  assumes "finite (dom (clientSet s))"
    "IsSame (client_ops E) ord (clientSet s) (Clients_ToDisorderSetItemList cs) = Some (same, index)"
  shows "same \<longleftrightarrow>
      (\<forall>c \<in> set cs. agrees (client_ops E) (contents (clientSet s)) \<lparr>Client = c\<rparr>) \<and>
      (\<forall>k \<in> dom (clientSet s). \<exists>c \<in> set cs. client_key c = k)"
  using IsSame_result [OF assms]
  by (simp add: Clients_ToDisorderSetItemList_def ClientNeededSessionItem_ops_def)

lemma syncStatus_cases:
  assumes "syncer_inv E s" "syncStatus E vis st s = Some s'"
  obtains (rejected) index where "\<not> accepted E st s" "contents index = contents (clientSet s)"
      "\<not> closed s" "s' = s\<lparr>clientSet := index, statusSendCh := True\<rparr>"
    | (adopted) index fs fadd fdel frep ps padd pdel prep where
      "accepted E st s" "contents index = contents (clientSet s)"
      "Update (forward_ops E) (set_ord vis) (forwardTrackSet s)
         (ForwardTracks_ToDisorderSetItemList (ForwardTracks st)) = Some (fs, fadd, fdel, frep)"
      "Update (proceed_ops E vis) (set_ord vis) (proceedTrackSet s)
         (ProceedTracks_ToDisorderSetItemList (ProceedTracks st)) = Some (ps, padd, pdel, prep)"
      "s' = s\<lparr>clientSet := index, forwardTrackSet := fs, proceedTrackSet := ps,
         router_log := router_log s @ forward_calls fdel frep fadd @ proceed_calls pdel prep padd\<rparr>"
proof (cases "node_text E (SFU st) = node_text E (Some (descSFU s))")
  case False
  with assms(2) have "\<not> closed s" "s' = s\<lparr>statusSendCh := True\<rparr>"
    by (auto simp: syncStatus_def dest: NotifySFUStatus_SomeD)
  with False show thesis by (intro rejected [of "clientSet s"]) (auto simp: accepted_def)
next
  case True
  with assms(2) obtain same index
    where same: "IsSame (client_ops E) (set_ord vis) (clientSet s)
        (Clients_ToDisorderSetItemList (Clients st)) = Some (same, index)"
    by (auto simp: syncStatus_def split: option.splits)
  have fin: "finite (dom (clientSet s))" using assms(1) by (simp add: syncer_inv_def dset_inv_def)
  have acc: "same \<longleftrightarrow> accepted E st s"
    using client_IsSame [OF fin same] True by (simp add: accepted_def)
  note same_contents = IsSame_contents [OF same]
  show thesis
  proof (cases same)
    case False
    with assms(2) same True have "\<not> closed s" "s' = s\<lparr>clientSet := index, statusSendCh := True\<rparr>"
      by (auto simp: syncStatus_def Let_def dest: NotifySFUStatus_SomeD)
    with False acc same_contents show thesis by (intro rejected) simp_all
  next
    case same_clients: True
    with assms(2) same True obtain s2
      where fwd: "sync_forward E vis st (s\<lparr>clientSet := index\<rparr>) = Some s2"
        and prc: "sync_proceed E vis st s2 = Some s'"
      by (auto simp: syncStatus_def Let_def split: option.splits)
    from fwd obtain fs fadd fdel frep
      where "Update (forward_ops E) (set_ord vis) (forwardTrackSet s)
         (ForwardTracks_ToDisorderSetItemList (ForwardTracks st)) = Some (fs, fadd, fdel, frep)"
        and s2: "s2 = s\<lparr>clientSet := index, forwardTrackSet := fs,
          router_log := router_log s @ forward_calls fdel frep fadd\<rparr>"
      by (auto simp: sync_forward_def split: option.splits)
    moreover from prc obtain ps padd pdel prep
      where "Update (proceed_ops E vis) (set_ord vis) (proceedTrackSet s)
         (ProceedTracks_ToDisorderSetItemList (ProceedTracks st)) = Some (ps, padd, pdel, prep)"
        and "s' = s2\<lparr>proceedTrackSet := ps, router_log := router_log s2 @ proceed_calls pdel prep padd\<rparr>"
      by (auto simp: sync_proceed_def s2 split: option.splits)
    ultimately show thesis
      using same_clients acc same_contents by (intro adopted) simp_all
  qed
qed

lemma handleSessionEvent_cases:
  assumes "handleSessionEvent E event s = Some s'"
  obtains (add) index where "State event = SessionEvent_ADD" "\<not> closed s"
      "Add (client_ops E) (clientSet s) \<lparr>Client = SE_Session event\<rparr> = Some index"
      "s' = s\<lparr>clientSet := index, statusSendCh := True\<rparr>"
    | (remove) index where "State event = SessionEvent_REMOVE" "\<not> closed s"
      "Del (client_ops E) (clientSet s) \<lparr>Client = SE_Session event\<rparr> = Some index"
      "s' = s\<lparr>clientSet := index, statusSendCh := True\<rparr>"
    | (other) "State event \<noteq> SessionEvent_ADD" "State event \<noteq> SessionEvent_REMOVE" "s' = s"
  using assms unfolding handleSessionEvent_def
  by (auto dest!: NotifySFUStatus_SomeD split: if_splits option.splits)

lemma current_status_clients:
  assumes "syncer_inv E s" "current_status E vis s = Some st"
  shows "Clients st = map (\<lambda>k. Client (the (contents (clientSet s) k))) (sorted_list_of_set (dom (clientSet s)))"
proof -
  have inv: "dset_inv (client_ops E) (clientSet s)" using assms(1) by (simp add: syncer_inv_def)
  have fin: "finite (dom (clientSet s))" using inv by (simp add: dset_inv_def)
  obtain cs where "Sort (client_ops E) (set_ord vis) (clientSet s) = Some cs"
    "Clients st = ToClientSessions cs"
    using assms(2) by (auto simp: current_status_def split: option.splits)
  then show ?thesis
    using client.Sort_ascending [OF inv, of "set_ord vis"] fin
    by (auto simp: ToClientSessions_def client.Clone_id contents_def)
qed

lemma syncStatus_inv:
  assumes "syncer_inv E s" "syncStatus E vis st s = Some s'"
  shows "syncer_inv E s'"
  using assms
proof (cases rule: syncStatus_cases)
  case (rejected index)
  have "dset_inv (client_ops E) index \<longleftrightarrow> dset_inv (client_ops E) (clientSet s)"
    using rejected(2) by (rule dset_inv_cong)
  with assms(1) show ?thesis by (simp add: syncer_inv_def rejected(4))
next
  case (adopted index fs fadd fdel frep ps padd pdel prep)
  have "dset_inv (forward_ops E) (forwardTrackSet s)" using assms(1) by (simp add: syncer_inv_def)
  then have "dset_inv (forward_ops E) fs" using adopted(3) by (rule fwd.Update_inv)
  moreover have "dset_inv (proceed_ops E vis') ps" for vis'
  proof -
    have "dset_inv (proceed_ops E vis) (proceedTrackSet s)" using assms(1) by (simp add: syncer_inv_def)
    then have "dset_inv (proceed_ops E vis) ps" using adopted(4) by (rule proc.Update_inv)
    then show ?thesis by (rule proceed_inv_any [THEN iffD1])
  qed
  moreover have "dset_inv (client_ops E) index"
    using assms(1) by (simp add: syncer_inv_def dset_inv_cong [OF adopted(2)])
  ultimately show ?thesis
    by (simp add: syncer_inv_def adopted(5))
qed

lemma main_recv_cases:
  assumes "main_recv E vis s = Some s'"
  obtains "statusRecvCh s = None" "s' = s\<lparr>running := False\<rparr>"
    | st where "statusRecvCh s = Some st" "syncStatus E vis st (s\<lparr>statusRecvCh := None\<rparr>) = Some s'"
  using assms by (auto simp: main_recv_def split: option.splits)

lemma syncer_inv_step:
  assumes "syncer_step E allowed s (Some s')" "syncer_inv E s"
  shows "syncer_inv E s'"
proof -
  from assms(1) show ?thesis
  proof cases
    case event
    show ?thesis
    proof (cases "sessionEventCh s")
      case Nil
      with event assms(2) show ?thesis by (simp add: main_event_def syncer_inv_def)
    next
      case (Cons ev rest)
      with event have "handleSessionEvent E ev (s\<lparr>sessionEventCh := rest\<rparr>) = Some s'"
        by (simp add: main_event_def)
      then show ?thesis
        using assms(2) by (cases rule: handleSessionEvent_cases)
          (auto simp: syncer_inv_def intro: client.Add_inv client.Del_inv)
    qed
  next
    case (recv vis)
    have "syncer_inv E (s\<lparr>statusRecvCh := None\<rparr>)" "syncer_inv E (s\<lparr>running := False\<rparr>)"
      using assms(2) by (simp_all add: syncer_inv_def)
    with recv(1) [symmetric] show ?thesis
      by (auto elim!: main_recv_cases intro: syncStatus_inv)
  next
    case (send vis)
    with assms(2) show ?thesis
      by (auto simp: main_send_def syncer_inv_def split: option.splits if_splits)
  qed (use assms(2) in \<open>auto simp: syncer_inv_def OnSFUStatusRecv_def Stop_def split: if_splits\<close>)
qed

lemma syncer_inv_reachable: "syncer_reachable E allowed desc s \<Longrightarrow> syncer_inv E s"
  by (induction rule: reachable_invariant)
    (auto intro: syncer_inv_step,
     simp add: syncer_inv_def NewSFUStatusSyncer_def dset_inv_def NewDisorderSet_def)

section \<open>The router follows the sets\<close>

text \<open>
  What a router that does as it is told routes after a sequence of calls: forwarded tracks by
  their source and session, proceeded tracks by their destination session.
\<close>

fun forward_route :: "(string, ForwardTrackItem) gomap \<Rightarrow> router_call \<Rightarrow> (string, ForwardTrackItem) gomap" where
  "forward_route r (StopForwardTrack t) = r(the (forward_key t) := None)"
| "forward_route r (ReplaceForwardTrack old new) = r(the (forward_key new) \<mapsto> \<lparr>FT_Track = new\<rparr>)"
| "forward_route r (StartForwardTrack t) = r(the (forward_key t) \<mapsto> \<lparr>FT_Track = t\<rparr>)"
| "forward_route r _ = r"

fun proceed_route :: "(string, ProceedTrackItem) gomap \<Rightarrow> router_call \<Rightarrow> (string, ProceedTrackItem) gomap" where
  "proceed_route r (StopProceedTrack t) = r(DstSessionId t := None)"
| "proceed_route r (ReplaceProceedTrack old new) = r(DstSessionId new \<mapsto> \<lparr>PT_Track = new\<rparr>)"
| "proceed_route r (StartProceedTrack t) = r(DstSessionId t \<mapsto> \<lparr>PT_Track = t\<rparr>)"
| "proceed_route r _ = r"

definition forward_routes :: "router_call list \<Rightarrow> (string, ForwardTrackItem) gomap" where
  "forward_routes log = foldl forward_route Map.empty log"

definition proceed_routes :: "router_call list \<Rightarrow> (string, ProceedTrackItem) gomap" where
  "proceed_routes log = foldl proceed_route Map.empty log"

lemma foldl_ignored [simp]: "foldl (\<lambda>r x. r) r xs = r"
  by (induction xs) simp_all

lemma track_item_collapse [simp]:
  "\<lparr>FT_Track = FT_Track i\<rparr> = (i :: ForwardTrackItem)"
  "\<lparr>PT_Track = PT_Track j\<rparr> = (j :: ProceedTrackItem)"
  by (cases i, simp) (cases j, simp)

lemma forward_calls_replay:
  "foldl forward_route r (forward_calls del rep add) = replay (ForwardTrackItem_ops render) r del rep add"
  "foldl proceed_route r' (forward_calls del rep add) = r'"
  by (simp_all add: forward_calls_def foldl_map replay_def replay_add_def replay_replace_def
      replay_del_def ForwardTrackItem_ops_def)

lemma proceed_calls_replay:
  "foldl proceed_route r (proceed_calls pdel prep padd)
     = replay (ProceedTrackItem_ops render ord) r pdel prep padd"
  "foldl forward_route r' (proceed_calls pdel prep padd) = r'"
  by (simp_all add: proceed_calls_def foldl_map replay_def replay_add_def replay_replace_def
      replay_del_def ProceedTrackItem_ops_def)

text \<open>A status whose tracks have different keys.\<close>

definition unambiguous :: "sfu_status \<Rightarrow> bool" where
  "unambiguous st \<longleftrightarrow> distinct (map forward_key (ForwardTracks st)) \<and>
     distinct (map DstSessionId (ProceedTracks st))"

definition routed :: "ISGLBSyncer \<Rightarrow> bool" where
  "routed s \<longleftrightarrow> forward_routes (router_log s) = contents (forwardTrackSet s) \<and>
     proceed_routes (router_log s) = contents (proceedTrackSet s)"

lemma keys_distinct:
  assumes "unambiguous st"
  shows "distinct (map (Key (ForwardTrackItem_ops render)) (ForwardTracks_ToDisorderSetItemList (ForwardTracks st)))"
    and "distinct (map (Key (ProceedTrackItem_ops render' ord)) (ProceedTracks_ToDisorderSetItemList (ProceedTracks st)))"
proof -
  show "distinct (map (Key (ForwardTrackItem_ops render)) (ForwardTracks_ToDisorderSetItemList (ForwardTracks st)))"
    using assms by (simp add: unambiguous_def ForwardTracks_ToDisorderSetItemList_def
        ForwardTrackItem_ops_def o_def)
  have "map (Key (ProceedTrackItem_ops render' ord)) (ProceedTracks_ToDisorderSetItemList (ProceedTracks st))
      = map Some (map DstSessionId (ProceedTracks st))"
    by (simp add: ProceedTracks_ToDisorderSetItemList_def ProceedTrackItem_ops_def)
  then show "distinct (map (Key (ProceedTrackItem_ops render' ord)) (ProceedTracks_ToDisorderSetItemList (ProceedTracks st)))"
    using assms by (simp only: unambiguous_def distinct_map) auto
qed

lemma syncStatus_routed:
  assumes "syncer_inv E s" "syncStatus E vis st s = Some s'" "unambiguous st" "routed s"
  shows "routed s'"
  using assms(1,2)
proof (cases rule: syncStatus_cases)
  case (rejected index)
  with assms(4) show ?thesis by (simp add: routed_def)
next
  case (adopted index fs fadd fdel frep ps padd pdel prep)
  note keys = keys_distinct [OF assms(3)]
  have fi: "dset_inv (forward_ops E) (forwardTrackSet s)"
    and pi: "dset_inv (proceed_ops E vis) (proceedTrackSet s)"
    using assms(1) by (simp_all add: syncer_inv_def)
  have "foldl forward_route (contents (forwardTrackSet s)) (forward_calls fdel frep fadd) = contents fs"
    unfolding forward_calls_replay(1) [of _ _ _ _ "forward_text E"]
    using fi keys(1) adopted(3) by (rule fwd.replay_Update)
  moreover have "foldl proceed_route (contents (proceedTrackSet s)) (proceed_calls pdel prep padd) = contents ps"
    unfolding proceed_calls_replay(1) [of _ _ _ _ "proceed_text E" "src_ord vis"]
    using pi keys(2) adopted(4) by (rule proc.replay_Update)
  ultimately show ?thesis
    using assms(4) by (simp add: routed_def adopted(5) forward_routes_def proceed_routes_def
        forward_calls_replay(2) proceed_calls_replay(2))
qed

text \<open>Adopting the same status again calls the router for nothing.\<close>

lemma syncStatus_again:
  assumes "syncer_inv E s" "unambiguous st" "syncStatus E vis st s = Some s'"
    "syncStatus E vis' st s' = Some s''" "accepted E st s"
  shows "router_log s'' = router_log s'"
proof -
  have inv': "syncer_inv E s'" by (rule syncStatus_inv [OF assms(1,3)])
  note keys = keys_distinct [OF assms(2)]
  have fi: "dset_inv (forward_ops E) (forwardTrackSet s)"
    and pi: "dset_inv (proceed_ops E vis) (proceedTrackSet s)"
    using assms(1) by (simp_all add: syncer_inv_def)
  from inv' assms(4) show ?thesis
  proof (cases rule: syncStatus_cases)
    case (rejected index)
    then show ?thesis by simp
  next
    case second: (adopted index fs fadd fdel frep ps padd pdel prep)
    from assms(1,3) show ?thesis
    proof (cases rule: syncStatus_cases)
      case (rejected index0)
      with assms(5) show ?thesis by simp
    next
      case first: (adopted index0 fs0 fadd0 fdel0 frep0 ps0 padd0 pdel0 prep0)
      have "fadd = [] \<and> fdel = [] \<and> frep = []"
        using fwd.Update_again [OF fi keys(1) first(3)] second(3) by (simp add: first(5))
      moreover have "padd = [] \<and> pdel = [] \<and> prep = []"
        using proc.Update_again [OF pi keys(2) first(4)] second(4)
        by (simp add: first(5) proceed_ops_any [of _ "src_ord vis'" "src_ord vis"])
      ultimately show ?thesis by (simp add: second(5) forward_calls_def proceed_calls_def)
    qed
  qed
qed

text \<open>The statuses that wait in the channel are among those the server may send.\<close>

lemma handleSessionEvent_frame:
  "handleSessionEvent E event s = Some s' \<Longrightarrow>
   router_log s' = router_log s \<and> forwardTrackSet s' = forwardTrackSet s \<and>
   proceedTrackSet s' = proceedTrackSet s \<and> statusRecvCh s' = statusRecvCh s"
  by (erule handleSessionEvent_cases) simp_all

lemma syncStatus_frame:
  "syncer_inv E s \<Longrightarrow> syncStatus E vis st s = Some s' \<Longrightarrow> statusRecvCh s' = statusRecvCh s"
  by (erule (1) syncStatus_cases) simp_all

lemma routed_step:
  assumes "syncer_step E allowed s (Some s')" "syncer_inv E s" "\<And>st. allowed st \<Longrightarrow> unambiguous st"
    "routed s \<and> (\<forall>st. statusRecvCh s = Some st \<longrightarrow> allowed st)"
  shows "routed s' \<and> (\<forall>st. statusRecvCh s' = Some st \<longrightarrow> allowed st)"
  using assms(1)
proof cases
  case event
  show ?thesis
  proof (cases "sessionEventCh s")
    case Nil
    with event assms(4) show ?thesis by (simp add: main_event_def routed_def)
  next
    case (Cons ev rest)
    with event have "handleSessionEvent E ev (s\<lparr>sessionEventCh := rest\<rparr>) = Some s'"
      by (simp add: main_event_def)
    from handleSessionEvent_frame [OF this] assms(4) show ?thesis by (simp add: routed_def)
  qed
next
  case (recv vis)
  from recv(1) [symmetric] show ?thesis
  proof (cases rule: main_recv_cases)
    case 1
    with assms(4) show ?thesis by (simp add: routed_def)
  next
    case (2 st)
    have inv: "syncer_inv E (s\<lparr>statusRecvCh := None\<rparr>)" and r: "routed (s\<lparr>statusRecvCh := None\<rparr>)"
      using assms(2,4) by (simp_all add: syncer_inv_def routed_def)
    have "unambiguous st" by (rule assms(3)) (use 2(1) assms(4) in simp)
    from syncStatus_routed [OF inv 2(2) this r] have "routed s'" .
    with syncStatus_frame [OF inv 2(2)] show ?thesis by simp
  qed
next
  case (send vis)
  with assms(4) show ?thesis by (auto simp: main_send_def routed_def split: option.splits if_splits)
qed (use assms(4) in \<open>auto simp: OnSFUStatusRecv_def Stop_def routed_def split: if_splits\<close>)

lemma routed_reachable:
  assumes "syncer_reachable E allowed desc s" "\<And>st. allowed st \<Longrightarrow> unambiguous st"
  shows "routed s"
proof -
  have "routed s \<and> (\<forall>st. statusRecvCh s = Some st \<longrightarrow> allowed st)"
    using assms(1)
  proof (induction rule: reachable_invariant)
    case init
    show ?case by (simp add: routed_def forward_routes_def proceed_routes_def NewSFUStatusSyncer_def
          NewDisorderSet_def contents_def)
  next
    case (step s s')
    show ?case by (rule routed_step [OF step(2) syncer_inv_reachable [OF step(1)] assms(2) step(3)])
  qed
  then show ?thesis ..
qed

section \<open>No change of the clients is lost\<close>

definition reported_clients :: "ISGLBSyncer \<Rightarrow> client_needed_session list" where
  "reported_clients s =
     map (\<lambda>k. Client (the (contents (clientSet s) k))) (sorted_list_of_set (dom (clientSet s)))"

text \<open>The last status handed to the client names the clients of now, or another one is due.\<close>

definition clients_known :: "ISGLBSyncer \<Rightarrow> bool" where
  "clients_known s \<longleftrightarrow>
     statusSendCh s \<or> (sent s \<noteq> [] \<and> Clients (last (sent s)) = reported_clients s)"

lemma reported_clients_cong:
  "contents (clientSet s) = contents (clientSet t) \<Longrightarrow> reported_clients s = reported_clients t"
  unfolding reported_clients_def by (metis contents_simps(3))

lemma clients_known_step:
  assumes "syncer_step E allowed s (Some s')" "syncer_inv E s" "clients_known s"
  shows "clients_known s'"
  using assms(1)
proof cases
  case event
  show ?thesis
  proof (cases "sessionEventCh s")
    case Nil
    with event assms(3) show ?thesis by (simp add: main_event_def clients_known_def reported_clients_def)
  next
    case (Cons ev rest)
    with event have "handleSessionEvent E ev (s\<lparr>sessionEventCh := rest\<rparr>) = Some s'"
      by (simp add: main_event_def)
    then show ?thesis using assms(3)
      by (cases rule: handleSessionEvent_cases) (auto simp: clients_known_def reported_clients_def)
  qed
next
  case (recv vis)
  from recv(1) [symmetric] show ?thesis
  proof (cases rule: main_recv_cases)
    case 1
    with assms(3) show ?thesis by (simp add: clients_known_def reported_clients_def)
  next
    case (2 st)
    have inv: "syncer_inv E (s\<lparr>statusRecvCh := None\<rparr>)"
      using assms(2) by (simp add: syncer_inv_def)
    from this 2(2) show ?thesis
    proof (cases rule: syncStatus_cases)
      case (rejected index)
      then show ?thesis by (simp add: clients_known_def)
    next
      case (adopted index fs fadd fdel frep ps padd pdel prep)
      have "reported_clients s' = reported_clients s"
        using adopted(2,5) by (intro reported_clients_cong) simp
      with assms(3) show ?thesis by (simp add: clients_known_def adopted(5))
    qed
  qed
next
  case (send vis)
  show ?thesis
  proof (cases "statusSendCh s")
    case True
    with send obtain st where "current_status E vis s = Some st"
      and s': "s' = s\<lparr>statusSendCh := False, sent := sent s @ [st]\<rparr>"
      by (auto simp: main_send_def split: option.splits)
    with current_status_clients [OF assms(2)] show ?thesis
      by (simp add: clients_known_def reported_clients_def)
  next
    case False
    with send assms(3) show ?thesis by (simp add: main_send_def clients_known_def reported_clients_def)
  qed
qed (use assms(3) in \<open>auto simp: OnSFUStatusRecv_def Stop_def clients_known_def reported_clients_def
      split: if_splits\<close>)

lemma clients_known_reachable: "syncer_reachable E allowed desc s \<Longrightarrow> clients_known s"
  by (induction rule: reachable_invariant)
    (auto intro: clients_known_step syncer_inv_reachable,
     simp add: clients_known_def NewSFUStatusSyncer_def)

end
