(* ===== verification/Syncer_Mirror.thy ===== *)
theory Syncer_Mirror
  imports Syncer
begin

text \<open>
  What a status says of a syncer: \<open>mirrors st s\<close> when it names the syncer's node and exactly the
  tracks and clients its sets hold, as the status does that \<open>main\<close> hands to the ISGLB client;
  \<open>holds st s\<close> when the syncer holds its tracks, as it does after it adopted the status, whatever the
  texts are by which the sets compare the tracks, if there is one track for every key.
\<close>

section \<open>Definitions\<close>

definition held_forwards :: "ISGLBSyncer \<Rightarrow> forward_track set" where
  "held_forwards s = FT_Track ` ran (contents (forwardTrackSet s))"

definition held_proceeds :: "ISGLBSyncer \<Rightarrow> proceed_track set" where
  "held_proceeds s = PT_Track ` ran (contents (proceedTrackSet s))"

definition held_clients :: "ISGLBSyncer \<Rightarrow> client_needed_session set" where
  "held_clients s = Client ` ran (contents (clientSet s))"

lemmas held_defs = held_forwards_def held_proceeds_def held_clients_def

definition mirrors :: "sfu_status \<Rightarrow> ISGLBSyncer \<Rightarrow> bool" where
  "mirrors st s \<longleftrightarrow> SFU st = Some (descSFU s) \<and> set (ForwardTracks st) = held_forwards s \<and>
     set (ProceedTracks st) = held_proceeds s \<and> set (Clients st) = held_clients s"

definition holds :: "sfu_status \<Rightarrow> ISGLBSyncer \<Rightarrow> bool" where
  "holds st s \<longleftrightarrow> set (ForwardTracks st) = held_forwards s \<and> set (ProceedTracks st) = held_proceeds s"

lemma mirrors_holds: "mirrors st s \<Longrightarrow> holds st s"
  by (simp add: mirrors_def holds_def)

text \<open>Two statuses never name different tracks under the same key.\<close>

definition one_track_per_key :: "sfu_status \<Rightarrow> sfu_status \<Rightarrow> bool" where
  "one_track_per_key x y \<longleftrightarrow>
     (\<forall>t \<in> set (ForwardTracks x). \<forall>u \<in> set (ForwardTracks y). forward_key t = forward_key u \<longrightarrow> t = u) \<and>
     (\<forall>t \<in> set (ProceedTracks x). \<forall>u \<in> set (ProceedTracks y). DstSessionId t = DstSessionId u \<longrightarrow> t = u)"

text \<open>Everything \<^const>\<open>mirrors\<close> looks at.\<close>

definition same_held :: "ISGLBSyncer \<Rightarrow> ISGLBSyncer \<Rightarrow> bool" where
  "same_held s t \<longleftrightarrow> descSFU s = descSFU t \<and> contents (forwardTrackSet s) = contents (forwardTrackSet t) \<and>
     contents (proceedTrackSet s) = contents (proceedTrackSet t) \<and> contents (clientSet s) = contents (clientSet t)"

lemma mirrors_cong: "same_held s t \<Longrightarrow> mirrors st s \<longleftrightarrow> mirrors st t"
  by (simp add: same_held_def mirrors_def held_defs)

lemma holds_cong: "same_held s t \<Longrightarrow> holds st s \<longleftrightarrow> holds st t"
  by (simp add: same_held_def holds_def held_defs)

section \<open>After an update the set holds the list\<close>

context disorder_value
begin

lemma Update_exact:
  assumes "dset_inv I s" "distinct (map (Key I) xs)" "Update I ord s xs = Some (s', add, del, rep)"
    and exact: "\<And>d x. d \<in> ran (contents s) \<Longrightarrow> x \<in> set xs \<Longrightarrow> Key I d = Key I x \<Longrightarrow> d = x"
  shows "ran (contents s') = set xs"
proof -
  have m: "merged I (contents s k) x = x" if "x \<in> set xs" "Key I x = Some k" for k x
    using exact [OF _ that(1)] that(2) assms(1)
    by (auto simp: merged_def Clone_id dset_inv_iff_contents intro: ranI split: option.split)
  have c: "contents s' k = last_such (\<lambda>x. Key I x = Some k) xs" for k
    using m by (auto simp: Update_contents [OF assms(1-3)] dest: last_such_SomeD split: option.split)
  show ?thesis
  proof (intro equalityI subsetI)
    fix x assume "x \<in> ran (contents s')"
    then show "x \<in> set xs" by (auto simp: ran_def c dest: last_such_SomeD)
  next
    fix x assume x: "x \<in> set xs"
    then obtain k where k: "Key I x = Some k" using Update_None_iff [of I ord s xs] assms(3) by auto
    from last_such_unique [OF assms(2) x k] have "contents s' k = Some x" by (simp add: c)
    then show "x \<in> ran (contents s')" by (rule ranI)
  qed
qed

lemma Sort_exact:
  assumes "dset_inv I s" "Sort I ord s = Some xs"
  shows "set xs = ran (contents s)" "distinct (map (Key I) xs)"
proof -
  have fin: "finite (dom s)" using assms(1) by (simp add: dset_inv_def)
  have xs: "xs = map (\<lambda>k. data (the (s k))) (sorted_list_of_set (dom s))"
    using Sort_ascending [OF assms(1), of ord] assms(2) by (simp add: Clone_id)
  then show "set xs = ran (contents s)" using fin by (force simp: ran_def contents_def image_iff)
  have "map (Key I) xs = map Some (sorted_list_of_set (dom s))"
    using assms(1) fin by (auto simp: xs dset_inv_def)
  then show "distinct (map (Key I) xs)" by (simp add: distinct_map)
qed

end

section \<open>Adopted and reported statuses\<close>

lemma syncStatus_holds:
  assumes "syncer_inv E s" "unambiguous st" "holds x s" "one_track_per_key x st"
    and "syncStatus E vis st s = Some s'"
  shows "statusSendCh s' \<and> same_held s s' \<or> holds st s' \<and> statusSendCh s' = statusSendCh s"
  using assms(1,5)
proof (cases rule: syncStatus_cases)
  case (rejected index)
  then show ?thesis by (simp add: same_held_def)
next
  case (adopted index fs fadd fdel frep ps padd pdel prep)
  note keys = keys_distinct [OF assms(2)]
  have fi: "dset_inv (forward_ops E) (forwardTrackSet s)"
    and pi: "dset_inv (proceed_ops E vis) (proceedTrackSet s)"
    using assms(1) by (simp_all add: syncer_inv_def)
  have held: "FT_Track d \<in> set (ForwardTracks x)" if "d \<in> ran (contents (forwardTrackSet s))" for d
    using assms(3) that by (simp add: holds_def held_forwards_def)
  have "d = e" if "d \<in> ran (contents (forwardTrackSet s))" "e \<in> set (ForwardTracks_ToDisorderSetItemList (ForwardTracks st))"
    "Key (forward_ops E) d = Key (forward_ops E) e" for d e
    using that held [OF that(1)] assms(4)
    by (auto simp: one_track_per_key_def ForwardTracks_ToDisorderSetItemList_def ForwardTrackItem_ops_def
        intro!: ForwardTrackItem.equality)
  from fwd.Update_exact [OF fi keys(1) adopted(3) this]
  have f: "ran (contents fs) = set (ForwardTracks_ToDisorderSetItemList (ForwardTracks st))" .
  have held: "PT_Track d \<in> set (ProceedTracks x)" if "d \<in> ran (contents (proceedTrackSet s))" for d
    using assms(3) that by (simp add: holds_def held_proceeds_def)
  have "d = e" if "d \<in> ran (contents (proceedTrackSet s))" "e \<in> set (ProceedTracks_ToDisorderSetItemList (ProceedTracks st))"
    "Key (proceed_ops E vis) d = Key (proceed_ops E vis) e" for d e
    using that held [OF that(1)] assms(4)
    by (auto simp: one_track_per_key_def ProceedTracks_ToDisorderSetItemList_def ProceedTrackItem_ops_def
        intro!: ProceedTrackItem.equality)
  from proc.Update_exact [OF pi keys(2) adopted(4) this]
  have p: "ran (contents ps) = set (ProceedTracks_ToDisorderSetItemList (ProceedTracks st))" .
  from f have "held_forwards s' = set (ForwardTracks st)"
    by (simp add: held_forwards_def adopted(5) ForwardTracks_ToDisorderSetItemList_def image_image)
  moreover from p have "held_proceeds s' = set (ProceedTracks st)"
    by (simp add: held_proceeds_def adopted(5) ProceedTracks_ToDisorderSetItemList_def image_image)
  ultimately show ?thesis by (simp add: holds_def adopted(5))
qed

lemma current_status_mirrors:
  assumes "syncer_inv E s" "current_status E vis s = Some st"
  shows "mirrors st s" "unambiguous st"
proof -
  have inv: "dset_inv (client_ops E) (clientSet s)" "dset_inv (forward_ops E) (forwardTrackSet s)"
    "dset_inv (proceed_ops E vis) (proceedTrackSet s)"
    using assms(1) by (simp_all add: syncer_inv_def)
  obtain fs ps cs where sorted: "Sort (forward_ops E) (set_ord vis) (forwardTrackSet s) = Some fs"
      "Sort (proceed_ops E vis) (set_ord vis) (proceedTrackSet s) = Some ps"
      "Sort (client_ops E) (set_ord vis) (clientSet s) = Some cs"
    and st: "st = \<lparr>SFU = Some (descSFU s), ForwardTracks = ToForwardTracks fs,
      ProceedTracks = ToProceedTracks ps, Clients = ToClientSessions cs\<rparr>"
    using assms(2) by (auto simp: current_status_def split: option.splits)
  show "mirrors st s"
    using fwd.Sort_exact(1) [OF inv(2) sorted(1)] proc.Sort_exact(1) [OF inv(3) sorted(2)] client.Sort_exact(1) [OF inv(1) sorted(3)]
    by (simp add: mirrors_def st held_defs ToForwardTracks_def ToProceedTracks_def ToClientSessions_def)
  have "map forward_key (ToForwardTracks fs) = map (Key (forward_ops E)) fs"
    "map (Some \<circ> DstSessionId) (ToProceedTracks ps) = map (Key (proceed_ops E vis)) ps"
    by (simp_all add: ToForwardTracks_def ToProceedTracks_def ForwardTrackItem_ops_def ProceedTrackItem_ops_def)
  then have "distinct (map forward_key (ToForwardTracks fs))" "distinct (map (Some \<circ> DstSessionId) (ToProceedTracks ps))"
    using fwd.Sort_exact(2) [OF inv(2) sorted(1)] proc.Sort_exact(2) [OF inv(3) sorted(2)] by simp_all
  then show "unambiguous st"
    by (simp add: unambiguous_def st distinct_map comp_inj_on_iff [symmetric] inj_on_def)
qed

text \<open>Nothing panics while the syncer runs and the sources of the tracks are there.\<close>

lemma current_status_returns: "syncer_inv E s \<Longrightarrow> current_status E vis s \<noteq> None"
  using fwd.Sort_ascending [of "forward_text E" "forwardTrackSet s" "set_ord vis"]
    proc.Sort_ascending [of "proceed_text E" "src_ord vis" "proceedTrackSet s" "set_ord vis"]
    client.Sort_ascending [of "client_text E" "clientSet s" "set_ord vis"]
  by (simp add: syncer_inv_def current_status_def)

lemma syncStatus_returns:
  assumes "\<not> closed s" "\<forall>t \<in> set (ForwardTracks st). Src t \<noteq> None"
  shows "syncStatus E vis st s \<noteq> None"
proof -
  have "IsSame (client_ops E) (set_ord vis) (clientSet s) (Clients_ToDisorderSetItemList (Clients st)) \<noteq> None"
    by (rule IsSame_returns) (simp add: ClientNeededSessionItem_ops_def)
  moreover have "Update (forward_ops E) (set_ord vis) (forwardTrackSet s) (ForwardTracks_ToDisorderSetItemList (ForwardTracks st)) \<noteq> None"
    using assms(2) by (auto simp: Update_None_iff ForwardTracks_ToDisorderSetItemList_def ForwardTrackItem_ops_def
        forward_key_def split: option.splits)
  moreover have "Update (proceed_ops E vis) (set_ord vis) (proceedTrackSet s) (ProceedTracks_ToDisorderSetItemList (ProceedTracks st)) \<noteq> None"
    by (auto simp: Update_None_iff ProceedTracks_ToDisorderSetItemList_def ProceedTrackItem_ops_def)
  ultimately show ?thesis
    using assms(1) by (auto simp: syncStatus_def NotifySFUStatus_def sync_forward_def sync_proceed_def Let_def split: option.splits)
qed

lemma handleSessionEvent_returns: "\<not> closed s \<Longrightarrow> handleSessionEvent E event s \<noteq> None"
  by (auto simp: handleSessionEvent_def NotifySFUStatus_def Add_def Del_def ClientNeededSessionItem_ops_def)

end
