(* ===== verification/Control_Loop.thy ===== *)
theory Control_Loop
  imports ISGLB_Sender Syncer_Mirror
begin

text \<open>
  The control loop of the whole system: one ISGLB and an SXU behind every connection. The steps are
  those of \<^const>\<open>isglb_step\<close> and \<^const>\<open>syncer_step\<close>; a status that a syncer hands to its client
  travels up to the ISGLB, and what the ISGLB puts into a send channel travels down to the syncer.
  On the way an older status may be dropped for a newer one, as the client's \<open>SingleLatestExec\<close> and
  \<open>routineSFUStatusSend\<close> do (\<open>ISGLB_Sender\<close>). Assumed are that connections stay, that no syncer is
  stopped, and that the statuses of one SXU arrive in the order in which it made them.
\<close>

section \<open>The system\<close>

record 'a deployment =
  dp_texts :: texts
  dp_render :: "sfu_status \<Rightarrow> string"
  dp_render_report :: "quality_report \<Rightarrow> string"
  dp_alg :: "'a algorithm"
  dp_node :: "sig \<Rightarrow> node"

text \<open>
  What the loop needs of a deployment for the SXUs to follow the algorithm: no two SXUs have a node id
  in common, and the text of a status shows its tracks, as prototext reads them back from the
  text format that \<open>String\<close> writes.
\<close>

definition distinct_nodes :: "'a deployment \<Rightarrow> bool" where
  "distinct_nodes D \<longleftrightarrow> inj (\<lambda>g. Nid (dp_node D g))"

definition tracks_readable :: "'a deployment \<Rightarrow> (sfu_status \<Rightarrow> bool) \<Rightarrow> bool" where
  "tracks_readable D good \<longleftrightarrow>
     (\<exists>reader. \<forall>st. good st \<longrightarrow> reader (dp_render D st) = (ForwardTracks st, ProceedTracks st))"

lemma distinct_nodesD: "distinct_nodes D \<Longrightarrow> Nid (dp_node D g) = Nid (dp_node D h) \<longleftrightarrow> g = h"
  by (auto simp: distinct_nodes_def dest: injD)

definition same_tracks :: "sfu_status \<Rightarrow> sfu_status \<Rightarrow> bool" where
  "same_tracks x y \<longleftrightarrow> set (ForwardTracks x) = set (ForwardTracks y) \<and> set (ProceedTracks x) = set (ProceedTracks y)"

lemma tracks_readableD:
  "tracks_readable D good \<Longrightarrow> good x \<Longrightarrow> good y \<Longrightarrow> dp_render D x = dp_render D y \<Longrightarrow> same_tracks x y"
  unfolding tracks_readable_def same_tracks_def by (metis Pair_inject)

lemma same_tracks_holds: "same_tracks x y \<Longrightarrow> holds x s \<longleftrightarrow> holds y s"
  by (simp add: same_tracks_def holds_def)

lemma same_tracks_refl [simp]: "same_tracks x x"
  by (simp add: same_tracks_def)

record 'a cluster =
  balancer :: "'a isglb_state"
  sxus :: "sig \<Rightarrow> ISGLBSyncer"
  uplink :: "sig \<Rightarrow> sfu_status list"
  downlink :: "sig \<Rightarrow> sfu_status list"

definition cluster_init :: "'a deployment \<Rightarrow> 'a \<Rightarrow> 'a cluster" where
  "cluster_init D a = \<lparr>balancer = isglb_init a, sxus = (\<lambda>g. NewSFUStatusSyncer (dp_node D g)),
     uplink = (\<lambda>_. []), downlink = (\<lambda>_. [])\<rparr>"

abbreviation balancer_step :: "'a deployment \<Rightarrow> 'a isglb_state \<Rightarrow> 'a isglb_state \<Rightarrow> bool" where
  "balancer_step D \<equiv> isglb_step (dp_render D) (dp_render_report D) (dp_alg D)"

definition sent_to :: "sig \<Rightarrow> (sig \<times> sfu_status) list \<Rightarrow> sfu_status list" where
  "sent_to g out = map snd (filter (\<lambda>p. fst p = g) out)"

text \<open>
  A step of a syncer (what it hands over goes up), a new connection, the arrival of a status or of
  a quality report, a step of the ISGLB's goroutine (what it sends goes down), the arrival of an
  expected status, and the loss of older statuses.
\<close>

inductive cluster_step :: "'a deployment \<Rightarrow> 'a cluster \<Rightarrow> 'a cluster \<Rightarrow> bool" for D where
  sxu: "syncer_step (dp_texts D) (\<lambda>_. False) (sxus c g) (Some s) \<Longrightarrow> \<not> closed s \<Longrightarrow>
    cluster_step D c (c\<lparr>sxus := (sxus c)(g := s),
      uplink := (uplink c)(g := uplink c g @ drop (length (sent (sxus c g))) (sent s))\<rparr>)"
| connect: "balancer_step D (balancer c) l \<Longrightarrow> conns (balancer c) g = Unused \<Longrightarrow> conns l g = Serving \<Longrightarrow>
    cluster_step D c (c\<lparr>balancer := l\<rparr>)"
| transmit: "uplink c g = st # rest \<Longrightarrow> balancer_step D (balancer c) l \<Longrightarrow>
    recvCh l = recvCh (balancer c) @ [request_msg g (Some (SyncRequest_Status st))] \<Longrightarrow>
    cluster_step D c (c\<lparr>balancer := l, uplink := (uplink c)(g := rest)\<rparr>)"
| report: "balancer_step D (balancer c) l \<Longrightarrow>
    recvCh l = recvCh (balancer c) @ [request_msg g (Some (SyncRequest_Report r))] \<Longrightarrow>
    cluster_step D c (c\<lparr>balancer := l\<rparr>)"
| balance: "balancer_step D (balancer c) l \<Longrightarrow> conns l = conns (balancer c) \<Longrightarrow>
    length (recvCh l) \<le> length (recvCh (balancer c)) \<Longrightarrow> outbox l = outbox (balancer c) @ out \<Longrightarrow>
    cluster_step D c (c\<lparr>balancer := l, downlink := (\<lambda>g. downlink c g @ sent_to g out)\<rparr>)"
| deliver: "downlink c g = st # rest \<Longrightarrow> OnSFUStatusRecv st (sxus c g) = Some s \<Longrightarrow>
    cluster_step D c (c\<lparr>sxus := (sxus c)(g := s), downlink := (downlink c)(g := rest)\<rparr>)"
| skip_up: "all_last sts (uplink c g) \<Longrightarrow> cluster_step D c (c\<lparr>uplink := (uplink c)(g := sts)\<rparr>)"
| skip_down: "all_last sts (downlink c g) \<Longrightarrow> cluster_step D c (c\<lparr>downlink := (downlink c)(g := sts)\<rparr>)"

abbreviation cluster_reachable :: "'a deployment \<Rightarrow> 'a \<Rightarrow> 'a cluster \<Rightarrow> bool" where
  "cluster_reachable D a \<equiv> reachable (cluster_step D) (cluster_init D a)"

section \<open>What the loop asks of the algorithm\<close>

text \<open>
  A class of statuses the algorithm can answer, closed under its answers and blind to the order of
  the tracks and to the clients, in which a key stands for one track.
\<close>

locale control_algorithm = pointwise_algorithm +
  fixes good :: "sfu_status \<Rightarrow> bool"
  assumes good_empty: "ForwardTracks x = [] \<Longrightarrow> ProceedTracks x = [] \<Longrightarrow> good x"
    and good_tracks: "good x \<Longrightarrow> unambiguous x \<and> (\<forall>t \<in> set (ForwardTracks x). Src t \<noteq> None)"
    and good_cong: "good x \<Longrightarrow> set (ForwardTracks z) = set (ForwardTracks x) \<Longrightarrow>
      set (ProceedTracks z) = set (ProceedTracks x) \<Longrightarrow> unambiguous z \<Longrightarrow> good z"
    and good_unique: "good x \<Longrightarrow> good y \<Longrightarrow> one_track_per_key x y"
    and good_answer: "good x \<Longrightarrow> \<exists>y. answer x = Some y \<and> good y"
    and answer_Clients: "answer x = Some y \<Longrightarrow> Clients y = Clients x"

section \<open>Invariants\<close>

text \<open>
  A report of the SXU \<open>g\<close> names its node, or that of an SXU with the same node id.
\<close>

definition report_ok :: "'a deployment \<Rightarrow> (sfu_status \<Rightarrow> bool) \<Rightarrow> sig \<Rightarrow> sfu_status \<Rightarrow> bool" where
  "report_ok D good g st \<longleftrightarrow> good st \<and> (\<exists>h. SFU st = Some (dp_node D h) \<and> Nid (dp_node D h) = Nid (dp_node D g))"

definition settled :: "(sfu_status \<Rightarrow> sfu_status option) \<Rightarrow> sfu_status \<Rightarrow> bool" where
  "settled answer st \<longleftrightarrow> answer st = Some st"

text \<open>The algorithm leaves a status with these tracks as it is.\<close>

definition calm :: "(sfu_status \<Rightarrow> sfu_status option) \<Rightarrow> (sfu_status \<Rightarrow> bool) \<Rightarrow> sfu_status \<Rightarrow> bool" where
  "calm answer good x \<longleftrightarrow> (\<exists>y. same_tracks x y \<and> good y \<and> settled answer y)"

definition msg_ok :: "'a deployment \<Rightarrow> (sfu_status \<Rightarrow> bool) \<Rightarrow> isglbRecvMessage \<Rightarrow> bool" where
  "msg_ok D good m \<longleftrightarrow>
     (\<exists>g st. m = request_msg g (Some (SyncRequest_Status st)) \<and> report_ok D good g st) \<or>
     (\<exists>g r. m = request_msg g (Some (SyncRequest_Report r)))"

text \<open>The ISGLB has still to work on a node's status in this batch or in the next.\<close>

definition dirty :: "'a isglb_state \<Rightarrow> string \<Rightarrow> bool" where
  "dirty l n \<longleftrightarrow> (case phase l of Receiving \<Rightarrow> 0 < recvCount (recv l) | Sending dict nids \<Rightarrow> n \<in> set nids | Crashed \<Rightarrow> False)"

definition lb_ok :: "'a deployment \<Rightarrow> (sfu_status \<Rightarrow> sfu_status option) \<Rightarrow> (sfu_status \<Rightarrow> bool) \<Rightarrow> 'a isglb_state \<Rightarrow> bool" where
  "lb_ok D answer good l \<longleftrightarrow> phase l \<noteq> Crashed \<and> (\<forall>g. conns l g \<in> {Unused, Serving}) \<and>
     (\<forall>m \<in> set (recvCh l). msg_ok D good m) \<and>
     (\<forall>n g. (n, g) \<in> mm_rel (WhereToSend (recv l)) \<longrightarrow> n = Nid (dp_node D g)) \<and>
     (\<forall>g x. latestStatus (recv l) (Nid (dp_node D g)) = Some x \<longrightarrow> report_ok D good g (SFUStatus x)) \<and>
     (\<forall>dict nids. phase l = Sending dict nids \<longrightarrow> distinct nids \<and>
        (\<forall>n \<in> set nids. \<exists>x. latestStatus (recv l) n = Some x \<and> dict n = Some \<lparr>SFUStatus = the (answer (SFUStatus x))\<rparr>))"

lemma lb_okD:
  assumes "lb_ok D answer good l"
  shows "phase l \<noteq> Crashed" "conns l g = Unused \<or> conns l g = Serving"
    "m \<in> set (recvCh l) \<Longrightarrow> msg_ok D good m"
    "(n, g) \<in> mm_rel (WhereToSend (recv l)) \<Longrightarrow> n = Nid (dp_node D g)"
    "latestStatus (recv l) (Nid (dp_node D g)) = Some x \<Longrightarrow> report_ok D good g (SFUStatus x)"
    "phase l = Sending dict nids \<Longrightarrow> distinct nids"
    "phase l = Sending dict nids \<Longrightarrow> n \<in> set nids \<Longrightarrow>
       \<exists>x. latestStatus (recv l) n = Some x \<and> dict n = Some \<lparr>SFUStatus = the (answer (SFUStatus x))\<rparr>"
  using assms unfolding lb_ok_def by (elim conjE, simp)+

text \<open>A status the algorithm is not content with is still to be worked on.\<close>

definition lb_calm :: "(sfu_status \<Rightarrow> sfu_status option) \<Rightarrow> (sfu_status \<Rightarrow> bool) \<Rightarrow> 'a isglb_state \<Rightarrow> bool" where
  "lb_calm answer good l \<longleftrightarrow>
     (\<forall>n x. latestStatus (recv l) n = Some x \<longrightarrow> dirty l n \<or> calm answer good (SFUStatus x))"

text \<open>The statuses of a connection that wait in \<open>recvCh\<close>.\<close>

definition status_of :: "sig \<Rightarrow> isglbRecvMessage \<Rightarrow> sfu_status list" where
  "status_of g m = (case request m of
     Some (Some (SyncRequest_Status st)) \<Rightarrow> if sigkey m = Some g then [st] else []
   | _ \<Rightarrow> [])"

definition reports :: "sig \<Rightarrow> isglbRecvMessage list \<Rightarrow> sfu_status list" where
  "reports g q = concat (map (status_of g) q)"

lemma reports_simps [simp]:
  "reports g [] = []" "reports g (m # q) = status_of g m @ reports g q" "reports g (q @ q') = reports g q @ reports g q'"
  "status_of g (request_msg h (Some (SyncRequest_Status st))) = (if h = g then [st] else [])"
  "status_of g (request_msg h (Some (SyncRequest_Report r))) = []"
  by (simp_all add: reports_def status_of_def request_msg_def)

lemma sent_to_simps [simp]:
  "sent_to g [] = []" "sent_to g [(h, st)] = (if h = g then [st] else [])"
  by (simp_all add: sent_to_def)

section \<open>The steps of the ISGLB\<close>

lemma handle_status_ok:
  assumes "report_ok D good h st" "handle_status (dp_render D) st h s = Some s'"
  shows "mm_rel (WhereToSend s') = insert (Nid (dp_node D h), h) (mm_rel (WhereToSend s))"
    and "latestStatus s' = (latestStatus s)(Nid (dp_node D h) \<mapsto> \<lparr>SFUStatus = st\<rparr>) \<and> 0 < recvCount s' \<or>
      latestStatus s' = latestStatus s \<and> recvCount s' = recvCount s \<and>
      (\<exists>x. latestStatus s (Nid (dp_node D h)) = Some x \<and> dp_render D (SFUStatus x) = dp_render D st)"
proof -
  obtain n where n: "SFU st = Some n" "WhereToSend s' = MM_Add (WhereToSend s) (Nid n) h"
    and latest: "latestStatus s' = latestStatus s \<and> (\<exists>last. latestStatus s (Nid n) = Some last \<and>
            dp_render D (SFUStatus last) = dp_render D st) \<and> recvCount s' = recvCount s \<or>
         latestStatus s' = (latestStatus s)(Nid n \<mapsto> \<lparr>SFUStatus = st\<rparr>) \<and> recvCount s' = recvCount s + 1"
    using assms(2) by (rule handle_status_SomeD)
  have [simp]: "Nid n = Nid (dp_node D h)" using assms(1) n(1) by (auto simp: report_ok_def)
  show "mm_rel (WhereToSend s') = insert (Nid (dp_node D h), h) (mm_rel (WhereToSend s))"
    by (simp add: n(2) MM_Add_spec)
  show "latestStatus s' = (latestStatus s)(Nid (dp_node D h) \<mapsto> \<lparr>SFUStatus = st\<rparr>) \<and> 0 < recvCount s' \<or>
      latestStatus s' = latestStatus s \<and> recvCount s' = recvCount s \<and>
      (\<exists>x. latestStatus s (Nid (dp_node D h)) = Some x \<and> dp_render D (SFUStatus x) = dp_render D st)"
    using latest by auto
qed

lemma handle_report_keeps:
  assumes "r = handle_report rr q s"
  shows "WhereToSend r = WhereToSend s" "latestStatus r = latestStatus s" "recvCount s \<le> recvCount r"
  by (simp_all add: assms handle_report_def split: option.split)

lemma msg_cases:
  assumes "msg_ok D good m" "handle_message (dp_render D) rr vis m s = Some r"
  obtains (status) h st where "m = request_msg h (Some (SyncRequest_Status st))" "report_ok D good h st"
      "handle_status (dp_render D) st h s = Some r"
    | (report) h q where "m = request_msg h (Some (SyncRequest_Report q))" "r = handle_report rr q s"
  using assms by (auto simp: msg_ok_def handle_message_simps)

lemma report_ok_cong: "Nid (dp_node D g) = Nid (dp_node D h) \<Longrightarrow> report_ok D good g st \<longleftrightarrow> report_ok D good h st"
  by (simp add: report_ok_def)

lemma take_ok:
  assumes "lb_ok D answer good l" "phase l = Receiving" "recvCh l = m # rest"
    and "handle_message (dp_render D) rr vis m (recv l) = Some r"
  shows "lb_ok D answer good (l\<lparr>recv := r, recvCh := rest\<rparr>)"
    and "lb_calm answer good l \<Longrightarrow> lb_calm answer good (l\<lparr>recv := r, recvCh := rest\<rparr>)"
proof -
  note ok = lb_okD [OF assms(1)]
  have m: "msg_ok D good m" using ok(3) [of m] assms(3) by simp
  from m assms(4) show "lb_ok D answer good (l\<lparr>recv := r, recvCh := rest\<rparr>)"
  proof (cases rule: msg_cases)
    case (status h st)
    note s = handle_status_ok [OF status(2,3)]
    have "report_ok D good g (SFUStatus x)" if "latestStatus r (Nid (dp_node D g)) = Some x" for g x
      using that ok(5) [of g x] status(2) s(2) report_ok_cong [of D g h good st] by (auto split: if_splits)
    then show ?thesis using ok assms(2,3) s(1) by (auto simp: lb_ok_def)
  next
    case (report h q)
    then show ?thesis using ok assms(2,3) handle_report_keeps [OF report(2)] by (auto simp: lb_ok_def)
  qed
  assume calm: "lb_calm answer good l"
  from m assms(4) show "lb_calm answer good (l\<lparr>recv := r, recvCh := rest\<rparr>)"
  proof (cases rule: msg_cases)
    case (status h st)
    then show ?thesis using calm handle_status_ok(2) [OF status(2,3)] assms(2)
      by (elim disjE conjE exE) (simp_all add: lb_calm_def dirty_def)
  next
    case (report h q)
    then show ?thesis using calm handle_report_keeps [OF report(2)] assms(2) by (fastforce simp: lb_calm_def dirty_def)
  qed
qed

text \<open>A report that is taken is the latest of its node, but for what its text does not show.\<close>

lemma take_reports:
  assumes "distinct_nodes D" "tracks_readable D good" "lb_ok D answer good l" "phase l = Receiving" "recvCh l = m # rest"
    and "handle_message (dp_render D) rr vis m (recv l) = Some r"
  shows "reports g (recvCh l) = reports g rest \<and> latestStatus r (Nid (dp_node D g)) = latestStatus (recv l) (Nid (dp_node D g)) \<and>
        (0 < recvCount (recv l) \<longrightarrow> 0 < recvCount r) \<or>
      (\<exists>st x. reports g (recvCh l) = st # reports g rest \<and> latestStatus r (Nid (dp_node D g)) = Some x \<and>
        same_tracks st (SFUStatus x))"
proof -
  note ok = lb_okD [OF assms(3)]
  have m: "msg_ok D good m" using ok(3) [of m] assms(5) by simp
  from m assms(6) show ?thesis
  proof (cases rule: msg_cases)
    case (status h st)
    note s = handle_status_ok(2) [OF status(2,3)]
    have "good st" using status(2) by (simp add: report_ok_def)
    moreover have "good (SFUStatus x)" if "latestStatus (recv l) (Nid (dp_node D h)) = Some x" for x
      using ok(5) [OF that] by (simp add: report_ok_def)
    ultimately have seen: "same_tracks st (SFUStatus x)"
      if "latestStatus (recv l) (Nid (dp_node D h)) = Some x" "dp_render D (SFUStatus x) = dp_render D st" for x
      using tracks_readableD [OF assms(2)] that by auto
    show ?thesis
    proof (cases "g = h")
      case True
      then show ?thesis using s seen by (auto simp: assms(5) status(1))
    next
      case False
      then show ?thesis using s distinct_nodesD [OF assms(1)] by (auto simp: assms(5) status(1))
    qed
  next
    case (report h q)
    then show ?thesis using handle_report_keeps [OF report(2)] by (auto simp: assms(5))
  qed
qed

lemma take_returns:
  assumes "lb_ok D answer good l" "recvCh l = m # rest"
  shows "handle_message render rr vis m (recv l) \<noteq> None"
  using lb_okD(3) [OF assms(1), of m] assms(2)
  by (auto simp: msg_ok_def report_ok_def handle_message_simps handle_status_def Let_def status_Key split: option.splits)

context control_algorithm
begin

lemma good_settles: "good x \<Longrightarrow> \<exists>y. answer x = Some y \<and> good y \<and> settled answer y \<and> SFU y = SFU x"
  using good_answer answer_again answer_SFU by (fastforce simp: settled_def)

lemma flush_ok:
  assumes "dp_alg D = alg" "lb_ok D answer good l" "service_inv l" "phase l = Receiving" "0 < recvCount (recv l)"
  shows "consult (dp_render D) (dp_alg D) vis (Alg l) (recv l) = Some (a, dict) \<Longrightarrow>
      lb_ok D answer good (l\<lparr>Alg := a, phase := Sending dict (visit (by_nid vis) (dom dict))\<rparr>) \<and>
      dom dict = dom (latestStatus (recv l)) \<and> finite (dom dict)"
    and "consult (dp_render D) (dp_alg D) vis (Alg l) (recv l) \<noteq> None"
proof -
  note ok = lb_okD [OF assms(2)]
  have ri: "recv_inv (recv l)" using assms(3) by (simp add: service_inv_def)
  then have fin: "finite (dom (latestStatus (recv l)))" and filed: "filed_by_nid (latestStatus (recv l))"
    by (simp_all add: recv_inv_def filed_by_nid_def)
  have g: "\<exists>g. n = Nid (dp_node D g) \<and> report_ok D good g (SFUStatus x)" if "latestStatus (recv l) n = Some x" for n x
  proof -
    have "n \<in> Domain (mm_rel (WhereToSend (recv l)))" using served_iff [OF ri, of n] that by blast
    then obtain g where g: "n = Nid (dp_node D g)" using ok(4) by blast
    with ok(5) [of g x] that show ?thesis by auto
  qed
  show "lb_ok D answer good (l\<lparr>Alg := a, phase := Sending dict (visit (by_nid vis) (dom dict))\<rparr>) \<and>
      dom dict = dom (latestStatus (recv l)) \<and> finite (dom dict)"
    if con: "consult (dp_render D) (dp_alg D) vis (Alg l) (recv l) = Some (a, dict)"
  proof -
    note dict = consult_pointwise(2) [OF ri con [unfolded assms(1)]]
    then have dd: "dom dict = dom (latestStatus (recv l))" by (auto simp: dom_def)
    then have nids: "set (visit (by_nid vis) (dom dict)) = dom (latestStatus (recv l))" "distinct (visit (by_nid vis) (dom dict))"
      using fin by simp_all
    have "lb_ok D answer good (l\<lparr>Alg := a, phase := Sending dict (visit (by_nid vis) (dom dict))\<rparr>)"
      using ok nids by (auto simp: lb_ok_def dirty_def dict)
    with dd fin show ?thesis by simp
  qed
  show "consult (dp_render D) (dp_alg D) vis (Alg l) (recv l) \<noteq> None"
  proof -
    define nids where "nids = visit (by_nid vis) (dom (latestStatus (recv l)))"
    have nids: "set nids = dom (latestStatus (recv l))" using fin by (simp add: nids_def)
    define f where "f n = the (answer (SFUStatus (the (latestStatus (recv l) n))))" for n
    have f: "answer (SFUStatus (the (latestStatus (recv l) n))) = Some (f n) \<and> map_option Nid (SFU (f n)) = Some n"
      if "n \<in> set nids" for n
    proof -
      obtain x where x: "latestStatus (recv l) n = Some x" using \<open>n \<in> set nids\<close> nids by auto
      with g obtain h where h: "n = Nid (dp_node D h)" "report_ok D good h (SFUStatus x)" by blast
      then obtain y where y: "answer (SFUStatus x) = Some y" "SFU y = SFU (SFUStatus x)"
        using good_settles unfolding report_ok_def by blast
      have "f n = y" "map_option Nid (SFU y) = Some (Nid (dp_node D h))" using y h(2) by (auto simp: f_def x report_ok_def)
      with y(1) h(1) x show ?thesis by simp
    qed
    have cur: "current_statuses vis (dp_render D) (recv l) = map (\<lambda>n. SFUStatus (the (latestStatus (recv l) n))) nids"
      by (simp add: current_statuses_def nids_def)
    have "those (map answer (current_statuses vis (dp_render D) (recv l))) = Some (map f nids)"
      unfolding cur using f by (induction nids) simp_all
    then have "alg (Alg l) (current_statuses vis (dp_render D) (recv l)) (current_reports vis (recv l)) = Some (Alg l, map f nids)"
      by (simp add: alg_answers)
    moreover have "expected_dict (SFUStatusItem_ops (dp_render D)) (map f nids) Map.empty \<noteq> None"
      using expected_dict_map [of nids f "dp_render D" Map.empty] f by simp
    ultimately show ?thesis by (auto simp: consult_def assms(1) split: option.split)
  qed
qed

lemma send_ok:
  assumes "lb_ok D answer good l" "service_inv l" "\<And>g. tracked l g" "phase l = Sending dict (n # nids)"
    and "send_one (SFUStatusItem_ops (dp_render D)) vis (sendChs l) dict n (recv l) = (r, out)"
  shows "lb_ok D answer good (l\<lparr>recv := r, phase := Sending dict nids, outbox := outbox l @ out\<rparr>)"
    and "\<exists>g x y. n = Nid (dp_node D g) \<and> latestStatus (recv l) n = Some x \<and> answer (SFUStatus x) = Some y \<and>
      report_ok D good g y \<and> settled answer y \<and> SFU y = SFU (SFUStatus x) \<and>
      (out = [] \<and> r = recv l \<and> dp_render D (SFUStatus x) = dp_render D y \<or>
       out = [(g, y)] \<and> r = (recv l)\<lparr>latestStatus := (latestStatus (recv l))(n \<mapsto> \<lparr>SFUStatus = y\<rparr>)\<rparr>)"
proof -
  note ok = lb_okD [OF assms(1)]
  have ri: "recv_inv (recv l)" using assms(2) by (simp add: service_inv_def)
  then have inv: "mm_inv (WhereToSend (recv l))" by (simp add: recv_inv_def)
  from ok(7) [OF assms(4), of n] obtain x where x: "latestStatus (recv l) n = Some x"
    "dict n = Some \<lparr>SFUStatus = the (answer (SFUStatus x))\<rparr>" by auto
  have dom: "n \<in> Domain (mm_rel (WhereToSend (recv l)))" using served_iff [OF ri, of n] x(1) by blast
  define sigs where "sigs = SetMap_GetSet (by_sig vis) (SetMap (WhereToSend (recv l))) n"
  have sigs: "set sigs = {h. (n, h) \<in> mm_rel (WhereToSend (recv l))}"
    unfolding sigs_def by (rule GetSet_spec [OF inv])
  then have "sigs \<noteq> []" using dom by auto
  then have "sigs ! 0 \<in> set sigs" by simp
  then have g: "n = Nid (dp_node D (sigs ! 0))" using sigs ok(4) by blast
  have rep: "report_ok D good (sigs ! 0) (SFUStatus x)" using ok(5) x(1) g by simp
  then obtain y where y: "answer (SFUStatus x) = Some y" "good y" "settled answer y" "SFU y = SFU (SFUStatus x)"
    using good_settles unfolding report_ok_def by blast
  have repy: "report_ok D good (sigs ! 0) y" using rep y by (simp add: report_ok_def)
  have "h \<in> sendChs l" if "(k, h) \<in> mm_rel (WhereToSend (recv l))" for k h
    using assms(3) [of h] ok(2) [of h] that by (auto simp: tracked_def)
  then have "Range (mm_rel (WhereToSend (recv l))) \<subseteq> sendChs l" by auto
  then have "(r, out) = (if dp_render D (SFUStatus x) = dp_render D y then (recv l, [])
      else ((recv l)\<lparr>latestStatus := (latestStatus (recv l))(n \<mapsto> \<lparr>SFUStatus = y\<rparr>)\<rparr>, [(sigs ! 0, y)]))"
    using send_one_reaches [of "recv l" "sendChs l" n dict _ "dp_render D" vis, OF inv _ dom x(2)] assms(5)
    by (simp add: x y(1) reads_as_def sigs_def)
  then have out: "out = [] \<and> r = recv l \<and> dp_render D (SFUStatus x) = dp_render D y \<or>
      out = [(sigs ! 0, y)] \<and> r = (recv l)\<lparr>latestStatus := (latestStatus (recv l))(n \<mapsto> \<lparr>SFUStatus = y\<rparr>)\<rparr>"
    by (auto split: if_splits)
  then show "\<exists>g x y. n = Nid (dp_node D g) \<and> latestStatus (recv l) n = Some x \<and> answer (SFUStatus x) = Some y \<and>
      report_ok D good g y \<and> settled answer y \<and> SFU y = SFU (SFUStatus x) \<and>
      (out = [] \<and> r = recv l \<and> dp_render D (SFUStatus x) = dp_render D y \<or>
       out = [(g, y)] \<and> r = (recv l)\<lparr>latestStatus := (latestStatus (recv l))(n \<mapsto> \<lparr>SFUStatus = y\<rparr>)\<rparr>)"
    by (intro exI conjI) (rule g x(1) y(1) repy y(3) y(4) | assumption)+
  have r: "WhereToSend r = WhereToSend (recv l)"
    "latestStatus r = latestStatus (recv l) \<or> latestStatus r = (latestStatus (recv l))(n \<mapsto> \<lparr>SFUStatus = y\<rparr>)"
    using out by auto
  have "report_ok D good h (SFUStatus z)" if "latestStatus r (Nid (dp_node D h)) = Some z" for h z
    using that r(2) ok(5) [of h z] repy g report_ok_cong [of D h "sigs ! 0" good y] by (auto split: if_splits)
  moreover have "\<exists>z. latestStatus r k = Some z \<and> dict k = Some \<lparr>SFUStatus = the (answer (SFUStatus z))\<rparr>" if "k \<in> set nids" for k
    using ok(6) [OF assms(4)] ok(7) [OF assms(4), of k] that r(2) by auto
  ultimately show "lb_ok D answer good (l\<lparr>recv := r, phase := Sending dict nids, outbox := outbox l @ out\<rparr>)"
    using ok(2,3,4) ok(6) [OF assms(4)] by (auto simp: lb_ok_def r(1))
qed

text \<open>Nothing is sent only when the answer has the same text, so the latest status is calm in any case.\<close>

lemma send_calm:
  assumes "tracks_readable D good" "lb_ok D answer good l" "service_inv l" "\<And>g. tracked l g" "phase l = Sending dict (n # nids)"
    and "send_one (SFUStatusItem_ops (dp_render D)) vis (sendChs l) dict n (recv l) = (r, out)"
  shows "out \<noteq> [] \<or> (\<exists>x. latestStatus (recv l) n = Some x \<and> r = recv l \<and> calm answer good (SFUStatus x))"
    and "lb_calm answer good l \<Longrightarrow> lb_calm answer good (l\<lparr>recv := r, phase := Sending dict nids, outbox := outbox l @ out\<rparr>)"
proof -
  from send_ok(2) [OF assms(2-6)] obtain g x y where x: "n = Nid (dp_node D g)" "latestStatus (recv l) n = Some x"
      and y: "report_ok D good g y" "settled answer y"
      and cases: "out = [] \<and> r = recv l \<and> dp_render D (SFUStatus x) = dp_render D y \<or>
       out = [(g, y)] \<and> r = (recv l)\<lparr>latestStatus := (latestStatus (recv l))(n \<mapsto> \<lparr>SFUStatus = y\<rparr>)\<rparr>"
    by blast
  have good: "good y" "good (SFUStatus x)"
    using y(1) lb_okD(5) [OF assms(2), of g x] x by (simp_all add: report_ok_def)
  have calm: "calm answer good (SFUStatus x)" if "dp_render D (SFUStatus x) = dp_render D y"
    using tracks_readableD [OF assms(1) good(2,1) that] good(1) y(2) by (auto simp: calm_def)
  then show "out \<noteq> [] \<or> (\<exists>x. latestStatus (recv l) n = Some x \<and> r = recv l \<and> calm answer good (SFUStatus x))"
    using cases x(2) by auto
  have "calm answer good y" using good(1) y(2) by (auto simp: calm_def intro!: exI [of _ y])
  then show "lb_calm answer good (l\<lparr>recv := r, phase := Sending dict nids, outbox := outbox l @ out\<rparr>)"
    if "lb_calm answer good l"
    using cases
  proof (elim disjE conjE)
    assume "r = recv l" "dp_render D (SFUStatus x) = dp_render D y"
    with that calm x(2) assms(5) show ?thesis by (auto simp: lb_calm_def dirty_def split: if_splits) (metis option.inject)+
  next
    assume "r = (recv l)\<lparr>latestStatus := (latestStatus (recv l))(n \<mapsto> \<lparr>SFUStatus = y\<rparr>)\<rparr>"
    with that \<open>calm answer good y\<close> assms(5) show ?thesis
      by (auto simp: lb_calm_def dirty_def)
  qed
qed

end

section \<open>The steps of an SXU\<close>

definition sxu_ok :: "'a deployment \<Rightarrow> (sfu_status \<Rightarrow> bool) \<Rightarrow> sig \<Rightarrow> ISGLBSyncer \<Rightarrow> bool" where
  "sxu_ok D good g s \<longleftrightarrow> syncer_inv (dp_texts D) s \<and> \<not> closed s \<and> running s \<and> descSFU s = dp_node D g \<and>
     (\<exists>x. good x \<and> holds x s)"

definition order_ok :: "'a deployment \<Rightarrow> (sfu_status \<Rightarrow> sfu_status option) \<Rightarrow> (sfu_status \<Rightarrow> bool) \<Rightarrow> sig \<Rightarrow> sfu_status \<Rightarrow> bool" where
  "order_ok D answer good g st \<longleftrightarrow> report_ok D good g st \<and> settled answer st"

text \<open>The algorithm is content with an SXU when it leaves a status with the SXU's tracks as it is.\<close>

definition content :: "(sfu_status \<Rightarrow> sfu_status option) \<Rightarrow> (sfu_status \<Rightarrow> bool) \<Rightarrow> ISGLBSyncer \<Rightarrow> bool" where
  "content answer good s \<longleftrightarrow> (\<exists>st. holds st s \<and> good st \<and> settled answer st)"

lemma calm_content: "calm answer good x \<Longrightarrow> holds x s \<Longrightarrow> content answer good s"
  using same_tracks_holds by (auto simp: calm_def content_def)

lemma content_cong: "same_held s t \<Longrightarrow> content answer good s \<longleftrightarrow> content answer good t"
  by (simp add: content_def holds_cong)

lemma sxu_ok_held:
  assumes "sxu_ok D good g s" "syncer_inv (dp_texts D) t" "\<not> closed t" "running t = running s" "descSFU t = descSFU s"
    "held_forwards t = held_forwards s" "held_proceeds t = held_proceeds s"
  shows "sxu_ok D good g t"
  using assms by (simp add: sxu_ok_def holds_def)

context control_algorithm
begin

lemma reported_good:
  assumes "sxu_ok D good g s" "current_status (dp_texts D) vis s = Some st"
  shows "report_ok D good g st" "SFU st = Some (dp_node D g)"
proof -
  have inv: "syncer_inv (dp_texts D) s" using assms(1) by (simp add: sxu_ok_def)
  note m = current_status_mirrors [OF inv assms(2)]
  obtain x where x: "good x" "holds x s" using assms(1) by (auto simp: sxu_ok_def)
  have "good st"
    by (rule good_cong [OF x(1)]) (use x(2) m in \<open>simp_all add: mirrors_def holds_def\<close>)
  moreover show "SFU st = Some (dp_node D g)" using m(1) assms(1) by (simp add: mirrors_def sxu_ok_def)
  ultimately show "report_ok D good g st" by (auto simp: report_ok_def)
qed

lemma sxu_step:
  assumes "syncer_step (dp_texts D) (\<lambda>_. False) s (Some s')" "\<not> closed s'" "sxu_ok D good g s"
    and order: "\<forall>st. statusRecvCh s = Some st \<longrightarrow> order_ok D answer good g st"
  obtains (due) "sxu_ok D good g s'" "statusSendCh s'" "sent s' = sent s" "statusRecvCh s' = None \<or> statusRecvCh s' = statusRecvCh s"
    | (same) "sxu_ok D good g s'" "same_held s s'" "statusSendCh s' = statusSendCh s" "sent s' = sent s" "statusRecvCh s' = statusRecvCh s"
    | (adopt) st where "sxu_ok D good g s'" "statusRecvCh s = Some st" "holds st s'" "statusSendCh s' = statusSendCh s"
      "sent s' = sent s" "statusRecvCh s' = None"
    | (hand) st where "sxu_ok D good g s'" "report_ok D good g st" "mirrors st s'" "same_held s s'" "\<not> statusSendCh s'"
      "sent s' = sent s @ [st]" "statusRecvCh s' = statusRecvCh s"
proof -
  have inv: "syncer_inv (dp_texts D) s" and opened: "\<not> closed s" and desc: "descSFU s = dp_node D g"
    using assms(3) by (simp_all add: sxu_ok_def)
  have inv': "syncer_inv (dp_texts D) s'" by (rule syncer_inv_step [OF assms(1) inv])
  note ok' = sxu_ok_held [OF assms(3) inv' assms(2)]
  show thesis using assms(1)
  proof cases
    case status
    then show ?thesis by simp
  next
    case (fetched ev)
    then show ?thesis by (intro same ok') (simp_all add: same_held_def held_defs)
  next
    case event
    then obtain ev rest where "sessionEventCh s = ev # rest" using opened by (cases "sessionEventCh s") auto
    with event have "handleSessionEvent (dp_texts D) ev (s\<lparr>sessionEventCh := rest\<rparr>) = Some s'" by (simp add: main_event_def)
    then show ?thesis
    proof (cases rule: handleSessionEvent_cases)
      case (add index)
      then show ?thesis by (intro due ok') (simp_all add: held_defs)
    next
      case (remove index)
      then show ?thesis by (intro due ok') (simp_all add: held_defs)
    next
      case other
      then show ?thesis by (intro same ok') (simp_all add: same_held_def held_defs)
    qed
  next
    case (recv vis)
    from recv(1) [symmetric] show ?thesis
    proof (cases rule: main_recv_cases)
      case 1
      with recv opened show ?thesis by simp
    next
      case (2 st)
      have st: "good st" using order 2(1) by (simp add: order_ok_def report_ok_def)
      obtain x where x: "good x" "holds x s" using assms(3) by (auto simp: sxu_ok_def)
      have inv0: "syncer_inv (dp_texts D) (s\<lparr>statusRecvCh := None\<rparr>)" using inv by (simp add: syncer_inv_def)
      have un: "unambiguous st" using good_tracks [OF st] by simp
      have frame: "statusRecvCh s' = None" using syncStatus_frame [OF inv0 2(2)] by simp
      have sent: "sent s' = sent s" "descSFU s' = descSFU s" "running s' = running s"
        using inv0 2(2) by (cases rule: syncStatus_cases; simp)+
      have "holds x (s\<lparr>statusRecvCh := None\<rparr>)" using x(2) by (simp add: holds_def held_defs)
      from syncStatus_holds [OF inv0 un this good_unique [OF x(1) st] 2(2)]
      consider "statusSendCh s'" "same_held (s\<lparr>statusRecvCh := None\<rparr>) s'" | "holds st s'" "statusSendCh s' = statusSendCh s"
        by auto
      then show ?thesis
      proof cases
        case 1
        then show ?thesis using frame sent by (intro due ok') (simp_all add: same_held_def held_defs)
      next
        case mir: 2
        have "sxu_ok D good g s'" using mir(1) st inv' assms(2) sent desc assms(3) by (auto simp: sxu_ok_def)
        then show ?thesis using mir frame sent 2(1) by (intro adopt)
      qed
    qed
  next
    case (send vis)
    with opened have "statusSendCh s" by simp
    with send obtain st where st: "current_status (dp_texts D) vis s = Some st"
      and s': "s' = s\<lparr>statusSendCh := False, sent := sent s @ [st]\<rparr>"
      by (auto simp: main_send_def split: option.splits)
    have held: "same_held s s'" by (simp add: s' same_held_def)
    have "mirrors st s'" using current_status_mirrors(1) [OF inv st] mirrors_cong [OF held] by simp
    with reported_good [OF assms(3) st] held show ?thesis by (intro hand ok') (simp_all add: s' held_defs)
  next
    case stop
    with assms(2) show ?thesis by (auto simp: Stop_def split: if_splits)
  qed
qed

lemma sxu_never_panics:
  assumes "sxu_ok D good g s" and "\<And>st. statusRecvCh s = Some st \<Longrightarrow> order_ok D answer good g st"
  shows "\<not> syncer_step (dp_texts D) (\<lambda>_. False) s None"
proof
  assume "syncer_step (dp_texts D) (\<lambda>_. False) s None"
  then show False
  proof cases
    case event
    then obtain ev rest where "sessionEventCh s = ev # rest"
      "handleSessionEvent (dp_texts D) ev (s\<lparr>sessionEventCh := rest\<rparr>) = None"
      by (auto simp: main_event_def split: list.splits)
    then show ?thesis
      using assms(1) handleSessionEvent_returns [of "s\<lparr>sessionEventCh := rest\<rparr>" "dp_texts D" ev] by (simp add: sxu_ok_def)
  next
    case (recv vis)
    then obtain st where st: "statusRecvCh s = Some st" "syncStatus (dp_texts D) vis st (s\<lparr>statusRecvCh := None\<rparr>) = None"
      by (auto simp: main_recv_def split: option.splits)
    have "\<forall>t \<in> set (ForwardTracks st). Src t \<noteq> None"
      using assms(2) [OF st(1)] good_tracks by (auto simp: order_ok_def report_ok_def)
    with syncStatus_returns [of "s\<lparr>statusRecvCh := None\<rparr>" st "dp_texts D" vis] st(2) assms(1) show ?thesis
      by (simp add: sxu_ok_def)
  next
    case (send vis)
    then show ?thesis using assms(1) current_status_returns [of "dp_texts D" s vis]
      by (auto simp: main_send_def sxu_ok_def split: option.splits if_splits)
  next
    case stop
    then show ?thesis using assms(1) by (simp add: Stop_def sxu_ok_def)
  qed simp
qed

end

end
