(* ===== verification/Control_Loop_Invariant.thy ===== *)
theory Control_Loop_Invariant
  imports Control_Loop
begin

text \<open>
  The invariant of the control loop: as long as the algorithm is not content with an SXU, a report
  of it is due, on its way or being worked on, or an order is on its way to it (\<open>loop_ok\<close>). That the
  statuses in the system are those the algorithm can answer (\<open>cluster_ok\<close>) holds for any texts and
  node ids; \<open>loop_ok\<close> asks of them what \<^const>\<open>tracks_readable\<close> and \<^const>\<open>distinct_nodes\<close> say.
\<close>

section \<open>A step of the ISGLB's goroutine\<close>

definition serves :: "'a deployment \<Rightarrow> (sfu_status \<Rightarrow> sfu_status option) \<Rightarrow> (sfu_status \<Rightarrow> bool) \<Rightarrow> 'a isglb_state \<Rightarrow> bool" where
  "serves D answer good l \<longleftrightarrow> service_inv l \<and> (\<forall>g. tracked l g) \<and> lb_ok D answer good l"

text \<open>
  For every SXU the goroutine takes its next report, or what it has to work on is kept, or found
  settled, or answered.
\<close>

definition works_on :: "'a deployment \<Rightarrow> (sfu_status \<Rightarrow> sfu_status option) \<Rightarrow> (sfu_status \<Rightarrow> bool) \<Rightarrow>
    'a isglb_state \<Rightarrow> 'a isglb_state \<Rightarrow> (sig \<times> sfu_status) list \<Rightarrow> sig \<Rightarrow> bool" where
  "works_on D answer good l l' out g \<longleftrightarrow>
     (\<exists>st x. reports g (recvCh l) = st # reports g (recvCh l') \<and> sent_to g out = [] \<and>
        latestStatus (recv l') (Nid (dp_node D g)) = Some x \<and> same_tracks st (SFUStatus x)) \<or>
     (reports g (recvCh l) = reports g (recvCh l') \<and>
      (\<forall>x. latestStatus (recv l) (Nid (dp_node D g)) = Some x \<longrightarrow> dirty l (Nid (dp_node D g)) \<longrightarrow>
         sent_to g out \<noteq> [] \<or> calm answer good (SFUStatus x) \<or>
         latestStatus (recv l') (Nid (dp_node D g)) = Some x \<and> dirty l' (Nid (dp_node D g))))"

lemma conns_upd: "(conns l)(g := k) = conns l \<Longrightarrow> conns l g = k"
  by (metis fun_upd_same)

context control_algorithm
begin

lemma balance_cases:
  assumes "dp_alg D = alg" "serves D answer good l" "balancer_step D l l'" "conns l' = conns l"
    "length (recvCh l') \<le> length (recvCh l)" "outbox l' = outbox l @ out"
  obtains (take) m rest vis r where "l' = l\<lparr>recv := r, recvCh := rest\<rparr>" "phase l = Receiving" "recvCh l = m # rest"
      "handle_message (dp_render D) (dp_render_report D) vis m (recv l) = Some r" "out = []"
    | (flush) vis :: visits and a dict where "l' = l\<lparr>Alg := a, phase := Sending dict (visit (by_nid vis) (dom dict))\<rparr>"
      "phase l = Receiving" "recvCh l = []" "0 < recvCount (recv l)"
      "lb_ok D answer good l'" "dom dict = dom (latestStatus (recv l))" "finite (dom dict)" "out = []"
    | (send) dict n nids vis r where "l' = l\<lparr>recv := r, phase := Sending dict nids, outbox := outbox l @ out\<rparr>"
      "phase l = Sending dict (n # nids)"
      "send_one (SFUStatusItem_ops (dp_render D)) vis (sendChs l) dict n (recv l) = (r, out)"
    | (finish) dict where "l' = l\<lparr>recv := new_batch (recv l), phase := Receiving\<rparr>" "phase l = Sending dict []" "out = []"
proof -
  have ok: "lb_ok D answer good l" and si: "service_inv l" using assms(2) by (simp_all add: serves_def)
  show thesis using assms(3)
  proof cases
    case (accept h)
    then show ?thesis using conns_upd [of l h Serving] assms(4) by simp
  next
    case (leave h)
    then show ?thesis using conns_upd [of l h Leaving] assms(4) by simp
  next
    case (bye h)
    then show ?thesis using assms(5) by simp
  next
    case (receive h req)
    then show ?thesis using assms(5) by simp
  next
    case (take_msg m rest vis r)
    then show ?thesis using take assms(6) by simp
  next
    case (take_panic m rest vis)
    with take_returns [OF ok] show ?thesis by blast
  next
    case fl: (flush vis a dict)
    from flush_ok(1) [OF assms(1) ok si fl(2,4,5)]
    have f: "lb_ok D answer good l'" "dom dict = dom (latestStatus (recv l))" "finite (dom dict)"
      unfolding fl(1) by blast+
    have "out = []" using assms(6) by (simp add: fl(1))
    then show ?thesis by (rule flush [OF fl(1-4) f])
  next
    case (flush_panic vis)
    with flush_ok(2) [OF assms(1) ok si flush_panic(2,4)] show ?thesis by blast
  next
    case snd: (send dict n nids vis r sent)
    then have "out = sent" using assms(6) by simp
    with snd show ?thesis by (intro send) simp_all
  next
    case fin: (finish dict)
    then show ?thesis using finish assms(6) by simp
  qed
qed

lemma balance_ok:
  assumes "dp_alg D = alg" "serves D answer good l" "balancer_step D l l'" "conns l' = conns l"
    "length (recvCh l') \<le> length (recvCh l)" "outbox l' = outbox l @ out"
  shows "lb_ok D answer good l'" and "st \<in> set (sent_to g out) \<Longrightarrow> order_ok D answer good g st"
proof -
  have ok: "lb_ok D answer good l" and si: "service_inv l" and tr: "\<And>g. tracked l g"
    using assms(2) by (simp_all add: serves_def)
  have "lb_ok D answer good l' \<and> (\<forall>st \<in> set (sent_to g out). order_ok D answer good g st)"
    using assms
  proof (cases rule: balance_cases)
    case (take m rest vis r)
    with take_ok(1) [OF ok take(2-4)] show ?thesis by simp
  next
    case (send dict n nids vis r)
    note s = send_ok [OF ok si tr send(2,3)]
    have "order_ok D answer good g st" if "st \<in> set (sent_to g out)" for st
      using that s(2) by (auto simp: order_ok_def split: if_splits)
    with s(1) show ?thesis by (simp add: send(1))
  next
    case (finish dict)
    then show ?thesis using lb_okD [OF ok] by (auto simp: lb_ok_def new_batch_def)
  qed simp
  then show "lb_ok D answer good l'" and "st \<in> set (sent_to g out) \<Longrightarrow> order_ok D answer good g st"
    by blast+
qed

lemma balance_calm:
  assumes "dp_alg D = alg" "tracks_readable D good" "serves D answer good l" "lb_calm answer good l" "balancer_step D l l'"
    "conns l' = conns l" "length (recvCh l') \<le> length (recvCh l)" "outbox l' = outbox l @ out"
  shows "lb_calm answer good l'"
proof -
  have ok: "lb_ok D answer good l" and si: "service_inv l" and tr: "\<And>g. tracked l g"
    using assms(3) by (simp_all add: serves_def)
  from assms(1,3,5-8) show ?thesis
  proof (cases rule: balance_cases)
    case (take m rest vis r)
    with take_ok(2) [OF ok take(2-4) assms(4)] show ?thesis by simp
  next
    case (flush vis a dict)
    then show ?thesis by (auto simp: lb_calm_def dirty_def)
  next
    case (send dict n nids vis r)
    from send_calm(2) [OF assms(2) ok si tr send(2,3) assms(4)] show ?thesis by (simp add: send(1))
  next
    case (finish dict)
    then show ?thesis using assms(4) by (auto simp: lb_calm_def dirty_def new_batch_def)
  qed
qed

lemma balance_works:
  assumes "dp_alg D = alg" "tracks_readable D good" "distinct_nodes D" "serves D answer good l" "balancer_step D l l'"
    "conns l' = conns l" "length (recvCh l') \<le> length (recvCh l)" "outbox l' = outbox l @ out"
  shows "works_on D answer good l l' out g"
proof -
  have ok: "lb_ok D answer good l" and si: "service_inv l" and tr: "\<And>g. tracked l g"
    using assms(4) by (simp_all add: serves_def)
  from assms(1,4-8) show ?thesis
  proof (cases rule: balance_cases)
    case (take m rest vis r)
    from take_reports [OF assms(3,2) ok take(2-4), of g] show ?thesis
      by (auto simp: works_on_def dirty_def take(1,2,5))
  next
    case (flush vis a dict)
    then have "Nid (dp_node D g) \<in> set (visit (by_nid vis) (dom dict))"
      if "latestStatus (recv l) (Nid (dp_node D g)) = Some x" for x
      using that by auto
    then show ?thesis by (simp add: works_on_def dirty_def flush(1,8))
  next
    case (send dict n nids vis r)
    from send_ok(2) [OF ok si tr send(2,3)] obtain h x y where h: "n = Nid (dp_node D h)" "latestStatus (recv l) n = Some x"
      and cases: "out = [] \<and> r = recv l \<or>
       out = [(h, y)] \<and> r = (recv l)\<lparr>latestStatus := (latestStatus (recv l))(n \<mapsto> \<lparr>SFUStatus = y\<rparr>)\<rparr>"
      by blast
    note calm = send_calm(1) [OF assms(2) ok si tr send(2,3)]
    show ?thesis
    proof (cases "g = h")
      case True
      then show ?thesis using cases calm h by (auto simp: works_on_def send(1))
    next
      case False
      then have "Nid (dp_node D g) \<noteq> n" using distinct_nodesD [OF assms(3)] h(1) by simp
      then show ?thesis using cases by (auto simp: works_on_def send(1,2) dirty_def)
    qed
  next
    case (finish dict)
    then show ?thesis by (simp add: works_on_def dirty_def)
  qed
qed

lemma serves_step:
  assumes "balancer_step D l l'" "serves D answer good l" "lb_ok D answer good l'"
  shows "serves D answer good l'"
  using assms service_inv_step [OF assms(1)] tracked_step [OF assms(1)] by (simp add: serves_def)

end

section \<open>The loop\<close>

definition cluster_ok :: "'a deployment \<Rightarrow> (sfu_status \<Rightarrow> sfu_status option) \<Rightarrow> (sfu_status \<Rightarrow> bool) \<Rightarrow> 'a cluster \<Rightarrow> bool" where
  "cluster_ok D answer good c \<longleftrightarrow> serves D answer good (balancer c) \<and>
     (\<forall>g. sxu_ok D good g (sxus c g) \<and> (\<forall>st \<in> set (uplink c g). report_ok D good g st) \<and>
        (\<forall>st \<in> set (downlink c g). order_ok D answer good g st) \<and>
        (\<forall>st. statusRecvCh (sxus c g) = Some st \<longrightarrow> order_ok D answer good g st))"

text \<open>The reports of an SXU that have not been handled, and whether an order is on its way to it.\<close>

definition unhandled :: "'a cluster \<Rightarrow> sig \<Rightarrow> sfu_status list" where
  "unhandled c g = reports g (recvCh (balancer c)) @ uplink c g"

definition ordered :: "'a cluster \<Rightarrow> sig \<Rightarrow> bool" where
  "ordered c g \<longleftrightarrow> downlink c g \<noteq> [] \<or> statusRecvCh (sxus c g) \<noteq> None"

text \<open>
  The newest report has the SXU's tracks unless another is due; and as long as the algorithm is not
  content with the SXU, something is due, on its way, or being worked on.
\<close>

definition loop_ok :: "'a deployment \<Rightarrow> (sfu_status \<Rightarrow> sfu_status option) \<Rightarrow> (sfu_status \<Rightarrow> bool) \<Rightarrow> 'a cluster \<Rightarrow> sig \<Rightarrow> bool" where
  "loop_ok D answer good c g \<longleftrightarrow> lb_calm answer good (balancer c) \<and>
     (let s = sxus c g; n = Nid (dp_node D g) in
      statusSendCh s \<or> content answer good s \<or>
      unhandled c g \<noteq> [] \<and> holds (last (unhandled c g)) s \<or>
      unhandled c g = [] \<and>
        (ordered c g \<or>
         (\<exists>x. latestStatus (recv (balancer c)) n = Some x \<and> dirty (balancer c) n \<and> holds (SFUStatus x) s)))"

lemma all_last_facts:
  assumes "all_last xs ys"
  shows "x \<in> set xs \<Longrightarrow> x \<in> set ys" "xs = [] \<longleftrightarrow> ys = []" "last (zs @ xs) = last (zs @ ys)"
  using assms by (auto simp: all_last_def last_append dest: list_emb_set)

lemma cluster_okD:
  assumes "cluster_ok D answer good c"
  shows "serves D answer good (balancer c)" "sxu_ok D good g (sxus c g)"
    "st \<in> set (uplink c g) \<Longrightarrow> report_ok D good g st" "st \<in> set (downlink c g) \<Longrightarrow> order_ok D answer good g st"
    "\<forall>st. statusRecvCh (sxus c g) = Some st \<longrightarrow> order_ok D answer good g st"
  using assms by (simp_all add: cluster_ok_def)

text \<open>A step that leaves the ISGLB and the other SXUs alone.\<close>

lemma cluster_ok_sxu:
  assumes "cluster_ok D answer good c" "sxu_ok D good h s" "\<And>st. st \<in> set ups \<Longrightarrow> report_ok D good h st"
    "\<And>st. st \<in> set downs \<Longrightarrow> order_ok D answer good h st" "\<And>st. statusRecvCh s = Some st \<Longrightarrow> order_ok D answer good h st"
  shows "cluster_ok D answer good (c\<lparr>sxus := (sxus c)(h := s), uplink := (uplink c)(h := ups), downlink := (downlink c)(h := downs)\<rparr>)"
  using assms by (auto simp: cluster_ok_def)

lemma loop_ok_other:
  "loop_ok D answer good c g \<Longrightarrow> g \<noteq> h \<Longrightarrow>
   loop_ok D answer good (c\<lparr>sxus := (sxus c)(h := s), uplink := (uplink c)(h := ups), downlink := (downlink c)(h := downs)\<rparr>) g"
  by (simp add: loop_ok_def unhandled_def ordered_def)

lemma cluster_eta:
  "c\<lparr>sxus := X, uplink := (uplink c)(h := u)\<rparr> = c\<lparr>sxus := X, uplink := (uplink c)(h := u), downlink := (downlink c)(h := downlink c h)\<rparr>"
  "c\<lparr>sxus := X, downlink := (downlink c)(h := d)\<rparr> = c\<lparr>sxus := X, uplink := (uplink c)(h := uplink c h), downlink := (downlink c)(h := d)\<rparr>"
  "c\<lparr>uplink := (uplink c)(h := u)\<rparr> = c\<lparr>sxus := (sxus c)(h := sxus c h), uplink := (uplink c)(h := u), downlink := (downlink c)(h := downlink c h)\<rparr>"
  "c\<lparr>downlink := (downlink c)(h := d)\<rparr> = c\<lparr>sxus := (sxus c)(h := sxus c h), uplink := (uplink c)(h := uplink c h), downlink := (downlink c)(h := d)\<rparr>"
  by simp_all

context control_algorithm
begin

lemma sxu_moves:
  assumes "cluster_ok D answer good c"
    "syncer_step (dp_texts D) (\<lambda>_. False) (sxus c h) (Some s)" "\<not> closed s"
    and c': "c' = c\<lparr>sxus := (sxus c)(h := s), uplink := (uplink c)(h := uplink c h @ drop (length (sent (sxus c h))) (sent s))\<rparr>"
  shows "cluster_ok D answer good c' \<and> (loop_ok D answer good c g \<longrightarrow> loop_ok D answer good c' g)"
proof -
  note ok = cluster_okD [OF assms(1)]
  note c'' = trans [OF c' cluster_eta(1)]
  have other: "loop_ok D answer good c' g" if "loop_ok D answer good c g" "g \<noteq> h"
    unfolding c'' by (rule loop_ok_other [OF that])
  have calm: "lb_calm answer good (balancer c')" if "loop_ok D answer good c h" using that by (simp add: loop_ok_def c')
  have up: "report_ok D good h st" if "st \<in> set (uplink c h @ new)" "\<And>st. st \<in> set new \<Longrightarrow> report_ok D good h st" for st new
    using that ok(3) [of st h] by auto
  from assms(2,3) ok(2) ok(5) show ?thesis
  proof (cases rule: sxu_step)
    case due
    have "cluster_ok D answer good c'" unfolding c''
      by (rule cluster_ok_sxu [OF assms(1) due(1)]) (use due ok(3,4) [of _ h] ok(5) [of h] in auto)
    moreover have "loop_ok D answer good c' h" if "loop_ok D answer good c h" using calm [OF that] due(2) by (simp add: loop_ok_def c')
    ultimately show ?thesis using other by (cases "g = h") simp_all
  next
    case same
    have "cluster_ok D answer good c'" unfolding c''
      by (rule cluster_ok_sxu [OF assms(1) same(1)]) (use same ok(3,4) [of _ h] ok(5) [of h] in auto)
    moreover have "loop_ok D answer good c' h" if "loop_ok D answer good c h"
      using same that content_cong [OF same(2)] holds_cong [OF same(2)]
      by (simp add: loop_ok_def unhandled_def ordered_def c' Let_def)
    ultimately show ?thesis using other by (cases "g = h") simp_all
  next
    case (adopt st)
    have "content answer good s" using adopt(3) ok(5) [of h] adopt(2)
      by (auto simp: content_def order_ok_def report_ok_def)
    moreover have "cluster_ok D answer good c'" unfolding c''
      by (rule cluster_ok_sxu [OF assms(1) adopt(1)]) (use adopt ok(3,4) [of _ h] ok(5) [of h] in auto)
    ultimately show ?thesis using other by (cases "g = h") (use calm in \<open>simp_all add: loop_ok_def c'\<close>)
  next
    case (hand st)
    have "cluster_ok D answer good c'" unfolding c''
      by (rule cluster_ok_sxu [OF assms(1) hand(1)]) (use hand ok(3,4) [of _ h] ok(5) [of h] in auto)
    moreover have "loop_ok D answer good c' h" if "loop_ok D answer good c h"
      using calm [OF that] mirrors_holds [OF hand(3)] hand(6) by (simp add: loop_ok_def unhandled_def c')
    ultimately show ?thesis using other by (cases "g = h") simp_all
  qed
qed

lemma link_moves:
  assumes "cluster_ok D answer good c"
  shows "downlink c h = st # rest \<Longrightarrow> OnSFUStatusRecv st (sxus c h) = Some s \<Longrightarrow>
      c' = c\<lparr>sxus := (sxus c)(h := s), downlink := (downlink c)(h := rest)\<rparr> \<Longrightarrow>
      cluster_ok D answer good c' \<and> (loop_ok D answer good c g \<longrightarrow> loop_ok D answer good c' g)"
    and "all_last sts (uplink c h) \<Longrightarrow> c' = c\<lparr>uplink := (uplink c)(h := sts)\<rparr> \<Longrightarrow>
      cluster_ok D answer good c' \<and> (loop_ok D answer good c g \<longrightarrow> loop_ok D answer good c' g)"
    and "all_last sts (downlink c h) \<Longrightarrow> c' = c\<lparr>downlink := (downlink c)(h := sts)\<rparr> \<Longrightarrow>
      cluster_ok D answer good c' \<and> (loop_ok D answer good c g \<longrightarrow> loop_ok D answer good c' g)"
proof -
  note ok = cluster_okD [OF assms]
  {
    assume d: "downlink c h = st # rest" "OnSFUStatusRecv st (sxus c h) = Some s"
      "c' = c\<lparr>sxus := (sxus c)(h := s), downlink := (downlink c)(h := rest)\<rparr>"
    have s: "s = (sxus c h)\<lparr>statusRecvCh := Some st\<rparr>"
      using d(2) ok(2) [of h] by (simp add: OnSFUStatusRecv_def sxu_ok_def)
    have held: "same_held (sxus c h) s" by (simp add: s same_held_def)
    have "sxu_ok D good h s"
      by (rule sxu_ok_held [OF ok(2)]) (use ok(2) [of h] in \<open>simp_all add: s sxu_ok_def syncer_inv_def held_defs\<close>)
    then have "cluster_ok D answer good c'" unfolding d(3) cluster_eta(2)
      by (rule cluster_ok_sxu [OF assms]) (use ok(3,4) [of _ h] d(1) in \<open>auto simp: s\<close>)
    moreover have "loop_ok D answer good c' h" if "loop_ok D answer good c h"
      using that content_cong [OF held] holds_cong [OF held]
      by (auto simp: loop_ok_def unhandled_def ordered_def d(3) s Let_def)
    moreover have "loop_ok D answer good c' g" if "loop_ok D answer good c g" "g \<noteq> h" unfolding d(3) cluster_eta(2)
      by (rule loop_ok_other [OF that])
    ultimately show "cluster_ok D answer good c' \<and> (loop_ok D answer good c g \<longrightarrow> loop_ok D answer good c' g)" by (cases "g = h") simp_all
  next
    assume u: "all_last sts (uplink c h)" "c' = c\<lparr>uplink := (uplink c)(h := sts)\<rparr>"
    note al = all_last_facts [OF u(1)]
    have "cluster_ok D answer good c'" unfolding u(2) cluster_eta(3)
      by (rule cluster_ok_sxu [OF assms ok(2)]) (use ok(3,4) [of _ h] ok(5) [of h] al(1) in auto)
    moreover have "loop_ok D answer good c' h" if "loop_ok D answer good c h"
      using that by (simp add: loop_ok_def unhandled_def ordered_def u(2) al(2,3))
    moreover have "loop_ok D answer good c' g" if "loop_ok D answer good c g" "g \<noteq> h" unfolding u(2) cluster_eta(3)
      by (rule loop_ok_other [OF that])
    ultimately show "cluster_ok D answer good c' \<and> (loop_ok D answer good c g \<longrightarrow> loop_ok D answer good c' g)" by (cases "g = h") simp_all
  next
    assume u: "all_last sts (downlink c h)" "c' = c\<lparr>downlink := (downlink c)(h := sts)\<rparr>"
    note al = all_last_facts [OF u(1)]
    have "cluster_ok D answer good c'" unfolding u(2) cluster_eta(4)
      by (rule cluster_ok_sxu [OF assms ok(2)]) (use ok(3,4) [of _ h] ok(5) [of h] al(1) in auto)
    moreover have "loop_ok D answer good c' h" if "loop_ok D answer good c h"
      using that by (simp add: loop_ok_def unhandled_def ordered_def u(2) al(2))
    moreover have "loop_ok D answer good c' g" if "loop_ok D answer good c g" "g \<noteq> h" unfolding u(2) cluster_eta(4)
      by (rule loop_ok_other [OF that])
    ultimately show "cluster_ok D answer good c' \<and> (loop_ok D answer good c g \<longrightarrow> loop_ok D answer good c' g)" by (cases "g = h") simp_all
  }
qed

end

lemma dirty_frame [simp]:
  "dirty (l\<lparr>recvCh := q\<rparr>) n = dirty l n" "dirty (l\<lparr>conns := cs, sendChs := chs\<rparr>) n = dirty l n"
  by (simp_all add: dirty_def split: phase.split)

lemma reports_ok:
  assumes "\<forall>m \<in> set q. msg_ok D good m" "st \<in> set (reports g q)"
  shows "report_ok D good g st"
  using assms by (induction q) (auto simp: msg_ok_def split: if_splits)

context control_algorithm
begin

text \<open>A step of the ISGLB that does not touch what it has to work on.\<close>

lemma balancer_moves:
  assumes "cluster_ok D answer good c" "balancer_step D (balancer c) l"
    "lb_ok D answer good l" "recv l = recv (balancer c)" "phase l = phase (balancer c)"
    "balancer c' = l" "sxus c' = sxus c" "downlink c' = downlink c" "\<And>h. set (uplink c' h) \<subseteq> set (uplink c h)"
    "unhandled c' g = unhandled c g"
  shows "cluster_ok D answer good c' \<and> (loop_ok D answer good c g \<longrightarrow> loop_ok D answer good c' g)"
proof -
  note ok = cluster_okD [OF assms(1)]
  have "serves D answer good l" by (rule serves_step [OF assms(2) ok(1) assms(3)])
  then have "cluster_ok D answer good c'" using ok(2-5) subsetD [OF assms(9)] by (auto simp: cluster_ok_def assms(6-8))
  moreover have "dirty l n \<longleftrightarrow> dirty (balancer c) n" for n by (simp add: dirty_def assms(4,5) split: phase.split)
  ultimately show ?thesis
    by (simp add: loop_ok_def lb_calm_def ordered_def assms(4,6-8,10))
qed

lemma push_ok:
  assumes "lb_ok D answer good l" "balancer_step D l l'" "recvCh l' = recvCh l @ [request_msg h req]"
    "msg_ok D good (request_msg h req)"
  shows "lb_ok D answer good l' \<and> recv l' = recv l \<and> phase l' = phase l"
  using assms(2)
proof cases
  case (receive k r)
  with assms show ?thesis by (auto simp: lb_ok_def)
qed (use assms(3) in \<open>auto simp: request_msg_def deleted_msg_def dest: arg_cong [where f = length]\<close>)

lemma connect_ok:
  assumes "lb_ok D answer good l" "balancer_step D l l'" "conns l h = Unused" "conns l' h = Serving"
  shows "lb_ok D answer good l' \<and> recv l' = recv l \<and> phase l' = phase l \<and> recvCh l' = recvCh l"
  using assms(2)
proof cases
  case (accept k)
  with assms(1) show ?thesis by (auto simp: lb_ok_def)
qed (use assms(3,4) in \<open>auto split: if_splits\<close>)

lemma balance_moves:
  assumes "dp_alg D = alg" "cluster_ok D answer good c"
    "balancer_step D (balancer c) l" "conns l = conns (balancer c)"
    "length (recvCh l) \<le> length (recvCh (balancer c))" "outbox l = outbox (balancer c) @ out"
    and c': "c' = c\<lparr>balancer := l, downlink := (\<lambda>g. downlink c g @ sent_to g out)\<rparr>"
  shows "cluster_ok D answer good c'"
    and "tracks_readable D good \<Longrightarrow> distinct_nodes D \<Longrightarrow> loop_ok D answer good c g \<Longrightarrow> loop_ok D answer good c' g"
proof -
  note ok = cluster_okD [OF assms(2)]
  note b = balance_ok [OF assms(1) ok(1) assms(3-6)]
  have "serves D answer good l" by (rule serves_step [OF assms(3) ok(1) b(1)])
  then show "cluster_ok D answer good c'" using ok(2-5) b(2) by (auto simp: cluster_ok_def c')
  assume D: "tracks_readable D good" "distinct_nodes D" and loop: "loop_ok D answer good c g"
  from loop have "lb_calm answer good (balancer c)" by (simp add: loop_ok_def)
  note calm = balance_calm [OF assms(1) D(1) ok(1) this assms(3-6)]
  show "loop_ok D answer good c' g" using balance_works [OF assms(1) D ok(1) assms(3-6), of g] unfolding works_on_def
  proof (elim disjE exE conjE)
    fix st x assume st: "reports g (recvCh (balancer c)) = st # reports g (recvCh l)" "sent_to g out = []"
      "latestStatus (recv l) (Nid (dp_node D g)) = Some x" "same_tracks st (SFUStatus x)"
    have un: "unhandled c g = st # unhandled c' g" by (simp add: unhandled_def c' st(1))
    have "content answer good (sxus c g) \<or> dirty l (Nid (dp_node D g)) \<and> holds (SFUStatus x) (sxus c g)"
      if "holds st (sxus c g)"
      using that calm st(3) same_tracks_holds [OF st(4)] calm_content [of answer good "SFUStatus x"] by (auto simp: lb_calm_def)
    then show ?thesis
      using loop un st calm by (cases "unhandled c' g = []") (auto simp: loop_ok_def Let_def c' ordered_def)
  next
    assume r: "reports g (recvCh (balancer c)) = reports g (recvCh l)"
      and w: "\<forall>x. latestStatus (recv (balancer c)) (Nid (dp_node D g)) = Some x \<longrightarrow> dirty (balancer c) (Nid (dp_node D g)) \<longrightarrow>
         sent_to g out \<noteq> [] \<or> calm answer good (SFUStatus x) \<or>
         latestStatus (recv l) (Nid (dp_node D g)) = Some x \<and> dirty l (Nid (dp_node D g))"
    have un: "unhandled c' g = unhandled c g" by (simp add: unhandled_def c' r)
    show ?thesis using loop w un calm calm_content by (auto simp: loop_ok_def Let_def c' ordered_def)
  qed
qed

lemma step_ok:
  assumes "dp_alg D = alg" "cluster_step D c c'" "cluster_ok D answer good c"
  shows "cluster_ok D answer good c' \<and>
    (tracks_readable D good \<longrightarrow> distinct_nodes D \<longrightarrow> loop_ok D answer good c g \<longrightarrow> loop_ok D answer good c' g)"
proof -
  have lbk: "lb_ok D answer good (balancer c)" using cluster_okD(1) [OF assms(3)] by (simp add: serves_def)
  from assms(2) show ?thesis
  proof cases
    case (sxu h s)
    then show ?thesis using sxu_moves [OF assms(3), of h s c' g] by blast
  next
    case (connect l h)
    note l = connect_ok [OF lbk connect(2-4)]
    then have "cluster_ok D answer good c' \<and> (loop_ok D answer good c g \<longrightarrow> loop_ok D answer good c' g)"
      by (intro balancer_moves [OF assms(3) connect(2)]) (simp_all add: connect(1) unhandled_def)
    then show ?thesis by blast
  next
    case (transmit h st rest l)
    have "msg_ok D good (request_msg h (Some (SyncRequest_Status st)))"
      using cluster_okD(3) [OF assms(3), of st h] transmit(2) by (auto simp: msg_ok_def)
    note l = push_ok [OF lbk transmit(3,4) this]
    then have "cluster_ok D answer good c' \<and> (loop_ok D answer good c g \<longrightarrow> loop_ok D answer good c' g)"
      by (intro balancer_moves [OF assms(3) transmit(3)]) (auto simp: transmit(1,2,4) unhandled_def)
    then show ?thesis by blast
  next
    case (report l h r)
    have "msg_ok D good (request_msg h (Some (SyncRequest_Report r)))" by (auto simp: msg_ok_def)
    note l = push_ok [OF lbk report(2,3) this]
    then have "cluster_ok D answer good c' \<and> (loop_ok D answer good c g \<longrightarrow> loop_ok D answer good c' g)"
      by (intro balancer_moves [OF assms(3) report(2)]) (simp_all add: report(1,3) unhandled_def)
    then show ?thesis by blast
  next
    case (balance l out)
    then show ?thesis using balance_moves [OF assms(1,3) balance(2-5,1)] by blast
  next
    case (deliver h st rest s)
    then show ?thesis using link_moves(1) [OF assms(3), of h st rest s c' g] by blast
  next
    case (skip_up sts h)
    then show ?thesis using link_moves(2) [OF assms(3), of sts h c' g] by blast
  next
    case (skip_down sts h)
    then show ?thesis using link_moves(3) [OF assms(3), of sts h c' g] by blast
  qed
qed

lemma cluster_step_ok:
  "dp_alg D = alg \<Longrightarrow> cluster_step D c c' \<Longrightarrow> cluster_ok D answer good c \<Longrightarrow> cluster_ok D answer good c'"
  using step_ok by blast

lemma cluster_init_ok: "cluster_ok D answer good (cluster_init D a) \<and> loop_ok D answer good (cluster_init D a) g"
proof -
  have "service_inv (isglb_init a)" by (rule service_inv_reachable [of "dp_render D" "dp_render_report D" "dp_alg D" a]) simp
  moreover have "tracked (isglb_init a) h" for h
    by (rule tracked_reachable [of "dp_render D" "dp_render_report D" "dp_alg D" a]) simp
  moreover have "lb_ok D answer good (isglb_init a)" "lb_calm answer good (isglb_init a)"
    by (simp_all add: lb_ok_def lb_calm_def isglb_init_def recv_init_def mm_new)
  moreover have "sxu_ok D good h (NewSFUStatusSyncer (dp_node D h))" for h
    using good_empty [of "\<lparr>SFU = None, ForwardTracks = [], ProceedTracks = [], Clients = []\<rparr>"]
      syncer_inv_reachable [OF syncer_reachable_init [of "dp_texts D" "\<lambda>_. False" "dp_node D h"]]
    by (auto simp: sxu_ok_def NewSFUStatusSyncer_def holds_def held_defs NewDisorderSet_def contents_def
        intro!: exI [of _ "\<lparr>SFU = None, ForwardTracks = [], ProceedTracks = [], Clients = []\<rparr>"])
  ultimately show ?thesis
    by (simp add: cluster_ok_def cluster_init_def serves_def loop_ok_def) (simp add: NewSFUStatusSyncer_def)
qed

lemma cluster_reachable_ok:
  assumes "dp_alg D = alg" "cluster_reachable D a c"
  shows "cluster_ok D answer good c"
  using assms(2)
proof (induction rule: reachable_invariant)
  case init
  show ?case using cluster_init_ok [of D a] by blast
next
  case (step c c')
  show ?case by (rule cluster_step_ok [OF assms(1) step(2,3)])
qed

lemma loop_reachable_ok:
  assumes "dp_alg D = alg" "tracks_readable D good" "distinct_nodes D" "cluster_reachable D a c"
  shows "loop_ok D answer good c g"
  using assms(4)
proof (induction rule: reachable_invariant)
  case init
  show ?case using cluster_init_ok [of D a] by blast
next
  case (step c c')
  show ?case using step_ok [OF assms(1) step(2) cluster_reachable_ok [OF assms(1) step(1)], of g] assms(2,3) step(3) by blast
qed

text \<open>The syncers of the system are syncers among whose statuses none is ambiguous.\<close>

lemma cluster_syncer:
  assumes "dp_alg D = alg" "cluster_reachable D a c"
  shows "syncer_reachable (dp_texts D) unambiguous (dp_node D g) (sxus c g)"
  using assms(2)
proof (induction rule: reachable_invariant)
  case init
  show ?case by (simp add: cluster_init_def)
next
  case (step c c')
  have mono: "syncer_step (dp_texts D) unambiguous s r" if "syncer_step (dp_texts D) (\<lambda>_. False) s r" for s r
    using that by cases (auto intro: syncer_step.intros)
  note ok = cluster_okD [OF cluster_reachable_ok [OF assms(1) step(1)]]
  from step(2) show ?case
  proof cases
    case (sxu h s)
    then show ?thesis using step(3) syncer_reachable_step [OF _ mono] by auto
  next
    case (deliver h st rest s)
    have "unambiguous st" using ok(4) [of st h] deliver(2) good_tracks [of st] by (auto simp: order_ok_def report_ok_def)
    then have "syncer_step (dp_texts D) unambiguous (sxus c h) (Some s)"
      using syncer_step.status [of unambiguous st "dp_texts D" "sxus c h"] deliver(3) by simp
    then show ?thesis using step(3) syncer_reachable_step deliver(1) by auto
  qed (use step(3) in auto)
qed

end

text \<open>Nothing is due, on its way or being worked on for an SXU.\<close>

definition at_rest :: "'a deployment \<Rightarrow> 'a cluster \<Rightarrow> sig \<Rightarrow> bool" where
  "at_rest D c g \<longleftrightarrow> \<not> statusSendCh (sxus c g) \<and> unhandled c g = [] \<and> \<not> ordered c g \<and>
     \<not> dirty (balancer c) (Nid (dp_node D g))"

end
