(* ===== verification/Control_Loop_Rest.thy ===== *)
theory Control_Loop_Rest
  imports Control_Loop_Invariant
begin

text \<open>
  The control loop comes to rest: from every reachable state there is a run, of steps that do not
  change the clients of any SXU (\<open>quiet\<close>), after which nothing is due, on its way or being worked on
  for a given SXU, whatever the texts and the node ids are. The goroutine of the ISGLB comes to its \<open>select\<close> with nothing to do (\<open>idle\<close>), by a measure; a report
  that names the SXU's clients is answered by an order that names them, which is adopted.
\<close>

section \<open>The goroutine of the ISGLB comes to wait\<close>

definition bal_step :: "'a deployment \<Rightarrow> 'a cluster \<Rightarrow> 'a cluster \<Rightarrow> bool" where
  "bal_step D c c' \<longleftrightarrow> (\<exists>l out. balancer_step D (balancer c) l \<and> conns l = conns (balancer c) \<and>
     length (recvCh l) \<le> length (recvCh (balancer c)) \<and> outbox l = outbox (balancer c) @ out \<and>
     c' = c\<lparr>balancer := l, downlink := (\<lambda>g. downlink c g @ sent_to g out)\<rparr>)"

definition quiet :: "'a deployment \<Rightarrow> 'a cluster \<Rightarrow> 'a cluster \<Rightarrow> bool" where
  "quiet D c c' \<longleftrightarrow> cluster_step D c c' \<and> (\<forall>g. held_clients (sxus c' g) = held_clients (sxus c g))"

lemma quiet_run:
  assumes "(quiet D)\<^sup>*\<^sup>* c c'"
  shows "(cluster_step D)\<^sup>*\<^sup>* c c'" "held_clients (sxus c' g) = held_clients (sxus c g)"
  using assms by (induction rule: rtranclp_induct) (auto simp: quiet_def intro: rtranclp.rtrancl_into_rtrancl)

lemma quiet_once: "quiet D c c' \<Longrightarrow> (quiet D)\<^sup>*\<^sup>* c c'"
  by (rule r_into_rtranclp)

lemma bal_step_quiet: "bal_step D c c' \<Longrightarrow> quiet D c c'"
  by (auto simp: bal_step_def quiet_def intro: cluster_step.balance)

definition idle :: "'a isglb_state \<Rightarrow> bool" where
  "idle l \<longleftrightarrow> phase l = Receiving \<and> recvCh l = [] \<and> recvCount (recv l) = 0"

text \<open>Messages still to take, then steps of the batch.\<close>

definition weight :: "'a isglb_state \<Rightarrow> nat \<times> nat" where
  "weight l = (length (recvCh l), case phase l of
     Receiving \<Rightarrow> if recvCount (recv l) = 0 then 0 else card (dom (latestStatus (recv l))) + 2
   | Sending dict nids \<Rightarrow> length nids + 1
   | Crashed \<Rightarrow> 0)"

definition lighter :: "('a isglb_state \<times> 'a isglb_state) set" where
  "lighter = inv_image (less_than <*lex*> less_than) weight"

lemma wf_lighter: "wf lighter"
  by (simp add: lighter_def wf_lex_prod)

context control_algorithm
begin

lemma bal_progress:
  assumes "dp_alg D = alg" "cluster_ok D answer good c" "\<not> idle (balancer c)"
  shows "\<exists>c'. bal_step D c c' \<and> (balancer c', balancer c) \<in> lighter"
proof -
  define l where "l = balancer c"
  have ok: "lb_ok D answer good l" and si: "service_inv l" and tr: "\<And>g. tracked l g"
    using cluster_okD(1) [OF assms(2)] by (simp_all add: serves_def l_def)
  have move: "\<exists>c'. bal_step D c c' \<and> (balancer c', balancer c) \<in> lighter"
    if "balancer_step D l l'" "conns l' = conns l" "length (recvCh l') \<le> length (recvCh l)" "outbox l' = outbox l @ out"
      "(l', l) \<in> lighter" for l' out
  proof -
    define c' where "c' = c\<lparr>balancer := l', downlink := (\<lambda>g. downlink c g @ sent_to g out)\<rparr>"
    have "bal_step D c c'" using that(1-4) unfolding bal_step_def l_def c'_def by blast
    moreover have "balancer c' = l'" by (simp add: c'_def)
    ultimately show ?thesis using that(5) by (auto simp: l_def)
  qed
  show ?thesis
  proof (cases "phase l")
    case Crashed
    with lb_okD(1) [OF ok] show ?thesis by simp
  next
    case (Sending dict nids)
    show ?thesis
    proof (cases nids)
      case Nil
      have "balancer_step D l (l\<lparr>recv := new_batch (recv l), phase := Receiving\<rparr>)"
        using isglb_step.finish [of l dict] Sending Nil by simp
      then show ?thesis
        by (rule move [where out = "[]"]) (simp_all add: lighter_def weight_def Sending new_batch_def)
    next
      case (Cons n ns)
      obtain vis :: visits where True by simp
      obtain r out where one: "send_one (SFUStatusItem_ops (dp_render D)) vis (sendChs l) dict n (recv l) = (r, out)"
        by (metis surj_pair)
      from isglb_step.send [OF Sending [unfolded Cons] one]
      have "balancer_step D l (l\<lparr>recv := r, phase := Sending dict ns, outbox := outbox l @ out\<rparr>)" .
      then show ?thesis
        by (rule move [where out = out]) (simp_all add: lighter_def weight_def Sending Cons)
    qed
  next
    case Receiving
    show ?thesis
    proof (cases "recvCh l")
      case (Cons m rest)
      obtain vis :: visits where True by simp
      obtain r where r: "handle_message (dp_render D) (dp_render_report D) vis m (recv l) = Some r"
        using take_returns [OF ok Cons, of "dp_render D" "dp_render_report D" vis] by blast
      from isglb_step.take_msg [OF Receiving Cons r] have "balancer_step D l (l\<lparr>recv := r, recvCh := rest\<rparr>)" .
      then show ?thesis
        by (rule move [where out = "[]"]) (simp_all add: lighter_def weight_def Cons)
    next
      case Nil
      then have pos: "0 < recvCount (recv l)" using assms(3) Receiving by (simp add: idle_def l_def)
      obtain vis :: visits where True by simp
      obtain a dict where con: "consult (dp_render D) (dp_alg D) vis (Alg l) (recv l) = Some (a, dict)"
        using flush_ok(2) [OF assms(1) ok si Receiving pos, of vis] by fastforce
      note f = flush_ok(1) [OF assms(1) ok si Receiving pos con]
      have "length (visit (by_nid vis) (dom dict)) = card (dom (latestStatus (recv l)))"
        using f by (metis distinct_card distinct_visit set_visit)
      then show ?thesis using pos
        by (intro move [where out = "[]", OF isglb_step.flush [OF Receiving Nil pos con]])
          (simp_all add: lighter_def weight_def Receiving Nil)
    qed
  qed
qed

end

lemma bal_frame: "(bal_step D)\<^sup>*\<^sup>* c c' \<Longrightarrow> sxus c' = sxus c \<and> uplink c' = uplink c"
  by (induction rule: rtranclp_induct) (auto simp: bal_step_def)

lemma bal_run: "(bal_step D)\<^sup>*\<^sup>* c c' \<Longrightarrow> (quiet D)\<^sup>*\<^sup>* c c'"
  by (rule rtranclp_mono [THEN predicate2D]) (auto intro: bal_step_quiet)

text \<open>A status an SXU adopts if \<open>S\<close> are its clients.\<close>

definition names :: "'a deployment \<Rightarrow> sig \<Rightarrow> client_needed_session set \<Rightarrow> sfu_status \<Rightarrow> bool" where
  "names D g S st \<longleftrightarrow> SFU st = Some (dp_node D g) \<and> set (Clients st) = S"

text \<open>What the ISGLB has to work on for the SXU, and what is on its way to it, names the clients \<open>S\<close>.\<close>

definition clients_match :: "'a deployment \<Rightarrow> 'a cluster \<Rightarrow> sig \<Rightarrow> client_needed_session set \<Rightarrow> bool" where
  "clients_match D c g S \<longleftrightarrow> recvCh (balancer c) = [] \<and>
     (\<forall>x. latestStatus (recv (balancer c)) (Nid (dp_node D g)) = Some x \<longrightarrow>
        dirty (balancer c) (Nid (dp_node D g)) \<longrightarrow> names D g S (SFUStatus x)) \<and>
     (\<forall>st \<in> set (downlink c g). names D g S st)"

context control_algorithm
begin

lemma run_ok:
  assumes "dp_alg D = alg" "(quiet D)\<^sup>*\<^sup>* c c'" "cluster_ok D answer good c"
  shows "cluster_ok D answer good c'"
  using assms(2)
  by (induction rule: rtranclp_induct) (use assms(3) cluster_step_ok [OF assms(1)] in \<open>auto simp: quiet_def\<close>)

lemma bal_idle:
  assumes "dp_alg D = alg" "cluster_ok D answer good c"
  shows "\<exists>c'. (bal_step D)\<^sup>*\<^sup>* c c' \<and> idle (balancer c')"
  using assms(2)
proof (induction "balancer c" arbitrary: c rule: wf_induct_rule [OF wf_lighter])
  case 1
  show ?case
  proof (cases "idle (balancer c)")
    case False
    then obtain c1 where c1: "bal_step D c c1" "(balancer c1, balancer c) \<in> lighter"
      using bal_progress [OF assms(1) 1(2)] by blast
    have "cluster_ok D answer good c1" using run_ok [OF assms(1) _ 1(2)] bal_step_quiet [OF c1(1)] by blast
    with 1(1) [OF c1(2)] obtain c' where "(bal_step D)\<^sup>*\<^sup>* c1 c'" "idle (balancer c')" by blast
    with c1(1) show ?thesis by (meson converse_rtranclp_into_rtranclp)
  qed blast
qed

lemma bal_clients:
  assumes "dp_alg D = alg" "cluster_ok D answer good c" "bal_step D c c'" "clients_match D c g S"
  shows "clients_match D c' g S"
proof -
  obtain l out where st: "balancer_step D (balancer c) l" "conns l = conns (balancer c)"
      "length (recvCh l) \<le> length (recvCh (balancer c))" "outbox l = outbox (balancer c) @ out"
    and c': "c' = c\<lparr>balancer := l, downlink := (\<lambda>g. downlink c g @ sent_to g out)\<rparr>"
    using assms(3) by (auto simp: bal_step_def)
  have sv: "serves D answer good (balancer c)" by (rule cluster_okD(1) [OF assms(2)])
  then have ok: "lb_ok D answer good (balancer c)" and si: "service_inv (balancer c)" and tr: "\<And>g. tracked (balancer c) g"
    by (simp_all add: serves_def)
  have none: "recvCh (balancer c) = []" using assms(4) by (simp add: clients_match_def)
  have m: "latestStatus (recv (balancer c)) (Nid (dp_node D g)) = Some x \<Longrightarrow>
      dirty (balancer c) (Nid (dp_node D g)) \<Longrightarrow> names D g S (SFUStatus x)" for x
    using assms(4) by (simp add: clients_match_def)
  have "recvCh l = [] \<and> (\<forall>x. latestStatus (recv l) (Nid (dp_node D g)) = Some x \<longrightarrow> dirty l (Nid (dp_node D g)) \<longrightarrow>
      names D g S (SFUStatus x)) \<and> (\<forall>st \<in> set (sent_to g out). names D g S st)"
    using assms(1) sv st
  proof (cases rule: balance_cases)
    case (take m rest vis r)
    then show ?thesis using none by simp
  next
    case (flush vis a dict)
    have "dirty (balancer c) n" for n using flush(2,4) by (simp add: dirty_def)
    then show ?thesis using m none by (simp add: flush(1,8))
  next
    case (send dict n nids vis r)
    have dist: "n \<notin> set nids" using lb_okD(6) [OF ok send(2)] by simp
    have d: "dirty (balancer c) k \<longleftrightarrow> k = n \<or> k \<in> set nids" "dirty l k \<longleftrightarrow> k \<in> set nids" for k
      by (simp_all add: dirty_def send(1,2))
    from send_ok(2) [OF ok si tr send(2,3)] obtain h x y where h: "n = Nid (dp_node D h)"
        "latestStatus (recv (balancer c)) n = Some x" "answer (SFUStatus x) = Some y" "SFU y = SFU (SFUStatus x)"
      and cases: "out = [] \<and> r = recv (balancer c) \<or>
       out = [(h, y)] \<and> r = (recv (balancer c))\<lparr>latestStatus := (latestStatus (recv (balancer c)))(n \<mapsto> \<lparr>SFUStatus = y\<rparr>)\<rparr>"
      by blast
    have y: "names D g S y" if "Nid (dp_node D g) = n"
      using m [of x] that h(2,4) d(1) answer_Clients [OF h(3)] by (simp add: names_def)
    then have "\<forall>st \<in> set (sent_to g out). names D g S st" using cases h(1) by auto
    moreover have "names D g S (SFUStatus z)"
      if "latestStatus r (Nid (dp_node D g)) = Some z" "Nid (dp_node D g) \<in> set nids" for z
      using that m [of z] cases d(1) dist by (auto split: if_splits)
    ultimately show ?thesis using none by (simp add: send(1) dirty_def)
  next
    case (finish dict)
    then show ?thesis using none by (simp add: dirty_def new_batch_def)
  qed
  with assms(4) show ?thesis by (auto simp: clients_match_def c')
qed

lemma bal_run_clients:
  assumes "dp_alg D = alg" "(bal_step D)\<^sup>*\<^sup>* c c'" "cluster_ok D answer good c" "clients_match D c g S"
  shows "clients_match D c' g S"
  using assms(2)
proof (induction rule: rtranclp_induct)
  case (step c1 c2)
  have "cluster_ok D answer good c1" by (rule run_ok [OF assms(1) bal_run [OF step(1)] assms(3)])
  then show ?case by (rule bal_clients [OF assms(1) _ step(2,3)])
qed (rule assms(4))

end

section \<open>An SXU takes its orders and reports\<close>

lemma accepted_if:
  assumes "syncer_inv E s" "SFU st = Some (descSFU s)" "set (Clients st) = held_clients s"
  shows "accepted E st s"
proof -
  have inv: "dset_inv (client_ops E) (clientSet s)" using assms(1) by (simp add: syncer_inv_def)
  have held: "\<exists>d. contents (clientSet s) (client_key c) = Some d \<and> Client d = c" if c: "c \<in> set (Clients st)" for c
  proof -
    from c assms(3) obtain k d where k: "contents (clientSet s) k = Some d" "Client d = c"
      by (auto simp: held_clients_def ran_def)
    have "Key (client_ops E) d = Some k" using inv k(1) by (simp add: dset_inv_iff_contents)
    with k show ?thesis by (auto simp: ClientNeededSessionItem_ops_def)
  qed
  have "agrees (client_ops E) (contents (clientSet s)) \<lparr>Client = c\<rparr>" if "c \<in> set (Clients st)" for c
    using held [OF that] by (auto simp: agrees_def ClientNeededSessionItem_ops_def)
  moreover have "\<exists>c \<in> set (Clients st). client_key c = k" if "k \<in> dom (clientSet s)" for k
  proof -
    have "k \<in> dom (contents (clientSet s))" using that by (simp only: contents_simps)
    then obtain d where d: "contents (clientSet s) k = Some d" by (auto simp del: contents_simps)
    then have "Client d \<in> set (Clients st)" by (force simp: assms(3) held_clients_def ran_def)
    moreover have "Key (client_ops E) d = Some k" using inv d by (simp add: dset_inv_iff_contents)
    then have "client_key (Client d) = k" by (simp add: ClientNeededSessionItem_ops_def)
    ultimately show ?thesis by blast
  qed
  ultimately show ?thesis using assms(2) by (simp add: accepted_def)
qed

context control_algorithm
begin

lemma recv_once:
  assumes "sxu_ok D good g s" "statusRecvCh s = Some st" "order_ok D answer good g st"
  shows "\<exists>s'. main_recv (dp_texts D) vis s = Some s' \<and> \<not> closed s' \<and> sent s' = sent s \<and> statusRecvCh s' = None \<and>
    held_clients s' = held_clients s \<and> (names D g (held_clients s) st \<longrightarrow> statusSendCh s' = statusSendCh s)"
proof -
  let ?s = "s\<lparr>statusRecvCh := None\<rparr>"
  have inv: "syncer_inv (dp_texts D) ?s" and run: "\<not> closed ?s" and desc: "descSFU ?s = dp_node D g"
    using assms(1) by (simp_all add: sxu_ok_def syncer_inv_def)
  have st: "good st" using assms(3) by (simp add: order_ok_def report_ok_def)
  have "syncStatus (dp_texts D) vis st ?s \<noteq> None"
    by (rule syncStatus_returns [OF run]) (use good_tracks [OF st] in blast)
  then obtain s' where s': "syncStatus (dp_texts D) vis st ?s = Some s'" by blast
  have held: "held_clients ?s = held_clients s" by (simp add: held_clients_def)
  have acc: "accepted (dp_texts D) st ?s" if "names D g (held_clients s) st"
    using accepted_if [OF inv] that held desc by (simp add: names_def)
  from inv s' have "\<not> closed s' \<and> sent s' = sent s \<and> statusRecvCh s' = None \<and> held_clients s' = held_clients s \<and>
    (names D g (held_clients s) st \<longrightarrow> statusSendCh s' = statusSendCh s)"
  proof (cases rule: syncStatus_cases)
    case (rejected index)
    then show ?thesis using acc run by (auto simp: held_clients_def)
  next
    case (adopted index fs fadd fdel frep ps padd pdel prep)
    then show ?thesis using run by (simp add: held_clients_def)
  qed
  moreover have "main_recv (dp_texts D) vis s = Some s'" by (simp add: main_recv_def assms(2) s')
  ultimately show ?thesis by blast
qed

lemma take_order:
  assumes "cluster_ok D answer good c" "downlink c g = []"
  shows "\<exists>c'. (quiet D)\<^sup>*\<^sup>* c c' \<and> balancer c' = balancer c \<and> uplink c' = uplink c \<and> \<not> ordered c' g \<and>
    ((\<forall>st. statusRecvCh (sxus c g) = Some st \<longrightarrow> names D g (held_clients (sxus c g)) st) \<longrightarrow>
       statusSendCh (sxus c' g) = statusSendCh (sxus c g))"
proof (cases "statusRecvCh (sxus c g)")
  case None
  with assms(2) show ?thesis by (intro exI [of _ c]) (simp add: ordered_def)
next
  case (Some st)
  note ok = cluster_okD [OF assms(1)]
  have "order_ok D answer good g st" using ok(5) [of g] Some by simp
  then obtain s' vis where s': "main_recv (dp_texts D) vis (sxus c g) = Some s'" "\<not> closed s'" "sent s' = sent (sxus c g)"
    "statusRecvCh s' = None" "held_clients s' = held_clients (sxus c g)"
    "names D g (held_clients (sxus c g)) st \<Longrightarrow> statusSendCh s' = statusSendCh (sxus c g)"
    using recv_once [OF ok(2) Some] by blast
  have "running (sxus c g)" using ok(2) [of g] by (simp add: sxu_ok_def)
  then have "syncer_step (dp_texts D) (\<lambda>_. False) (sxus c g) (Some s')"
    using syncer_step.recv [of "sxus c g" "dp_texts D" "\<lambda>_. False" vis] Some s'(1) by simp
  note step = cluster_step.sxu [OF this s'(2), unfolded s'(3)]
  have "quiet D c (c\<lparr>sxus := (sxus c)(g := s'), uplink := (uplink c)(g := uplink c g @ drop (length (sent (sxus c g))) (sent (sxus c g)))\<rparr>)"
    using step s'(5) by (simp add: quiet_def)
  then show ?thesis
    by (intro exI conjI, rule r_into_rtranclp) (use s'(4,6) assms(2) Some in \<open>auto simp: ordered_def\<close>)
qed

lemma drain_orders:
  assumes "dp_alg D = alg" "cluster_ok D answer good c"
  shows "\<exists>c'. (quiet D)\<^sup>*\<^sup>* c c' \<and> balancer c' = balancer c \<and> uplink c' = uplink c \<and> \<not> ordered c' g \<and>
    ((\<forall>st. st \<in> set (downlink c g) \<or> statusRecvCh (sxus c g) = Some st \<longrightarrow> names D g (held_clients (sxus c g)) st) \<longrightarrow>
       statusSendCh (sxus c' g) = statusSendCh (sxus c g))"
proof (cases "downlink c g = []")
  case True
  with take_order [OF assms(2) True] show ?thesis by simp
next
  case False
  note ok = cluster_okD [OF assms(2)]
  define st where "st = last (downlink c g)"
  define c1 where "c1 = c\<lparr>downlink := (downlink c)(g := [st])\<rparr>"
  define s where "s = (sxus c g)\<lparr>statusRecvCh := Some st\<rparr>"
  define c2 where "c2 = c1\<lparr>sxus := (sxus c1)(g := s), downlink := (downlink c1)(g := [])\<rparr>"
  have "all_last [st] (downlink c g)" using False by (simp add: all_last_def st_def subseq_singleton_left)
  then have step1: "quiet D c c1" unfolding c1_def quiet_def by (simp add: cluster_step.skip_down)
  have "OnSFUStatusRecv st (sxus c1 g) = Some s"
    using ok(2) [of g] by (simp add: OnSFUStatusRecv_def c1_def s_def sxu_ok_def)
  then have "cluster_step D c1 c2" unfolding c2_def
    by (intro cluster_step.deliver [where st = st]) (simp_all add: c1_def)
  then have step2: "quiet D c1 c2" by (simp add: quiet_def c2_def c1_def s_def held_clients_def)
  have run2: "(quiet D)\<^sup>*\<^sup>* c c2" by (rule converse_rtranclp_into_rtranclp [OF step1 quiet_once [OF step2]])
  have "cluster_ok D answer good c2" by (rule run_ok [OF assms(1) run2 assms(2)])
  from take_order [OF this, of g] obtain c' where c': "(quiet D)\<^sup>*\<^sup>* c2 c'" "balancer c' = balancer c2" "uplink c' = uplink c2"
    "\<not> ordered c' g"
    "(\<forall>st. statusRecvCh (sxus c2 g) = Some st \<longrightarrow> names D g (held_clients (sxus c2 g)) st) \<Longrightarrow>
       statusSendCh (sxus c' g) = statusSendCh (sxus c2 g)"
    by (auto simp: c2_def)
  have c2: "balancer c2 = balancer c" "uplink c2 = uplink c" "held_clients (sxus c2 g) = held_clients (sxus c g)"
    "statusSendCh (sxus c2 g) = statusSendCh (sxus c g)" "statusRecvCh (sxus c2 g) = Some st"
    by (simp_all add: c2_def c1_def s_def held_clients_def)
  have "st \<in> set (downlink c g)" using False by (simp add: st_def)
  with rtranclp_trans [OF run2 c'(1)] c'(2-5) c2 show ?thesis by (intro exI [of _ c']) auto
qed

end

section \<open>A round of the loop\<close>

text \<open>The ISGLB waits, and no order is on its way.\<close>

definition ready :: "'a cluster \<Rightarrow> sig \<Rightarrow> bool" where
  "ready c g \<longleftrightarrow> idle (balancer c) \<and> \<not> ordered c g"

lemma connected:
  assumes "lb_ok D answer good (balancer c)" "idle (balancer c)"
  shows "\<exists>c'. (quiet D)\<^sup>*\<^sup>* c c' \<and> conns (balancer c') g = Serving \<and> idle (balancer c') \<and>
    sxus c' = sxus c \<and> uplink c' = uplink c \<and> downlink c' = downlink c"
proof (cases "conns (balancer c) g = Serving")
  case True
  with assms(2) show ?thesis by blast
next
  case False
  then have un: "conns (balancer c) g = Unused" using lb_okD(2) [OF assms(1)] by blast
  have "phase (balancer c) \<noteq> Crashed" using assms(2) by (simp add: idle_def)
  note cluster_step.connect [OF isglb_step.accept [OF this un] un]
  then have "quiet D c (c\<lparr>balancer := (balancer c)\<lparr>conns := (conns (balancer c))(g := Serving), sendChs := insert g (sendChs (balancer c))\<rparr>\<rparr>)"
    by (simp add: quiet_def)
  then show ?thesis
    by (intro exI conjI, rule r_into_rtranclp) (use assms(2) in \<open>simp_all add: idle_def\<close>)
qed

context control_algorithm
begin

text \<open>The last report reaches the ISGLB, which takes it.\<close>

lemma report_arrives:
  assumes "dp_alg D = alg" "cluster_ok D answer good c" "idle (balancer c)" "uplink c g \<noteq> []"
  shows "\<exists>c'. (quiet D)\<^sup>*\<^sup>* c c' \<and> sxus c' = sxus c \<and> downlink c' = downlink c \<and> uplink c' g = [] \<and>
    recvCh (balancer c') = [] \<and>
    (latestStatus (recv (balancer c')) (Nid (dp_node D g)) = Some \<lparr>SFUStatus = last (uplink c g)\<rparr> \<or>
     \<not> dirty (balancer c') (Nid (dp_node D g)))"
proof -
  define st where "st = last (uplink c g)"
  define c1 where "c1 = c\<lparr>uplink := (uplink c)(g := [st])\<rparr>"
  have "all_last [st] (uplink c g)" using assms(4) by (simp add: all_last_def st_def subseq_singleton_left)
  then have step1: "quiet D c c1" unfolding c1_def quiet_def by (simp add: cluster_step.skip_up)
  have ok1: "cluster_ok D answer good c1" using run_ok [OF assms(1) _ assms(2)] step1 by blast
  then have "lb_ok D answer good (balancer c1)" using cluster_okD(1) [of D answer good c1] by (simp add: serves_def)
  moreover have "idle (balancer c1)" using assms(3) by (simp add: c1_def)
  ultimately obtain c2 where c2: "(quiet D)\<^sup>*\<^sup>* c1 c2" "conns (balancer c2) g = Serving" "idle (balancer c2)"
    "sxus c2 = sxus c" "uplink c2 = uplink c1" "downlink c2 = downlink c"
    using connected [of D answer good c1 g] by (auto simp: c1_def)
  define m where "m = request_msg g (Some (SyncRequest_Status st))"
  define l3 where "l3 = (balancer c2)\<lparr>recvCh := recvCh (balancer c2) @ [m]\<rparr>"
  define c3 where "c3 = c2\<lparr>balancer := l3, uplink := (uplink c2)(g := [])\<rparr>"
  have idle2: "phase (balancer c2) = Receiving" "recvCh (balancer c2) = []" "recvCount (recv (balancer c2)) = 0"
    using c2(3) by (simp_all add: idle_def)
  have "balancer_step D (balancer c2) l3" unfolding l3_def m_def
    by (rule isglb_step.receive) (use idle2 c2(2) in \<open>simp_all add: recvCh_cap_def\<close>)
  then have "cluster_step D c2 c3" unfolding c3_def
    by (rule cluster_step.transmit [rotated]) (simp_all add: c2(5) c1_def l3_def m_def)
  then have step3: "quiet D c2 c3" by (simp add: quiet_def c3_def)
  have run3: "(quiet D)\<^sup>*\<^sup>* c c3"
    by (rule converse_rtranclp_into_rtranclp [OF step1 rtranclp.rtrancl_into_rtrancl [OF c2(1) step3]])
  have "lb_ok D answer good l3"
    using cluster_okD(1) [OF run_ok [OF assms(1) run3 assms(2)]] by (simp add: serves_def c3_def)
  note lb3 = this
  have l3: "phase l3 = Receiving" "recvCh l3 = m # []" "recvCount (recv l3) = 0" using idle2 by (simp_all add: l3_def)
  obtain vis :: visits where True by simp
  obtain r where r: "handle_message (dp_render D) (dp_render_report D) vis m (recv l3) = Some r"
    using take_returns [OF lb3 l3(2), of "dp_render D" "dp_render_report D" vis] by blast
  define l4 where "l4 = l3\<lparr>recv := r, recvCh := []\<rparr>"
  define c4 where "c4 = c3\<lparr>balancer := l4, downlink := (\<lambda>g. downlink c3 g @ sent_to g [])\<rparr>"
  have "balancer_step D l3 l4" unfolding l4_def by (rule isglb_step.take_msg [OF l3(1,2) r])
  then have "bal_step D c3 c4"
    unfolding bal_step_def c4_def by (intro exI [of _ l4] exI [of _ "[]"] conjI) (simp_all add: c3_def l4_def)
  note run4 = rtranclp.rtrancl_into_rtrancl [OF run3 bal_step_quiet [OF this]]
  have "report_ok D good g st" using cluster_okD(3) [OF assms(2), of st g] assms(4) by (simp add: st_def)
  then have "latestStatus r (Nid (dp_node D g)) = Some \<lparr>SFUStatus = st\<rparr> \<or> recvCount r = 0"
    using handle_status_ok(2) [of D good g st "recv l3" r] r l3(3) by (auto simp: m_def handle_message_simps)
  then have "latestStatus (recv l4) (Nid (dp_node D g)) = Some \<lparr>SFUStatus = st\<rparr> \<or> \<not> dirty l4 (Nid (dp_node D g))"
    by (auto simp: l4_def dirty_def l3(1))
  then show ?thesis
    by (intro exI [of _ c4] conjI run4) (simp_all add: c4_def c3_def l4_def c2(4,6) st_def)
qed

lemma report_round:
  assumes "dp_alg D = alg" "cluster_ok D answer good c" "ready c g" "uplink c g \<noteq> []" "\<not> statusSendCh (sxus c g)"
  shows "\<exists>c'. (quiet D)\<^sup>*\<^sup>* c c' \<and> ready c' g \<and> uplink c' g = [] \<and>
    (names D g (held_clients (sxus c g)) (last (uplink c g)) \<longrightarrow> \<not> statusSendCh (sxus c' g))"
proof -
  define S where "S = held_clients (sxus c g)"
  have idle: "idle (balancer c)" and none: "downlink c g = []" "statusRecvCh (sxus c g) = None"
    using assms(3) by (simp_all add: ready_def ordered_def)
  obtain c1 where c1: "(quiet D)\<^sup>*\<^sup>* c c1" "sxus c1 = sxus c" "downlink c1 = downlink c" "uplink c1 g = []"
    "recvCh (balancer c1) = []"
    "latestStatus (recv (balancer c1)) (Nid (dp_node D g)) = Some \<lparr>SFUStatus = last (uplink c g)\<rparr> \<or>
     \<not> dirty (balancer c1) (Nid (dp_node D g))"
    using report_arrives [OF assms(1,2) idle assms(4)] by blast
  note ok1 = run_ok [OF assms(1) c1(1) assms(2)]
  obtain c2 where c2: "(bal_step D)\<^sup>*\<^sup>* c1 c2" "idle (balancer c2)" using bal_idle [OF assms(1) ok1] by blast
  note fr = bal_frame [OF c2(1)]
  have run2: "(quiet D)\<^sup>*\<^sup>* c c2" by (rule rtranclp_trans [OF c1(1) bal_run [OF c2(1)]])
  from drain_orders [OF assms(1) run_ok [OF assms(1) run2 assms(2)]] obtain c3 where c3: "(quiet D)\<^sup>*\<^sup>* c2 c3"
    "balancer c3 = balancer c2" "uplink c3 = uplink c2" "\<not> ordered c3 g"
    "(\<forall>st. st \<in> set (downlink c2 g) \<or> statusRecvCh (sxus c2 g) = Some st \<longrightarrow> names D g (held_clients (sxus c2 g)) st) \<longrightarrow>
       statusSendCh (sxus c3 g) = statusSendCh (sxus c2 g)"
    by blast
  have "\<not> statusSendCh (sxus c3 g)" if match: "names D g S (last (uplink c g))"
  proof -
    have "clients_match D c1 g S" using match c1(6) by (auto simp: clients_match_def c1(3,5) none)
    then have "clients_match D c2 g S" by (rule bal_run_clients [OF assms(1) c2(1) ok1])
    then show ?thesis using c3(5) assms(5) fr c1(2) none(2) by (simp add: clients_match_def S_def)
  qed
  moreover have "(quiet D)\<^sup>*\<^sup>* c c3" by (rule rtranclp_trans [OF run2 c3(1)])
  ultimately show ?thesis
    using c2(2) c3(2-4) fr c1(4) by (intro exI [of _ c3]) (simp add: ready_def S_def)
qed

end

section \<open>The loop comes to rest\<close>

context control_algorithm
begin

lemma hand_over:
  assumes "cluster_ok D answer good c" "ready c g" "statusSendCh (sxus c g)"
  shows "\<exists>c'. quiet D c c' \<and> ready c' g \<and> uplink c' g \<noteq> [] \<and> \<not> statusSendCh (sxus c' g) \<and>
    names D g (held_clients (sxus c' g)) (last (uplink c' g))"
proof -
  define s where "s = sxus c g"
  have sx: "sxu_ok D good g s" using cluster_okD(2) [OF assms(1)] by (simp add: s_def)
  then have inv: "syncer_inv (dp_texts D) s" by (simp add: sxu_ok_def)
  obtain vis :: syncer_visits where True by simp
  obtain st where st: "current_status (dp_texts D) vis s = Some st" using current_status_returns [OF inv, of vis] by blast
  define s' where "s' = s\<lparr>statusSendCh := False, sent := sent s @ [st]\<rparr>"
  define c' where "c' = c\<lparr>sxus := (sxus c)(g := s'), uplink := (uplink c)(g := uplink c g @ drop (length (sent (sxus c g))) (sent s'))\<rparr>"
  have "main_send (dp_texts D) vis s = Some s'" using assms(3) st by (simp add: main_send_def s'_def s_def)
  moreover have "running s" "\<not> closed s'" using sx by (simp_all add: sxu_ok_def s'_def)
  ultimately have "syncer_step (dp_texts D) (\<lambda>_. False) (sxus c g) (Some s')"
    using syncer_step.send [of s "dp_texts D" "\<lambda>_. False" vis] assms(3) by (simp add: s_def)
  from cluster_step.sxu [OF this \<open>\<not> closed s'\<close>] have "quiet D c c'"
    by (simp add: quiet_def c'_def s'_def s_def held_clients_def)
  moreover have "names D g (held_clients s) st"
    using reported_good(2) [OF sx st] current_status_mirrors(1) [OF inv st] by (simp add: names_def mirrors_def)
  then have "names D g (held_clients (sxus c' g)) (last (uplink c' g))" "uplink c' g \<noteq> []"
    by (simp_all add: c'_def s'_def s_def held_clients_def)
  moreover have "ready c' g" "\<not> statusSendCh (sxus c' g)"
    using assms(2) by (simp_all add: ready_def ordered_def c'_def s'_def s_def)
  ultimately show ?thesis by blast
qed

lemma ready_rest:
  "ready c g \<Longrightarrow> uplink c g = [] \<Longrightarrow> \<not> statusSendCh (sxus c g) \<Longrightarrow> at_rest D c g"
  by (simp add: at_rest_def ready_def idle_def unhandled_def dirty_def)

lemma becomes_ready:
  assumes "dp_alg D = alg" "cluster_ok D answer good c"
  shows "\<exists>c'. (quiet D)\<^sup>*\<^sup>* c c' \<and> ready c' g"
proof -
  obtain c1 where c1: "(bal_step D)\<^sup>*\<^sup>* c c1" "idle (balancer c1)" using bal_idle [OF assms] by blast
  from drain_orders [OF assms(1) run_ok [OF assms(1) bal_run [OF c1(1)] assms(2)]] obtain c2
    where "(quiet D)\<^sup>*\<^sup>* c1 c2" "balancer c2 = balancer c1" "\<not> ordered c2 g" by blast
  with c1(2) rtranclp_trans [OF bal_run [OF c1(1)]] show ?thesis by (intro exI [of _ c2]) (simp add: ready_def)
qed

text \<open>With a report due, one round suffices: the report names the clients of the SXU.\<close>

lemma due_rests:
  assumes "dp_alg D = alg" "cluster_ok D answer good c" "ready c g" "statusSendCh (sxus c g)"
  shows "\<exists>c'. (quiet D)\<^sup>*\<^sup>* c c' \<and> at_rest D c' g"
proof -
  obtain c1 where c1: "quiet D c c1" "ready c1 g" "uplink c1 g \<noteq> []" "\<not> statusSendCh (sxus c1 g)"
    "names D g (held_clients (sxus c1 g)) (last (uplink c1 g))"
    using hand_over [OF assms(2-4)] by blast
  have "cluster_ok D answer good c1" by (rule run_ok [OF assms(1) quiet_once [OF c1(1)] assms(2)])
  from report_round [OF assms(1) this c1(2-4)] c1(5) obtain c2 where "(quiet D)\<^sup>*\<^sup>* c1 c2" "ready c2 g" "uplink c2 g = []"
    "\<not> statusSendCh (sxus c2 g)" by auto
  with ready_rest [of c2 g D] rtranclp_trans [OF quiet_once [OF c1(1)]] show ?thesis by blast
qed

lemma comes_to_rest:
  assumes "dp_alg D = alg" "cluster_ok D answer good c"
  shows "\<exists>c'. (quiet D)\<^sup>*\<^sup>* c c' \<and> at_rest D c' g"
proof -
  obtain c1 where c1: "(quiet D)\<^sup>*\<^sup>* c c1" "ready c1 g" using becomes_ready [OF assms] by blast
  note ok1 = run_ok [OF assms(1) c1(1) assms(2)]
  have "\<exists>c'. (quiet D)\<^sup>*\<^sup>* c1 c' \<and> at_rest D c' g"
  proof (cases "\<not> statusSendCh (sxus c1 g) \<and> uplink c1 g \<noteq> []")
    case False
    with ready_rest [OF c1(2)] due_rests [OF assms(1) ok1 c1(2)] show ?thesis by blast
  next
    case True
    then obtain c2 where c2: "(quiet D)\<^sup>*\<^sup>* c1 c2" "ready c2 g" "uplink c2 g = []"
      using report_round [OF assms(1) ok1 c1(2)] by blast
    note ok2 = run_ok [OF assms(1) c2(1) ok1]
    have "\<exists>c'. (quiet D)\<^sup>*\<^sup>* c2 c' \<and> at_rest D c' g"
      using ready_rest [OF c2(2,3)] due_rests [OF assms(1) ok2 c2(2)] by blast
    then show ?thesis using rtranclp_trans [OF c2(1)] by blast
  qed
  then show ?thesis using rtranclp_trans [OF c1(1)] by blast
qed

lemma rest_content: "loop_ok D answer good c g \<Longrightarrow> at_rest D c g \<Longrightarrow> content answer good (sxus c g)"
  by (auto simp: loop_ok_def at_rest_def Let_def)

end

section \<open>The algorithms\<close>

definition no_tracks :: "sfu_status \<Rightarrow> bool" where
  "no_tracks x \<longleftrightarrow> ForwardTracks x = [] \<and> ProceedTracks x = []"

definition stupid_tracks :: "sfu_status \<Rightarrow> bool" where
  "stupid_tracks x \<longleftrightarrow> (ForwardTracks x = [] \<or> ForwardTracks x = [stupid_track]) \<and> ProceedTracks x = []"

interpretation empty_control: control_algorithm EmptyAlgorithm Some no_tracks
  by unfold_locales (auto simp: no_tracks_def unambiguous_def one_track_per_key_def)

interpretation stupid_control: control_algorithm StupidAlgorithm stupid_one stupid_tracks
proof
  show "unambiguous x \<and> (\<forall>t \<in> set (ForwardTracks x). Src t \<noteq> None)" if "stupid_tracks x" for x
    using that by (auto simp: stupid_tracks_def unambiguous_def stupid_track_def)
  show "stupid_tracks z" if "stupid_tracks x" "set (ForwardTracks z) = set (ForwardTracks x)"
    "set (ProceedTracks z) = set (ProceedTracks x)" "unambiguous z" for x z
  proof -
    have "distinct (ForwardTracks z)" using that(4) by (simp add: unambiguous_def distinct_map)
    with that(1-3) show ?thesis
      by (cases "ForwardTracks z"; cases "tl (ForwardTracks z)") (auto simp: stupid_tracks_def)
  qed
  show "one_track_per_key x y" if "stupid_tracks x" "stupid_tracks y" for x y
    using that by (auto simp: stupid_tracks_def one_track_per_key_def)
  show "\<exists>y. stupid_one x = Some y \<and> stupid_tracks y" if "stupid_tracks x" for x
    using that by (auto simp: stupid_tracks_def stupid_one_def stupid_track_def)
  show "Clients y = Clients x" if "stupid_one x = Some y" for x y
    using that by (auto simp: stupid_one_def split: option.splits bool.splits)
qed (simp_all add: stupid_tracks_def)

end
