(* ===== verification/Control_Loop_Properties.thy ===== *)
theory Control_Loop_Properties
  imports Control_Loop_Rest
begin

text \<open>
  The properties of the control loop under the stupid algorithm, and a deployment to which they
  apply: its texts write every message out in a code no text of which begins another.
\<close>

section \<open>Texts that can be read back\<close>

text \<open>What \<open>f\<close> writes is cut off the front of a text in one way only.\<close>

definition prefix_code :: "('x \<Rightarrow> string) \<Rightarrow> bool" where
  "prefix_code f \<longleftrightarrow> (\<forall>x y s t. f x @ s = f y @ t \<longrightarrow> x = y \<and> s = t)"

lemma prefix_codeD: "prefix_code f \<Longrightarrow> f x @ s = f y @ t \<longleftrightarrow> x = y \<and> s = t"
  by (auto simp: prefix_code_def)

lemma prefix_code_inj: "prefix_code f \<Longrightarrow> inj f"
  by (rule injI) (metis prefix_codeD)

fun code_list :: "('x \<Rightarrow> string) \<Rightarrow> 'x list \<Rightarrow> string" where
  "code_list f [] = ''.''"
| "code_list f (x # xs) = ''x'' @ f x @ code_list f xs"

fun code_option :: "('x \<Rightarrow> string) \<Rightarrow> 'x option \<Rightarrow> string" where
  "code_option f None = ''.''"
| "code_option f (Some x) = ''x'' @ f x"

definition code_string :: "string \<Rightarrow> string" where
  "code_string = code_list (\<lambda>c. [c])"

definition code_bool :: "bool \<Rightarrow> string" where
  "code_bool b = (if b then ''x'' else ''.'')"

definition code_layer :: "subscription_layer \<Rightarrow> string" where
  "code_layer w = code_list (\<lambda>_. []) (replicate (unat w) ())"

lemma code_list_prefix: "prefix_code f \<Longrightarrow> prefix_code (code_list f)"
proof -
  assume f: "prefix_code f"
  have "code_list f xs @ s = code_list f ys @ t \<longrightarrow> xs = ys \<and> s = t" for xs ys s t
  proof (induction xs arbitrary: ys)
    case Nil
    show ?case by (cases ys) simp_all
  next
    case (Cons x xs)
    show ?case using Cons by (cases ys) (auto simp: prefix_codeD [OF f])
  qed
  then show ?thesis by (simp add: prefix_code_def)
qed

lemma code_option_prefix: "prefix_code f \<Longrightarrow> prefix_code (code_option f)"
  unfolding prefix_code_def by (intro allI) (case_tac x; case_tac y; auto)

lemma code_string_prefix: "prefix_code code_string"
  unfolding code_string_def by (rule code_list_prefix) (simp add: prefix_code_def)

lemma code_layer_prefix: "prefix_code code_layer"
proof -
  have "prefix_code (code_list (\<lambda>_ :: unit. []))" by (rule code_list_prefix) (simp add: prefix_code_def)
  then show ?thesis
    unfolding prefix_code_def code_layer_def by (metis length_replicate word_unat_eq_iff)
qed

definition code_rpc :: "rpc \<Rightarrow> string" where
  "code_rpc r = code_string (Addr r)"

definition code_node :: "node \<Rightarrow> string" where
  "code_node n = code_string (Dc n) @ code_string (Nid n) @ code_string (Service n) @ code_option code_rpc (Rpc n)"

definition code_any :: "any_msg \<Rightarrow> string" where
  "code_any m = code_string (TypeUrl m) @ code_string (Value m)"

definition code_subscription :: "subscription \<Rightarrow> string" where
  "code_subscription s = code_string (TrackId s) @ code_bool (Mute s) @ code_layer (Layer s)"

definition code_forward :: "forward_track \<Rightarrow> string" where
  "code_forward t = code_option code_node (Src t) @ code_string (RemoteSessionId t) @ code_string (LocalSessionId t) @
     code_list code_subscription (Tracks t)"

definition code_proceed :: "proceed_track \<Rightarrow> string" where
  "code_proceed t = code_string (DstSessionId t) @ code_option code_any (Procedure t) @ code_list code_string (SrcSessionIdList t)"

definition code_client :: "client_needed_session \<Rightarrow> string" where
  "code_client c = code_string (Session c) @ code_string (User c)"

definition code_status :: "sfu_status \<Rightarrow> string" where
  "code_status st = code_option code_node (SFU st) @ code_list code_forward (ForwardTracks st) @
     code_list code_proceed (ProceedTracks st) @ code_list code_client (Clients st)"

lemmas code_defs = code_rpc_def code_node_def code_any_def code_subscription_def code_forward_def code_proceed_def
  code_client_def code_status_def

lemma code_messages_prefix:
  "prefix_code code_rpc" "prefix_code code_node" "prefix_code code_any" "prefix_code code_subscription"
  "prefix_code code_forward" "prefix_code code_proceed" "prefix_code code_client" "prefix_code code_status"
proof -
  have b: "prefix_code code_bool" by (simp add: prefix_code_def code_bool_def)
  note str = prefix_codeD [OF code_string_prefix]
  note opt = prefix_codeD [OF code_option_prefix] and lst = prefix_codeD [OF code_list_prefix]
  show r: "prefix_code code_rpc"
    unfolding prefix_code_def code_rpc_def by (auto simp: str intro: rpc.equality)
  show n: "prefix_code code_node"
    unfolding prefix_code_def code_node_def by (auto simp: str opt [OF r] intro: node.equality)
  show a: "prefix_code code_any"
    unfolding prefix_code_def code_any_def by (auto simp: str intro: any_msg.equality)
  show s: "prefix_code code_subscription"
    unfolding prefix_code_def code_subscription_def
    by (auto simp: str prefix_codeD [OF b] prefix_codeD [OF code_layer_prefix] intro: subscription.equality)
  show f: "prefix_code code_forward"
    unfolding prefix_code_def code_forward_def by (auto simp: str opt [OF n] lst [OF s] intro: forward_track.equality)
  show p: "prefix_code code_proceed"
    unfolding prefix_code_def code_proceed_def
    by (auto simp: str opt [OF a] lst [OF code_string_prefix] intro: proceed_track.equality)
  show c: "prefix_code code_client"
    unfolding prefix_code_def code_client_def by (auto simp: str intro: client_needed_session.equality)
  show "prefix_code code_status"
    unfolding prefix_code_def code_status_def
    by (auto simp: opt [OF n] lst [OF f] lst [OF p] lst [OF c] intro: sfu_status.equality)
qed

section \<open>A deployment\<close>

definition demo_deployment :: "unit deployment" where
  "demo_deployment = \<lparr>dp_texts = \<lparr>node_text = code_option code_node, client_text = code_client,
     forward_text = code_forward, proceed_text = code_proceed\<rparr>,
     dp_render = code_status, dp_render_report = (\<lambda>_. []), dp_alg = StupidAlgorithm,
     dp_node = (\<lambda>g. \<lparr>Dc = ''dc1'', Nid = replicate g CHR ''n'', Service = ''sxu'', Rpc = None\<rparr>)\<rparr>"

lemma demo_ok:
  "tracks_readable demo_deployment good" "distinct_nodes demo_deployment" "dp_alg demo_deployment = StupidAlgorithm"
proof -
  have render: "dp_render demo_deployment = code_status" by (simp add: demo_deployment_def)
  have "inv code_status (code_status st) = st" for st
    by (rule inv_f_f [OF prefix_code_inj [OF code_messages_prefix(8)]])
  then show "tracks_readable demo_deployment good" unfolding tracks_readable_def render
    by (intro exI [of _ "\<lambda>t. (ForwardTracks (inv code_status t), ProceedTracks (inv code_status t))"]) simp
  have nid: "Nid (dp_node demo_deployment g) = replicate g CHR ''n''" for g by (simp add: demo_deployment_def)
  show "distinct_nodes demo_deployment" unfolding distinct_nodes_def nid
    by (rule injI) (drule arg_cong [where f = length], simp only: length_replicate)
  show "dp_alg demo_deployment = StupidAlgorithm" by (simp add: demo_deployment_def)
qed

lemma demo_cluster_init: "cluster_reachable demo_deployment () (cluster_init demo_deployment ())"
  by simp

section \<open>Properties\<close>

lemma stupid_contents:
  assumes "content stupid_one stupid_tracks s" "syncer_inv E s"
  shows "contents (forwardTrackSet s) = [the (forward_key stupid_track) \<mapsto> \<lparr>FT_Track = stupid_track\<rparr>]"
    and "contents (proceedTrackSet s) = Map.empty"
proof -
  obtain st where st: "holds st s" "stupid_tracks st" "stupid_one st = Some st"
    using assms(1) by (auto simp: content_def settled_def)
  have "stupid_scan (ForwardTracks st) = Some True" by (rule stupid_oneD(2) [OF st(3)])
  then have "ForwardTracks st = [stupid_track]" "ProceedTracks st = []" using st(2) by (auto simp: stupid_tracks_def)
  with st(1) have f: "FT_Track ` ran (contents (forwardTrackSet s)) = {stupid_track}"
    and p: "ran (contents (proceedTrackSet s)) = {}"
    by (simp_all add: holds_def held_defs)
  have "contents (proceedTrackSet s) k \<noteq> Some d" for k d using p ranI by fastforce
  then show "contents (proceedTrackSet s) = Map.empty" by (intro ext) (metis not_None_eq)
  have inv: "dset_inv (forward_ops E) (forwardTrackSet s)" using assms(2) by (simp add: syncer_inv_def)
  have held: "d = \<lparr>FT_Track = stupid_track\<rparr> \<and> k = the (forward_key stupid_track)" if "contents (forwardTrackSet s) k = Some d" for k d
  proof -
    have "FT_Track d \<in> {stupid_track}" unfolding f [symmetric] using that by (auto intro: ranI)
    then have "d = \<lparr>FT_Track = stupid_track\<rparr>" by (cases d) simp
    moreover have "Key (forward_ops E) d = Some k" using inv that by (simp add: dset_inv_iff_contents)
    ultimately show ?thesis by (simp add: ForwardTrackItem_ops_def)
  qed
  obtain k d where kd: "contents (forwardTrackSet s) k = Some d" using f by (fastforce simp: ran_def)
  show "contents (forwardTrackSet s) = [the (forward_key stupid_track) \<mapsto> \<lparr>FT_Track = stupid_track\<rparr>]"
  proof
    fix j
    show "contents (forwardTrackSet s) j = [the (forward_key stupid_track) \<mapsto> \<lparr>FT_Track = stupid_track\<rparr>] j"
      using held [of j] held [OF kd] kd by (cases "contents (forwardTrackSet s) j") (auto simp del: contents_None_iff)
  qed
qed

text \<open>
  C1. One ISGLB with the stupid algorithm and any number of SXUs, no two of which have a node id in
  common, where connections stay, the statuses of an SXU arrive in the order in which it made them, and
  the text of a status shows its tracks: whenever nothing is due, on its way or being worked on for an
  SXU, its router routes the stupid track and nothing else. That the text shows the
  tracks is asked only of the statuses this algorithm deals with, and is what the text format gives that
  String writes: prototext reads the message back. No other text, of a client, a track or a node, has to
  tell anything apart.
\<close>

theorem control_loop_routes:
  assumes "tracks_readable D stupid_tracks" and "distinct_nodes D" and "dp_alg D = StupidAlgorithm"
    and "cluster_reachable D a c" and "at_rest D c g"
  shows "forward_routes (router_log (sxus c g)) = [the (forward_key stupid_track) \<mapsto> \<lparr>FT_Track = stupid_track\<rparr>] \<and>
    proceed_routes (router_log (sxus c g)) = Map.empty"
proof -
  note ok = stupid_control.cluster_reachable_ok [OF assms(3,4)]
  note loop = stupid_control.loop_reachable_ok [OF assms(3,1,2,4)]
  have "content stupid_one stupid_tracks (sxus c g)" by (rule stupid_control.rest_content [OF loop assms(5)])
  moreover have "syncer_inv (dp_texts D) (sxus c g)" using cluster_okD(2) [OF ok] by (simp add: sxu_ok_def)
  moreover have "routed (sxus c g)" using routed_reachable [OF stupid_control.cluster_syncer [OF assms(3,4)]] by simp
  ultimately show ?thesis using stupid_contents by (simp add: routed_def)
qed

theorem control_loop_routes_witness:
  "\<exists>c. cluster_reachable demo_deployment () c \<and> at_rest demo_deployment c 0 \<and>
     forward_routes (router_log (sxus c 0)) (the (forward_key stupid_track)) = Some \<lparr>FT_Track = stupid_track\<rparr>"
proof -
  note ok = stupid_control.cluster_reachable_ok [OF demo_ok(3) demo_cluster_init]
  obtain c where run: "(quiet demo_deployment)\<^sup>*\<^sup>* (cluster_init demo_deployment ()) c" and c: "at_rest demo_deployment c 0"
    using stupid_control.comes_to_rest [OF demo_ok(3) ok] by blast
  from quiet_run(1) [OF run] have "cluster_reachable demo_deployment () c" by (simp add: reachable_def)
  with control_loop_routes [OF demo_ok this c] c show ?thesis by auto
qed

text \<open>
  C2. And the loop can always come to rest: from every reachable state of such a system a run leads to a
  state in which nothing is due, on its way or being worked on for a given SXU, and no step of that run
  changes the clients of any SXU. This takes no assumption on the texts of the messages or the node ids.
\<close>

theorem control_loop_comes_to_rest:
  assumes "dp_alg D = StupidAlgorithm" and "cluster_reachable D a c"
  shows "\<exists>c'. (quiet D)\<^sup>*\<^sup>* c c' \<and> at_rest D c' g"
  by (rule stupid_control.comes_to_rest [OF assms(1) stupid_control.cluster_reachable_ok [OF assms]])

theorem control_loop_comes_to_rest_witness:
  "\<exists>c'. (quiet demo_deployment)\<^sup>*\<^sup>* (cluster_init demo_deployment ()) c' \<and> at_rest demo_deployment c' 3"
  by (rule control_loop_comes_to_rest [OF demo_ok(3) demo_cluster_init])



end
