(* ===== verification/ISGLB_Properties.thy ===== *)
theory ISGLB_Properties
  imports ISGLB_Service
begin

text \<open>
  The properties of the ISGLB service, and a concrete run with the stupid algorithm at which they
  are instantiated: one SXU connects, reports its status, is sent the expected one, and leaves.
\<close>

section \<open>A run\<close>

definition demo_node :: node where
  "demo_node = \<lparr>Dc = ''dc'', Nid = ''n'', Service = ''rtc'', Rpc = None\<rparr>"

definition demo_status :: sfu_status where
  "demo_status = \<lparr>SFU = Some demo_node, ForwardTracks = [], ProceedTracks = [], Clients = []\<rparr>"

definition demo_expected :: sfu_status where
  "demo_expected = demo_status\<lparr>ForwardTracks := [stupid_track]\<rparr>"

definition demo_text :: "sfu_status \<Rightarrow> string" where
  "demo_text st = concat (map RemoteSessionId (ForwardTracks st))"

definition demo_visits :: visits where
  "demo_visits = \<lparr>by_nid = ascending, by_sig = ascending\<rparr>"

definition demo_recv :: "sfu_status \<Rightarrow> nat \<Rightarrow> recv_state" where
  "demo_recv st count = \<lparr>WhereToSend = \<lparr>SetMap = [''n'' \<mapsto> {0}], rev_map = [0 \<mapsto> {''n''}]\<rparr>,
     latestStatus = [''n'' \<mapsto> \<lparr>SFUStatus = st\<rparr>], recvCount = count, savedReports = Map.empty\<rparr>"

abbreviation demo_reachable :: "unit isglb_state \<Rightarrow> bool" where
  "demo_reachable \<equiv> isglb_reachable demo_text (\<lambda>_. '''') StupidAlgorithm ()"

definition demo_state :: "recv_state \<Rightarrow> isglbRecvMessage list \<Rightarrow> conn \<Rightarrow> phase \<Rightarrow> (sig \<times> sfu_status) list \<Rightarrow> unit isglb_state" where
  "demo_state r q c ph out = \<lparr>recv = r, Alg = (), recvCh = q, sendChs = (if c = Serving then {0} else {}),
     conns = (\<lambda>_. Unused)(0 := c), phase = ph, outbox = out\<rparr>"

lemma demo_step:
  assumes "demo_reachable s" "isglb_step demo_text (\<lambda>_. '''') StupidAlgorithm s s'" "s' = t"
  shows "demo_reachable t"
  using assms reachable_step by metis

lemmas demo_defs = demo_state_def isglb_init_def recvCh_cap_def

lemma demo_reported: "demo_reachable (demo_state recv_init [request_msg 0 (Some (SyncRequest_Status demo_status))] Serving Receiving [])"
proof -
  have 1: "demo_reachable (demo_state recv_init [] Serving Receiving [])"
    by (rule demo_step [OF reachable_refl isglb_step.accept [where g = 0]]) (simp_all add: demo_defs)
  show ?thesis
    by (rule demo_step [OF 1 isglb_step.receive [where g = 0 and req = "Some (SyncRequest_Status demo_status)"]])
      (simp_all add: demo_defs)
qed

lemma demo_taken: "demo_reachable (demo_state (demo_recv demo_status 1) [] Serving Receiving [])"
  by (rule demo_step [OF demo_reported isglb_step.take_msg [where vis = demo_visits
      and msg = "request_msg 0 (Some (SyncRequest_Status demo_status))" and rest = "[]"
      and r = "demo_recv demo_status 1"]])
    (simp_all add: demo_defs handle_message_simps handle_status_def go_simps demo_recv_def recv_init_def MM_Add_def SetMap_Add_def NewSetMapaMteS_def NewSetMap_def demo_status_def demo_node_def Let_def)

lemma demo_sending: "demo_reachable (demo_state (demo_recv demo_status 1) [] Serving
    (Sending [''n'' \<mapsto> \<lparr>SFUStatus = demo_expected\<rparr>] [''n'']) [])"
  by (rule demo_step [OF demo_taken isglb_step.flush [where vis = demo_visits and a = "()"
      and dict = "[''n'' \<mapsto> \<lparr>SFUStatus = demo_expected\<rparr>]"]])
    (simp_all add: demo_defs consult_def current_statuses_def current_reports_def demo_visits_def demo_recv_def
      StupidAlgorithm_def stupid_one_def demo_status_def demo_expected_def demo_node_def status_Key)

lemma demo_send: "isglb_step demo_text (\<lambda>_. '''') StupidAlgorithm
    (demo_state (demo_recv demo_status 1) [] Serving
      (Sending [''n'' \<mapsto> \<lparr>SFUStatus = demo_expected\<rparr>] [''n'']) [])
    (demo_state (demo_recv demo_expected 1) [] Serving
      (Sending [''n'' \<mapsto> \<lparr>SFUStatus = demo_expected\<rparr>] []) [(0, demo_expected)])"
  using isglb_step.send [of "demo_state (demo_recv demo_status 1) [] Serving
      (Sending [''n'' \<mapsto> \<lparr>SFUStatus = demo_expected\<rparr>] [''n'']) []" "[''n'' \<mapsto> \<lparr>SFUStatus = demo_expected\<rparr>]"
      "''n''" "[]" demo_text demo_visits "demo_recv demo_expected 1" "[(0, demo_expected)]"]
  by (simp add: demo_defs demo_recv_def send_one_def SetMap_GetSet_def demo_visits_def demo_text_def
      demo_expected_def demo_status_def stupid_track_def ServiceSessionStupid_def)

section \<open>Properties\<close>

text \<open>
  C4. At every moment the service keeps a status exactly for the nodes that some connection
  serves, and keeps it under the node's own id; a connection that was never made or has left and
  whose farewell was handled serves none.
\<close>

theorem isglb_serves_iff_status:
  assumes "isglb_reachable render render_report alg a s"
  shows "(latestStatus (recv s) nid \<noteq> None \<longleftrightarrow> (\<exists>g. (nid, g) \<in> mm_rel (WhereToSend (recv s)))) \<and>
    (\<forall>item. latestStatus (recv s) nid = Some item \<longrightarrow> map_option Nid (SFU (SFUStatus item)) = Some nid) \<and>
    (\<forall>g. (nid, g) \<in> mm_rel (WhereToSend (recv s)) \<longrightarrow>
       conns s g = Serving \<or> conns s g = Leaving \<or> conns s g = Left \<and> farewell g (recvCh s))"
proof -
  have "recv_inv (recv s)" using service_inv_reachable [OF assms] by (simp add: service_inv_def)
  moreover have "conns s g = Serving \<or> conns s g = Leaving \<or> conns s g = Left \<and> farewell g (recvCh s)"
    if "(nid, g) \<in> mm_rel (WhereToSend (recv s))" for g
    using tracked_reachable [OF assms, of g] that by (cases "conns s g") (auto simp: tracked_def)
  ultimately show ?thesis by (auto simp: recv_inv_def filed_by_nid_def)
qed

theorem isglb_serves_iff_status_witness:
  "latestStatus (demo_recv demo_status 1) ''n'' \<noteq> None \<and>
   (''n'', 0) \<in> mm_rel (WhereToSend (demo_recv demo_status 1)) \<and>
   map_option Nid (SFU demo_status) = Some ''n''"
  using isglb_serves_iff_status [OF demo_taken, of "''n''"]
  by (auto simp: demo_state_def demo_recv_def mm_rel_def rel_of_def)

text \<open>
  C5. Whatever a step sends is one status, for the node it names, to a connection that is open
  and has reported that node, and only when the last known status of the node reads differently;
  from then on it is the last known status.
\<close>

theorem isglb_sends_changes:
  assumes "isglb_reachable render render_report alg a s"
    and "isglb_step render render_report alg s s'" and "outbox s' \<noteq> outbox s"
  shows "\<exists>g st n. outbox s' = outbox s @ [(g, st)] \<and> SFU st = Some n \<and> conns s g = Serving \<and>
    (Nid n, g) \<in> mm_rel (WhereToSend (recv s)) \<and>
    (\<forall>prev. latestStatus (recv s) (Nid n) = Some prev \<longrightarrow> render (SFUStatus prev) \<noteq> render st) \<and>
    latestStatus (recv s') = (latestStatus (recv s))(Nid n \<mapsto> \<lparr>SFUStatus = st\<rparr>)"
proof -
  have "g \<in> sendChs s \<longleftrightarrow> conns s g = Serving" for g
    using tracked_reachable [OF assms(1), of g] by (simp add: tracked_def)
  with isglb_sends [OF assms(2) service_inv_reachable [OF assms(1)] tracked_reachable [OF assms(1)] assms(3)]
  show ?thesis by simp
qed

theorem isglb_sends_changes_witness:
  "\<exists>g st n. [(0, demo_expected)] = [] @ [(g, st)] \<and> SFU st = Some n \<and>
    (Nid n, g) \<in> mm_rel (WhereToSend (demo_recv demo_status 1)) \<and> demo_text demo_status \<noteq> demo_text st"
  using isglb_sends_changes [OF demo_sending demo_send]
  by (auto simp: demo_state_def demo_recv_def demo_expected_def demo_status_def demo_node_def)

text \<open>
  The stupid algorithm settles: after a batch during which every connection of the relation
  had its send channel, a batch over the statuses the first one left sends nothing, whatever
  the reports and the orders of the loops.
\<close>

theorem isglb_stupid_settles:
  assumes "recv_inv s" "Range (mm_rel (WhereToSend s)) \<subseteq> chs" "0 < recvCount s"
    and "process_batch render StupidAlgorithm vis chs a s = Some (a', s', sent)"
    and "WhereToSend t = WhereToSend s'" "latestStatus t = latestStatus s'" "finite (dom (savedReports t))"
    and "process_batch render StupidAlgorithm vis' chs a' t = Some (a'', t', sent')"
  shows "sent' = []"
  using assms by (rule stupid_alg.batch_settles)

theorem isglb_stupid_settles_witness:
  "\<exists>a' s' sent a'' t' sent'.
     process_batch demo_text StupidAlgorithm demo_visits {0} () (demo_recv demo_status 1) = Some (a', s', sent) \<and>
     sent = [(0, demo_expected)] \<and>
     process_batch demo_text StupidAlgorithm demo_visits {0} a' (demo_recv demo_expected 1) = Some (a'', t', sent') \<and>
     sent' = []"
proof -
  have inv: "recv_inv (demo_recv demo_status 1)"
    using service_inv_reachable [OF demo_taken] by (simp add: service_inv_def demo_state_def)
  have rng: "Range (mm_rel (WhereToSend (demo_recv demo_status 1))) \<subseteq> {0}"
    by (auto simp: demo_recv_def mm_rel_def rel_of_def)
  have 1: "process_batch demo_text StupidAlgorithm demo_visits {0} () (demo_recv demo_status 1) =
      Some ((), new_batch (demo_recv demo_expected 1), [(0, demo_expected)])"
    by (simp add: process_batch_def demo_recv_def demo_visits_def consult_def current_statuses_def
        current_reports_def StupidAlgorithm_def stupid_one_def demo_status_def demo_expected_def demo_node_def
        status_Key send_one_def SetMap_GetSet_def demo_text_def stupid_track_def ServiceSessionStupid_def Let_def)
  have 2: "process_batch demo_text StupidAlgorithm demo_visits {0} () (demo_recv demo_expected 1) =
      Some ((), new_batch (demo_recv demo_expected 1), [])"
    by (simp add: process_batch_def demo_recv_def demo_visits_def consult_def current_statuses_def
        current_reports_def StupidAlgorithm_def stupid_one_def demo_status_def demo_expected_def demo_node_def
        status_Key send_one_def SetMap_GetSet_def demo_text_def stupid_track_def ServiceSessionStupid_def
        ServiceStupid_def ServiceNameStupid_def Let_def)
  have "([] :: (sig \<times> sfu_status) list) = []"
    by (rule isglb_stupid_settles [OF inv rng _ 1 _ _ _ 2]) (simp_all add: demo_recv_def new_batch_def)
  with 1 2 show ?thesis by blast
qed

text \<open>C5. With the empty algorithm the service never sends anything.\<close>

theorem isglb_empty_never_sends:
  assumes "isglb_reachable render render_report EmptyAlgorithm a s"
  shows "outbox s = []"
  using quiet_reachable [OF assms] by (simp add: quiet_def)

theorem isglb_empty_never_sends_witness:
  "outbox ((isglb_init ())\<lparr>conns := (\<lambda>_. Unused)(0 := Serving), sendChs := {0}\<rparr>) = []"
proof -
  have "isglb_reachable demo_text (\<lambda>_. '''') EmptyAlgorithm ()
      ((isglb_init ())\<lparr>conns := (\<lambda>_. Unused)(0 := Serving), sendChs := {0}\<rparr>)"
    using reachable_step [OF reachable_refl [of "isglb_step demo_text (\<lambda>_. '''') EmptyAlgorithm" "isglb_init ()"]
        isglb_step.accept [of "isglb_init ()" 0 demo_text "\<lambda>_. ''''" EmptyAlgorithm]]
    by (simp add: isglb_init_def)
  then show ?thesis by (rule isglb_empty_never_sends)
qed

text \<open>
  C6. Handling the farewell of a connection removes exactly that connection from the relation of the
  nodes and their connections, and exactly the statuses of the nodes that no other connection
  serves, in whatever order the maps are visited.
\<close>

theorem isglb_departure:
  assumes "recv_inv s"
  shows "mm_rel (WhereToSend (handle_deleted vis g s)) = {(nid, w) \<in> mm_rel (WhereToSend s). w \<noteq> g} \<and>
    latestStatus (handle_deleted vis g s) =
      (\<lambda>nid. if \<exists>w. (nid, w) \<in> mm_rel (WhereToSend s) \<and> w \<noteq> g then latestStatus s nid else None)"
  using handle_deleted_rel [OF assms] handle_deleted_status [OF assms] by blast

theorem isglb_departure_witness:
  "mm_rel (WhereToSend (handle_deleted demo_visits 0 (demo_recv demo_status 1))) = {} \<and>
   latestStatus (handle_deleted demo_visits 0 (demo_recv demo_status 1)) ''n'' = None"
proof -
  have "recv_inv (demo_recv demo_status 1)"
    using service_inv_reachable [OF demo_taken] by (simp add: service_inv_def demo_state_def)
  from isglb_departure [OF this, of demo_visits 0] show ?thesis
    by (auto simp: demo_recv_def mm_rel_def rel_of_def split: if_splits)
qed

text \<open>
  A status request without an SFU is a panic of the goroutine, and no other status request
  is.
\<close>

theorem isglb_status_panics:
  "handle_message render render_report vis (request_msg g (Some (SyncRequest_Status st))) s = None
   \<longleftrightarrow> SFU st = None"
  by (auto simp: handle_message_simps handle_status_def Let_def status_Key split: option.splits)

end
