(* ===== verification/Watch_Dog.thy ===== *)
theory Watch_Dog
  imports Dion_Base
begin

text \<open>
  \<open>WatchDogWithUnblockedDoor\<close> of \<open>util/watchdog.go\<close>: the goroutine \<open>watch\<close> that buys a door,
  locks it, and waits for the end, a broken door or an update. The house and its doors are an
  interface of the program, so what they answer is open: every step may succeed or fail. The
  calls on them are a trace, and \<open>accepts\<close> is the protocol a door is promised.
\<close>

section \<open>Doors\<close>

type_synonym door = nat

text \<open>The calls and, where they can fail, whether they succeeded.\<close>

datatype 'p door_call =
    NewDoor door
  | Lock door 'p bool
  | Repair door 'p bool
  | Update_Door door 'p bool
  | Remove door

text \<open>
  What the house may see: at most one door at a time; a new or serviced door is locked or
  removed, a locked one is repaired, updated or removed, a failed one is removed.
\<close>

datatype door_state = Nothing | Unlocked door | Locked door | Failed door

fun accept :: "door_state \<Rightarrow> 'p door_call \<Rightarrow> door_state option" where
  "accept Nothing (NewDoor d) = Some (Unlocked d)"
| "accept (Unlocked d) (Lock e p ok) = (if e = d then Some (if ok then Locked d else Failed d) else None)"
| "accept (Locked d) (Repair e p ok) = (if e = d then Some (if ok then Unlocked d else Failed d) else None)"
| "accept (Locked d) (Update_Door e p ok) = (if e = d then Some (if ok then Unlocked d else Failed d) else None)"
| "accept (Unlocked d) (Remove e) = (if e = d then Some Nothing else None)"
| "accept (Locked d) (Remove e) = (if e = d then Some Nothing else None)"
| "accept (Failed d) (Remove e) = (if e = d then Some Nothing else None)"
| "accept _ _ = None"

fun accepts :: "door_state \<Rightarrow> 'p door_call list \<Rightarrow> door_state option" where
  "accepts q [] = Some q"
| "accepts q (c # cs) = (case accept q c of None \<Rightarrow> None | Some q' \<Rightarrow> accepts q' cs)"

lemma accepts_append:
  "accepts q (cs @ ds) = (case accepts q cs of None \<Rightarrow> None | Some q' \<Rightarrow> accepts q' ds)"
  by (induction cs arbitrary: q) (auto split: option.splits)

section \<open>The watch dog\<close>

text \<open>
  \<open>Top\<close> is the top of the loop, \<open>Select\<close> the select at its end. \<open>param\<close> is what \<open>w.param\<close> holds.
\<close>

datatype pc = NotStarted | Top | Select | Exited

record 'p WatchDog =
  param :: 'p
  updateCh :: "'p option"
  ctx_done :: bool
  brokenCh :: bool
  door :: "door option"
  next_door :: door
  pc :: pc
  calls :: "'p door_call list"

definition NewWatchDog :: "'p \<Rightarrow> 'p WatchDog" where
  "NewWatchDog p = \<lparr>param = p, updateCh = None, ctx_done = False, brokenCh = False, door = None,
     next_door = 0, pc = NotStarted, calls = []\<rparr>"

text \<open>\<open>Watch\<close> sets the parameter on every call and starts the goroutine once.\<close>

definition Watch :: "'p \<Rightarrow> 'p WatchDog \<Rightarrow> 'p WatchDog" where
  "Watch init w =
     (let w1 = w\<lparr>param := init\<rparr> in if pc w1 = NotStarted then w1\<lparr>pc := Top\<rparr> else w1)"

text \<open>\<open>Update\<close> by one goroutine at a time: the newest parameter replaces the one in the channel.\<close>

definition WatchDog_Update :: "'p \<Rightarrow> 'p WatchDog \<Rightarrow> 'p WatchDog" where
  "WatchDog_Update p w = w\<lparr>updateCh := Some p\<rparr>"

definition Leave :: "'p WatchDog \<Rightarrow> 'p WatchDog" where
  "Leave w = w\<lparr>ctx_done := True\<rparr>"

definition OnBroken :: "'p WatchDog \<Rightarrow> 'p WatchDog" where
  "OnBroken w = w\<lparr>brokenCh := True\<rparr>"

text \<open>The inner selects: leave when the context is done, or go on.\<close>

definition exit_or_continue :: "'p WatchDog \<Rightarrow> 'p WatchDog" where
  "exit_or_continue w = w\<lparr>pc := (if ctx_done w then Exited else Top)\<rparr>"

text \<open>
  \<open>NewDoor\<close>: a door, an error, or an error with a door that is removed at once.
\<close>

datatype market = Sold | Closed | Fake

definition buy_door :: "market \<Rightarrow> 'p WatchDog \<Rightarrow> 'p WatchDog" where
  "buy_door answer w =
     (let d = next_door w; w1 = w\<lparr>next_door := d + 1\<rparr> in
      case answer of
        Sold \<Rightarrow> w1\<lparr>door := Some d, calls := calls w1 @ [NewDoor d]\<rparr>
      | Closed \<Rightarrow> exit_or_continue w
      | Fake \<Rightarrow> exit_or_continue (w1\<lparr>calls := calls w1 @ [NewDoor d, Remove d]\<rparr>))"

definition lock_door :: "bool \<Rightarrow> door \<Rightarrow> 'p WatchDog \<Rightarrow> 'p WatchDog" where
  "lock_door ok d w =
     (let w1 = w\<lparr>calls := calls w @ [Lock d (param w) ok]\<rparr> in
      if ok then w1\<lparr>pc := Select\<rparr>
      else exit_or_continue (w1\<lparr>door := None, calls := calls w1 @ [Remove d]\<rparr>))"

text \<open>The three cases of the last select; the loop goes on with the door that is left.\<close>

definition select_done :: "door \<Rightarrow> 'p WatchDog \<Rightarrow> 'p WatchDog" where
  "select_done d w = w\<lparr>door := None, pc := Exited, calls := calls w @ [Remove d]\<rparr>"

definition select_broken :: "bool \<Rightarrow> door \<Rightarrow> 'p WatchDog \<Rightarrow> 'p WatchDog" where
  "select_broken ok d w =
     (let w1 = w\<lparr>brokenCh := False, pc := Top, calls := calls w @ [Repair d (param w) ok]\<rparr> in
      if ok then w1 else w1\<lparr>door := None, calls := calls w1 @ [Remove d]\<rparr>)"

definition select_update :: "bool \<Rightarrow> door \<Rightarrow> 'p \<Rightarrow> 'p WatchDog \<Rightarrow> 'p WatchDog" where
  "select_update ok d p w =
     (let w1 = w\<lparr>updateCh := None, param := p, pc := Top, calls := calls w @ [Update_Door d p ok]\<rparr> in
      if ok then w1 else w1\<lparr>door := None, calls := calls w1 @ [Remove d]\<rparr>)"

inductive watch_step :: "'p WatchDog \<Rightarrow> 'p WatchDog \<Rightarrow> bool" where
  watch: "watch_step w (Watch init w)"
| update: "watch_step w (WatchDog_Update p w)"
| leave: "watch_step w (Leave w)"
| broken: "watch_step w (OnBroken w)"
| buy: "pc w = Top \<Longrightarrow> door w = None \<Longrightarrow> watch_step w (buy_door answer w)"
| lock: "pc w = Top \<Longrightarrow> door w = Some d \<Longrightarrow> watch_step w (lock_door ok d w)"
| on_done: "pc w = Select \<Longrightarrow> door w = Some d \<Longrightarrow> ctx_done w \<Longrightarrow> watch_step w (select_done d w)"
| on_broken: "pc w = Select \<Longrightarrow> door w = Some d \<Longrightarrow> brokenCh w \<Longrightarrow>
    watch_step w (select_broken ok d w)"
| on_update: "pc w = Select \<Longrightarrow> door w = Some d \<Longrightarrow> updateCh w = Some p \<Longrightarrow>
    watch_step w (select_update ok d p w)"

section \<open>The protocol is kept\<close>

text \<open>The state the protocol is in, read off the program counter and the door.\<close>

definition expected_state :: "pc \<Rightarrow> door option \<Rightarrow> door_state option" where
  "expected_state q d =
     (case q of
        NotStarted \<Rightarrow> if d = None then Some Nothing else None
      | Exited \<Rightarrow> if d = None then Some Nothing else None
      | Top \<Rightarrow> (case d of None \<Rightarrow> Some Nothing | Some e \<Rightarrow> Some (Unlocked e))
      | Select \<Rightarrow> (case d of None \<Rightarrow> None | Some e \<Rightarrow> Some (Locked e)))"

lemma expected_state_simps [simp]:
  "expected_state NotStarted d = (if d = None then Some Nothing else None)"
  "expected_state Exited d = (if d = None then Some Nothing else None)"
  "expected_state Top None = Some Nothing" "expected_state Top (Some e) = Some (Unlocked e)"
  "expected_state Select None = None" "expected_state Select (Some e) = Some (Locked e)"
  by (simp_all add: expected_state_def)

definition dog_inv :: "'p WatchDog \<Rightarrow> bool" where
  "dog_inv w \<longleftrightarrow> expected_state (pc w) (door w) \<noteq> None \<and>
     accepts Nothing (calls w) = expected_state (pc w) (door w)"

lemmas watch_defs = Watch_def WatchDog_Update_def Leave_def OnBroken_def exit_or_continue_def
  buy_door_def lock_door_def select_done_def select_broken_def select_update_def Let_def

lemma dog_inv_step:
  assumes "watch_step w w'" "dog_inv w"
  shows "dog_inv w'"
  using assms(1)
proof cases
  case (buy answer)
  with assms(2) show ?thesis by (cases answer) (auto simp: dog_inv_def watch_defs accepts_append)
qed (use assms(2) in \<open>auto simp: dog_inv_def watch_defs accepts_append split: if_splits\<close>)

lemma dog_inv_reachable: "reachable watch_step (NewWatchDog p) w \<Longrightarrow> dog_inv w"
  by (induction rule: reachable_invariant)
    (auto intro: dog_inv_step, simp add: dog_inv_def NewWatchDog_def)

section \<open>Properties\<close>

text \<open>
  C14. Whatever the house, the doors and the callers do, the watch dog keeps the protocol of a door:
  one door at a time, locked before it is used, removed after a failure; and once its goroutine has
  ended, every door it bought has been removed.
\<close>

theorem watch_dog_protocol:
  assumes "reachable watch_step (NewWatchDog p) w"
  shows "\<exists>q. accepts Nothing (calls w) = Some q \<and> (pc w = Exited \<longrightarrow> q = Nothing) \<and>
    (pc w = Select \<longrightarrow> (\<exists>d. q = Locked d \<and> door w = Some d))"
  using dog_inv_reachable [OF assms] by (cases "pc w"; cases "door w") (auto simp: dog_inv_def)

lemma demo_bought:
  "reachable watch_step (NewWatchDog (0::nat)) ((NewWatchDog 0)\<lparr>pc := Top, door := Some 0, next_door := 1,
     calls := [NewDoor 0]\<rparr>)" (is "reachable _ _ ?b")
proof -
  let ?a = "(NewWatchDog (0::nat))\<lparr>pc := Top\<rparr>"
  have 1: "watch_step (NewWatchDog 0) ?a"
    using watch_step.watch [of "NewWatchDog 0" 0] by (simp add: Watch_def NewWatchDog_def Let_def)
  have 2: "watch_step ?a ?b"
    using watch_step.buy [of ?a Sold] by (simp add: buy_door_def NewWatchDog_def Let_def)
  have "reachable watch_step (NewWatchDog 0) ?a" using 1 by (rule reachable_first)
  then show ?thesis using 2 by (rule reachable_step)
qed

theorem watch_dog_protocol_witness:
  "\<exists>w. reachable watch_step (NewWatchDog (0::nat)) w \<and> calls w = [NewDoor 0, Lock 0 0 False, Remove 0] \<and>
     (\<exists>q. accepts Nothing (calls w) = Some q)"
proof -
  let ?b = "(NewWatchDog (0::nat))\<lparr>pc := Top, door := Some 0, next_door := 1, calls := [NewDoor 0]\<rparr>"
  let ?c = "lock_door False 0 ?b"
  have "watch_step ?b ?c" by (rule watch_step.lock) (simp_all add: NewWatchDog_def)
  with demo_bought have r: "reachable watch_step (NewWatchDog 0) ?c" by (rule reachable_step)
  have "calls ?c = [NewDoor 0, Lock 0 0 False, Remove 0]"
    by (simp add: lock_door_def exit_or_continue_def NewWatchDog_def Let_def)
  with watch_dog_protocol [OF r] r show ?thesis by blast
qed

text \<open>
  A successful update or repair is followed by another \<open>Lock\<close> of the same door, which is
  still held.
\<close>

theorem watch_dog_locks_again:
  assumes "pc w = Select" and "door w = Some d" and "w' = select_update True d p w \<or> w' = select_broken True d w"
    and "p' = param w'"
  shows "door w' = Some d \<and> watch_step w' (lock_door ok d w') \<and>
    calls (lock_door True d w') = calls w' @ [Lock d p' True]"
proof -
  have "door w' = Some d" "pc w' = Top"
    using assms(2,3) by (auto simp: select_update_def select_broken_def Let_def)
  with assms(4) watch_step.lock [of w' d ok] show ?thesis by (simp add: lock_door_def Let_def)
qed

theorem watch_dog_locks_again_witness:
  "\<exists>w. reachable watch_step (NewWatchDog (0::nat)) w \<and>
     calls w = [NewDoor 0, Lock 0 0 True, Update_Door 0 5 True, Lock 0 5 True]"
proof -
  let ?b = "(NewWatchDog (0::nat))\<lparr>pc := Top, door := Some 0, next_door := 1, calls := [NewDoor 0]\<rparr>"
  let ?c = "lock_door True 0 ?b"
  let ?d = "WatchDog_Update 5 ?c"
  let ?e = "select_update True 0 5 ?d"
  have pc: "pc ?d = Select" "door ?d = Some 0" "updateCh ?d = Some 5" "param ?e = 5"
    by (simp_all add: lock_door_def WatchDog_Update_def select_update_def NewWatchDog_def Let_def)
  have 1: "watch_step ?b ?c" by (rule watch_step.lock) (simp_all add: NewWatchDog_def)
  have 2: "watch_step ?c ?d" by (rule watch_step.update)
  have 3: "watch_step ?d ?e" using pc(1-3) by (rule watch_step.on_update)
  have again: "watch_step ?e (lock_door True 0 ?e) \<and> calls (lock_door True 0 ?e) = calls ?e @ [Lock 0 5 True]"
    using watch_dog_locks_again [OF pc(1,2) disjI1 [OF refl] pc(4) [symmetric], of True] by simp
  have "reachable watch_step (NewWatchDog 0) ?c" using demo_bought 1 by (rule reachable_step)
  then have "reachable watch_step (NewWatchDog 0) ?d" using 2 by (rule reachable_step)
  then have "reachable watch_step (NewWatchDog 0) ?e" using 3 by (rule reachable_step)
  then have r: "reachable watch_step (NewWatchDog 0) (lock_door True 0 ?e)"
    using conjunct1 [OF again] by (rule reachable_step)
  have "calls ?e = [NewDoor 0, Lock 0 0 True, Update_Door 0 5 True]"
    by (simp add: lock_door_def WatchDog_Update_def select_update_def NewWatchDog_def Let_def)
  with r conjunct2 [OF again] show ?thesis by (intro exI [of _ "lock_door True 0 ?e"]) simp
qed

end
