(* ===== verification/Dog_Table.thy ===== *)
theory Dog_Table
  imports Watch_Dog
begin

text \<open>
  A table of watch dogs: a component starts one \<open>WatchDogWithUnblockedDoor\<close> per key and keeps a pointer
  to it in a Go map (the proceed router for its tracks, the bridge for its sessions). A pointer is
  the position in the list of all dogs that were ever made.
\<close>

text \<open>The parameter a dog will work on: the newest update, or what it was started with.\<close>

definition intended :: "'p WatchDog \<Rightarrow> 'p" where
  "intended w = (case updateCh w of Some t \<Rightarrow> t | None \<Rightarrow> param w)"

text \<open>A dog that watches: it was started, it has not ended, and it was not told to leave.\<close>

definition watching :: "'p WatchDog \<Rightarrow> bool" where
  "watching w \<longleftrightarrow> \<not> ctx_done w \<and> (pc w = Top \<or> pc w = Select)"

text \<open>What a dog does by itself: its goroutine's steps, and a door of its that breaks.\<close>

inductive dog_runs :: "'p WatchDog \<Rightarrow> 'p WatchDog \<Rightarrow> bool" where
  broken: "dog_runs w (OnBroken w)"
| buy: "pc w = Top \<Longrightarrow> door w = None \<Longrightarrow> dog_runs w (buy_door answer w)"
| lock: "pc w = Top \<Longrightarrow> door w = Some d \<Longrightarrow> dog_runs w (lock_door ok d w)"
| on_done: "pc w = Select \<Longrightarrow> door w = Some d \<Longrightarrow> ctx_done w \<Longrightarrow> dog_runs w (select_done d w)"
| on_broken: "pc w = Select \<Longrightarrow> door w = Some d \<Longrightarrow> brokenCh w \<Longrightarrow> dog_runs w (select_broken ok d w)"
| on_update: "pc w = Select \<Longrightarrow> door w = Some d \<Longrightarrow> updateCh w = Some p \<Longrightarrow> dog_runs w (select_update ok d p w)"

lemma dog_runs_watch_step: "dog_runs w w' \<Longrightarrow> watch_step w w'"
  by (induction rule: dog_runs.induct) (auto intro: watch_step.intros)

text \<open>By itself a dog keeps its parameter, unless an update came, and it ends only when it was told to leave.\<close>

lemmas dog_run_defs = OnBroken_def buy_door_def lock_door_def select_done_def select_broken_def select_update_def
  exit_or_continue_def Let_def

lemma dog_runs_ctx: "dog_runs w w' \<Longrightarrow> ctx_done w' = ctx_done w"
  by (induction rule: dog_runs.induct) (simp_all add: dog_run_defs split: market.split)

lemma dog_runs_watching: "dog_runs w w' \<Longrightarrow> watching w \<Longrightarrow> watching w'"
  by (induction rule: dog_runs.induct) (simp_all add: dog_run_defs watching_def split: market.split)

lemma dog_runs_param: "dog_runs w w' \<Longrightarrow> updateCh w = None \<Longrightarrow> updateCh w' = None \<and> param w' = param w"
  by (induction rule: dog_runs.induct) (simp_all add: dog_run_defs split: market.split)

text \<open>
  Every entry has a dog of its own that watches; every other dog has been told to leave.
\<close>

definition dogs_inv :: "(string, nat) gomap \<Rightarrow> 'p WatchDog list \<Rightarrow> bool" where
  "dogs_inv own ws \<longleftrightarrow>
     (\<forall>k i. own k = Some i \<longrightarrow> i < length ws \<and> watching (ws ! i)) \<and>
     (\<forall>j k i. own j = Some i \<longrightarrow> own k = Some i \<longrightarrow> j = k) \<and>
     (\<forall>i < length ws. ctx_done (ws ! i) \<or> (\<exists>k. own k = Some i))"

lemma dog_simps [simp]:
  "ctx_done (WatchDog_Update t w) = ctx_done w" "ctx_done (Leave w) = True"
  "watching (WatchDog_Update t w) = watching w" "watching (Leave w) = False"
  "watching (Watch t (NewWatchDog t))"
  "intended (WatchDog_Update t w) = t" "intended (Watch t (NewWatchDog t)) = t"
  by (simp_all add: WatchDog_Update_def Leave_def Watch_def NewWatchDog_def intended_def watching_def Let_def)

lemma dogs_inv_update:
  assumes "dogs_inv own ws" "ctx_done w = ctx_done (ws ! i)" "watching (ws ! i) \<Longrightarrow> watching w"
  shows "dogs_inv own (ws[i := w])"
proof -
  have same: "ctx_done (ws[i := w] ! j) = ctx_done (ws ! j)" for j
    by (cases "i < length ws"; cases "j = i") (simp_all add: assms(2) list_update_beyond)
  have run: "watching (ws[i := w] ! j)" if "watching (ws ! j)" for j
    using that assms(3) by (cases "i < length ws"; cases "j = i") (simp_all add: list_update_beyond)
  from assms(1) run show ?thesis unfolding dogs_inv_def same length_list_update by blast
qed

lemma dogs_inv_start:
  assumes "dogs_inv own ws" "own k = None" "watching w"
  shows "dogs_inv (own(k \<mapsto> length ws)) (ws @ [w])"
proof -
  have below: "i < length ws" if "own j = Some i" for i j using assms(1) that by (auto simp: dogs_inv_def)
  have "\<exists>j. (own(k \<mapsto> length ws)) j = Some i" if "own j = Some i" for i j
    using that assms(2) by (intro exI [of _ j]) auto
  then have old: "ctx_done (ws ! i) \<or> (\<exists>j. (own(k \<mapsto> length ws)) j = Some i)" if "i < length ws" for i
    using assms(1) that unfolding dogs_inv_def by blast
  have "(\<exists>j. (own(k \<mapsto> length ws)) j = Some (length ws))" by auto
  with old have "ctx_done ((ws @ [w]) ! i) \<or> (\<exists>j. (own(k \<mapsto> length ws)) j = Some i)"
    if "i < length (ws @ [w])" for i
    using that by (cases "i = length ws") (auto simp: nth_append less_Suc_eq)
  with assms(1,3) below show ?thesis
    unfolding dogs_inv_def by (auto simp: nth_append dest: less_SucI split: if_splits)
qed

lemma dogs_inv_stop:
  assumes "dogs_inv own ws" "own k = Some i" "ctx_done w"
  shows "dogs_inv (own(k := None)) (ws[i := w])"
proof -
  have "ctx_done (ws[i := w] ! j) \<or> (\<exists>l. (own(k := None)) l = Some j)" if "j < length ws" for j
  proof (cases "j = i")
    case True
    with that assms(3) show ?thesis by simp
  next
    case False
    then have "own l = Some j \<Longrightarrow> (own(k := None)) l = Some j" for l using assms(2) by auto
    with False assms(1) that show ?thesis unfolding dogs_inv_def by (metis nth_list_update_neq)
  qed
  with assms show ?thesis
    unfolding dogs_inv_def by (auto simp: nth_list_update split: if_splits)
qed

end
