(* ===== verification/Blocked_Door.thy ===== *)
theory Blocked_Door
  imports Dion_Base
begin

text \<open>
  \<open>WatchDogWithBlockedDoor\<close> of \<open>util/blockeddoor.go\<close>, in two parts. The first is the goroutine
  \<open>routine\<close>: it buys a door, starts \<open>BLock\<close> in a goroutine of its own, and passes updates to the
  door until they succeed; what house and door answer is open. The second is the watch dog as the
  value it is in Go: its methods have value receivers, so what \<open>Watch\<close> assigns to its fields is
  lost when it returns.
\<close>

section \<open>The routine\<close>

type_synonym door = nat

text \<open>\<open>Go_BLock\<close> is the start of the goroutine that calls \<open>BLock\<close>, \<open>BLock_error\<close> the arrival of its result.\<close>

datatype 'p blocked_call =
    NewBlockedDoor door
  | Go_BLock door 'p
  | BLock_error door
  | Update_Blocked door 'p bool
  | Remove_Blocked door

datatype blocked_state = No_Door | Bought door | Open door

fun accept_blocked :: "blocked_state \<Rightarrow> 'p blocked_call \<Rightarrow> blocked_state option" where
  "accept_blocked No_Door (NewBlockedDoor d) = Some (Bought d)"
| "accept_blocked (Bought d) (Go_BLock e p) = (if e = d then Some (Open d) else None)"
| "accept_blocked (Open d) (Update_Blocked e p ok) = (if e = d then Some (Open d) else None)"
| "accept_blocked (Open d) (BLock_error e) = (if e = d then Some No_Door else None)"
| "accept_blocked (Open d) (Remove_Blocked e) = (if e = d then Some No_Door else None)"
| "accept_blocked _ _ = None"

fun accepts_blocked :: "blocked_state \<Rightarrow> 'p blocked_call list \<Rightarrow> blocked_state option" where
  "accepts_blocked q [] = Some q"
| "accepts_blocked q (c # cs) =
     (case accept_blocked q c of None \<Rightarrow> None | Some q' \<Rightarrow> accepts_blocked q' cs)"

lemma accepts_blocked_append:
  "accepts_blocked q (cs @ ds) =
     (case accepts_blocked q cs of None \<Rightarrow> None | Some q' \<Rightarrow> accepts_blocked q' ds)"
  by (induction cs arbitrary: q) (auto split: option.splits)

text \<open>The parameter the door works with: that of \<open>BLock\<close>, or of the last update it took.\<close>

fun in_force :: "'p option \<Rightarrow> 'p blocked_call list \<Rightarrow> 'p option" where
  "in_force q [] = q"
| "in_force q (Go_BLock d p # cs) = in_force (Some p) cs"
| "in_force q (Update_Blocked d p ok # cs) = in_force (if ok then Some p else q) cs"
| "in_force q (_ # cs) = in_force q cs"

lemma in_force_append [simp]: "in_force q (cs @ ds) = in_force (in_force q cs) ds"
  by (induction q cs rule: in_force.induct) simp_all

text \<open>
  \<open>r_updateCh\<close> is the channel the watch dog's \<open>Update\<close> fills; \<open>errCh\<close> holds the result of the
  current door's \<open>BLock\<close> once it has returned.
\<close>

datatype routine_pc = R_Top | R_Buy | R_Select | R_Exited

record 'p routine =
  r_param :: 'p
  r_updateCh :: "'p option"
  r_done :: bool
  retryCh :: "'p option"
  errCh :: bool
  r_door :: "door option"
  r_next :: door
  r_pc :: routine_pc
  r_calls :: "'p blocked_call list"

definition routine_init :: "'p \<Rightarrow> 'p routine" where
  "routine_init init = \<lparr>r_param = init, r_updateCh = None, r_done = False, retryCh = None, errCh = False,
     r_door = None, r_next = 0, r_pc = R_Top, r_calls = []\<rparr>"

text \<open>Only the routine sends to \<open>retryCh\<close>: drop what it holds and send.\<close>

definition retryPush :: "'p \<Rightarrow> 'p routine \<Rightarrow> 'p routine" where
  "retryPush p r = r\<lparr>retryCh := Some p\<rparr>"

definition routine_top :: "'p routine \<Rightarrow> 'p routine" where
  "routine_top r = r\<lparr>r_pc := (if r_done r then R_Exited else R_Buy)\<rparr>"

definition routine_buy :: "bool \<Rightarrow> 'p routine \<Rightarrow> 'p routine" where
  "routine_buy ok r =
     (if \<not> ok then r\<lparr>r_pc := (if r_done r then R_Exited else R_Top)\<rparr>
      else r\<lparr>r_door := Some (r_next r), r_next := r_next r + 1, errCh := False, retryCh := None,
             r_pc := R_Select,
             r_calls := r_calls r @ [NewBlockedDoor (r_next r), Go_BLock (r_next r) (r_param r)]\<rparr>)"

definition routine_error :: "door \<Rightarrow> 'p routine \<Rightarrow> 'p routine" where
  "routine_error d r = r\<lparr>errCh := False, r_door := None, r_pc := R_Top, r_calls := r_calls r @ [BLock_error d]\<rparr>"

definition routine_stop :: "door \<Rightarrow> 'p routine \<Rightarrow> 'p routine" where
  "routine_stop d r = r\<lparr>r_door := None, r_pc := R_Exited, r_calls := r_calls r @ [Remove_Blocked d]\<rparr>"

definition routine_update :: "'p \<Rightarrow> 'p routine \<Rightarrow> 'p routine" where
  "routine_update p r = retryPush p (r\<lparr>r_updateCh := None, r_param := p\<rparr>)"

definition routine_retry :: "bool \<Rightarrow> door \<Rightarrow> 'p \<Rightarrow> 'p routine \<Rightarrow> 'p routine" where
  "routine_retry ok d p r =
     (let r1 = r\<lparr>retryCh := None, r_param := p\<rparr> in
      case r_updateCh r1 of
        Some q \<Rightarrow> retryPush q (r1\<lparr>r_updateCh := None, r_param := q\<rparr>)
      | None \<Rightarrow>
          (let r2 = r1\<lparr>r_calls := r_calls r1 @ [Update_Blocked d p ok]\<rparr> in
           if ok then r2 else retryPush p r2))"

inductive routine_step :: "'p routine \<Rightarrow> 'p routine \<Rightarrow> bool" where
  push_update: "routine_step r (r\<lparr>r_updateCh := Some p\<rparr>)"
| cancel: "routine_step r (r\<lparr>r_done := True\<rparr>)"
| BLock_returns: "r_door r = Some d \<Longrightarrow> routine_step r (r\<lparr>errCh := True\<rparr>)"
| top: "r_pc r = R_Top \<Longrightarrow> routine_step r (routine_top r)"
| buy: "r_pc r = R_Buy \<Longrightarrow> routine_step r (routine_buy ok r)"
| on_error: "r_pc r = R_Select \<Longrightarrow> r_door r = Some d \<Longrightarrow> errCh r \<Longrightarrow> routine_step r (routine_error d r)"
| on_done: "r_pc r = R_Select \<Longrightarrow> r_door r = Some d \<Longrightarrow> r_done r \<Longrightarrow> routine_step r (routine_stop d r)"
| on_update: "r_pc r = R_Select \<Longrightarrow> r_updateCh r = Some p \<Longrightarrow> routine_step r (routine_update p r)"
| on_retry: "r_pc r = R_Select \<Longrightarrow> r_door r = Some d \<Longrightarrow> retryCh r = Some p \<Longrightarrow>
    routine_step r (routine_retry ok d p r)"

text \<open>
  The protocol: \<open>BLock\<close> starts once per door and updates go to that door only; and the door is
  never left behind: it works with the routine's parameter, or that parameter waits to be tried.
\<close>

definition routine_inv :: "'p routine \<Rightarrow> bool" where
  "routine_inv r \<longleftrightarrow>
     (r_pc r = R_Select \<longleftrightarrow> r_door r \<noteq> None) \<and>
     accepts_blocked No_Door (r_calls r) =
       Some (case r_door r of None \<Rightarrow> No_Door | Some d \<Rightarrow> Open d) \<and>
     (\<forall>p. retryCh r = Some p \<longrightarrow> p = r_param r) \<and>
     (r_pc r = R_Select \<longrightarrow> retryCh r = None \<longrightarrow> in_force None (r_calls r) = Some (r_param r))"

lemmas routine_defs = retryPush_def routine_top_def routine_buy_def routine_error_def
  routine_stop_def routine_update_def routine_retry_def Let_def

lemma routine_inv_step:
  assumes "routine_step r r'" "routine_inv r"
  shows "routine_inv r'"
  using assms(1)
proof cases
  case (on_retry d p ok)
  with assms(2) show ?thesis
    by (auto simp: routine_inv_def routine_defs accepts_blocked_append split: option.splits)
qed (use assms(2) in \<open>auto simp: routine_inv_def routine_defs accepts_blocked_append
      split: option.splits if_splits\<close>)

lemma routine_inv_reachable: "reachable routine_step (routine_init p) r \<Longrightarrow> routine_inv r"
  by (induction rule: reachable_invariant)
    (auto intro: routine_inv_step, simp add: routine_inv_def routine_init_def)

section \<open>The watch dog as a value\<close>

text \<open>
  The value holds a context and a channel, both by reference: the contexts that are done, the
  channels and the routines that have been started are the heap.
\<close>

record BlockedDog =
  dog_ctx :: nat
  dog_updateCh :: nat

record 'p dog_heap =
  done_ctxs :: "nat set"
  next_ref :: nat
  channels :: "nat \<Rightarrow> 'p option"
  routines :: "('p \<times> nat \<times> nat) list"

definition NewWatchDogWithBlockedDoor :: "'p dog_heap \<Rightarrow> BlockedDog \<times> 'p dog_heap" where
  "NewWatchDogWithBlockedDoor h =
     (let c = next_ref h; ch = next_ref h + 1 in
      (\<lparr>dog_ctx = c, dog_updateCh = ch\<rparr>,
       h\<lparr>done_ctxs := insert c (done_ctxs h), next_ref := next_ref h + 2,
         channels := (channels h)(ch := None)\<rparr>))"

text \<open>
  The receiver \<open>u\<close> is a copy: the new context goes into the copy and to the routine, and the
  caller's value stays as it is.
\<close>

definition Watch_Blocked :: "BlockedDog \<Rightarrow> 'p \<Rightarrow> 'p dog_heap \<Rightarrow> 'p dog_heap" where
  "Watch_Blocked u param h =
     (if dog_ctx u \<in> done_ctxs h
      then (let u' = u\<lparr>dog_ctx := next_ref h\<rparr> in
            h\<lparr>next_ref := next_ref h + 1,
              routines := routines h @ [(param, dog_ctx u', dog_updateCh u')]\<rparr>)
      else h)"

definition Update_Dog :: "BlockedDog \<Rightarrow> 'p \<Rightarrow> 'p dog_heap \<Rightarrow> 'p dog_heap" where
  "Update_Dog u param h = h\<lparr>channels := (channels h)(dog_updateCh u := Some param)\<rparr>"

definition Leave_Blocked :: "BlockedDog \<Rightarrow> 'p dog_heap \<Rightarrow> 'p dog_heap" where
  "Leave_Blocked u h = h\<lparr>done_ctxs := insert (dog_ctx u) (done_ctxs h)\<rparr>"

text \<open>The calls a client can make on the value it holds.\<close>

datatype 'p dog_call = is_Do_Watch: Do_Watch 'p | Do_Update 'p | Do_Leave

fun dog_run :: "BlockedDog \<Rightarrow> 'p dog_call list \<Rightarrow> 'p dog_heap \<Rightarrow> 'p dog_heap" where
  "dog_run u [] h = h"
| "dog_run u (Do_Watch p # cs) h = dog_run u cs (Watch_Blocked u p h)"
| "dog_run u (Do_Update p # cs) h = dog_run u cs (Update_Dog u p h)"
| "dog_run u (Do_Leave # cs) h = dog_run u cs (Leave_Blocked u h)"

definition empty_heap :: "'p dog_heap" where
  "empty_heap = \<lparr>done_ctxs = {}, next_ref = 0, channels = (\<lambda>_. None), routines = []\<rparr>"

text \<open>
  However it is called, every \<open>Watch\<close> starts another routine and no routine's context is ever
  done: \<open>Leave\<close> cancels the context the value was made with, which no routine has.
\<close>

definition unstoppable :: "BlockedDog \<Rightarrow> 'p dog_heap \<Rightarrow> bool" where
  "unstoppable u h \<longleftrightarrow> dog_ctx u \<in> done_ctxs h \<and> (\<forall>c \<in> done_ctxs h. c < next_ref h) \<and>
     (\<forall>(p, c, ch) \<in> set (routines h). c \<notin> done_ctxs h \<and> c < next_ref h)"

lemma unstoppable_call:
  assumes "unstoppable u h"
  shows "unstoppable u (Watch_Blocked u p h)" "unstoppable u (Update_Dog u p h)"
    "unstoppable u (Leave_Blocked u h)"
    and "length (routines (Watch_Blocked u p h)) = length (routines h) + 1"
  using assms by (auto simp: unstoppable_def Watch_Blocked_def Update_Dog_def Leave_Blocked_def Let_def
      less_Suc_eq insert_absorb)

lemma dog_run_unstoppable:
  "unstoppable u h \<Longrightarrow> unstoppable u (dog_run u cs h) \<and>
   length (routines (dog_run u cs h)) = length (routines h) + length (filter is_Do_Watch cs)"
proof (induction cs arbitrary: h)
  case (Cons c cs)
  show ?case
  proof (cases c)
    case (Do_Watch p)
    with Cons.IH [OF unstoppable_call(1) [OF Cons.prems, of p]] unstoppable_call(4) [OF Cons.prems, of p]
    show ?thesis by simp
  next
    case (Do_Update p)
    with Cons.IH [OF unstoppable_call(2) [OF Cons.prems, of p]] show ?thesis
      by (simp add: Update_Dog_def)
  next
    case Do_Leave
    with Cons.IH [OF unstoppable_call(3) [OF Cons.prems]] show ?thesis
      by (simp add: Leave_Blocked_def)
  qed
qed simp

section \<open>Properties\<close>

text \<open>
  C13. The routine keeps the protocol of a blocked door (\<open>BLock\<close> starts once per door, updates go
  to the open door, none is left behind at the end), and no update is lost: while it waits with
  nothing to retry, the door works with the newest parameter the routine was given.
\<close>

theorem blocked_routine_protocol:
  assumes "reachable routine_step (routine_init p) r"
  shows "\<exists>q. accepts_blocked No_Door (r_calls r) = Some q \<and> (r_pc r = R_Exited \<longrightarrow> q = No_Door) \<and>
    (r_pc r = R_Select \<longrightarrow> retryCh r = None \<longrightarrow> in_force None (r_calls r) = Some (r_param r))"
  using routine_inv_reachable [OF assms] by (auto simp: routine_inv_def split: option.splits)

theorem blocked_routine_protocol_witness:
  "\<exists>r. reachable routine_step (routine_init (0::nat)) r \<and> r_param r = 5 \<and> r_pc r = R_Select \<and>
     r_calls r = [NewBlockedDoor 0, Go_BLock 0 0, Update_Blocked 0 5 True] \<and>
     in_force None (r_calls r) = Some 5"
proof -
  let ?a = "routine_top (routine_init (0::nat))"
  let ?b = "routine_buy True ?a"
  let ?c = "?b\<lparr>r_updateCh := Some 5\<rparr>"
  let ?d = "routine_update 5 ?c"
  let ?e = "routine_retry True 0 5 ?d"
  note defs = routine_top_def routine_buy_def routine_update_def routine_retry_def retryPush_def
    routine_init_def Let_def
  have steps: "routine_step (routine_init 0) ?a" "routine_step ?a ?b" "routine_step ?b ?c"
    "routine_step ?c ?d" "routine_step ?d ?e"
    by (rule routine_step.top routine_step.buy routine_step.push_update routine_step.on_update
        routine_step.on_retry; simp add: defs)+
  have "reachable routine_step (routine_init 0) ?a" using steps(1) by (rule reachable_first)
  then have "reachable routine_step (routine_init 0) ?b" using steps(2) by (rule reachable_step)
  then have "reachable routine_step (routine_init 0) ?c" using steps(3) by (rule reachable_step)
  then have "reachable routine_step (routine_init 0) ?d" using steps(4) by (rule reachable_step)
  then have r: "reachable routine_step (routine_init 0) ?e" using steps(5) by (rule reachable_step)
  have e: "r_pc ?e = R_Select" "retryCh ?e = None" "r_param ?e = 5"
    "r_calls ?e = [NewBlockedDoor 0, Go_BLock 0 0, Update_Blocked 0 5 True]"
    by (simp_all add: defs)
  with blocked_routine_protocol [OF r] r show ?thesis by (intro exI [of _ ?e]) simp
qed

end
