(* ===== verification/Routers.thy ===== *)
theory Routers
  imports Syncer Dog_Table Blocked_Door
begin

text \<open>
  The two routers the syncer drives: \<open>ForwardRouter\<close> of \<open>pkg/sxu/forward.go\<close>, which keeps a
  \<open>WatchDogWithBlockedDoor\<close> value per track, and \<open>ProceedRouter\<close> of \<open>pkg/sxu/proceed.go\<close>, which
  keeps a pointer to a \<open>WatchDogWithUnblockedDoor\<close>. A key that cannot be computed is a panic.
\<close>

section \<open>ForwardRouter\<close>

record forwarding =
  fw_dog :: BlockedDog
  fw_Track :: forward_track

record ForwardRouter =
  forwardings :: "(string, forwarding) gomap"
  fw_heap :: "forward_track dog_heap"

definition NewForwardRouter :: ForwardRouter where
  "NewForwardRouter = \<lparr>forwardings = Map.empty, fw_heap = empty_heap\<rparr>"

text \<open>The assignment to \<open>proc.Track\<close> at the end changes a copy of the map's value only.\<close>

definition ReplaceForward :: "forward_track \<Rightarrow> forward_track \<Rightarrow> ForwardRouter \<Rightarrow> ForwardRouter option" where
  "ReplaceForward oldTrackInfo newTrackInfo f =
     (case (forward_key oldTrackInfo, forward_key newTrackInfo) of
        (Some old, Some new) \<Rightarrow>
          if old \<noteq> new then Some f
          else (case forwardings f old of
                  None \<Rightarrow> Some f
                | Some proc \<Rightarrow> Some (f\<lparr>fw_heap := Update_Dog (fw_dog proc) newTrackInfo (fw_heap f)\<rparr>))
      | _ \<Rightarrow> None)"

definition StartForward :: "forward_track \<Rightarrow> ForwardRouter \<Rightarrow> ForwardRouter option" where
  "StartForward trackInfo f =
     (case forward_key trackInfo of
        None \<Rightarrow> None
      | Some k \<Rightarrow>
          (case forwardings f k of
             Some proc \<Rightarrow> ReplaceForward (fw_Track proc) trackInfo f
           | None \<Rightarrow>
               (let (dog, h) = NewWatchDogWithBlockedDoor (fw_heap f) in
                Some \<lparr>forwardings = (forwardings f)(k \<mapsto> \<lparr>fw_dog = dog, fw_Track = trackInfo\<rparr>),
                      fw_heap = Watch_Blocked dog trackInfo h\<rparr>)))"

definition StopForward :: "forward_track \<Rightarrow> ForwardRouter \<Rightarrow> ForwardRouter option" where
  "StopForward trackInfo f =
     (case forward_key trackInfo of
        None \<Rightarrow> None
      | Some k \<Rightarrow>
          (case forwardings f k of
             Some proc \<Rightarrow>
               Some \<lparr>forwardings = (forwardings f)(k := None),
                     fw_heap = Leave_Blocked (fw_dog proc) (fw_heap f)\<rparr>
           | None \<Rightarrow> Some f))"

fun forward_router_call :: "ForwardRouter \<Rightarrow> router_call \<Rightarrow> ForwardRouter option" where
  "forward_router_call f (StartForwardTrack t) = StartForward t f"
| "forward_router_call f (StopForwardTrack t) = StopForward t f"
| "forward_router_call f (ReplaceForwardTrack old new) = ReplaceForward old new f"
| "forward_router_call f _ = Some f"

section \<open>ProceedRouter\<close>

record proceeding =
  pr_dog :: nat
  pr_Track :: proceed_track

record ProceedRouter =
  proceedings :: "(string, proceeding) gomap"
  dogs :: "proceed_track WatchDog list"

definition NewProceedRouter :: ProceedRouter where
  "NewProceedRouter = \<lparr>proceedings = Map.empty, dogs = []\<rparr>"

definition ReplaceProceed :: "proceed_track \<Rightarrow> proceed_track \<Rightarrow> ProceedRouter \<Rightarrow> ProceedRouter" where
  "ReplaceProceed oldTrackInfo newTrackInfo p =
     (if DstSessionId oldTrackInfo \<noteq> DstSessionId newTrackInfo then p
      else (case proceedings p (DstSessionId oldTrackInfo) of
              None \<Rightarrow> p
            | Some proc \<Rightarrow>
                p\<lparr>dogs := (dogs p)[pr_dog proc := WatchDog_Update newTrackInfo (dogs p ! pr_dog proc)]\<rparr>))"

definition StartProceed :: "proceed_track \<Rightarrow> ProceedRouter \<Rightarrow> ProceedRouter" where
  "StartProceed trackInfo p =
     (case proceedings p (DstSessionId trackInfo) of
        Some proc \<Rightarrow> ReplaceProceed (pr_Track proc) trackInfo p
      | None \<Rightarrow>
          p\<lparr>dogs := dogs p @ [Watch trackInfo (NewWatchDog trackInfo)],
            proceedings := (proceedings p)(DstSessionId trackInfo \<mapsto>
              \<lparr>pr_dog = length (dogs p), pr_Track = trackInfo\<rparr>)\<rparr>)"

definition StopProceed :: "proceed_track \<Rightarrow> ProceedRouter \<Rightarrow> ProceedRouter" where
  "StopProceed trackInfo p =
     (case proceedings p (DstSessionId trackInfo) of
        Some proc \<Rightarrow>
          p\<lparr>dogs := (dogs p)[pr_dog proc := Leave (dogs p ! pr_dog proc)],
            proceedings := (proceedings p)(DstSessionId trackInfo := None)\<rparr>
      | None \<Rightarrow> p)"

fun proceed_router_call :: "ProceedRouter \<Rightarrow> router_call \<Rightarrow> ProceedRouter" where
  "proceed_router_call p (StartProceedTrack t) = StartProceed t p"
| "proceed_router_call p (StopProceedTrack t) = StopProceed t p"
| "proceed_router_call p (ReplaceProceedTrack old new) = ReplaceProceed old new p"
| "proceed_router_call p _ = p"

section \<open>The proceed router does what the syncer means\<close>

text \<open>The dogs of the entries.\<close>

definition dog_of :: "ProceedRouter \<Rightarrow> (string, nat) gomap" where
  "dog_of p = (\<lambda>k. map_option pr_dog (proceedings p k))"

definition proceed_inv :: "ProceedRouter \<Rightarrow> bool" where
  "proceed_inv p \<longleftrightarrow> dogs_inv (dog_of p) (dogs p) \<and>
     (\<forall>k proc. proceedings p k = Some proc \<longrightarrow> DstSessionId (pr_Track proc) = k)"

definition routes_of :: "ProceedRouter \<Rightarrow> (string, ProceedTrackItem) gomap" where
  "routes_of p = (\<lambda>k. map_option (\<lambda>proc. \<lparr>PT_Track = intended (dogs p ! pr_dog proc)\<rparr>) (proceedings p k))"

lemma ReplaceProceed_inv: "proceed_inv p \<Longrightarrow> proceed_inv (ReplaceProceed old new p)"
  by (auto simp: ReplaceProceed_def proceed_inv_def dog_of_def intro: dogs_inv_update split: option.splits)

lemma StartProceed_inv:
  assumes "proceed_inv p"
  shows "proceed_inv (StartProceed t p)"
proof (cases "proceedings p (DstSessionId t)")
  case None
  have "dog_of (StartProceed t p) = (dog_of p)(DstSessionId t \<mapsto> length (dogs p))"
    by (auto simp: dog_of_def StartProceed_def None fun_eq_iff)
  with None assms show ?thesis
    using dogs_inv_start [of "dog_of p" "dogs p" "DstSessionId t" "Watch t (NewWatchDog t)"]
    by (auto simp: StartProceed_def proceed_inv_def dog_of_def)
next
  case (Some proc)
  with assms show ?thesis by (simp add: StartProceed_def ReplaceProceed_inv)
qed

lemma StopProceed_inv:
  assumes "proceed_inv p"
  shows "proceed_inv (StopProceed t p)"
proof (cases "proceedings p (DstSessionId t)")
  case (Some proc)
  have "dog_of (StopProceed t p) = (dog_of p)(DstSessionId t := None)"
    by (auto simp: dog_of_def StopProceed_def Some fun_eq_iff)
  with Some assms show ?thesis
    using dogs_inv_stop [of "dog_of p" "dogs p" "DstSessionId t" "pr_dog proc" "Leave (dogs p ! pr_dog proc)"]
    by (auto simp: StopProceed_def proceed_inv_def dog_of_def)
qed (use assms in \<open>simp add: StopProceed_def\<close>)

lemma proceed_call_inv: "proceed_inv p \<Longrightarrow> proceed_inv (proceed_router_call p c)"
  by (cases c) (simp_all add: StartProceed_inv StopProceed_inv ReplaceProceed_inv)

text \<open>Each call changes the intended routes as the syncer's abstract router does.\<close>

definition replaces_present :: "ProceedRouter \<Rightarrow> router_call \<Rightarrow> bool" where
  "replaces_present p c \<longleftrightarrow>
     (\<forall>old new. c = ReplaceProceedTrack old new \<longrightarrow>
        DstSessionId old = DstSessionId new \<and> proceedings p (DstSessionId new) \<noteq> None)"

lemma routes_of_update:
  assumes "proceed_inv p" "proceedings p k = Some proc"
  shows "routes_of (p\<lparr>dogs := (dogs p)[pr_dog proc := WatchDog_Update t (dogs p ! pr_dog proc)]\<rparr>)
    = (routes_of p)(k \<mapsto> \<lparr>PT_Track = t\<rparr>)"
proof
  fix j
  have own: "pr_dog proc < length (dogs p)"
    using assms by (auto simp: proceed_inv_def dogs_inv_def dog_of_def)
  have "pr_dog qroc \<noteq> pr_dog proc" if "proceedings p j = Some qroc" "j \<noteq> k" for qroc
    using assms that unfolding proceed_inv_def dogs_inv_def dog_of_def by force
  with own assms(2) show "routes_of (p\<lparr>dogs := (dogs p)[pr_dog proc := WatchDog_Update t (dogs p ! pr_dog proc)]\<rparr>) j
      = ((routes_of p)(k \<mapsto> \<lparr>PT_Track = t\<rparr>)) j"
    by (cases "proceedings p j") (auto simp: routes_of_def)
qed

lemma proceed_call_routes:
  assumes "proceed_inv p" "replaces_present p c"
  shows "routes_of (proceed_router_call p c) = proceed_route (routes_of p) c"
proof (cases c)
  case (StartProceedTrack t)
  show ?thesis
  proof (cases "proceedings p (DstSessionId t)")
    case None
    have "pr_dog proc < length (dogs p)" if "proceedings p j = Some proc" for j proc
      using assms(1) that by (auto simp: proceed_inv_def dogs_inv_def dog_of_def)
    then have "map_option (\<lambda>proc. \<lparr>PT_Track = intended ((dogs p @ [w]) ! pr_dog proc)\<rparr>) (proceedings p j)
        = map_option (\<lambda>proc. \<lparr>PT_Track = intended (dogs p ! pr_dog proc)\<rparr>) (proceedings p j)" for j w
      by (cases "proceedings p j") (simp_all add: nth_append)
    then show ?thesis
      by (simp add: StartProceedTrack StartProceed_def None routes_of_def fun_eq_iff)
  next
    case (Some proc)
    then have "DstSessionId (pr_Track proc) = DstSessionId t" using assms(1) by (simp add: proceed_inv_def)
    with Some routes_of_update [OF assms(1) Some] show ?thesis
      by (simp add: StartProceedTrack StartProceed_def ReplaceProceed_def)
  qed
next
  case (ReplaceProceedTrack old new)
  with assms(2) obtain proc where "DstSessionId old = DstSessionId new"
    and proc: "proceedings p (DstSessionId new) = Some proc" by (auto simp: replaces_present_def)
  with routes_of_update [OF assms(1) proc] show ?thesis
    by (simp add: ReplaceProceedTrack ReplaceProceed_def)
next
  case (StopProceedTrack t)
  show ?thesis
  proof (cases "proceedings p (DstSessionId t)")
    case (Some proc)
    have "pr_dog proc \<noteq> pr_dog qroc" if "proceedings p j = Some qroc" "j \<noteq> DstSessionId t" for j qroc
      using assms(1) Some that unfolding proceed_inv_def dogs_inv_def dog_of_def by force
    then have "map_option (\<lambda>qroc. \<lparr>PT_Track = intended ((dogs p)[pr_dog proc := w] ! pr_dog qroc)\<rparr>) (proceedings p j)
        = map_option (\<lambda>qroc. \<lparr>PT_Track = intended (dogs p ! pr_dog qroc)\<rparr>) (proceedings p j)"
      if "j \<noteq> DstSessionId t" for j w
      using that by (cases "proceedings p j") simp_all
    with Some show ?thesis
      by (simp add: StopProceedTrack StopProceed_def routes_of_def fun_eq_iff)
  qed (simp add: StopProceedTrack StopProceed_def routes_of_def fun_eq_iff)
qed (simp_all add: routes_of_def)

section \<open>The forward router never stops forwarding\<close>

text \<open>
  The contexts of the values in the map are done from the start; those of the routines never
  are.
\<close>

definition forward_inv :: "ForwardRouter \<Rightarrow> bool" where
  "forward_inv f \<longleftrightarrow>
     (\<forall>k proc. forwardings f k = Some proc \<longrightarrow> dog_ctx (fw_dog proc) \<in> done_ctxs (fw_heap f)) \<and>
     (\<forall>c \<in> done_ctxs (fw_heap f). c < next_ref (fw_heap f)) \<and>
     (\<forall>(t, c, ch) \<in> set (routines (fw_heap f)). c \<notin> done_ctxs (fw_heap f) \<and> c < next_ref (fw_heap f))"

lemma forward_inv_new: "forward_inv NewForwardRouter"
  by (simp add: forward_inv_def NewForwardRouter_def empty_heap_def)

lemma forward_call_inv:
  assumes "forward_router_call f c = Some f'" "forward_inv f"
  shows "forward_inv f'"
    and "set (routines (fw_heap f)) \<subseteq> set (routines (fw_heap f'))"
proof -
  have replace: "forward_inv g \<and> routines (fw_heap g) = routines (fw_heap f)"
    if "ReplaceForward old new f = Some g" for old new g
    using that assms(2) by (auto simp: ReplaceForward_def forward_inv_def Update_Dog_def
        split: option.splits if_splits)
  have start: "forward_inv g \<and> set (routines (fw_heap f)) \<subseteq> set (routines (fw_heap g))"
    if "StartForward t f = Some g" for t g
  proof (cases "forwardings f (the (forward_key t))")
    case None
    with that assms(2) show ?thesis
      by (fastforce simp: StartForward_def forward_inv_def NewWatchDogWithBlockedDoor_def
          Watch_Blocked_def Let_def less_Suc_eq split: option.splits if_splits)
  next
    case (Some proc)
    with that replace show ?thesis by (auto simp: StartForward_def split: option.splits)
  qed
  have stop: "forward_inv g \<and> routines (fw_heap g) = routines (fw_heap f)"
    if "StopForward t f = Some g" for t g
    using that assms(2) by (auto simp: StopForward_def forward_inv_def Leave_Blocked_def insert_absorb
        split: option.splits if_splits)
  show "forward_inv f'" "set (routines (fw_heap f)) \<subseteq> set (routines (fw_heap f'))"
    using assms replace start stop by (cases c; fastforce)+
qed

fun runs :: "('r \<Rightarrow> 'c \<Rightarrow> 'r option) \<Rightarrow> 'r \<Rightarrow> 'c list \<Rightarrow> 'r option" where
  "runs step r [] = Some r"
| "runs step r (c # cs) = (case step r c of None \<Rightarrow> None | Some r' \<Rightarrow> runs step r' cs)"

lemma forward_run_inv:
  "runs forward_router_call f cs = Some f' \<Longrightarrow> forward_inv f \<Longrightarrow>
   forward_inv f' \<and> set (routines (fw_heap f)) \<subseteq> set (routines (fw_heap f'))"
proof (induction cs arbitrary: f)
  case (Cons c cs)
  then obtain g where g: "forward_router_call f c = Some g" "runs forward_router_call g cs = Some f'"
    by (auto split: option.splits)
  from forward_call_inv [OF g(1) Cons.prems(2)] Cons.IH [OF g(2)] show ?case by blast
qed simp

end
