(* ===== verification/Syncer_Routers.thy ===== *)
theory Syncer_Routers
  imports Routers
begin

text \<open>
  The syncer together with the routers it calls. The locale \<open>followed_router\<close> states what the
  syncer needs of a router: on a call that is in order, it does not panic and its view changes as
  the call says. The two routers of the program are shown to be such routers, and the calls the
  syncer makes are shown to be in order.
\<close>

section \<open>Routers that follow their calls\<close>

fun in_order :: "('a \<Rightarrow> 'c \<Rightarrow> bool) \<Rightarrow> ('a \<Rightarrow> 'c \<Rightarrow> 'a) \<Rightarrow> 'a \<Rightarrow> 'c list \<Rightarrow> bool" where
  "in_order ok route a [] = True"
| "in_order ok route a (c # cs) = (ok a c \<and> in_order ok route (route a c) cs)"

lemma in_order_append [simp]:
  "in_order ok route a (cs @ ds) \<longleftrightarrow> in_order ok route a cs \<and> in_order ok route (foldl route a cs) ds"
  by (induction cs arbitrary: a) auto

locale followed_router =
  fixes step :: "'r \<Rightarrow> 'c \<Rightarrow> 'r option" and inv :: "'r \<Rightarrow> bool" and view :: "'r \<Rightarrow> 'a"
    and ok :: "'a \<Rightarrow> 'c \<Rightarrow> bool" and route :: "'a \<Rightarrow> 'c \<Rightarrow> 'a"
  assumes follows: "inv r \<Longrightarrow> ok (view r) c \<Longrightarrow>
    \<exists>r'. step r c = Some r' \<and> inv r' \<and> view r' = route (view r) c"
begin

lemma run_follows:
  "inv r \<Longrightarrow> in_order ok route (view r) cs \<Longrightarrow>
   \<exists>r'. runs step r cs = Some r' \<and> inv r' \<and> view r' = foldl route (view r) cs"
proof (induction cs arbitrary: r)
  case (Cons c cs)
  then obtain r' where r': "step r c = Some r'" "inv r'" "view r' = route (view r) c"
    using follows [of r c] by auto
  with Cons.prems(2) have "in_order ok route (view r') cs" by simp
  from Cons.IH [OF r'(2) this] r' show ?case by auto
qed simp

end

section \<open>The proceed router\<close>

definition proceed_ok :: "(string, ProceedTrackItem) gomap \<Rightarrow> router_call \<Rightarrow> bool" where
  "proceed_ok r c = (case c of
     ReplaceProceedTrack old new \<Rightarrow> DstSessionId old = DstSessionId new \<and> r (DstSessionId new) \<noteq> None
   | _ \<Rightarrow> True)"

lemma proceed_ok_present: "proceed_ok (routes_of p) c \<Longrightarrow> replaces_present p c"
  by (auto simp: proceed_ok_def replaces_present_def routes_of_def)

definition proceed_step :: "ProceedRouter \<Rightarrow> router_call \<Rightarrow> ProceedRouter option" where
  "proceed_step p c = Some (proceed_router_call p c)"

interpretation proceed_router: followed_router proceed_step proceed_inv routes_of proceed_ok proceed_route
  by unfold_locales (simp add: proceed_step_def proceed_call_inv proceed_call_routes proceed_ok_present)

section \<open>The forward router\<close>

fun forward_keys :: "string set \<Rightarrow> router_call \<Rightarrow> string set" where
  "forward_keys K (StopForwardTrack t) = K - {the (forward_key t)}"
| "forward_keys K (ReplaceForwardTrack old new) = insert (the (forward_key new)) K"
| "forward_keys K (StartForwardTrack t) = insert (the (forward_key t)) K"
| "forward_keys K _ = K"

definition forward_ok :: "string set \<Rightarrow> router_call \<Rightarrow> bool" where
  "forward_ok K c = (case c of
     StopForwardTrack t \<Rightarrow> forward_key t \<noteq> None
   | StartForwardTrack t \<Rightarrow> forward_key t \<noteq> None
   | ReplaceForwardTrack old new \<Rightarrow> forward_key new = forward_key old \<and> forward_key old \<noteq> None \<and>
       the (forward_key new) \<in> K
   | _ \<Rightarrow> True)"

definition forward_filed :: "ForwardRouter \<Rightarrow> bool" where
  "forward_filed f \<longleftrightarrow> (\<forall>k proc. forwardings f k = Some proc \<longrightarrow> forward_key (fw_Track proc) = Some k)"

abbreviation forward_view :: "ForwardRouter \<Rightarrow> string set" where
  "forward_view f \<equiv> dom (forwardings f)"

lemma ReplaceForward_Some:
  "forward_key old = Some k \<Longrightarrow> forward_key new = Some l \<Longrightarrow>
   \<exists>f'. ReplaceForward old new f = Some f' \<and> forwardings f' = forwardings f"
  by (auto simp: ReplaceForward_def split: option.split)

lemma forward_follows:
  assumes "forward_filed f" "forward_ok (forward_view f) c"
  shows "\<exists>f'. forward_router_call f c = Some f' \<and> forward_filed f' \<and>
    forward_view f' = forward_keys (forward_view f) c"
proof (cases c)
  case (StopForwardTrack t)
  with assms show ?thesis
    by (auto simp: forward_ok_def StopForward_def forward_filed_def split: option.split)
next
  case (StartForwardTrack t)
  with assms(2) obtain k where k: "forward_key t = Some k" by (auto simp: forward_ok_def)
  show ?thesis
  proof (cases "forwardings f k")
    case None
    with assms(1) k StartForwardTrack show ?thesis
      by (auto simp: StartForward_def forward_filed_def split: prod.split)
  next
    case (Some proc)
    with assms(1) have "forward_key (fw_Track proc) = Some k" by (simp add: forward_filed_def)
    from ReplaceForward_Some [OF this k, of f] Some assms(1) k StartForwardTrack show ?thesis
      by (auto simp: StartForward_def forward_filed_def)
  qed
next
  case (ReplaceForwardTrack old new)
  have "forward_key new = forward_key old \<and> forward_key old \<noteq> None \<and> the (forward_key new) \<in> forward_view f"
    using assms(2) unfolding forward_ok_def ReplaceForwardTrack router_call.case .
  then obtain k where k: "forward_key old = Some k" "forward_key new = Some k" "k \<in> forward_view f"
    by (metis option.collapse)
  from ReplaceForward_Some [OF k(1,2), of f] k(2,3) assms(1) ReplaceForwardTrack show ?thesis
    by (auto simp: forward_filed_def)
qed (use assms in auto)

interpretation forward_router: followed_router forward_router_call forward_filed forward_view forward_ok forward_keys
  by unfold_locales (rule forward_follows)

lemma forward_keys_dom: "foldl forward_keys (dom r) cs = dom (foldl forward_route r cs)"
proof (induction cs arbitrary: r)
  case (Cons c cs)
  have "forward_keys (dom r) c = dom (forward_route r c)" by (cases c) auto
  with Cons show ?case by simp
qed simp

section \<open>The syncer's calls are in order\<close>

lemma proceed_ok_simps [simp]:
  "proceed_ok r (StopProceedTrack t)" "proceed_ok r (StartProceedTrack t)"
  "proceed_ok r (StopForwardTrack u)" "proceed_ok r (StartForwardTrack u)" "proceed_ok r (ReplaceForwardTrack u v)"
  by (simp_all add: proceed_ok_def)

lemma forward_ok_simps [simp]:
  "forward_ok K (StopProceedTrack t)" "forward_ok K (StartProceedTrack t)" "forward_ok K (ReplaceProceedTrack t u)"
  by (simp_all add: forward_ok_def)

lemma in_order_map: "(\<And>a x. x \<in> set xs \<Longrightarrow> ok a (h x)) \<Longrightarrow> in_order ok route a (map h xs)"
  by (induction xs arbitrary: a) auto

lemma in_order_kept:
  assumes "\<And>x. x \<in> set xs \<Longrightarrow> P x a" "\<And>x y a. P x a \<Longrightarrow> P x (route a (h y))" "\<And>x a. P x a \<Longrightarrow> ok a (h x)"
  shows "in_order ok route a (map h xs)"
  using assms(1)
proof (induction xs arbitrary: a)
  case (Cons x xs)
  then have "P y (route a (h x))" if "y \<in> set xs" for y using that assms(2) by simp
  with Cons assms(3) show ?case by simp
qed simp

lemma proceed_calls_in_order:
  assumes "dset_inv (proceed_ops E vis) s"
    and "distinct (map (Key (proceed_ops E vis)) xs)"
    and "Update (proceed_ops E vis) ord s xs = Some (s', add, del, rep)"
  shows "in_order proceed_ok proceed_route (contents s) (proceed_calls del rep add)"
proof -
  let ?r = "foldl proceed_route (contents s) (map (\<lambda>track. StopProceedTrack (PT_Track track)) del)"
  have deleted: "foldl proceed_route r (map (\<lambda>track. StopProceedTrack (PT_Track track)) ds) k
      = (if k \<in> (\<lambda>d. DstSessionId (PT_Track d)) ` set ds then None else r k)" for r ds k
    by (induction ds arbitrary: r) auto
  have "in_order proceed_ok proceed_route ?r
      (map (\<lambda>track. ReplaceProceedTrack (PT_Track (Old track)) (PT_Track (New track))) rep)"
  proof (rule in_order_kept [where P = "\<lambda>t a. DstSessionId (PT_Track (Old t)) = DstSessionId (PT_Track (New t)) \<and>
        a (DstSessionId (PT_Track (New t))) \<noteq> None"])
    fix t assume "t \<in> set rep"
    from proc.Update_replaced [OF assms this]
    show "DstSessionId (PT_Track (Old t)) = DstSessionId (PT_Track (New t)) \<and> ?r (DstSessionId (PT_Track (New t))) \<noteq> None"
      by (auto simp: deleted ProceedTrackItem_ops_def)
  qed (auto simp: proceed_ok_def)
  then show ?thesis
    by (simp add: proceed_calls_def in_order_map)
qed

lemma forward_calls_in_order:
  assumes "dset_inv (forward_ops E) s" and "distinct (map (Key (forward_ops E)) xs)"
    and "Update (forward_ops E) ord s xs = Some (s', add, del, rep)"
  shows "in_order forward_ok forward_keys (dom s) (forward_calls del rep add)"
proof -
  let ?r = "foldl forward_keys (dom s) (map (\<lambda>track. StopForwardTrack (FT_Track track)) del)"
  have deleted: "foldl forward_keys K (map (\<lambda>track. StopForwardTrack (FT_Track track)) ds)
      = K - (\<lambda>d. the (forward_key (FT_Track d))) ` set ds" for K ds
    by (induction ds arbitrary: K) auto
  have del: "forward_key (FT_Track d) \<noteq> None" if "d \<in> set del" for d
    using that assms(1) unfolding fwd.Update_deleted [OF assms(1,3)]
    by (auto simp: dset_inv_iff_contents ForwardTrackItem_ops_def)
  have add: "forward_key (FT_Track d) \<noteq> None" if "d \<in> set add" for d
  proof -
    have "d \<in> set xs" using that fwd.Update_added [OF assms] by auto
    then show ?thesis using Update_None_iff [of "forward_ops E" ord s xs] assms(3)
      by (auto simp: ForwardTrackItem_ops_def)
  qed
  have "in_order forward_ok forward_keys ?r
      (map (\<lambda>track. ReplaceForwardTrack (FT_Track (Old track)) (FT_Track (New track))) rep)"
  proof (rule in_order_kept [where P = "\<lambda>t K. forward_key (FT_Track (New t)) = forward_key (FT_Track (Old t)) \<and>
        forward_key (FT_Track (Old t)) \<noteq> None \<and> the (forward_key (FT_Track (New t))) \<in> K"])
    fix t assume "t \<in> set rep"
    from fwd.Update_replaced [OF assms this]
    show "forward_key (FT_Track (New t)) = forward_key (FT_Track (Old t)) \<and>
        forward_key (FT_Track (Old t)) \<noteq> None \<and> the (forward_key (FT_Track (New t))) \<in> ?r"
      by (auto simp: deleted ForwardTrackItem_ops_def dest: contents_SomeD)
  qed (auto simp: forward_ok_def)
  with del add show ?thesis
    by (auto simp: forward_calls_def forward_ok_def intro!: in_order_map)
qed

lemma other_calls_in_order:
  "in_order proceed_ok proceed_route r (forward_calls del rep add)"
  "in_order forward_ok forward_keys K (proceed_calls pdel prep padd)"
  by (simp_all add: forward_calls_def proceed_calls_def in_order_map)

definition log_in_order :: "ISGLBSyncer \<Rightarrow> bool" where
  "log_in_order s \<longleftrightarrow> in_order proceed_ok proceed_route Map.empty (router_log s) \<and>
     in_order forward_ok forward_keys {} (router_log s)"

lemma syncStatus_in_order:
  assumes "syncer_inv E s" "syncStatus E vis st s = Some s'" "unambiguous st" "routed s" "log_in_order s"
  shows "log_in_order s'"
  using assms(1,2)
proof (cases rule: syncStatus_cases)
  case (rejected index)
  with assms(5) show ?thesis by (simp add: log_in_order_def)
next
  case (adopted index fs fadd fdel frep ps padd pdel prep)
  note keys = keys_distinct [OF assms(3)]
  have fi: "dset_inv (forward_ops E) (forwardTrackSet s)"
    and pi: "dset_inv (proceed_ops E vis) (proceedTrackSet s)"
    using assms(1) by (simp_all add: syncer_inv_def)
  have p: "foldl proceed_route Map.empty (router_log s) = contents (proceedTrackSet s)"
    and f: "foldl forward_keys {} (router_log s) = dom (forwardTrackSet s)"
    using assms(4) forward_keys_dom [of Map.empty "router_log s"]
    by (simp_all add: routed_def proceed_routes_def forward_routes_def)
  show ?thesis
    using assms(5) proceed_calls_in_order [OF pi keys(2) adopted(4)] forward_calls_in_order [OF fi keys(1) adopted(3)]
    by (simp add: log_in_order_def adopted(5) p f other_calls_in_order forward_calls_replay(2))
qed

lemma log_in_order_step:
  assumes "syncer_step E allowed s (Some s')" "syncer_inv E s" "\<And>st. allowed st \<Longrightarrow> unambiguous st"
    "routed s" "\<forall>st. statusRecvCh s = Some st \<longrightarrow> allowed st" "log_in_order s"
  shows "log_in_order s'"
  using assms(1)
proof cases
  case event
  show ?thesis
  proof (cases "sessionEventCh s")
    case Nil
    with event assms(6) show ?thesis by (simp add: main_event_def log_in_order_def)
  next
    case (Cons ev rest)
    with event have "handleSessionEvent E ev (s\<lparr>sessionEventCh := rest\<rparr>) = Some s'"
      by (simp add: main_event_def)
    from handleSessionEvent_frame [OF this] assms(6) show ?thesis by (simp add: log_in_order_def)
  qed
next
  case (recv vis)
  from recv(1) [symmetric] show ?thesis
  proof (cases rule: main_recv_cases)
    case 1
    with assms(6) show ?thesis by (simp add: log_in_order_def)
  next
    case (2 st)
    have "syncer_inv E (s\<lparr>statusRecvCh := None\<rparr>)" "routed (s\<lparr>statusRecvCh := None\<rparr>)"
      "log_in_order (s\<lparr>statusRecvCh := None\<rparr>)" "unambiguous st"
      using assms(2-6) 2(1) by (simp_all add: syncer_inv_def routed_def log_in_order_def)
    with 2(2) show ?thesis by (blast intro: syncStatus_in_order)
  qed
next
  case (send vis)
  with assms(6) show ?thesis by (auto simp: main_send_def log_in_order_def split: option.splits if_splits)
qed (use assms(6) in \<open>auto simp: OnSFUStatusRecv_def Stop_def log_in_order_def split: if_splits\<close>)

lemma log_in_order_reachable:
  assumes "syncer_reachable E allowed desc s" "\<And>st. allowed st \<Longrightarrow> unambiguous st"
  shows "log_in_order s"
proof -
  have "routed s \<and> (\<forall>st. statusRecvCh s = Some st \<longrightarrow> allowed st) \<and> log_in_order s"
    using assms(1)
  proof (induction rule: reachable_invariant)
    case init
    show ?case by (simp add: routed_def forward_routes_def proceed_routes_def log_in_order_def
        NewSFUStatusSyncer_def NewDisorderSet_def contents_def)
  next
    case (step s s')
    note inv = syncer_inv_reachable [OF step(1)]
    from step(3) have old: "routed s \<and> (\<forall>st. statusRecvCh s = Some st \<longrightarrow> allowed st)" "routed s"
      "\<forall>st. statusRecvCh s = Some st \<longrightarrow> allowed st" "log_in_order s" by simp_all
    from routed_step [OF step(2) inv assms(2) old(1)] log_in_order_step [OF step(2) inv assms(2) old(2-4)]
    show ?case by simp
  qed
  then show ?thesis by simp
qed

end
