(* ===== verification/Set_Properties.thy ===== *)
theory Set_Properties
  imports Proto_Items "HOL-Library.Multiset"
begin

text \<open>
  The properties of the disorder sets on the items the program keeps in them, each with an
  instance on concrete tracks.
\<close>

section \<open>Concrete items\<close>

definition sample_node :: node where
  "sample_node = \<lparr>Dc = ''dc'', Nid = ''a'', Service = ''rtc'', Rpc = None\<rparr>"

definition sample_track :: "string \<Rightarrow> string \<Rightarrow> forward_track" where
  "sample_track remote local =
     \<lparr>Src = Some sample_node, RemoteSessionId = remote, LocalSessionId = local, Tracks = []\<rparr>"

definition sample_item :: "string \<Rightarrow> string \<Rightarrow> ForwardTrackItem" where
  "sample_item remote local = \<lparr>FT_Track = sample_track remote local\<rparr>"

definition sample_proceed :: "string \<Rightarrow> string list \<Rightarrow> ProceedTrackItem" where
  "sample_proceed dst srcs =
     \<lparr>PT_Track = \<lparr>DstSessionId = dst, Procedure = None, SrcSessionIdList = srcs\<rparr>\<rparr>"

definition sample_set :: "ForwardTrackItem DisorderSet" where
  "sample_set = [''{ NID: a, RemoteSessionId: s }'' \<mapsto> \<lparr>data = sample_item ''s'' ''x'', checked = False\<rparr>]"

lemmas sample_defs = sample_node_def sample_track_def sample_item_def sample_proceed_def sample_set_def

lemma sample_set_inv: "dset_inv (ForwardTrackItem_ops render) sample_set"
  by (simp add: dset_inv_def sample_defs ForwardTrackItem_ops_def forward_key_def)

text \<open>A text of a list of strings that shows the list.\<close>

fun spell :: "string list \<Rightarrow> string" where
  "spell [] = []"
| "spell ([] # xs) = CHR ''0'' # spell xs"
| "spell ((c # cs) # xs) = CHR ''1'' # c # spell (cs # xs)"

lemma spell_inject: "spell xs = spell ys \<Longrightarrow> xs = ys"
proof (induction xs arbitrary: ys rule: spell.induct)
  case 1
  then show ?case by (cases ys rule: spell.cases) simp_all
next
  case (2 xs)
  from 2(2) 2(1) show ?case by (cases ys rule: spell.cases) simp_all
next
  case (3 c cs xs)
  from 3(2) 3(1) show ?case by (cases ys rule: spell.cases) auto
qed

section \<open>Properties\<close>

text \<open>
  C12. A client that replays the three reports of \<open>Update\<close> in the order deletions, replacements,
  additions, starting from what the set held, holds exactly what the set holds afterwards,
  when the keys of the list are different from each other.
\<close>

theorem forward_reports_complete:
  assumes "dset_inv (ForwardTrackItem_ops render) s"
    and "distinct (map (Key (ForwardTrackItem_ops render)) xs)"
    and "Update (ForwardTrackItem_ops render) ord s xs = Some (s', add, del, rep)"
  shows "replay (ForwardTrackItem_ops render) (contents s) del rep add = contents s'"
  using assms by (rule fwd.replay_Update)

theorem forward_reports_complete_witness:
  "\<exists>s' add del rep.
     Update (ForwardTrackItem_ops LocalSessionId) ascending sample_set [sample_item ''s'' ''y'', sample_item ''t'' ''z'']
       = Some (s', add, del, rep) \<and> length add = 1 \<and> length rep = 1 \<and> del = [] \<and>
     replay (ForwardTrackItem_ops LocalSessionId) (contents sample_set) del rep add = contents s'"
proof -
  let ?I = "ForwardTrackItem_ops LocalSessionId"
  let ?xs = "[sample_item ''s'' ''y'', sample_item ''t'' ''z'']"
  let ?s' = "[''{ NID: a, RemoteSessionId: s }'' \<mapsto> \<lparr>data = sample_item ''s'' ''y'', checked = True\<rparr>,
    ''{ NID: a, RemoteSessionId: t }'' \<mapsto> \<lparr>data = sample_item ''t'' ''z'', checked = True\<rparr>]"
  have upd: "Update ?I ascending sample_set ?xs = Some (?s', [sample_item ''t'' ''z''], [],
      [\<lparr>Old = sample_item ''s'' ''x'', New = sample_item ''s'' ''y''\<rparr>])"
    by (rule Update_without_deletions)
      (simp_all add: sample_defs ForwardTrackItem_ops_def forward_key_def)
  have "distinct (map (Key ?I) ?xs)"
    by (simp add: sample_defs ForwardTrackItem_ops_def forward_key_def)
  from forward_reports_complete [OF sample_set_inv this upd] upd show ?thesis by auto
qed

text \<open>
  After \<open>Update\<close> the set is the same as the list it was given, as \<open>IsSame\<close> decides it, when
  items of one key agree with each other.
\<close>

theorem proceed_update_is_same:
  assumes "dset_inv (ProceedTrackItem_ops render src) s"
    and "Update (ProceedTrackItem_ops render src) ord s xs = Some (s', add, del, rep)"
    and "\<And>x y. x \<in> set xs \<Longrightarrow> y \<in> set xs \<Longrightarrow>
      Key (ProceedTrackItem_ops render src) x = Key (ProceedTrackItem_ops render src) y \<Longrightarrow>
      Compare (ProceedTrackItem_ops render src) x y"
  shows "\<exists>s''. IsSame (ProceedTrackItem_ops render src) ord' s' xs = Some (True, s'')"
  using assms by (rule proc.Update_then_IsSame)

theorem proceed_update_is_same_witness:
  "\<exists>s'. Update (ProceedTrackItem_ops DstSessionId ascending) ascending Map.empty
      [sample_proceed ''d'' [''s'', ''t''], sample_proceed ''e'' []]
      = Some (s', [sample_proceed ''d'' [''s'', ''t''], sample_proceed ''e'' []], [], []) \<and>
    (\<exists>s''. IsSame (ProceedTrackItem_ops DstSessionId ascending) ascending s'
      [sample_proceed ''d'' [''s'', ''t''], sample_proceed ''e'' []] = Some (True, s''))"
proof -
  let ?I = "ProceedTrackItem_ops DstSessionId ascending"
  let ?xs = "[sample_proceed ''d'' [''s'', ''t''], sample_proceed ''e'' []]"
  let ?s' = "[''d'' \<mapsto> \<lparr>data = sample_proceed ''d'' [''s'', ''t''], checked = True\<rparr>,
    ''e'' \<mapsto> \<lparr>data = sample_proceed ''e'' [], checked = True\<rparr>]"
  have upd: "Update ?I ascending Map.empty ?xs = Some (?s', ?xs, [], [])"
    by (rule Update_without_deletions) (simp_all add: sample_defs ProceedTrackItem_ops_def)
  have "dset_inv ?I Map.empty" by (simp add: dset_inv_def)
  moreover have "Compare ?I x y" if "x \<in> set ?xs" "y \<in> set ?xs" "Key ?I x = Key ?I y" for x y
    using that by (auto simp: sample_proceed_def proceed_Compare_iff) (simp_all add: ProceedTrackItem_ops_def)
  ultimately have "\<exists>s''. IsSame ?I ascending ?s' ?xs = Some (True, s'')"
    using proceed_update_is_same [OF _ upd, of ascending] by blast
  with upd show ?thesis by blast
qed

text \<open>
  \<open>IsSame\<close> on clients holds exactly when every client of the list compares equal to the
  entry of its key and every entry's key occurs in the list; it changes no entry.
\<close>

theorem clients_is_same_iff:
  assumes "finite (dom s)" and "IsSame (ClientNeededSessionItem_ops render) ord s xs = Some (b, s')"
  shows "(b \<longleftrightarrow> (\<forall>x \<in> set xs. agrees (ClientNeededSessionItem_ops render) (contents s) x) \<and>
      (\<forall>k \<in> dom s. \<exists>x \<in> set xs. client_key (Client x) = k)) \<and> contents s' = contents s"
  using IsSame_result [OF assms] IsSame_contents [OF assms(2)]
  by (simp add: ClientNeededSessionItem_ops_def)

theorem clients_is_same_iff_witness:
  "\<exists>s'. IsSame (ClientNeededSessionItem_ops Session) ascending
      [''{ User: u, Session: s }'' \<mapsto> \<lparr>data = \<lparr>Client = \<lparr>Session = ''s'', User = ''u''\<rparr>\<rparr>, checked = True\<rparr>] []
      = Some (False, s') \<and> s' ''{ User: u, Session: s }'' \<noteq> None"
proof -
  let ?s = "[''{ User: u, Session: s }'' \<mapsto> \<lparr>data = \<lparr>Client = \<lparr>Session = ''s'', User = ''u''\<rparr>\<rparr>, checked = True\<rparr>]"
  obtain b s' where same: "IsSame (ClientNeededSessionItem_ops Session) ascending ?s [] = Some (b, s')"
    by (simp add: IsSame_def)
  from clients_is_same_iff [OF _ same] have "\<not> b" "contents s' = contents ?s" by auto
  then have "s' ''{ User: u, Session: s }'' \<noteq> None"
    by (metis contents_None_iff fun_upd_same option.distinct(1))
  with same \<open>\<not> b\<close> show ?thesis by auto
qed

text \<open>
  \<open>Sort\<close> does not depend on the order in which Go visits the map: it lists the entries in
  ascending order of their keys.
\<close>

theorem sort_order_independent:
  assumes "dset_inv (ForwardTrackItem_ops render) s"
  shows "Sort (ForwardTrackItem_ops render) ord s =
    Some (map (\<lambda>k. data (the (s k))) (sorted_list_of_set (dom s)))"
  using fwd.Sort_ascending [OF assms, of ord] by (simp add: fwd.Clone_id)

theorem sort_order_independent_witness:
  "Sort (ForwardTrackItem_ops render) ord sample_set = Some [sample_item ''s'' ''x'']"
  using sort_order_independent [OF sample_set_inv, of render ord] by (simp add: sample_set_def)

text \<open>
  \<open>Update\<close> panics exactly when a track of the list has no source node.
\<close>

theorem forward_update_panics:
  "Update (ForwardTrackItem_ops render) ord s (ForwardTracks_ToDisorderSetItemList ts) = None
   \<longleftrightarrow> (\<exists>t \<in> set ts. Src t = None)"
  by (auto simp: Update_None_iff ForwardTracks_ToDisorderSetItemList_def ForwardTrackItem_ops_def
      forward_key_def split: option.splits)

text \<open>
  The key of a client determines its user and session when the user has no comma; two
  different clients with commas can have the same key.
\<close>

theorem client_keys:
  "(\<forall>c d :: client_needed_session. CHR '','' \<notin> set (User c) \<and> CHR '','' \<notin> set (User d) \<and>
      client_key c = client_key d \<longrightarrow> User c = User d \<and> Session c = Session d) \<and>
   (\<exists>c d :: client_needed_session. c \<noteq> d \<and> client_key c = client_key d)"
proof (intro conjI exI)
  show "\<forall>c d :: client_needed_session. CHR '','' \<notin> set (User c) \<and> CHR '','' \<notin> set (User d) \<and>
      client_key c = client_key d \<longrightarrow> User c = User d \<and> Session c = Session d"
    using client_key_determines by blast
  show "\<lparr>Session = ''b'', User = ''a, Session: x''\<rparr> \<noteq>
      (\<lparr>Session = ''x, Session: b'', User = ''a''\<rparr> :: client_needed_session)" by simp
  show "client_key \<lparr>Session = ''b'', User = ''a, Session: x''\<rparr> =
      client_key (\<lparr>Session = ''x, Session: b'', User = ''a''\<rparr> :: client_needed_session)"
    by (simp add: client_key_def)
qed

theorem client_keys_witness:
  "client_key \<lparr>Session = ''s'', User = ''u''\<rparr> \<noteq> client_key \<lparr>Session = ''t'', User = ''u''\<rparr>"
  using conjunct1 [OF client_keys, rule_format, of "\<lparr>Session = ''s'', User = ''u''\<rparr>" "\<lparr>Session = ''t'', User = ''u''\<rparr>"]
  by auto

text \<open>
  Two proceeded tracks compare equal exactly when their source sessions are the same set and
  their texts are equal; so when the text shows the sessions in their order, as the text of a
  repeated field does, tracks that compare equal list them in the same order, and the comparison
  of the sets decides nothing.
\<close>

theorem proceed_compare_order_sensitive:
  "(Compare (ProceedTrackItem_ops render src) i d \<longleftrightarrow>
      set (SrcSessionIdList (PT_Track i)) = set (SrcSessionIdList (PT_Track d)) \<and>
      render (PT_Track i) = render (PT_Track d)) \<and>
   ((\<forall>t u. render t = render u \<longrightarrow> SrcSessionIdList t = SrcSessionIdList u) \<longrightarrow>
      Compare (ProceedTrackItem_ops render src) i d \<longrightarrow>
      SrcSessionIdList (PT_Track i) = SrcSessionIdList (PT_Track d))"
  unfolding proceed_Compare_iff by blast

theorem proceed_compare_order_sensitive_witness:
  "SrcSessionIdList (PT_Track (sample_proceed ''d'' [''s'', ''t''])) =
     SrcSessionIdList (PT_Track (sample_proceed ''e'' [''s'', ''t''])) \<and>
   \<not> Compare (ProceedTrackItem_ops (\<lambda>t. spell (SrcSessionIdList t)) ascending)
       (sample_proceed ''d'' [''s'', ''t'']) (sample_proceed ''d'' [''t'', ''s''])"
proof (rule conjI)
  have texts: "\<forall>t u :: proceed_track. spell (SrcSessionIdList t) = spell (SrcSessionIdList u) \<longrightarrow>
      SrcSessionIdList t = SrcSessionIdList u"
    by (intro allI impI) (rule spell_inject)
  note ordered = conjunct2 [OF proceed_compare_order_sensitive, THEN mp, THEN mp, OF texts]
  let ?i = "sample_proceed ''d'' [''s'', ''t'']" and ?e = "sample_proceed ''e'' [''s'', ''t'']"
    and ?d = "sample_proceed ''d'' [''t'', ''s'']"
  have "Compare (ProceedTrackItem_ops (\<lambda>t. spell (SrcSessionIdList t)) ascending) ?i ?e"
    unfolding proceed_Compare_iff by (simp add: sample_proceed_def)
  then show "SrcSessionIdList (PT_Track ?i) = SrcSessionIdList (PT_Track ?e)" by (rule ordered)
  show "\<not> Compare (ProceedTrackItem_ops (\<lambda>t. spell (SrcSessionIdList t)) ascending) ?i ?d"
    using ordered [of ascending ?i ?d] by (auto simp: sample_proceed_def)
qed

text \<open>A list whose keys exist and are distinct is filed entry by entry.\<close>

lemma add_all_map_of:
  assumes "\<And>x. x \<in> set ds \<Longrightarrow> Key I x = Some (f x)" "distinct (map f ds)"
  shows "add_all I s ds = Some (s ++ map_of (map (\<lambda>x. (f x, \<lparr>data = Clone I x, checked = False\<rparr>)) ds))"
  using assms
proof (induction ds arbitrary: s)
  case (Cons d ds)
  let ?m = "map_of (map (\<lambda>x. (f x, \<lparr>data = Clone I x, checked = False\<rparr>)) ds)"
  have "f d \<notin> dom ?m" using Cons.prems(2) by (auto simp: dom_map_of_conv_image_fst)
  then have "s(f d \<mapsto> v) ++ ?m = s ++ ?m(f d \<mapsto> v)" for v
    by (auto simp: map_add_def fun_eq_iff domIff split: option.split)
  with Cons show ?case by (simp add: Add_def) (auto simp: map_add_def fun_eq_iff split: option.split)
qed simp

text \<open>
  C30. Tracks survive the set: a list of forwarded tracks with a source and distinct keys, turned into a
  set and back into a list as the syncer does for its status, is the same list up to its order,
  sorted by key, whatever order Go visits the map in.
\<close>

theorem forward_set_roundtrip:
  assumes "\<forall>t \<in> set ts. Src t \<noteq> None" and "distinct (map forward_key ts)"
  shows "\<exists>s items. NewDisorderSetFromList (ForwardTrackItem_ops render) (ForwardTracks_ToDisorderSetItemList ts) = Some s \<and>
    Sort (ForwardTrackItem_ops render) ord s = Some items \<and> mset (ToForwardTracks items) = mset ts \<and>
    sorted (map (\<lambda>t. the (forward_key t)) (ToForwardTracks items))"
proof -
  let ?I = "ForwardTrackItem_ops render"
  define f where "f t = the (forward_key t)" for t
  define tup where "tup t = \<lparr>data = \<lparr>FT_Track = t\<rparr>, checked = False\<rparr>" for t
  define s where "s = map_of (map (\<lambda>t. (f t, tup t)) ts)"
  have key: "forward_key t = Some (f t)" if "t \<in> set ts" for t
    using assms(1) that by (auto simp: forward_key_def f_def)
  have dist: "distinct (map f ts)"
    using assms(2) key by (auto simp: distinct_map inj_on_def)
  have "add_all ?I NewDisorderSet (map (\<lambda>t. \<lparr>FT_Track = t\<rparr>) ts) =
      Some (NewDisorderSet ++ map_of (map (\<lambda>x. (f (FT_Track x), \<lparr>data = Clone ?I x, checked = False\<rparr>)) (map (\<lambda>t. \<lparr>FT_Track = t\<rparr>) ts)))"
    by (rule add_all_map_of) (use key dist in \<open>auto simp: ForwardTrackItem_ops_def o_def\<close>)
  then have build: "NewDisorderSetFromList ?I (ForwardTracks_ToDisorderSetItemList ts) = Some s"
    by (simp add: NewDisorderSetFromList_def ForwardTracks_ToDisorderSetItemList_def NewDisorderSet_def s_def tup_def
        ForwardTrackItem_ops_def o_def)
  have at: "s (f t) = Some (tup t)" if "t \<in> set ts" for t
    unfolding s_def using dist that by (intro map_of_is_SomeI) (auto simp: o_def)
  have dom: "dom s = set (map f ts)" by (auto simp: s_def dom_map_of_conv_image_fst image_image)
  have inv: "dset_inv ?I s"
    unfolding dset_inv_def using dom at key
    by (auto simp: domIff ForwardTrackItem_ops_def tup_def s_def finite_dom_map_of dest!: map_of_SomeD)
  define items where "items = map (\<lambda>k. data (the (s k))) (sorted_list_of_set (dom s))"
  have sort: "Sort ?I ord s = Some items"
    using fwd.Sort_ascending [OF inv, of ord] by (simp add: fwd.Clone_id items_def)
  have perm: "mset (sorted_list_of_set (dom s)) = mset (map f ts)"
    by (simp only: dom sorted_list_of_set_sort_remdups distinct_remdups_id [OF dist] mset_sort)
  have tracks: "map FT_Track items = map (\<lambda>k. FT_Track (data (the (s k)))) (sorted_list_of_set (dom s))"
    by (simp add: items_def o_def)
  have "mset (map (\<lambda>k. FT_Track (data (the (s k)))) (sorted_list_of_set (dom s))) = mset (map (\<lambda>k. FT_Track (data (the (s k)))) (map f ts))"
    using perm by (simp only: mset_map)
  also have "map (\<lambda>k. FT_Track (data (the (s k)))) (map f ts) = ts"
    by (simp add: o_def) (rule map_idI, simp add: at tup_def)
  finally have "mset (ToForwardTracks items) = mset ts" by (simp add: ToForwardTracks_def tracks)
  moreover have "map f (ToForwardTracks items) = sorted_list_of_set (dom s)"
    unfolding ToForwardTracks_def tracks map_map o_def
    by (rule map_idI) (use at dom in \<open>auto simp: tup_def\<close>)
  then have "sorted (map f (ToForwardTracks items))" by simp
  ultimately show ?thesis using build sort by (intro exI [of _ s] exI [of _ items]) (simp add: f_def [abs_def])
qed

theorem forward_set_roundtrip_witness:
  "\<exists>s items. NewDisorderSetFromList (ForwardTrackItem_ops (\<lambda>_. [])) (ForwardTracks_ToDisorderSetItemList
      [sample_track ''s'' ''x'', sample_track ''r'' ''y'']) = Some s \<and> Sort (ForwardTrackItem_ops (\<lambda>_. [])) ascending s = Some items \<and>
    mset (ToForwardTracks items) = {#sample_track ''s'' ''x'', sample_track ''r'' ''y''#}"
  using forward_set_roundtrip [of "[sample_track ''s'' ''x'', sample_track ''r'' ''y'']" "\<lambda>_. []" ascending]
  by (simp add: sample_defs forward_key_def) blast

end
