(* ===== verification/Syncer_Properties.thy ===== *)
theory Syncer_Properties
  imports Syncer_Mirror Set_Properties
begin

text \<open>
  The properties of the SXU's syncer, with the run of one syncer that receives an expected status
  of one forwarded track.
\<close>

section \<open>A run\<close>

definition demo_texts :: texts where
  "demo_texts = \<lparr>node_text = (\<lambda>n. case n of None \<Rightarrow> [] | Some n \<Rightarrow> Nid n),
     client_text = Session, forward_text = LocalSessionId, proceed_text = DstSessionId\<rparr>"

definition demo_visits :: syncer_visits where
  "demo_visits = \<lparr>set_ord = ascending, src_ord = ascending\<rparr>"

definition forwards :: "forward_track list \<Rightarrow> sfu_status" where
  "forwards ts = \<lparr>SFU = Some sample_node, ForwardTracks = ts, ProceedTracks = [], Clients = []\<rparr>"

definition demo_synced :: ISGLBSyncer where
  "demo_synced = NewSFUStatusSyncer sample_node
     \<lparr>forwardTrackSet := [''{ NID: a, RemoteSessionId: s }'' \<mapsto>
        \<lparr>data = sample_item ''s'' ''x'', checked = True\<rparr>],
      router_log := [StartForwardTrack (sample_track ''s'' ''x'')]\<rparr>"

lemma syncStatus_forwards:
  assumes "Update (forward_ops E) (set_ord vis) (forwardTrackSet s)
      (ForwardTracks_ToDisorderSetItemList ts) = Some (fs, fadd, fdel, frep)"
    and "clientSet s = Map.empty" and "proceedTrackSet s = Map.empty" and "descSFU s = sample_node"
  shows "syncStatus E vis (forwards ts) s =
    Some (s\<lparr>forwardTrackSet := fs, router_log := router_log s @ forward_calls fdel frep fadd\<rparr>)"
proof -
  have "Update (proceed_ops E vis) (set_ord vis) Map.empty [] = Some (Map.empty, [], [], [])"
    by (rule Update_without_deletions) simp_all
  then show ?thesis
    using assms by (simp add: syncStatus_def forwards_def IsSame_empty Let_def sync_forward_def
        sync_proceed_def Clients_ToDisorderSetItemList_def ProceedTracks_ToDisorderSetItemList_def
        proceed_calls_def)
qed

lemma demo_sync:
  "syncStatus demo_texts demo_visits (forwards [sample_track ''s'' ''x'']) (NewSFUStatusSyncer sample_node)
     = Some demo_synced"
proof -
  let ?s = "NewSFUStatusSyncer sample_node"
  have "Update (forward_ops demo_texts) (set_ord demo_visits) (forwardTrackSet ?s)
      (ForwardTracks_ToDisorderSetItemList [sample_track ''s'' ''x''])
    = Some ([''{ NID: a, RemoteSessionId: s }'' \<mapsto> \<lparr>data = sample_item ''s'' ''x'', checked = True\<rparr>],
        [sample_item ''s'' ''x''], [], [])"
    by (rule Update_without_deletions)
      (simp_all add: NewSFUStatusSyncer_def NewDisorderSet_def ForwardTracks_ToDisorderSetItemList_def
        ForwardTrackItem_ops_def forward_key_def sample_defs)
  from syncStatus_forwards [OF this] show ?thesis
    by (simp add: NewSFUStatusSyncer_def NewDisorderSet_def demo_synced_def forward_calls_def sample_item_def)
qed

abbreviation demo_allowed :: "sfu_status \<Rightarrow> bool" where
  "demo_allowed st \<equiv> st = forwards [sample_track ''s'' ''x'']"

lemma demo_unambiguous: "demo_allowed st \<Longrightarrow> unambiguous st"
  by (simp add: unambiguous_def forwards_def)

lemma demo_reachable: "syncer_reachable demo_texts demo_allowed sample_node demo_synced"
proof -
  let ?s = "NewSFUStatusSyncer sample_node" and ?st = "forwards [sample_track ''s'' ''x'']"
  have "syncer_step demo_texts demo_allowed ?s (OnSFUStatusRecv ?st ?s)" by (rule syncer_step.status) simp
  then have 1: "syncer_step demo_texts demo_allowed ?s (Some (?s\<lparr>statusRecvCh := Some ?st\<rparr>))"
    by (simp add: OnSFUStatusRecv_def NewSFUStatusSyncer_def)
  have "syncer_step demo_texts demo_allowed (?s\<lparr>statusRecvCh := Some ?st\<rparr>)
      (main_recv demo_texts demo_visits (?s\<lparr>statusRecvCh := Some ?st\<rparr>))"
    by (rule syncer_step.recv) (simp_all add: NewSFUStatusSyncer_def)
  moreover have "?s\<lparr>statusRecvCh := Some ?st\<rparr>\<lparr>statusRecvCh := None\<rparr> = ?s"
    by (simp add: NewSFUStatusSyncer_def)
  ultimately have 2: "syncer_step demo_texts demo_allowed (?s\<lparr>statusRecvCh := Some ?st\<rparr>) (Some demo_synced)"
    by (simp add: main_recv_def demo_sync)
  show ?thesis by (rule syncer_reachable_step [OF syncer_reachable_step [OF syncer_reachable_init 1] 2])
qed

section \<open>Properties\<close>

text \<open>
  C8. As long as every status the server may send has tracks of different keys, a router that
  does as it is told routes, at every moment, exactly the forwarded and proceeded tracks that the
  syncer's sets hold, and these are the tracks that a status names which the syncer makes at this moment.
\<close>

theorem syncer_router_follows:
  assumes "syncer_reachable E allowed desc s" and "\<And>st. allowed st \<Longrightarrow> unambiguous st"
  shows "forward_routes (router_log s) = contents (forwardTrackSet s) \<and>
    proceed_routes (router_log s) = contents (proceedTrackSet s) \<and>
    (\<forall>vis st. current_status E vis s = Some st \<longrightarrow>
       set (ForwardTracks st) = FT_Track ` ran (forward_routes (router_log s)) \<and>
       set (ProceedTracks st) = PT_Track ` ran (proceed_routes (router_log s)))"
proof -
  have r: "forward_routes (router_log s) = contents (forwardTrackSet s)" "proceed_routes (router_log s) = contents (proceedTrackSet s)"
    using routed_reachable [OF assms] by (simp_all add: routed_def)
  moreover have "set (ForwardTracks st) = held_forwards s \<and> set (ProceedTracks st) = held_proceeds s"
    if "current_status E vis s = Some st" for vis st
    using current_status_mirrors(1) [OF syncer_inv_reachable [OF assms(1)] that] by (simp add: mirrors_def)
  ultimately show ?thesis by (simp add: held_defs)
qed

theorem syncer_router_follows_witness:
  "forward_routes (router_log demo_synced) = contents (forwardTrackSet demo_synced) \<and>
   forward_routes (router_log demo_synced) ''{ NID: a, RemoteSessionId: s }'' = Some (sample_item ''s'' ''x'') \<and>
   (\<exists>st. current_status demo_texts demo_visits demo_synced = Some st \<and> set (ForwardTracks st) = {sample_track ''s'' ''x''})"
proof -
  note follows = syncer_router_follows [OF demo_reachable demo_unambiguous]
  obtain st where st: "current_status demo_texts demo_visits demo_synced = Some st"
    using current_status_returns [OF syncer_inv_reachable [OF demo_reachable]] by blast
  from follows st have "set (ForwardTracks st) = FT_Track ` ran (contents (forwardTrackSet demo_synced))" by simp
  also have "\<dots> = {sample_track ''s'' ''x''}"
    by (auto simp: demo_synced_def contents_def ran_def sample_item_def split: if_splits)
  finally show ?thesis using follows st by (auto simp: demo_synced_def contents_def)
qed

text \<open>
  C9. No change of the clients is lost: whenever no further report is due, the last status handed
  to the ISGLB client names exactly the clients the syncer has, in the order of their keys.
\<close>

theorem syncer_clients_known:
  assumes "syncer_reachable E allowed desc s" and "\<not> statusSendCh s"
  shows "sent s \<noteq> [] \<and> Clients (last (sent s)) =
    map (\<lambda>k. Client (the (contents (clientSet s) k))) (sorted_list_of_set (dom (clientSet s)))"
  using clients_known_reachable [OF assms(1)] assms(2)
  by (simp add: clients_known_def reported_clients_def)

theorem syncer_clients_known_witness:
  "\<exists>s. syncer_reachable demo_texts demo_allowed sample_node s \<and> \<not> statusSendCh s \<and>
     sent s \<noteq> [] \<and> Clients (last (sent s)) = []"
proof -
  let ?s = "NewSFUStatusSyncer sample_node"
  let ?t = "?s\<lparr>statusSendCh := False, sent := [forwards []]\<rparr>"
  have "current_status demo_texts demo_visits ?s = Some (forwards [])"
    by (simp add: Sort_empty current_status_def NewSFUStatusSyncer_def NewDisorderSet_def ToForwardTracks_def
        ToProceedTracks_def ToClientSessions_def forwards_def)
  then have "main_send demo_texts demo_visits ?s = Some ?t"
    by (simp add: main_send_def NewSFUStatusSyncer_def)
  moreover have "syncer_step demo_texts demo_allowed ?s (main_send demo_texts demo_visits ?s)"
    by (rule syncer_step.send) (simp_all add: NewSFUStatusSyncer_def)
  ultimately have "syncer_step demo_texts demo_allowed ?s (Some ?t)" by simp
  then have r: "syncer_reachable demo_texts demo_allowed sample_node ?t"
    by (rule syncer_reachable_step [OF syncer_reachable_init])
  moreover have "\<not> statusSendCh ?t" by simp
  ultimately show ?thesis
    using syncer_clients_known [OF r] by (intro exI [of _ ?t]) (simp add: NewSFUStatusSyncer_def NewDisorderSet_def)
qed

text \<open>
  A status for another SFU, or one whose clients are not those of this SFU, changes no track
  and calls the router for nothing; another report becomes due. A status that passes both tests
  leaves the due report as it was.
\<close>

theorem syncer_rejects:
  assumes "syncer_reachable E allowed desc s" and "syncStatus E vis st s = Some s'"
  shows "(\<not> accepted E st s \<longrightarrow> statusSendCh s' \<and> router_log s' = router_log s \<and>
      forwardTrackSet s' = forwardTrackSet s \<and> proceedTrackSet s' = proceedTrackSet s) \<and>
    (accepted E st s \<longrightarrow> statusSendCh s' = statusSendCh s) \<and>
    contents (clientSet s') = contents (clientSet s)"
  using syncer_inv_reachable [OF assms(1)] assms(2) by (cases rule: syncStatus_cases) simp_all

theorem syncer_rejects_witness:
  "\<exists>s'. syncStatus demo_texts demo_visits ((forwards [])\<lparr>SFU := None\<rparr>) demo_synced = Some s' \<and>
     statusSendCh s' \<and> router_log s' = [StartForwardTrack (sample_track ''s'' ''x'')]"
proof -
  let ?st = "(forwards [])\<lparr>SFU := None\<rparr>"
  have other: "node_text demo_texts (SFU ?st) \<noteq> node_text demo_texts (Some (descSFU demo_synced))"
    by (simp add: forwards_def demo_texts_def demo_synced_def NewSFUStatusSyncer_def sample_node_def)
  then have not: "\<not> accepted demo_texts ?st demo_synced" by (simp add: accepted_def)
  from other obtain s' where s': "syncStatus demo_texts demo_visits ?st demo_synced = Some s'"
    by (simp add: syncStatus_def NotifySFUStatus_def demo_synced_def NewSFUStatusSyncer_def)
  from syncer_rejects [OF demo_reachable s'] not s' show ?thesis
    by (simp add: demo_synced_def)
qed

text \<open>
  C28. Adopting a status whose tracks have different keys a second time calls the router for nothing,
  whatever the orders in which the sets are visited.
\<close>

theorem syncer_adopts_once:
  assumes "syncer_reachable E allowed desc s" and "unambiguous st" and "accepted E st s"
    and "syncStatus E vis st s = Some s'" and "syncStatus E vis' st s' = Some s''"
  shows "router_log s'' = router_log s'"
  by (rule syncStatus_again [OF syncer_inv_reachable [OF assms(1)] assms(2,4,5,3)])

theorem syncer_adopts_once_witness:
  "\<exists>s'. syncStatus demo_texts demo_visits (forwards [sample_track ''s'' ''x'']) demo_synced = Some s' \<and>
     router_log s' = [StartForwardTrack (sample_track ''s'' ''x'')]"
proof -
  let ?st = "forwards [sample_track ''s'' ''x'']"
  have accepted: "accepted demo_texts ?st (NewSFUStatusSyncer sample_node)"
    by (simp add: accepted_def forwards_def NewSFUStatusSyncer_def NewDisorderSet_def)
  obtain fs fadd fdel frep where "Update (forward_ops demo_texts) (set_ord demo_visits) (forwardTrackSet demo_synced)
      (ForwardTracks_ToDisorderSetItemList [sample_track ''s'' ''x'']) = Some (fs, fadd, fdel, frep)"
    using Update_None_iff [of "forward_ops demo_texts" "set_ord demo_visits" "forwardTrackSet demo_synced"
        "ForwardTracks_ToDisorderSetItemList [sample_track ''s'' ''x'']"]
    by (cases "Update (forward_ops demo_texts) (set_ord demo_visits) (forwardTrackSet demo_synced)
        (ForwardTracks_ToDisorderSetItemList [sample_track ''s'' ''x''])")
      (auto simp: ForwardTracks_ToDisorderSetItemList_def ForwardTrackItem_ops_def forward_key_def sample_defs)
  from syncStatus_forwards [OF this]
  obtain s' where s': "syncStatus demo_texts demo_visits ?st demo_synced = Some s'"
    by (auto simp: demo_synced_def NewSFUStatusSyncer_def NewDisorderSet_def)
  from syncer_adopts_once [OF syncer_reachable_init demo_unambiguous accepted demo_sync s'] s' show ?thesis
    by (simp add: demo_synced_def)
qed

text \<open>
  When a status names two different tracks of one key, the set ends with the second and the
  router with the first: the replacement is called before the addition it replaces.
\<close>

theorem syncer_duplicate_tracks:
  assumes "forward_key t = Some k" and "forward_key u = Some k" and "forward_text E t \<noteq> forward_text E u"
    and "syncStatus E vis (forwards [t, u]) (NewSFUStatusSyncer sample_node) = Some s'"
  shows "contents (forwardTrackSet s') k = Some \<lparr>FT_Track = u\<rparr> \<and>
    forward_routes (router_log s') k = Some \<lparr>FT_Track = t\<rparr>"
proof -
  let ?s = "NewSFUStatusSyncer sample_node"
  have "Update (forward_ops E) (set_ord vis) (forwardTrackSet ?s) (ForwardTracks_ToDisorderSetItemList [t, u])
    = Some ([k \<mapsto> \<lparr>data = \<lparr>FT_Track = u\<rparr>, checked = True\<rparr>], [\<lparr>FT_Track = t\<rparr>], [],
        [\<lparr>Old = \<lparr>FT_Track = t\<rparr>, New = \<lparr>FT_Track = u\<rparr>\<rparr>])"
    using assms(1-3) by (intro Update_without_deletions)
      (simp_all add: NewSFUStatusSyncer_def NewDisorderSet_def ForwardTracks_ToDisorderSetItemList_def
        ForwardTrackItem_ops_def)
  from syncStatus_forwards [OF this]
  have "syncStatus E vis (forwards [t, u]) ?s = Some
      (?s\<lparr>forwardTrackSet := [k \<mapsto> \<lparr>data = \<lparr>FT_Track = u\<rparr>, checked = True\<rparr>],
        router_log := [ReplaceForwardTrack t u, StartForwardTrack t]\<rparr>)"
    by (simp add: NewSFUStatusSyncer_def NewDisorderSet_def forward_calls_def)
  with assms show ?thesis
    by (auto simp: contents_def forward_routes_def)
qed

theorem syncer_duplicate_tracks_witness:
  "\<exists>s'. syncStatus demo_texts demo_visits (forwards [sample_track ''s'' ''x'', sample_track ''s'' ''y''])
      (NewSFUStatusSyncer sample_node) = Some s' \<and>
    contents (forwardTrackSet s') ''{ NID: a, RemoteSessionId: s }'' = Some (sample_item ''s'' ''y'') \<and>
    forward_routes (router_log s') ''{ NID: a, RemoteSessionId: s }'' = Some (sample_item ''s'' ''x'')"
proof -
  let ?t = "sample_track ''s'' ''x''" and ?u = "sample_track ''s'' ''y''" and ?k = "''{ NID: a, RemoteSessionId: s }''"
  have k: "forward_key ?t = Some ?k" "forward_key ?u = Some ?k"
    "forward_text demo_texts ?t \<noteq> forward_text demo_texts ?u"
    by (simp_all add: forward_key_def sample_defs demo_texts_def)
  let ?s = "NewSFUStatusSyncer sample_node"
  have "Update (forward_ops demo_texts) (set_ord demo_visits) (forwardTrackSet ?s) (ForwardTracks_ToDisorderSetItemList [?t, ?u])
    = Some ([?k \<mapsto> \<lparr>data = \<lparr>FT_Track = ?u\<rparr>, checked = True\<rparr>], [\<lparr>FT_Track = ?t\<rparr>], [],
        [\<lparr>Old = \<lparr>FT_Track = ?t\<rparr>, New = \<lparr>FT_Track = ?u\<rparr>\<rparr>])"
    using k by (intro Update_without_deletions)
      (simp_all add: NewSFUStatusSyncer_def NewDisorderSet_def ForwardTracks_ToDisorderSetItemList_def
        ForwardTrackItem_ops_def)
  from syncStatus_forwards [OF this]
  obtain s' where s': "syncStatus demo_texts demo_visits (forwards [?t, ?u]) ?s = Some s'"
    by (auto simp: NewSFUStatusSyncer_def NewDisorderSet_def)
  from syncer_duplicate_tracks [OF k s'] s' show ?thesis by (simp add: sample_item_def)
qed

text \<open>
  \<open>Stop\<close> closes the channels under the \<open>main\<close> goroutine: when a session event is still
  buffered, handling it sends on a closed channel, which panics; so does a second \<open>Stop\<close>.
\<close>

theorem syncer_stop_panics:
  assumes "sessionEventCh s = ev # rest" and "State ev = SessionEvent_ADD \<or> State ev = SessionEvent_REMOVE"
    and "running s" and "Stop s = Some s'"
  shows "syncer_step E allowed s' None \<and> main_event E s' = None \<and> Stop s' = None"
proof -
  from assms(4) have s': "s' = s\<lparr>closed := True\<rparr>" by (simp add: Stop_def split: if_splits)
  have "main_event E s' = None"
    using assms(1,2) by (auto simp: s' main_event_def handleSessionEvent_def NotifySFUStatus_def
        Add_def Del_def ClientNeededSessionItem_ops_def)
  moreover have "syncer_step E allowed s' (main_event E s')"
    by (rule syncer_step.event) (simp_all add: s' assms(3))
  ultimately show ?thesis by (simp add: s' Stop_def)
qed

theorem syncer_stop_panics_witness:
  "\<exists>s s'. syncer_reachable demo_texts demo_allowed sample_node s \<and> Stop s = Some s' \<and>
     syncer_step demo_texts demo_allowed s' None"
proof -
  let ?ev = "\<lparr>SE_Session = \<lparr>Session = ''s'', User = ''u''\<rparr>, State = SessionEvent_ADD\<rparr>"
  let ?s = "NewSFUStatusSyncer sample_node"
  let ?t = "?s\<lparr>sessionEventCh := sessionEventCh ?s @ [SessionEvent_Clone ?ev]\<rparr>"
  have "syncer_step demo_texts demo_allowed ?s (Some ?t)"
    by (rule syncer_step.fetched) (simp_all add: NewSFUStatusSyncer_def sessionEventCh_cap_def)
  then have r: "syncer_reachable demo_texts demo_allowed sample_node ?t"
    by (rule syncer_reachable_step [OF syncer_reachable_init])
  have "sessionEventCh ?t = [SessionEvent_Clone ?ev]" "running ?t" "Stop ?t = Some (?t\<lparr>closed := True\<rparr>)"
    "State (SessionEvent_Clone ?ev) = SessionEvent_ADD"
    by (simp_all add: NewSFUStatusSyncer_def Stop_def SessionEvent_Clone_def)
  from syncer_stop_panics [OF this(1) _ this(2,3)] this(3,4) r show ?thesis by blast
qed

end
