(* ===== verification/Router_Properties.thy ===== *)
theory Router_Properties
  imports Syncer_Routers Syncer_Properties
begin

text \<open>
  The properties of the syncer with its routers, and of the routers alone.
\<close>

section \<open>Properties\<close>

text \<open>
  C7. The proceed router, driven by the calls of a syncer whose server sends only statuses with
  tracks of different keys, works at every moment on exactly the tracks the syncer's set holds:
  each has a watch dog of its own that has not been told to leave, with that track as its newest
  parameter, and every other watch dog has been told to leave.
\<close>

theorem syncer_drives_proceed_router:
  assumes "syncer_reachable E allowed desc s" and "\<And>st. allowed st \<Longrightarrow> unambiguous st"
  shows "\<exists>p. runs proceed_step NewProceedRouter (router_log s) = Some p \<and> proceed_inv p \<and>
    routes_of p = contents (proceedTrackSet s)"
proof -
  have new: "proceed_inv NewProceedRouter" "routes_of NewProceedRouter = Map.empty"
    by (simp_all add: proceed_inv_def dogs_inv_def dog_of_def routes_of_def NewProceedRouter_def)
  have "in_order proceed_ok proceed_route (routes_of NewProceedRouter) (router_log s)"
    using log_in_order_reachable [OF assms] by (simp add: log_in_order_def new(2))
  from proceed_router.run_follows [OF new(1) this] routed_reachable [OF assms] show ?thesis
    by (auto simp: new(2) routed_def proceed_routes_def)
qed

theorem syncer_drives_proceed_router_witness:
  "\<exists>p. runs proceed_step NewProceedRouter (router_log demo_synced) = Some p \<and> routes_of p = Map.empty"
proof -
  have "contents (proceedTrackSet demo_synced) = Map.empty"
    by (simp add: demo_synced_def NewSFUStatusSyncer_def NewDisorderSet_def contents_def)
  with syncer_drives_proceed_router [OF demo_reachable demo_unambiguous] show ?thesis by auto
qed

text \<open>
  The forward router, driven in the same way, never panics and keeps an entry for exactly the
  keys of the tracks the syncer's set holds.
\<close>

theorem syncer_drives_forward_router:
  assumes "syncer_reachable E allowed desc s" and "\<And>st. allowed st \<Longrightarrow> unambiguous st"
  shows "\<exists>f. runs forward_router_call NewForwardRouter (router_log s) = Some f \<and>
    dom (forwardings f) = dom (forwardTrackSet s)"
proof -
  have new: "forward_filed NewForwardRouter" "forward_view NewForwardRouter = {}"
    by (simp_all add: forward_filed_def NewForwardRouter_def)
  have "in_order forward_ok forward_keys (forward_view NewForwardRouter) (router_log s)"
    using log_in_order_reachable [OF assms] by (simp add: log_in_order_def new(2))
  from forward_router.run_follows [OF new(1) this] forward_keys_dom [of Map.empty "router_log s"]
    routed_reachable [OF assms] show ?thesis
    by (auto simp: new(2) routed_def forward_routes_def)
qed

theorem syncer_drives_forward_router_witness:
  "\<exists>f. runs forward_router_call NewForwardRouter (router_log demo_synced) = Some f \<and>
     dom (forwardings f) = {''{ NID: a, RemoteSessionId: s }''}"
  using syncer_drives_forward_router [OF demo_reachable demo_unambiguous] by (simp add: demo_synced_def)

text \<open>
  The forward router never ends a forwarding: whatever is called, the routines it has started
  stay, and the context of none of them is ever done.
\<close>

theorem forward_router_never_stops:
  assumes "runs forward_router_call NewForwardRouter cs = Some f" and "runs forward_router_call f ds = Some g"
  shows "set (routines (fw_heap f)) \<subseteq> set (routines (fw_heap g)) \<and>
    (\<forall>(t, c, ch) \<in> set (routines (fw_heap g)). c \<notin> done_ctxs (fw_heap g))"
proof -
  have "forward_inv f" using forward_run_inv [OF assms(1) forward_inv_new] ..
  from forward_run_inv [OF assms(2) this] show ?thesis by (auto simp: forward_inv_def)
qed

theorem forward_router_never_stops_witness:
  "\<exists>f g. runs forward_router_call NewForwardRouter [StartForwardTrack (sample_track ''s'' ''x'')] = Some f \<and>
     runs forward_router_call f [StopForwardTrack (sample_track ''s'' ''x'')] = Some g \<and>
     forwardings g = Map.empty \<and> routines (fw_heap g) = [(sample_track ''s'' ''x'', 2, 1)] \<and>
     2 \<notin> done_ctxs (fw_heap g)"
proof -
  let ?t = "sample_track ''s'' ''x''"
  have key: "forward_key ?t = Some ''{ NID: a, RemoteSessionId: s }''"
    by (simp add: forward_key_def sample_defs)
  let ?f = "\<lparr>forwardings = [''{ NID: a, RemoteSessionId: s }'' \<mapsto> \<lparr>fw_dog = \<lparr>dog_ctx = 0, dog_updateCh = 1\<rparr>, fw_Track = ?t\<rparr>],
    fw_heap = \<lparr>done_ctxs = {0}, next_ref = 3, channels = (\<lambda>_. None)(1 := None), routines = [(?t, 2, 1)]\<rparr>\<rparr>"
  let ?g = "?f\<lparr>forwardings := Map.empty\<rparr>"
  have "StartForward ?t NewForwardRouter = Some ?f"
    by (simp add: StartForward_def key NewForwardRouter_def NewWatchDogWithBlockedDoor_def Watch_Blocked_def
        empty_heap_def Let_def)
  then have f: "runs forward_router_call NewForwardRouter [StartForwardTrack ?t] = Some ?f" by simp
  have "StopForward ?t ?f = Some ?g"
    by (simp add: StopForward_def key Leave_Blocked_def)
  then have g: "runs forward_router_call ?f [StopForwardTrack ?t] = Some ?g" by simp
  from forward_router_never_stops [OF f g] have "2 \<notin> done_ctxs (fw_heap ?g)" by simp
  with f g show ?thesis by (intro exI [of _ ?f] exI [of _ ?g] conjI) simp_all
qed

end
