(* ===== verification/Expire_Set_Map.thy ===== *)
theory Expire_Set_Map
  imports Dion_Base "HOL-Library.Multiset"
begin

text \<open>
  \<open>ExpireSetMap\<close> of \<open>util/timer.go\<close>: the runner goroutine that owns the map, one goroutine and
  one timer per entry, and the two channels. A timer of the Go version in \<open>go.mod\<close> fires into a
  channel of capacity one that \<open>Reset\<close> does not drain. Time is a counter.
\<close>

section \<open>State\<close>

type_synonym timer_id = nat

text \<open>A timer is armed with a deadline or not; its channel is empty or full.\<close>

record timer =
  deadline :: "nat option"
  fired :: bool

text \<open>
  \<open>waiters\<close> are the goroutines that wait for a timer, \<open>pushing\<close> those that send a delete
  message, \<open>called_back\<close> the updates whose callback has run, and \<open>on_deleted_log\<close> the calls
  of the handler. \<open>onDeleted\<close> tells whether \<open>OnDelete\<close> has stored a handler.
\<close>

record ('k, 'v) ExpireSetMap =
  entries :: "('k, ('v, timer_id) gomap) gomap"
  expire :: nat
  runner :: bool
  updateCh :: "('k \<times> 'v \<times> nat) list"
  deleteCh :: "('k \<times> 'v) list"
  onDeleted :: bool
  stopped :: bool
  timers :: "timer_id \<Rightarrow> timer"
  next_timer :: timer_id
  waiters :: "(timer_id \<times> 'k \<times> 'v) multiset"
  pushing :: "('k \<times> 'v) multiset"
  now :: nat
  called_back :: "nat set"
  on_deleted_log :: "('k \<times> 'v) list"

definition channel_cap :: nat where "channel_cap = 64"

definition NewExpireSetMap :: "nat \<Rightarrow> ('k, 'v) ExpireSetMap" where
  "NewExpireSetMap exp = \<lparr>entries = Map.empty, expire = exp, runner = False, updateCh = [], deleteCh = [],
     onDeleted = False, stopped = False, timers = (\<lambda>_. \<lparr>deadline = None, fired = False\<rparr>), next_timer = 0,
     waiters = {#}, pushing = {#}, now = 0, called_back = {}, on_deleted_log = []\<rparr>"

section \<open>Operations of the runner\<close>

text \<open>\<open>newTimer\<close> with the \<open>start\<close> that its callers run at once.\<close>

definition newTimer :: "'k \<Rightarrow> 'v \<Rightarrow> ('k, 'v) ExpireSetMap \<Rightarrow> timer_id \<times> ('k, 'v) ExpireSetMap" where
  "newTimer key val s =
     (next_timer s,
      s\<lparr>timers := (timers s)(next_timer s := \<lparr>deadline = Some (now s + expire s), fired = False\<rparr>),
        next_timer := next_timer s + 1,
        waiters := add_mset (next_timer s, key, val) (waiters s)\<rparr>)"

definition timer_Reset :: "timer_id \<Rightarrow> ('k, 'v) ExpireSetMap \<Rightarrow> ('k, 'v) ExpireSetMap" where
  "timer_Reset t s = s\<lparr>timers := (timers s)(t := (timers s t)\<lparr>deadline := Some (now s + expire s)\<rparr>)\<rparr>"

definition handleUpdate :: "'k \<Rightarrow> 'v \<Rightarrow> nat \<Rightarrow> ('k, 'v) ExpireSetMap \<Rightarrow> ('k, 'v) ExpireSetMap" where
  "handleUpdate key val callback s =
     (let s1 =
        (case entries s key of
           Some vals \<Rightarrow>
             (case vals val of
                Some timer \<Rightarrow> timer_Reset timer s
              | None \<Rightarrow> (let (timer, s1) = newTimer key val s
                          in s1\<lparr>entries := (entries s1)(key \<mapsto> vals(val \<mapsto> timer))\<rparr>))
         | None \<Rightarrow> (let (timer, s1) = newTimer key val s
                     in s1\<lparr>entries := (entries s1)(key \<mapsto> [val \<mapsto> timer])\<rparr>))
      in s1\<lparr>called_back := insert callback (called_back s1)\<rparr>)"

text \<open>
  The handler is loaded with a type assertion, which panics when none was stored. The callback of
  a delete message does nothing.
\<close>

definition handleDelete :: "'k \<Rightarrow> 'v \<Rightarrow> ('k, 'v) ExpireSetMap \<Rightarrow> ('k, 'v) ExpireSetMap option" where
  "handleDelete key val s =
     (case entries s key of
        Some vals \<Rightarrow>
          (let vals' = vals(val := None);
               m' = (if vals' = Map.empty then (entries s)(key := None) else (entries s)(key \<mapsto> vals')) in
           if onDeleted s then Some (s\<lparr>entries := m', on_deleted_log := on_deleted_log s @ [(key, val)]\<rparr>)
           else None)
      | None \<Rightarrow> Some s)"

section \<open>Operations of the clients\<close>

definition OnDelete :: "('k, 'v) ExpireSetMap \<Rightarrow> ('k, 'v) ExpireSetMap" where
  "OnDelete s = s\<lparr>onDeleted := True\<rparr>"

text \<open>\<open>Start\<close> does nothing while the runner runs.\<close>

definition Start :: "('k, 'v) ExpireSetMap \<Rightarrow> ('k, 'v) ExpireSetMap" where
  "Start s = s\<lparr>runner := True\<rparr>"

definition Stop :: "('k, 'v) ExpireSetMap \<Rightarrow> ('k, 'v) ExpireSetMap" where
  "Stop s = s\<lparr>stopped := True\<rparr>"

text \<open>
  The send of \<open>Update\<close>, which waits while the channel is full; \<open>Update\<close> returns when its callback,
  identified by a number, has run.
\<close>

definition Update_send :: "'k \<Rightarrow> 'v \<Rightarrow> nat \<Rightarrow> ('k, 'v) ExpireSetMap \<Rightarrow> ('k, 'v) ExpireSetMap option" where
  "Update_send key val callback s =
     (if length (updateCh s) < channel_cap
      then Some (s\<lparr>updateCh := updateCh s @ [(key, val, callback)]\<rparr>) else None)"

section \<open>The goroutines\<close>

text \<open>The steps the map takes by itself. A step to \<^const>\<open>None\<close> is a panic.\<close>

inductive expire_internal :: "('k, 'v) ExpireSetMap \<Rightarrow> ('k, 'v) ExpireSetMap option \<Rightarrow> bool" where
  run_done: "runner s \<Longrightarrow> stopped s \<Longrightarrow> expire_internal s (Some (s\<lparr>runner := False\<rparr>))"
| run_update: "runner s \<Longrightarrow> updateCh s = (key, val, callback) # rest \<Longrightarrow>
    expire_internal s (Some (handleUpdate key val callback (s\<lparr>updateCh := rest\<rparr>)))"
| run_delete: "runner s \<Longrightarrow> deleteCh s = (key, val) # rest \<Longrightarrow>
    expire_internal s (handleDelete key val (s\<lparr>deleteCh := rest\<rparr>))"
| tick: "expire_internal s (Some (s\<lparr>now := now s + 1\<rparr>))"
| fire: "deadline (timers s t) = Some d \<Longrightarrow> d \<le> now s \<Longrightarrow>
    expire_internal s (Some (s\<lparr>timers := (timers s)(t := \<lparr>deadline = None, fired = True\<rparr>)\<rparr>))"
| wait_fired: "(t, key, val) \<in># waiters s \<Longrightarrow> fired (timers s t) \<Longrightarrow>
    expire_internal s (Some (s\<lparr>timers := (timers s)(t := (timers s t)\<lparr>fired := False\<rparr>),
      waiters := waiters s - {#(t, key, val)#}, pushing := add_mset (key, val) (pushing s)\<rparr>))"
| wait_done: "(t, key, val) \<in># waiters s \<Longrightarrow> stopped s \<Longrightarrow>
    expire_internal s (Some (s\<lparr>waiters := waiters s - {#(t, key, val)#}\<rparr>))"
| push: "(key, val) \<in># pushing s \<Longrightarrow> length (deleteCh s) < channel_cap \<Longrightarrow>
    expire_internal s (Some (s\<lparr>pushing := pushing s - {#(key, val)#}, deleteCh := deleteCh s @ [(key, val)]\<rparr>))"

inductive expire_step :: "('k, 'v) ExpireSetMap \<Rightarrow> ('k, 'v) ExpireSetMap option \<Rightarrow> bool" where
  internal: "expire_internal s r \<Longrightarrow> expire_step s r"
| set_handler: "expire_step s (Some (OnDelete s))"
| start: "expire_step s (Some (Start s))"
| stop: "expire_step s (Some (Stop s))"
| update: "Update_send key val callback s = Some s' \<Longrightarrow> expire_step s (Some s')"

abbreviation expire_reachable :: "nat \<Rightarrow> ('k, 'v) ExpireSetMap \<Rightarrow> bool" where
  "expire_reachable exp \<equiv> reachable (\<lambda>s s'. expire_step s (Some s')) (NewExpireSetMap exp)"

section \<open>Every entry has one expiry pending\<close>

definition held :: "('k, 'v) ExpireSetMap \<Rightarrow> 'k \<times> 'v \<Rightarrow> timer_id option" where
  "held s e = (case entries s (fst e) of None \<Rightarrow> None | Some vals \<Rightarrow> vals (snd e))"

definition expiries :: "('k, 'v) ExpireSetMap \<Rightarrow> ('k \<times> 'v) multiset" where
  "expiries s = image_mset snd (waiters s) + pushing s + mset (deleteCh s)"

definition expire_inv :: "('k, 'v) ExpireSetMap \<Rightarrow> bool" where
  "expire_inv s \<longleftrightarrow>
     (\<forall>key. entries s key \<noteq> Some Map.empty) \<and>
     (\<not> stopped s \<longrightarrow> (\<forall>e. count (expiries s) e = (if held s e = None then 0 else 1)))"

lemma handleUpdate_effect:
  "held (handleUpdate key val callback s) e =
     (if e = (key, val) \<and> held s e = None then Some (next_timer s) else held s e)"
  "expiries (handleUpdate key val callback s) =
     (if held s (key, val) = None then add_mset (key, val) (expiries s) else expiries s)"
  "stopped (handleUpdate key val callback s) = stopped s"
  "(\<forall>k. entries s k \<noteq> Some Map.empty) \<Longrightarrow> entries (handleUpdate key val callback s) k \<noteq> Some Map.empty"
  by (cases e; auto simp: handleUpdate_def held_def expiries_def newTimer_def timer_Reset_def Let_def
      split: option.splits)+

lemma handleDelete_effect:
  assumes "handleDelete key val s = Some s'"
  shows "held s' e = (if e = (key, val) then None else held s e)"
    and "expiries s' = expiries s" and "stopped s' = stopped s"
    and "(\<forall>k. entries s k \<noteq> Some Map.empty) \<Longrightarrow> entries s' k \<noteq> Some Map.empty"
  using assms by (cases e; auto simp: handleDelete_def held_def expiries_def Let_def fun_upd_def fun_eq_iff
      split: option.splits if_splits)+

lemma expire_inv_cong:
  assumes "expire_inv s" "entries s' = entries s" "expiries s' = expiries s" "stopped s \<Longrightarrow> stopped s'"
  shows "expire_inv s'"
proof -
  have "held s' e = held s e" for e by (simp add: held_def assms(2))
  then show ?thesis using assms by (auto simp: expire_inv_def)
qed

lemma expire_inv_internal:
  assumes "expire_internal s (Some s')" "expire_inv s"
  shows "expire_inv s'"
  using assms(1)
proof cases
  case (run_update key val callback rest)
  have "expire_inv (s\<lparr>updateCh := rest\<rparr>)"
    using assms(2) by (rule expire_inv_cong) (simp_all add: expiries_def)
  then show ?thesis
    by (simp add: run_update(1) expire_inv_def handleUpdate_effect del: split_paired_All)
next
  case (run_delete key val rest)
  let ?s = "s\<lparr>deleteCh := rest\<rparr>"
  note eff = handleDelete_effect [OF run_delete(1) [symmetric]]
  have old: "held ?s e = held s e" "add_mset (key, val) (expiries ?s) = expiries s" for e
    by (simp_all add: held_def expiries_def run_delete(3))
  have held: "count (expiries s) e = (if held s e = None then 0 else 1)" if "\<not> stopped s" for e
    using assms(2) that by (simp only: expire_inv_def) blast
  have one: "count (add_mset (key, val) (expiries ?s)) e = (if held ?s e = None then 0 else 1)"
    if "\<not> stopped s" for e unfolding old by (rule held [OF that])
  have "count (expiries s') e = (if held s' e = None then 0 else 1)" if "\<not> stopped s" for e
    using one [OF that, of e] unfolding eff(1,2) by (cases "e = (key, val)") (auto split: if_splits)
  moreover have "entries s' k \<noteq> Some Map.empty" for k
    using assms(2) by (intro eff(4)) (simp add: expire_inv_def)
  ultimately show ?thesis using eff(3) by (simp add: expire_inv_def)
next
  case (wait_fired t key val)
  then obtain W where "waiters s = add_mset (t, key, val) W" by (metis mset_add)
  with wait_fired show ?thesis by (intro expire_inv_cong [OF assms(2)]) (simp_all add: expiries_def)
next
  case (push key val)
  then obtain P where "pushing s = add_mset (key, val) P" by (metis mset_add)
  with push show ?thesis by (intro expire_inv_cong [OF assms(2)]) (simp_all add: expiries_def)
next
  case (wait_done t key val)
  with assms(2) show ?thesis by (simp add: expire_inv_def)
qed (use assms(2) in \<open>simp_all add: expire_inv_cong expiries_def\<close>)

lemma expire_inv_ops:
  assumes "expire_inv s"
  shows "expire_inv (OnDelete s)" "expire_inv (Start s)" "expire_inv (Stop s)"
    "Update_send key val callback s = Some s' \<Longrightarrow> expire_inv s'"
  by (rule expire_inv_cong [OF assms]; auto simp: expiries_def OnDelete_def Start_def Stop_def
      Update_send_def split: if_splits)+

lemma expire_inv_step: "expire_step s (Some s') \<Longrightarrow> expire_inv s \<Longrightarrow> expire_inv s'"
  by (erule expire_step.cases) (auto intro: expire_inv_internal expire_inv_ops)

lemma expire_inv_reachable: "expire_reachable exp s \<Longrightarrow> expire_inv s"
  by (induction rule: reachable_invariant)
    (auto intro: expire_inv_step, simp add: expire_inv_def NewExpireSetMap_def expiries_def held_def)

text \<open>So the handler is only called for an entry that the map holds.\<close>

lemma delete_was_held:
  assumes "expire_inv s" "\<not> stopped s" "deleteCh s = (key, val) # rest"
  shows "held s (key, val) \<noteq> None"
proof
  assume "held s (key, val) = None"
  with assms(1,2) have "count (expiries s) (key, val) = 0" by (simp add: expire_inv_def)
  with assms(3) show False by (simp add: expiries_def)
qed

section \<open>Properties\<close>

text \<open>
  C23. As long as the map is not stopped, every entry it holds has exactly one expiry on its way
  (a waiting timer, a delete message being sent, or one in the channel), and what is not held has
  none; so the message the runner handles next is always for an entry that is held.
\<close>

theorem expire_exactly_once:
  assumes "expire_reachable exp s" and "\<not> stopped s"
  shows "count (expiries s) e = (if held s e = None then 0 else 1) \<and>
    (deleteCh s \<noteq> [] \<longrightarrow> held s (hd (deleteCh s)) \<noteq> None)"
proof
  have inv: "expire_inv s" using assms(1) by (rule expire_inv_reachable)
  with assms(2) show "count (expiries s) e = (if held s e = None then 0 else 1)"
    unfolding expire_inv_def by blast
  show "deleteCh s \<noteq> [] \<longrightarrow> held s (hd (deleteCh s)) \<noteq> None"
    using delete_was_held [OF inv assms(2)] by (cases "deleteCh s") (auto simp: hd_Cons_tl)
qed

theorem expire_exactly_once_witness:
  "\<exists>s :: (string, string) ExpireSetMap. expire_reachable 10 s \<and> held s (''u'', ''s'') = Some 0 \<and>
     count (expiries s) (''u'', ''s'') = 1"
proof -
  let ?n = "NewExpireSetMap 10 :: (string, string) ExpireSetMap"
  let ?a = "Start ?n" and ?b = "(Start ?n)\<lparr>updateCh := [(''u'', ''s'', 0)]\<rparr>"
  let ?c = "handleUpdate ''u'' ''s'' 0 (?b\<lparr>updateCh := []\<rparr>)"
  have 1: "expire_step ?n (Some ?a)" by (rule expire_step.start)
  have 2: "expire_step ?a (Some ?b)"
    by (rule expire_step.update [of "''u''" "''s''" 0])
      (simp add: Update_send_def Start_def NewExpireSetMap_def channel_cap_def)
  have 3: "expire_step ?b (Some ?c)"
    by (rule expire_step.internal, rule expire_internal.run_update) (simp_all add: Start_def NewExpireSetMap_def)
  have "expire_reachable 10 ?a" using 1 by (rule reachable_first)
  then have "expire_reachable 10 ?b" using 2 by (rule reachable_step)
  then have r: "expire_reachable 10 ?c" using 3 by (rule reachable_step)
  have h: "held ?c (''u'', ''s'') = Some 0" "\<not> stopped ?c"
    by (simp_all add: handleUpdate_effect) (simp_all add: held_def Start_def NewExpireSetMap_def)
  from conjunct1 [OF expire_exactly_once [OF r h(2)], of "(''u'', ''s'')"] h(1) r show ?thesis by auto
qed

end
