(* ===== verification/Room_Service.thy ===== *)
theory Room_Service
  imports Syncer Expire_Set_Map
begin

text \<open>
  The room service of \<open>pkg/sxu/room/service.go\<close>: \<open>ClientHealth\<close> calls, the expiring set they
  refresh, and the channel of session events the syncer fetches from. The set's handler sends a
  REMOVE event from the runner, a \<open>ClientHealth\<close> call sends its ADD event itself.
\<close>

section \<open>State\<close>

text \<open>\<open>config.ClientSessionExpire\<close> in milliseconds, the unit of the model's clock.\<close>

definition ClientSessionExpire :: nat where "ClientSessionExpire = 5000"

text \<open>Where a \<open>ClientHealth\<close> call is: it sends its update, waits, sends its event, has replied.\<close>

datatype health_pc =
    H_Begin
  | H_Update client_needed_session
  | H_Waiting client_needed_session
  | H_Event client_needed_session
  | H_Replied health_reply

text \<open>\<open>fetched\<close> are the events \<open>FetchSessionEvent\<close> has returned so far.\<close>

record room =
  room_set :: "(string, string) ExpireSetMap"
  eventCh :: "session_event list"
  fetched :: "session_event list"
  health :: "nat \<Rightarrow> health_pc"

definition eventCh_cap :: nat where "eventCh_cap = 64"

definition NewService :: room where
  "NewService = \<lparr>room_set = OnDelete (NewExpireSetMap ClientSessionExpire), eventCh = [], fetched = [],
     health = (\<lambda>_. H_Begin)\<rparr>"

definition remove_event :: "string \<times> string \<Rightarrow> session_event" where
  "remove_event e =
     \<lparr>SE_Session = \<lparr>Session = snd e, User = fst e\<rparr>, State = SessionEvent_REMOVE\<rparr>"

definition add_event :: "client_needed_session \<Rightarrow> session_event" where
  "add_event session = \<lparr>SE_Session = session, State = SessionEvent_ADD\<rparr>"

section \<open>Steps\<close>

text \<open>The handler's send blocks the runner while the event channel is full.\<close>

inductive room_step :: "room \<Rightarrow> room \<Rightarrow> bool" where
  expire: "expire_internal (room_set r) (Some s') \<Longrightarrow>
    on_deleted_log s' = on_deleted_log (room_set r) @ calls \<Longrightarrow>
    length (eventCh r) + length calls \<le> eventCh_cap \<Longrightarrow>
    room_step r (r\<lparr>room_set := s', eventCh := eventCh r @ map remove_event calls\<rparr>)"
| begin_call: "health r h = H_Begin \<Longrightarrow>
    room_step r (r\<lparr>room_set := Start (room_set r), health := (health r)(h := H_Update session)\<rparr>)"
| update: "health r h = H_Update session \<Longrightarrow>
    Update_send (User session) (Session session) h (room_set r) = Some s' \<Longrightarrow>
    room_step r (r\<lparr>room_set := s', health := (health r)(h := H_Waiting session)\<rparr>)"
| updated: "health r h = H_Waiting session \<Longrightarrow> h \<in> called_back (room_set r) \<Longrightarrow>
    room_step r (r\<lparr>health := (health r)(h := H_Event session)\<rparr>)"
| event: "health r h = H_Event session \<Longrightarrow> length (eventCh r) < eventCh_cap \<Longrightarrow>
    room_step r (r\<lparr>eventCh := eventCh r @ [add_event session],
                   health := (health r)(h := H_Replied \<lparr>Ok = True\<rparr>)\<rparr>)"
| fetch: "eventCh r = e # rest \<Longrightarrow>
    room_step r (r\<lparr>eventCh := rest, fetched := fetched r @ [e]\<rparr>)"

abbreviation room_reachable :: "room \<Rightarrow> bool" where
  "room_reachable \<equiv> reachable room_step NewService"

section \<open>The set is live and its events are in order\<close>

text \<open>All events so far, in the order in which they were sent.\<close>

definition all_events :: "room \<Rightarrow> session_event list" where
  "all_events r = fetched r @ eventCh r"

text \<open>
  The set is never stopped and keeps its expiry invariant; the REMOVE events are the calls of
  the handler, in order; and a call that sends its event has its update behind it.
\<close>

definition room_inv :: "room \<Rightarrow> bool" where
  "room_inv r \<longleftrightarrow>
     expire_inv (room_set r) \<and> \<not> stopped (room_set r) \<and> onDeleted (room_set r) \<and>
     filter (\<lambda>e. State e = SessionEvent_REMOVE) (all_events r) = map remove_event (on_deleted_log (room_set r)) \<and>
     (\<forall>e \<in> set (all_events r). State e = SessionEvent_ADD \<or> State e = SessionEvent_REMOVE)"

lemma internal_keeps:
  assumes "expire_internal s (Some s')"
  shows "stopped s' = stopped s" "onDeleted s' = onDeleted s"
  using assms by (cases; auto simp: handleUpdate_def newTimer_def timer_Reset_def handleDelete_def Let_def
      split: option.splits if_splits)+

lemma event_states [simp]:
  "State (remove_event e) = SessionEvent_REMOVE" "State (add_event session) = SessionEvent_ADD"
  "SessionEvent_ADD \<noteq> SessionEvent_REMOVE"
  by (simp_all add: remove_event_def add_event_def SessionEvent_ADD_def SessionEvent_REMOVE_def)

lemma room_inv_step:
  assumes "room_step r r'" "room_inv r"
  shows "room_inv r'"
  using assms(1)
proof cases
  case (expire s' calls)
  have "filter (\<lambda>e. State e = SessionEvent_REMOVE) (map remove_event calls) = map remove_event calls"
    by (simp add: filter_map o_def)
  with expire assms(2) expire_inv_internal [OF expire(2)] internal_keeps [OF expire(2)] show ?thesis
    by (auto simp: room_inv_def all_events_def)
next
  case (begin_call h session)
  with assms(2) expire_inv_ops(2) show ?thesis
    by (auto simp: room_inv_def all_events_def) (simp_all add: Start_def)
next
  case (update h session s')
  with assms(2) expire_inv_ops(4) [OF _ update(3)] show ?thesis
    by (auto simp: room_inv_def all_events_def Update_send_def split: if_splits)
qed (use assms(2) in \<open>auto simp: room_inv_def all_events_def\<close>)

lemma room_inv_reachable: "room_reachable r \<Longrightarrow> room_inv r"
proof (induction rule: reachable_invariant)
  case init
  have "expire_inv (NewExpireSetMap ClientSessionExpire :: (string, string) ExpireSetMap)"
    by (rule expire_inv_reachable [OF reachable_refl])
  then show ?case
    by (simp add: room_inv_def NewService_def all_events_def expire_inv_ops)
      (simp add: OnDelete_def NewExpireSetMap_def)
next
  case (step r r')
  then show ?case by (blast intro: room_inv_step)
qed

section \<open>A session that is stranded\<close>

text \<open>
  A \<open>ClientHealth\<close> call that refreshes an entry whose timer has fired already: its update finds the
  entry and resets the timer, the delete message that is under way removes the entry, and the
  call then sends its ADD event. The events end with ADD, and nothing in the set will ever send
  the REMOVE.
\<close>

lemma room_internal:
  assumes "room_reachable r" "expire_internal (room_set r) (Some s')"
    "on_deleted_log s' = on_deleted_log (room_set r)" "length (eventCh r) \<le> eventCh_cap"
  shows "room_reachable (r\<lparr>room_set := s'\<rparr>)"
  using reachable_step [OF assms(1) room_step.expire [of r s' "[]"]] assms(2-4) by simp

lemma room_ticks:
  "room_reachable r \<Longrightarrow> length (eventCh r) \<le> eventCh_cap \<Longrightarrow>
   room_reachable (r\<lparr>room_set := (room_set r)\<lparr>now := now (room_set r) + n\<rparr>\<rparr>)"
proof (induction n)
  case (Suc n)
  from room_internal [OF Suc.IH [OF Suc.prems] expire_internal.tick] Suc.prems(2) show ?case by simp
qed simp

definition stranded_session :: client_needed_session where
  "stranded_session = \<lparr>Session = ''s'', User = ''u''\<rparr>"

lemmas run_simps = NewService_def NewExpireSetMap_def OnDelete_def Start_def Update_send_def handleUpdate_def
  newTimer_def timer_Reset_def handleDelete_def channel_cap_def eventCh_cap_def stranded_session_def Let_def

text \<open>The rooms of the run.\<close>

definition run_room :: "(string \<times> string \<times> nat) list \<Rightarrow> (string \<times> string) list \<Rightarrow> timer_id option \<Rightarrow> timer
    \<Rightarrow> (timer_id \<times> string \<times> string) multiset \<Rightarrow> (string \<times> string) multiset \<Rightarrow> nat \<Rightarrow> nat set
    \<Rightarrow> (string \<times> string) list \<Rightarrow> session_event list \<Rightarrow> health_pc \<Rightarrow> health_pc \<Rightarrow> room" where
  "run_room ups dels entry timer ws ps t cb log evs h0 h1 =
     \<lparr>room_set = \<lparr>entries = (case entry of None \<Rightarrow> Map.empty | Some i \<Rightarrow> [''u'' \<mapsto> [''s'' \<mapsto> i]]),
        expire = 5000, runner = True, updateCh = ups, deleteCh = dels,
        onDeleted = True, stopped = False,
        timers = (\<lambda>_. \<lparr>deadline = None, fired = False\<rparr>)(0 := timer), next_timer = 1,
        waiters = ws, pushing = ps, now = t, called_back = cb, on_deleted_log = log\<rparr>,
      eventCh = evs, fetched = [], health = (\<lambda>_. H_Begin)(0 := h0, 1 := h1)\<rparr>"

abbreviation sess :: client_needed_session where "sess \<equiv> stranded_session"

abbreviation sess_key :: "string \<times> string" where "sess_key \<equiv> (''u'', ''s'')"

abbreviation armed :: "nat \<Rightarrow> timer" where "armed d \<equiv> \<lparr>deadline = Some d, fired = False\<rparr>"

lemma inner_step:
  assumes "room_reachable r" "expire_internal (room_set r) (Some s')"
    "on_deleted_log s' = on_deleted_log (room_set r)" "length (eventCh r) \<le> eventCh_cap" "r' = r\<lparr>room_set := s'\<rparr>"
  shows "room_reachable r'"
  using room_internal [OF assms(1-4)] assms(5) by simp

lemma inserted: "room_reachable (run_room [] [] (Some 0) (armed 5000) {#(0, sess_key)#} {#} 0 {0} [] [] (H_Waiting sess) H_Begin)"
proof -
  have 1: "room_reachable (NewService\<lparr>room_set := Start (room_set NewService),
      health := (health NewService)(0 := H_Update sess)\<rparr>)" (is "room_reachable ?r1")
    by (rule reachable_step [OF reachable_refl [of room_step NewService] room_step.begin_call [of NewService 0 sess]])
      (simp add: NewService_def)
  have 2: "room_reachable (?r1\<lparr>room_set := (room_set ?r1)\<lparr>updateCh := [(''u'', ''s'', 0)]\<rparr>,
      health := (health ?r1)(0 := H_Waiting sess)\<rparr>)" (is "room_reachable ?r2")
    by (rule reachable_step [OF 1 room_step.update [of ?r1 0 sess]]) (simp_all add: run_simps)
  show ?thesis
    by (rule inner_step [OF 2 expire_internal.run_update [of _ "''u''" "''s''" 0 "[]"]])
      (simp_all add: run_simps run_room_def ClientSessionExpire_def fun_upd_idem)
qed

lemma expired: "room_reachable (run_room [] [sess_key] (Some 0) \<lparr>deadline = None, fired = False\<rparr> {#} {#} 5000 {0} []
    [add_event sess] (H_Replied \<lparr>Ok = True\<rparr>) H_Begin)"
proof -
  have 1: "room_reachable (run_room [] [] (Some 0) (armed 5000) {#(0, sess_key)#} {#} 0 {0} [] [] (H_Event sess) H_Begin)"
    using reachable_step [OF inserted room_step.updated [of _ 0 sess]] by (simp add: run_room_def fun_upd_twist)
  have 2: "room_reachable (run_room [] [] (Some 0) (armed 5000) {#(0, sess_key)#} {#} 0 {0} [] [add_event sess]
      (H_Replied \<lparr>Ok = True\<rparr>) H_Begin)"
    using reachable_step [OF 1 room_step.event [of _ 0 sess]]
    by (simp add: run_room_def eventCh_cap_def fun_upd_twist)
  have 3: "room_reachable (run_room [] [] (Some 0) (armed 5000) {#(0, sess_key)#} {#} 5000 {0} [] [add_event sess]
      (H_Replied \<lparr>Ok = True\<rparr>) H_Begin)"
    using room_ticks [OF 2, of 5000] by (simp add: run_room_def eventCh_cap_def)
  have 4: "room_reachable (run_room [] [] (Some 0) \<lparr>deadline = None, fired = True\<rparr> {#(0, sess_key)#} {#} 5000 {0} []
      [add_event sess] (H_Replied \<lparr>Ok = True\<rparr>) H_Begin)"
    by (rule inner_step [OF 3 expire_internal.fire [of _ 0 5000]]) (simp_all add: run_room_def eventCh_cap_def)
  have 5: "room_reachable (run_room [] [] (Some 0) \<lparr>deadline = None, fired = False\<rparr> {#} {#sess_key#} 5000 {0} []
      [add_event sess] (H_Replied \<lparr>Ok = True\<rparr>) H_Begin)"
    by (rule inner_step [OF 4 expire_internal.wait_fired [of 0 "''u''" "''s''"]])
      (simp_all add: run_room_def eventCh_cap_def)
  show ?thesis
    by (rule inner_step [OF 5 expire_internal.push [of "''u''" "''s''"]])
      (simp_all add: run_room_def eventCh_cap_def channel_cap_def)
qed

lemma refreshed: "room_reachable (run_room [] [sess_key] (Some 0) (armed 10000) {#} {#} 5000 {0, 1} []
    [add_event sess] (H_Replied \<lparr>Ok = True\<rparr>) (H_Waiting sess))"
proof -
  have 1: "room_reachable (run_room [] [sess_key] (Some 0) \<lparr>deadline = None, fired = False\<rparr> {#} {#} 5000 {0} []
      [add_event sess] (H_Replied \<lparr>Ok = True\<rparr>) (H_Update sess))"
    using reachable_step [OF expired room_step.begin_call [of _ 1 sess]] by (simp add: run_room_def Start_def)
  have 2: "room_reachable (run_room [(''u'', ''s'', 1)] [sess_key] (Some 0) \<lparr>deadline = None, fired = False\<rparr> {#} {#} 5000 {0} []
      [add_event sess] (H_Replied \<lparr>Ok = True\<rparr>) (H_Waiting sess))"
    using reachable_step [OF 1 room_step.update [of _ 1 sess]] by (simp add: run_room_def run_simps)
  show ?thesis
    by (rule inner_step [OF 2 expire_internal.run_update [of _ "''u''" "''s''" 1 "[]"]])
      (simp_all add: run_simps run_room_def insert_commute)
qed

lemma stranded: "room_reachable (run_room [] [] None (armed 10000) {#} {#} 5000 {0, 1} [sess_key]
    [add_event sess, remove_event sess_key, add_event sess] (H_Replied \<lparr>Ok = True\<rparr>) (H_Replied \<lparr>Ok = True\<rparr>))"
proof -
  have 1: "room_reachable (run_room [] [] None (armed 10000) {#} {#} 5000 {0, 1} [sess_key]
      [add_event sess, remove_event sess_key] (H_Replied \<lparr>Ok = True\<rparr>) (H_Waiting sess))"
  proof -
    let ?r = "run_room [] [sess_key] (Some 0) (armed 10000) {#} {#} 5000 {0, 1} []
      [add_event sess] (H_Replied \<lparr>Ok = True\<rparr>) (H_Waiting sess)"
    let ?r' = "run_room [] [] None (armed 10000) {#} {#} 5000 {0, 1} [sess_key]
      [add_event sess, remove_event sess_key] (H_Replied \<lparr>Ok = True\<rparr>) (H_Waiting sess)"
    have "expire_internal (room_set ?r) (Some (room_set ?r'))"
      using expire_internal.run_delete [of "room_set ?r" "''u''" "''s''" "[]"]
      by (simp add: run_room_def run_simps)
    from room_step.expire [OF this, of "[sess_key]"] have "room_step ?r ?r'"
      by (simp add: run_room_def eventCh_cap_def)
    with refreshed show ?thesis by (rule reachable_step)
  qed
  have 2: "room_reachable (run_room [] [] None (armed 10000) {#} {#} 5000 {0, 1} [sess_key]
      [add_event sess, remove_event sess_key] (H_Replied \<lparr>Ok = True\<rparr>) (H_Event sess))"
    using reachable_step [OF 1 room_step.updated [of _ 1 sess]] by (simp add: run_room_def)
  show ?thesis
    using reachable_step [OF 2 room_step.event [of _ 1 sess]] by (simp add: run_room_def eventCh_cap_def)
qed

section \<open>Properties\<close>

text \<open>
  C24. The runner of the room's expiring set never panics, and the REMOVE events, fetched and still
  in the channel, are the expiries of the set in the order in which they happened.
\<close>

theorem room_events_in_order:
  assumes "room_reachable r"
  shows "\<not> expire_internal (room_set r) None \<and>
    filter (\<lambda>e. State e = SessionEvent_REMOVE) (fetched r @ eventCh r) =
      map remove_event (on_deleted_log (room_set r))"
proof
  have inv: "room_inv r" using assms by (rule room_inv_reachable)
  then show "filter (\<lambda>e. State e = SessionEvent_REMOVE) (fetched r @ eventCh r) =
      map remove_event (on_deleted_log (room_set r))"
    by (simp add: room_inv_def all_events_def)
  show "\<not> expire_internal (room_set r) None"
  proof
    assume "expire_internal (room_set r) None"
    then show False using inv
      by cases (auto simp: room_inv_def handleDelete_def Let_def split: option.splits)
  qed
qed

theorem room_events_in_order_witness:
  "\<exists>r. room_reachable r \<and> fetched r = [] \<and> length (eventCh r) = 3 \<and>
     filter (\<lambda>e. State e = SessionEvent_REMOVE) (eventCh r) = [remove_event (''u'', ''s'')]"
  by (rule exI, intro conjI, rule stranded)
    (use room_events_in_order [OF stranded] in \<open>simp_all add: run_room_def\<close>)

text \<open>
  A session can be stranded: a health call that refreshes an entry whose expiry is already on
  its way leaves ADD as the last event, with no entry and no expiry left to remove it.
\<close>

theorem room_strands_session:
  "\<exists>r. room_reachable r \<and> (\<forall>h. health r h = H_Begin \<or> health r h = H_Replied \<lparr>Ok = True\<rparr>) \<and>
     last (fetched r @ eventCh r) = add_event \<lparr>Session = ''s'', User = ''u''\<rparr> \<and>
     held (room_set r) (''u'', ''s'') = None \<and> expiries (room_set r) = {#} \<and> updateCh (room_set r) = []"
  by (rule exI, rule conjI, rule stranded)
    (auto simp: run_room_def stranded_session_def held_def expiries_def)

end
