(* ===== verification/Exec_Locks.thy ===== *)
theory Exec_Locks
  imports Dion_Base
begin

text \<open>
  The three executors of \<open>util/lock.go\<close>, each as a step relation over the goroutines that call
  \<open>Do\<close>: \<open>SingleExec\<close>, which runs or skips; \<open>SingleWaitExec\<close>, which runs or waits for the one that
  runs; and \<open>SingleLatestExec\<close>, which cancels the last one and runs. The locale \<open>exclusive\<close>
  is what the first two promise.
\<close>

text \<open>A goroutine is identified by a number, and so is a context.\<close>

type_synonym goroutine = nat

type_synonym ctx = nat

section \<open>Mutual exclusion\<close>

locale exclusive =
  fixes step :: "'s \<Rightarrow> 's \<Rightarrow> bool" and init :: 's and inv :: "'s \<Rightarrow> bool"
    and busy :: "'s \<Rightarrow> goroutine \<Rightarrow> bool"
  assumes inv_init: "inv init"
    and inv_step: "inv s \<Longrightarrow> step s s' \<Longrightarrow> inv s'"
    and inv_one: "inv s \<Longrightarrow> busy s t \<Longrightarrow> busy s u \<Longrightarrow> t = u"
begin

lemma inv_reachable: "reachable step init s \<Longrightarrow> inv s"
  by (induction rule: reachable_invariant) (auto intro: inv_init inv_step)

lemma at_most_one: "reachable step init s \<Longrightarrow> busy s t \<Longrightarrow> busy s u \<Longrightarrow> t = u"
  using inv_reachable inv_one by blast

end

section \<open>SingleExec\<close>

text \<open>
  The channel \<open>running\<close> has capacity one and holds a token at first. \<open>Do\<close> spawns a goroutine
  that takes the token or returns; the one that took it puts it back after its operation.
\<close>

datatype single_pc = SE_Begin | SE_Running | SE_Returned

record SingleExec =
  token :: bool
  se_pc :: "goroutine \<Rightarrow> single_pc"

definition NewSingleExec :: SingleExec where
  "NewSingleExec = \<lparr>token = True, se_pc = (\<lambda>_. SE_Begin)\<rparr>"

inductive single_step :: "SingleExec \<Rightarrow> SingleExec \<Rightarrow> bool" where
  run: "se_pc s t = SE_Begin \<Longrightarrow> token s \<Longrightarrow>
    single_step s (s\<lparr>token := False, se_pc := (se_pc s)(t := SE_Running)\<rparr>)"
| skip: "se_pc s t = SE_Begin \<Longrightarrow> \<not> token s \<Longrightarrow>
    single_step s (s\<lparr>se_pc := (se_pc s)(t := SE_Returned)\<rparr>)"
| put_back: "se_pc s t = SE_Running \<Longrightarrow> \<not> token s \<Longrightarrow>
    single_step s (s\<lparr>token := True, se_pc := (se_pc s)(t := SE_Returned)\<rparr>)"

text \<open>Either the token is in the channel or exactly one goroutine has it.\<close>

definition single_inv :: "SingleExec \<Rightarrow> bool" where
  "single_inv s \<longleftrightarrow>
     (\<exists>holder. (\<forall>t. se_pc s t = SE_Running \<longleftrightarrow> holder = Some t) \<and> token s = (holder = None))"

lemma single_inv_step:
  assumes "single_step s s'" "single_inv s"
  shows "single_inv s'"
proof -
  obtain holder where h: "\<And>t. se_pc s t = SE_Running \<longleftrightarrow> holder = Some t" "token s = (holder = None)"
    using assms(2) by (auto simp: single_inv_def)
  from assms(1) show ?thesis
  proof cases
    case (run t)
    with h show ?thesis by (intro single_inv_def [THEN iffD2] exI [of _ "Some t"]) auto
  next
    case (skip t)
    have "holder \<noteq> Some t" using h(1) [of t] skip(2) by auto
    with skip h show ?thesis by (intro single_inv_def [THEN iffD2] exI [of _ holder]) auto
  next
    case (put_back t)
    with h show ?thesis by (intro single_inv_def [THEN iffD2] exI [of _ None]) auto
  qed
qed

interpretation single: exclusive single_step NewSingleExec single_inv
    "\<lambda>s t. se_pc s t = SE_Running"
proof
  show "single_inv NewSingleExec" by (simp add: single_inv_def NewSingleExec_def)
  show "single_inv s \<Longrightarrow> single_step s s' \<Longrightarrow> single_inv s'" for s s'
    by (rule single_inv_step)
  show "single_inv s \<Longrightarrow> se_pc s t = SE_Running \<Longrightarrow> se_pc s u = SE_Running \<Longrightarrow> t = u" for s t u
    by (auto simp: single_inv_def)
qed

section \<open>SingleWaitExec\<close>

text \<open>
  The mutex is held only over statements that do not block, so each critical section is one
  step. A context is done when it is cancelled or its parent is.
\<close>

datatype wait_pc = SW_Begin | SW_Running ctx | SW_Waiting ctx | SW_Returned

record SingleWaitExec =
  sw_ctx :: "ctx option"
  next_ctx :: ctx
  cancelled :: "ctx set"
  parent_done :: bool
  sw_pc :: "goroutine \<Rightarrow> wait_pc"

definition NewSingleWaitExec :: SingleWaitExec where
  "NewSingleWaitExec =
     \<lparr>sw_ctx = None, next_ctx = 0, cancelled = {}, parent_done = False, sw_pc = (\<lambda>_. SW_Begin)\<rparr>"

definition ctx_done :: "SingleWaitExec \<Rightarrow> ctx \<Rightarrow> bool" where
  "ctx_done s c \<longleftrightarrow> parent_done s \<or> c \<in> cancelled s"

inductive wait_step :: "SingleWaitExec \<Rightarrow> SingleWaitExec \<Rightarrow> bool" where
  run: "sw_pc s t = SW_Begin \<Longrightarrow> (case sw_ctx s of None \<Rightarrow> True | Some c \<Rightarrow> ctx_done s c) \<Longrightarrow>
    wait_step s (s\<lparr>sw_ctx := Some (next_ctx s), next_ctx := next_ctx s + 1,
                   sw_pc := (sw_pc s)(t := SW_Running (next_ctx s))\<rparr>)"
| wait: "sw_pc s t = SW_Begin \<Longrightarrow> sw_ctx s = Some c \<Longrightarrow> \<not> ctx_done s c \<Longrightarrow>
    wait_step s (s\<lparr>sw_pc := (sw_pc s)(t := SW_Waiting c)\<rparr>)"
| cancel: "sw_pc s t = SW_Running c \<Longrightarrow>
    wait_step s (s\<lparr>cancelled := insert c (cancelled s), sw_pc := (sw_pc s)(t := SW_Returned)\<rparr>)"
| wake: "sw_pc s t = SW_Waiting c \<Longrightarrow> ctx_done s c \<Longrightarrow>
    wait_step s (s\<lparr>sw_pc := (sw_pc s)(t := SW_Returned)\<rparr>)"
| parent: "wait_step s (s\<lparr>parent_done := True\<rparr>)"

text \<open>The steps while the parent context lives.\<close>

definition wait_step_alive :: "SingleWaitExec \<Rightarrow> SingleWaitExec \<Rightarrow> bool" where
  "wait_step_alive s s' \<longleftrightarrow> wait_step s s' \<and> \<not> parent_done s'"

definition sw_busy :: "SingleWaitExec \<Rightarrow> goroutine \<Rightarrow> bool" where
  "sw_busy s t \<longleftrightarrow> (\<exists>c. sw_pc s t = SW_Running c)"

text \<open>
  The contexts are numbered below \<open>next_ctx\<close>; a goroutine runs exactly while the current context
  is live, and one that waits does so for the current context or for one that is cancelled.
\<close>

definition wait_inv :: "SingleWaitExec \<Rightarrow> bool" where
  "wait_inv s \<longleftrightarrow> \<not> parent_done s \<and>
     (\<forall>c \<in> cancelled s. c < next_ctx s) \<and> (\<forall>c. sw_ctx s = Some c \<longrightarrow> c < next_ctx s) \<and>
     (\<exists>holder. (\<forall>t c. sw_pc s t = SW_Running c \<longleftrightarrow> holder = Some t \<and> sw_ctx s = Some c \<and> c \<notin> cancelled s) \<and>
        (\<forall>c. sw_ctx s = Some c \<longrightarrow> (c \<notin> cancelled s \<longleftrightarrow> holder \<noteq> None)) \<and> (sw_ctx s = None \<longrightarrow> holder = None)) \<and>
     (\<forall>t c. sw_pc s t = SW_Waiting c \<longrightarrow> c \<in> cancelled s \<or> sw_ctx s = Some c)"

lemma wait_inv_step:
  assumes "wait_step_alive s s'" "wait_inv s"
  shows "wait_inv s'"
proof -
  obtain holder where alive: "\<not> parent_done s"
    and below: "\<And>c. c \<in> cancelled s \<Longrightarrow> c < next_ctx s" "\<And>c. sw_ctx s = Some c \<Longrightarrow> c < next_ctx s"
    and h: "\<And>t c. sw_pc s t = SW_Running c \<longleftrightarrow> holder = Some t \<and> sw_ctx s = Some c \<and> c \<notin> cancelled s"
      "\<And>c. sw_ctx s = Some c \<Longrightarrow> c \<notin> cancelled s \<longleftrightarrow> holder \<noteq> None" "sw_ctx s = None \<Longrightarrow> holder = None"
    and waiting: "\<And>t c. sw_pc s t = SW_Waiting c \<Longrightarrow> c \<in> cancelled s \<or> sw_ctx s = Some c"
    using assms(2) by (auto simp: wait_inv_def)
  from assms(1) have "wait_step s s'" "\<not> parent_done s'" by (simp_all add: wait_step_alive_def)
  then show ?thesis
  proof cases
    case (run t)
    have none: "holder = None"
      using run(3) h(2,3) alive by (cases "sw_ctx s") (auto simp: ctx_done_def)
    have fresh: "next_ctx s \<notin> cancelled s" using below(1) by blast
    show ?thesis
      unfolding wait_inv_def
    proof (intro conjI exI [of _ "Some t"])
      show "\<forall>u c. sw_pc s' u = SW_Running c \<longleftrightarrow> Some t = Some u \<and> sw_ctx s' = Some c \<and> c \<notin> cancelled s'"
        using run(1) none h(1) fresh by auto
      have old: "c \<in> cancelled s" if "sw_pc s u = SW_Waiting c" for u c
        using waiting [OF that] run(3) alive by (auto simp: ctx_done_def)
      show "\<forall>u c. sw_pc s' u = SW_Waiting c \<longrightarrow> c \<in> cancelled s' \<or> sw_ctx s' = Some c"
        using old by (auto simp: run(1))
    qed (use run alive below fresh in \<open>auto simp: less_Suc_eq\<close>)
  next
    case (wait t c)
    have "holder \<noteq> Some t" using h(1) [of t] h(2) wait by (auto simp: ctx_done_def)
    then show ?thesis
      using wait alive below h waiting
      by (intro wait_inv_def [THEN iffD2] conjI exI [of _ holder]) auto
  next
    case (cancel t c)
    then have "holder = Some t" "sw_ctx s = Some c" using h(1) by auto
    then show ?thesis
      using cancel alive below h waiting
      by (intro wait_inv_def [THEN iffD2] conjI exI [of _ None]) auto
  next
    case (wake t c)
    have "holder \<noteq> Some t" using h(1) [of t] h(2,3) wake by (cases "sw_ctx s") auto
    then show ?thesis
      using wake alive below h waiting
      by (intro wait_inv_def [THEN iffD2] conjI exI [of _ holder]) auto
  next
    case parent
    then show ?thesis using \<open>\<not> parent_done s'\<close> by simp
  qed
qed

interpretation wait: exclusive wait_step_alive NewSingleWaitExec wait_inv sw_busy
proof
  show "wait_inv NewSingleWaitExec" by (simp add: wait_inv_def NewSingleWaitExec_def)
  show "wait_inv s \<Longrightarrow> wait_step_alive s s' \<Longrightarrow> wait_inv s'" for s s'
    by (rule wait_inv_step)
  show "wait_inv s \<Longrightarrow> sw_busy s t \<Longrightarrow> sw_busy s u \<Longrightarrow> t = u" for s t u
    by (auto simp: wait_inv_def sw_busy_def)
qed

text \<open>A goroutine that waits can go on, or the one it waits for is running.\<close>

lemma wait_not_stuck:
  assumes "reachable wait_step_alive NewSingleWaitExec s" "sw_pc s t = SW_Waiting c"
  shows "ctx_done s c \<or> (\<exists>u. sw_pc s u = SW_Running c)"
proof -
  have inv: "wait_inv s" using assms(1) by (rule wait.inv_reachable)
  then have "c \<in> cancelled s \<or> sw_ctx s = Some c" using assms(2) by (simp add: wait_inv_def)
  moreover have "\<exists>u. sw_pc s u = SW_Running c" if "sw_ctx s = Some c" "c \<notin> cancelled s"
    using inv that by (auto simp: wait_inv_def)
  ultimately show ?thesis by (auto simp: ctx_done_def)
qed

section \<open>SingleLatestExec\<close>

text \<open>
  \<open>Do\<close> is one critical section: it cancels the last context and starts the operation under a
  fresh one. \<open>sl_started\<close> are the contexts of the operations that have not returned.
\<close>

record SingleLatestExec =
  cancelLast :: "ctx option"
  sl_next :: ctx
  sl_cancelled :: "ctx set"
  sl_started :: "ctx set"

definition NewSingleLatestExec :: SingleLatestExec where
  "NewSingleLatestExec = \<lparr>cancelLast = None, sl_next = 0, sl_cancelled = {}, sl_started = {}\<rparr>"

definition latest_Do :: "SingleLatestExec \<Rightarrow> SingleLatestExec" where
  "latest_Do s =
     (let s1 = (case cancelLast s of
                  Some c \<Rightarrow> s\<lparr>sl_cancelled := insert c (sl_cancelled s)\<rparr> | None \<Rightarrow> s)
      in s1\<lparr>cancelLast := Some (sl_next s1), sl_next := sl_next s1 + 1,
            sl_started := insert (sl_next s1) (sl_started s1)\<rparr>)"

inductive latest_step :: "SingleLatestExec \<Rightarrow> SingleLatestExec \<Rightarrow> bool" where
  Do: "latest_step s (latest_Do s)"
| return: "c \<in> sl_started s \<Longrightarrow> latest_step s (s\<lparr>sl_started := sl_started s - {c}\<rparr>)"

definition latest_inv :: "SingleLatestExec \<Rightarrow> bool" where
  "latest_inv s \<longleftrightarrow>
     (\<forall>c \<in> sl_started s. cancelLast s = Some c \<or> c \<in> sl_cancelled s) \<and>
     (\<forall>c. cancelLast s = Some c \<longrightarrow> c < sl_next s \<and> c \<notin> sl_cancelled s) \<and>
     (\<forall>c \<in> sl_cancelled s. c < sl_next s)"

lemma latest_inv_reachable: "reachable latest_step NewSingleLatestExec s \<Longrightarrow> latest_inv s"
proof (induction rule: reachable_invariant)
  case init
  show ?case by (simp add: latest_inv_def NewSingleLatestExec_def)
next
  case (step s s')
  from step(2,3) show ?case
    by (auto simp: latest_inv_def latest_Do_def Let_def less_Suc_eq elim!: latest_step.cases
        split: option.splits)
qed

section \<open>Properties\<close>

text \<open>
  At every moment one goroutine runs an operation of a \<open>SingleExec\<close> when the token is out of
  the channel, and none when it is in: two operations never overlap, and the token is not lost.
\<close>

theorem single_exec_exclusive:
  assumes "reachable single_step NewSingleExec s"
  shows "card {t. se_pc s t = SE_Running} = (if token s then 0 else 1)"
proof -
  have "single_inv s" using assms by (rule single.inv_reachable)
  then obtain holder where h: "\<And>t. se_pc s t = SE_Running \<longleftrightarrow> holder = Some t" "token s = (holder = None)"
    by (auto simp: single_inv_def)
  then have "{t. se_pc s t = SE_Running} = set_option holder" by auto
  with h(2) show ?thesis by (cases holder) auto
qed

theorem single_exec_exclusive_witness:
  "\<exists>s. reachable single_step NewSingleExec s \<and> \<not> token s \<and> card {t. se_pc s t = SE_Running} = 1"
proof -
  let ?s = "NewSingleExec\<lparr>token := False, se_pc := (se_pc NewSingleExec)(7 := SE_Running)\<rparr>"
  have "single_step NewSingleExec ?s" by (rule single_step.run) (simp_all add: NewSingleExec_def)
  then have r: "reachable single_step NewSingleExec ?s" by (rule reachable_first)
  from single_exec_exclusive [OF r] r show ?thesis by (intro exI [of _ ?s]) simp
qed

text \<open>
  C22. While the parent context lives, two operations of a \<open>SingleWaitExec\<close> never overlap.
\<close>

theorem wait_exec_exclusive:
  assumes "reachable wait_step_alive NewSingleWaitExec s"
    and "sw_pc s t = SW_Running c" and "sw_pc s u = SW_Running d"
  shows "t = u \<and> c = d"
proof -
  have "t = u" using assms(2,3) by (intro wait.at_most_one [OF assms(1)]) (auto simp: sw_busy_def)
  with assms(2,3) show ?thesis by simp
qed

lemma demo_running:
  "reachable wait_step_alive NewSingleWaitExec
     (NewSingleWaitExec\<lparr>sw_ctx := Some 0, next_ctx := 1, sw_pc := (\<lambda>_. SW_Begin)(0 := SW_Running 0)\<rparr>)"
  (is "reachable _ _ ?s")
proof -
  have "wait_step NewSingleWaitExec ?s"
    using wait_step.run [of NewSingleWaitExec 0] by (simp add: NewSingleWaitExec_def)
  then have "wait_step_alive NewSingleWaitExec ?s"
    by (simp add: wait_step_alive_def NewSingleWaitExec_def)
  then show ?thesis by (rule reachable_first)
qed

theorem wait_exec_exclusive_witness:
  "\<exists>s. reachable wait_step_alive NewSingleWaitExec s \<and> sw_pc s 0 = SW_Running 0 \<and>
     (\<forall>u d. sw_pc s u = SW_Running d \<longrightarrow> u = 0 \<and> d = 0)"
proof -
  let ?s = "NewSingleWaitExec\<lparr>sw_ctx := Some 0, next_ctx := 1, sw_pc := (\<lambda>_. SW_Begin)(0 := SW_Running 0)\<rparr>"
  have pc: "sw_pc ?s 0 = SW_Running 0" by simp
  have "u = 0 \<and> d = 0" if "sw_pc ?s u = SW_Running d" for u d
    by (rule wait_exec_exclusive [OF demo_running that pc])
  with pc demo_running show ?thesis by blast
qed

text \<open>
  A goroutine that waits is not stuck: the context it waits for is done, or the goroutine
  that will cancel it is running, and after that step the waiting one can return.
\<close>

theorem wait_exec_not_stuck:
  assumes "reachable wait_step_alive NewSingleWaitExec s" and "sw_pc s t = SW_Waiting c"
  shows "(\<exists>s'. wait_step s s' \<and> sw_pc s' t = SW_Returned) \<or>
    (\<exists>s' s''. wait_step s s' \<and> wait_step s' s'' \<and> sw_pc s'' t = SW_Returned)"
  using wait_not_stuck [OF assms]
proof
  assume "ctx_done s c"
  with assms(2) have "wait_step s (s\<lparr>sw_pc := (sw_pc s)(t := SW_Returned)\<rparr>)" by (rule wait_step.wake)
  then show ?thesis by (intro disjI1 exI conjI) auto
next
  assume "\<exists>u. sw_pc s u = SW_Running c"
  then obtain u where u: "sw_pc s u = SW_Running c" ..
  let ?s = "s\<lparr>cancelled := insert c (cancelled s), sw_pc := (sw_pc s)(u := SW_Returned)\<rparr>"
  have 1: "wait_step s ?s" using u by (rule wait_step.cancel)
  have "sw_pc ?s t = SW_Waiting c" "ctx_done ?s c" using assms(2) u by (auto simp: ctx_done_def)
  then have "wait_step ?s (?s\<lparr>sw_pc := (sw_pc ?s)(t := SW_Returned)\<rparr>)" by (rule wait_step.wake)
  with 1 show ?thesis by (intro disjI2 exI [of _ ?s] exI conjI) auto
qed

theorem wait_exec_not_stuck_witness:
  "\<exists>s. reachable wait_step_alive NewSingleWaitExec s \<and> sw_pc s 1 = SW_Waiting 0 \<and>
     ((\<exists>s'. wait_step s s' \<and> sw_pc s' 1 = SW_Returned) \<or>
      (\<exists>s' s''. wait_step s s' \<and> wait_step s' s'' \<and> sw_pc s'' 1 = SW_Returned))"
proof -
  let ?r = "NewSingleWaitExec\<lparr>sw_ctx := Some 0, next_ctx := 1, sw_pc := (\<lambda>_. SW_Begin)(0 := SW_Running 0)\<rparr>"
  let ?s = "?r\<lparr>sw_pc := (sw_pc ?r)(1 := SW_Waiting 0)\<rparr>"
  have "wait_step ?r ?s" by (rule wait_step.wait) (simp_all add: NewSingleWaitExec_def ctx_done_def)
  then have "wait_step_alive ?r ?s" by (simp add: wait_step_alive_def NewSingleWaitExec_def)
  then have r: "reachable wait_step_alive NewSingleWaitExec ?s" by (rule reachable_step [OF demo_running])
  have "sw_pc ?s 1 = SW_Waiting 0" by simp
  from wait_exec_not_stuck [OF r this] this r show ?thesis by blast
qed

text \<open>
  When the parent context is done, the exclusion is lost: the context of a running operation
  counts as done, so the next caller starts another operation beside it.
\<close>

theorem wait_exec_overlaps:
  "\<exists>s. reachable wait_step NewSingleWaitExec s \<and> sw_pc s 0 = SW_Running 0 \<and> sw_pc s 1 = SW_Running 1"
proof -
  let ?r = "NewSingleWaitExec\<lparr>sw_ctx := Some 0, next_ctx := 1, sw_pc := (\<lambda>_. SW_Begin)(0 := SW_Running 0)\<rparr>"
  let ?s = "?r\<lparr>parent_done := True\<rparr>"
  let ?t = "?s\<lparr>sw_ctx := Some (next_ctx ?s), next_ctx := next_ctx ?s + 1,
      sw_pc := (sw_pc ?s)(1 := SW_Running (next_ctx ?s))\<rparr>"
  have 1: "wait_step NewSingleWaitExec ?r"
    using wait_step.run [of NewSingleWaitExec 0] by (simp add: NewSingleWaitExec_def)
  have 2: "wait_step ?r ?s" by (rule wait_step.parent)
  have 3: "wait_step ?s ?t" by (rule wait_step.run) (simp_all add: ctx_done_def NewSingleWaitExec_def)
  have "reachable wait_step NewSingleWaitExec ?r" using 1 by (rule reachable_first)
  then have "reachable wait_step NewSingleWaitExec ?s" using 2 by (rule reachable_step)
  then have "reachable wait_step NewSingleWaitExec ?t" using 3 by (rule reachable_step)
  then show ?thesis by (intro exI [of _ ?t]) simp
qed

text \<open>
  Of the operations of a \<open>SingleLatestExec\<close> that have not returned, only the newest is not
  cancelled, and it is never cancelled by the executor.
\<close>

theorem latest_exec_cancels:
  assumes "reachable latest_step NewSingleLatestExec s"
  shows "sl_started s - sl_cancelled s = sl_started s \<inter> set_option (cancelLast s)"
  using latest_inv_reachable [OF assms] by (auto simp: latest_inv_def)

theorem latest_exec_cancels_witness:
  "sl_started (latest_Do (latest_Do NewSingleLatestExec)) - sl_cancelled (latest_Do (latest_Do NewSingleLatestExec)) = {1}"
proof -
  have 1: "reachable latest_step NewSingleLatestExec (latest_Do NewSingleLatestExec)"
    using latest_step.Do by (rule reachable_first)
  have "reachable latest_step NewSingleLatestExec (latest_Do (latest_Do NewSingleLatestExec))"
    using 1 latest_step.Do by (rule reachable_step)
  from latest_exec_cancels [OF this] show ?thesis
    by (auto simp: latest_Do_def NewSingleLatestExec_def Let_def)
qed

end
