(* ===== verification/Latest_Slot.thy ===== *)
theory Latest_Slot
  imports Dion_Base
begin

text \<open>
  The channel of capacity one that carries only the latest value: a sender that finds it full
  drops the old value and tries again. \<open>WatchDogWithUnblockedDoor.Update\<close> of
  \<open>util/watchdog.go\<close> and \<open>WatchDogWithBlockedDoor.Update\<close> and \<open>retryPush\<close> of
  \<open>util/blockeddoor.go\<close> are the same three selects. Each select is one step here, so senders
  interleave with each other and with the receiver.
\<close>

section \<open>The selects\<close>

text \<open>Where a sender is: between calls, about to drain, about to try again.\<close>

datatype 'p sender = Idle | Draining 'p | Retrying 'p

text \<open>\<open>given\<close> are the values in the order in which the calls began, \<open>taken\<close> those received.\<close>

record 'p latest =
  slot :: "'p option"
  senders :: "nat \<Rightarrow> 'p sender"
  given :: "'p list"
  taken :: "'p list"

definition latest_init :: "'p latest" where
  "latest_init = \<lparr>slot = None, senders = (\<lambda>_. Idle), given = [], taken = []\<rparr>"

text \<open>The first select: send, or go on to the default.\<close>

definition Update_try :: "nat \<Rightarrow> 'p \<Rightarrow> 'p latest \<Rightarrow> 'p latest" where
  "Update_try t param s =
     (let s1 = s\<lparr>given := given s @ [param]\<rparr> in
      case slot s1 of
        None \<Rightarrow> s1\<lparr>slot := Some param\<rparr>
      | Some _ \<Rightarrow> s1\<lparr>senders := (senders s1)(t := Draining param)\<rparr>)"

text \<open>The second select: drop what the channel holds, if it holds anything.\<close>

definition Update_drain :: "nat \<Rightarrow> 'p \<Rightarrow> 'p latest \<Rightarrow> 'p latest" where
  "Update_drain t param s = s\<lparr>slot := None, senders := (senders s)(t := Retrying param)\<rparr>"

text \<open>The third select: send, or give up.\<close>

definition Update_retry :: "nat \<Rightarrow> 'p \<Rightarrow> 'p latest \<Rightarrow> 'p latest" where
  "Update_retry t param s =
     (let s1 = s\<lparr>senders := (senders s)(t := Idle)\<rparr> in
      case slot s1 of None \<Rightarrow> s1\<lparr>slot := Some param\<rparr> | Some _ \<Rightarrow> s1)"

inductive slot_step :: "nat set \<Rightarrow> 'p latest \<Rightarrow> 'p latest \<Rightarrow> bool" for T :: "nat set" where
  try_send: "t \<in> T \<Longrightarrow> senders s t = Idle \<Longrightarrow> slot_step T s (Update_try t param s)"
| drain: "t \<in> T \<Longrightarrow> senders s t = Draining param \<Longrightarrow> slot_step T s (Update_drain t param s)"
| retry: "t \<in> T \<Longrightarrow> senders s t = Retrying param \<Longrightarrow> slot_step T s (Update_retry t param s)"
| take_value: "slot s = Some param \<Longrightarrow>
    slot_step T s (s\<lparr>slot := None, taken := taken s @ [param]\<rparr>)"

section \<open>One sender\<close>

text \<open>
  With one sender the latest value is never lost: it is in the channel, or it is the last that
  was taken, or the sender is still trying to send it.
\<close>

definition latest_kept :: "'p latest \<Rightarrow> bool" where
  "latest_kept s \<longleftrightarrow>
     (case senders s 0 of
        Idle \<Rightarrow> given s \<noteq> [] \<longrightarrow> slot s = Some (last (given s)) \<or>
                 slot s = None \<and> taken s \<noteq> [] \<and> last (taken s) = last (given s)
      | Draining param \<Rightarrow> given s \<noteq> [] \<and> param = last (given s)
      | Retrying param \<Rightarrow> given s \<noteq> [] \<and> param = last (given s) \<and> slot s = None)"

lemma latest_kept_step:
  assumes "slot_step {0} s s'" "latest_kept s"
  shows "latest_kept s'"
  using assms(1)
proof cases
  case (take_value param)
  with assms(2) show ?thesis by (auto simp: latest_kept_def split: sender.splits)
qed (use assms(2) in \<open>auto simp: latest_kept_def Update_try_def Update_drain_def Update_retry_def Let_def
      split: option.splits\<close>)

lemma latest_kept_reachable: "reachable (slot_step {0}) latest_init s \<Longrightarrow> latest_kept s"
  by (induction rule: reachable_invariant)
    (auto intro: latest_kept_step, simp add: latest_kept_def latest_init_def)

section \<open>Two senders\<close>

text \<open>
  With two senders the latest value can be lost: both find the channel full, both drain, and the
  one that began last finds the channel filled again by the other.
\<close>

lemma latest_lost:
  "\<exists>s. reachable (slot_step {0, 1}) latest_init s \<and> (\<forall>t. senders s t = Idle) \<and>
     last (given s) = (2::nat) \<and> slot s = Some 1 \<and> taken s = []"
proof -
  let ?s = "\<lambda>sl p q g. \<lparr>slot = sl, senders = (\<lambda>_. Idle)(0 := p, 1 := q), given = g, taken = []\<rparr> :: nat latest"
  have init: "latest_init = ?s None Idle Idle []" by (simp add: latest_init_def fun_upd_idem)
  have step: "slot_step {0, 1} (?s None Idle Idle []) (?s (Some 0) Idle Idle [0])"
    "slot_step {0, 1} (?s (Some 0) Idle Idle [0]) (?s (Some 0) (Draining 1) Idle [0, 1])"
    "slot_step {0, 1} (?s (Some 0) (Draining 1) Idle [0, 1]) (?s (Some 0) (Draining 1) (Draining 2) [0, 1, 2])"
    "slot_step {0, 1} (?s (Some 0) (Draining 1) (Draining 2) [0, 1, 2]) (?s None (Draining 1) (Retrying 2) [0, 1, 2])"
    "slot_step {0, 1} (?s None (Draining 1) (Retrying 2) [0, 1, 2]) (?s None (Retrying 1) (Retrying 2) [0, 1, 2])"
    "slot_step {0, 1} (?s None (Retrying 1) (Retrying 2) [0, 1, 2]) (?s (Some 1) Idle (Retrying 2) [0, 1, 2])"
    "slot_step {0, 1} (?s (Some 1) Idle (Retrying 2) [0, 1, 2]) (?s (Some 1) Idle Idle [0, 1, 2])"
    using slot_step.try_send [of 0 "{0, 1}" "?s None Idle Idle []" 0]
      slot_step.try_send [of 0 "{0, 1}" "?s (Some 0) Idle Idle [0]" 1]
      slot_step.try_send [of 1 "{0, 1}" "?s (Some 0) (Draining 1) Idle [0, 1]" 2]
      slot_step.drain [of 1 "{0, 1}" "?s (Some 0) (Draining 1) (Draining 2) [0, 1, 2]" 2]
      slot_step.drain [of 0 "{0, 1}" "?s None (Draining 1) (Retrying 2) [0, 1, 2]" 1]
      slot_step.retry [of 0 "{0, 1}" "?s None (Retrying 1) (Retrying 2) [0, 1, 2]" 1]
      slot_step.retry [of 1 "{0, 1}" "?s (Some 1) Idle (Retrying 2) [0, 1, 2]" 2]
    by (simp_all add: Update_try_def Update_drain_def Update_retry_def fun_upd_twist)
  have "reachable (slot_step {0, 1}) latest_init (?s (Some 1) Idle Idle [0, 1, 2])"
    unfolding init
    by (rule step [THEN reachable_step [where step = "slot_step {0, 1}", rotated]] reachable_refl)+
  then show ?thesis by (intro exI [of _ "?s (Some 1) Idle Idle [0, 1, 2]"]) auto
qed

section \<open>Properties\<close>

text \<open>
  With one sender the newest value is never lost: when the sender is between calls and has
  given a value, that value is in the channel or is the last one the receiver took.
\<close>

theorem latest_value_kept:
  assumes "reachable (slot_step {0}) latest_init s" and "senders s 0 = Idle" and "given s \<noteq> []"
  shows "slot s = Some (last (given s)) \<or>
    slot s = None \<and> taken s \<noteq> [] \<and> last (taken s) = last (given s)"
  using latest_kept_reachable [OF assms(1)] assms(2,3) by (simp add: latest_kept_def)

theorem latest_value_kept_witness:
  "\<exists>s. reachable (slot_step {0}) latest_init s \<and> given s = [5::nat, 6] \<and> slot s = Some 6"
proof -
  let ?a = "Update_try 0 (5::nat) latest_init"
  let ?b = "Update_try 0 6 ?a"
  let ?c = "Update_drain 0 6 ?b"
  let ?d = "Update_retry 0 6 ?c"
  note defs = Update_try_def Update_drain_def Update_retry_def latest_init_def Let_def
  have 1: "slot_step {0} latest_init ?a" by (rule slot_step.try_send) (simp_all add: defs)
  have 2: "slot_step {0} ?a ?b" by (rule slot_step.try_send) (simp_all add: defs)
  have 3: "slot_step {0} ?b ?c" by (rule slot_step.drain) (simp_all add: defs)
  have 4: "slot_step {0} ?c ?d" by (rule slot_step.retry) (simp_all add: defs)
  have "reachable (slot_step {0}) latest_init ?a" using 1 by (rule reachable_first)
  then have "reachable (slot_step {0}) latest_init ?b" using 2 by (rule reachable_step)
  then have "reachable (slot_step {0}) latest_init ?c" using 3 by (rule reachable_step)
  then have r: "reachable (slot_step {0}) latest_init ?d" using 4 by (rule reachable_step)
  have "senders ?d 0 = Idle" "given ?d = [5, 6]" "taken ?d = []" by (simp_all add: defs)
  with latest_value_kept [OF r] r show ?thesis by (intro exI [of _ ?d]) auto
qed

text \<open>
  With two senders the newest value can be lost: nobody is sending any more, the receiver has
  taken nothing, and the channel holds an older value.
\<close>

theorem latest_value_lost:
  "\<exists>s. reachable (slot_step {0, 1}) latest_init s \<and> (\<forall>t. senders s t = Idle) \<and>
     last (given s) = (2::nat) \<and> slot s = Some 1 \<and> taken s = []"
  by (rule latest_lost)

end
