(* ===== verification/Stream_Client.thy ===== *)
theory Stream_Client
  imports Dion_Messages "HOL-Library.Word"
begin

text \<open>
  The generic stream client of \<open>util/client.go\<close> and the ISGLB client of
  \<open>pkg/isglb/client.go\<close> on top of it. What the network answers is open: the factory's answer
  and the success of an operation are arguments. \<open>reconnect\<close> is the body that the
  \<open>SingleWaitExec\<close> of \<open>Exec_Locks\<close> runs for one caller at a time; the others wait for it.
\<close>

section \<open>State\<close>

type_synonym stream = nat

text \<open>
  \<open>ctxTop_done\<close> is the top context; \<open>cancelLast\<close> and \<open>cancelled_ctxs\<close> are the contexts of the
  streams; \<open>msgReadLoop\<close> tells whether the read loop was started, \<open>reconnects\<close> counts the calls
  of the \<open>OnReconnect\<close> callback, \<open>received\<close> are the messages handed to \<open>OnMsgRecv\<close>.
\<close>

record 'm Client =
  ctxTop_done :: bool
  connected :: bool
  stream :: "stream option"
  stream_ctx :: "stream \<Rightarrow> nat"
  cancelLast :: "nat option"
  next_ctx :: nat
  cancelled_ctxs :: "nat set"
  reconnectTimes :: "32 word"
  msgReadLoop_started :: bool
  onMsgRecv :: bool
  onReconnect :: bool
  reconnects :: nat
  received :: "'m list"

definition NewClient :: "'m Client" where
  "NewClient = \<lparr>ctxTop_done = False, connected = False, stream = None, stream_ctx = (\<lambda>_. 0),
     cancelLast = None, next_ctx = 0, cancelled_ctxs = {}, reconnectTimes = 0,
     msgReadLoop_started = False, onMsgRecv = False, onReconnect = False, reconnects = 0, received = []\<rparr>"

section \<open>Operations\<close>

definition OnMsgRecv :: "'m Client \<Rightarrow> 'm Client" where
  "OnMsgRecv c = c\<lparr>onMsgRecv := True\<rparr>"

definition OnReconnect :: "'m Client \<Rightarrow> 'm Client" where
  "OnReconnect c = c\<lparr>onReconnect := True\<rparr>"

definition Client_Close :: "'m Client \<Rightarrow> 'm Client" where
  "Client_Close c = c\<lparr>ctxTop_done := True\<rparr>"

definition Connect :: "'m Client \<Rightarrow> 'm Client" where
  "Connect c = c\<lparr>msgReadLoop_started := True\<rparr>"

definition Connected :: "'m Client \<Rightarrow> bool" where
  "Connected c = connected c"

text \<open>The body of \<open>reconnect\<close>; \<open>answer\<close> is what \<open>NewClientStream\<close> returns.\<close>

definition reconnect :: "stream option \<Rightarrow> 'm Client \<Rightarrow> 'm Client" where
  "reconnect answer c =
     (let c1 = c\<lparr>connected := False, reconnectTimes := reconnectTimes c + 1\<rparr>;
          c2 = (case cancelLast c1 of
                  Some old \<Rightarrow> c1\<lparr>cancelled_ctxs := insert old (cancelled_ctxs c1)\<rparr>
                | None \<Rightarrow> c1);
          c3 = c2\<lparr>cancelLast := Some (next_ctx c2), next_ctx := next_ctx c2 + 1\<rparr> in
      case answer of
        None \<Rightarrow> c3
      | Some st \<Rightarrow>
          c3\<lparr>stream := Some st, stream_ctx := (stream_ctx c3)(st := next_ctx c2),
             msgReadLoop_started := True, connected := True,
             reconnects := reconnects c3 + (if onReconnect c3 then 1 else 0)\<rparr>)"

text \<open>
  What the world does during one \<open>DoWithClient\<close>: whether the operation succeeds, whether the
  client is closed while it runs, and what a reconnection is answered.
\<close>

record world =
  op_ok :: bool
  closed_meanwhile :: bool
  factory_answer :: "stream option"

text \<open>The result tells whether the caller is done; the stream is the one the operation ran on.\<close>

definition DoWithClient :: "world \<Rightarrow> 'm Client \<Rightarrow> bool \<times> stream option \<times> 'm Client" where
  "DoWithClient w c =
     (if ctxTop_done c then (True, None, c)
      else case stream c of
        None \<Rightarrow> (False, None, reconnect (factory_answer w) c)
      | Some st \<Rightarrow>
          (let c1 = c\<lparr>ctxTop_done := closed_meanwhile w\<rparr> in
           if op_ok w then (True, Some st, c1)
           else if ctxTop_done c1 then (True, None, c1)
           else (False, None, reconnect (factory_answer w) c1)))"

text \<open>\<open>Send\<close> tries once; the result is dropped.\<close>

definition Stream_Send :: "world \<Rightarrow> 'm Client \<Rightarrow> 'm Client" where
  "Stream_Send w c = snd (snd (DoWithClient w c))"

text \<open>One round of \<open>msgReadLoop\<close>: \<open>None\<close> when it exits. The received message is \<open>msg\<close>.\<close>

definition msgReadLoop :: "world \<Rightarrow> 'm \<Rightarrow> 'm Client \<Rightarrow> 'm Client option" where
  "msgReadLoop w msg c =
     (if ctxTop_done c then None
      else (case DoWithClient w c of
              (_, Some _, c1) \<Rightarrow>
                Some (if onMsgRecv c1 then c1\<lparr>received := received c1 @ [msg]\<rparr> else c1)
            | (_, None, c1) \<Rightarrow> Some c1))"

section \<open>Reconnect\<close>

text \<open>
  \<open>Reconnect\<close> reads the counter, calls \<open>reconnect\<close>, reads the counter again and calls it once more
  when the counter has not grown. \<open>bodies\<close> is the number of reconnect bodies, its own or others',
  that began between the two reads.
\<close>

definition should_reconnect_again :: "32 word \<Rightarrow> nat \<Rightarrow> bool" where
  "should_reconnect_again before bodies = (before \<ge> before + of_nat bodies)"

lemma word_add_of_nat_less:
  fixes x :: "32 word"
  assumes "unat x + n < 2 ^ 32"
  shows "unat (x + of_nat n) = unat x + n"
proof -
  have "n < 2 ^ LENGTH(32)" using assms by simp
  then have "unat (of_nat n :: 32 word) = n" by (simp add: unat_of_nat take_bit_nat_eq_self)
  then show ?thesis using assms by (simp add: unat_word_ariths)
qed

text \<open>
  Without a wrap-around, it calls again exactly when no body began; at the wrap-around it calls
  again although one did.
\<close>

lemma reconnect_again_iff:
  assumes "unat before + bodies < 2 ^ 32"
  shows "should_reconnect_again before bodies \<longleftrightarrow> bodies = 0"
  using word_add_of_nat_less [OF assms] by (simp add: should_reconnect_again_def word_le_nat_alt)

lemma reconnect_again_wrap: "should_reconnect_again (- 1) 1"
  by (simp add: should_reconnect_again_def)

section \<open>Invariant\<close>

text \<open>
  Of all the streams' contexts only the last is live: the older ones are cancelled, so an old
  stream is not left open.
\<close>

definition client_inv :: "'m Client \<Rightarrow> bool" where
  "client_inv c \<longleftrightarrow>
     (case cancelLast c of
        None \<Rightarrow> next_ctx c = 0 \<and> cancelled_ctxs c = {} \<and> \<not> connected c
      | Some l \<Rightarrow> next_ctx c = Suc l \<and> cancelled_ctxs c = {..<l} \<and>
          (connected c \<longrightarrow> (\<exists>st. stream c = Some st \<and> stream_ctx c st = l)))"

lemma client_inv_new: "client_inv NewClient"
  by (simp add: client_inv_def NewClient_def)

lemma client_inv_reconnect: "client_inv c \<Longrightarrow> client_inv (reconnect answer c)"
  by (cases "cancelLast c"; cases answer) (simp_all add: client_inv_def reconnect_def Let_def lessThan_Suc)

lemma client_inv_done: "client_inv c \<Longrightarrow> client_inv (c\<lparr>ctxTop_done := b\<rparr>)"
  by (simp add: client_inv_def split: option.splits)

lemma client_inv_DoWithClient: "client_inv c \<Longrightarrow> DoWithClient w c = (ok, st, c') \<Longrightarrow> client_inv c'"
  unfolding DoWithClient_def Let_def
  by (auto intro: client_inv_reconnect client_inv_done split: option.splits if_splits)

text \<open>A true result means that the operation succeeded on the current stream or the client is closed.\<close>

lemma DoWithClient_True:
  "DoWithClient w c = (True, st, c') \<Longrightarrow> (case st of Some t \<Rightarrow> stream c' = Some t | None \<Rightarrow> ctxTop_done c')"
  by (auto simp: DoWithClient_def Let_def split: option.splits if_splits)

section \<open>Sending a status\<close>

text \<open>
  The loop of \<open>SendSFUStatus\<close> over what the world does in its rounds; \<open>cancelled\<close> is whether the
  context of this send is cancelled when the round begins. The result is \<open>None\<close> while the loop
  has not returned.
\<close>

record 'm ISGLBClient =
  base :: "'m Client"
  top_done :: bool
  statuses_sent :: "(stream \<times> sfu_status) list"

fun SendSFUStatus :: "sfu_status \<Rightarrow> (bool \<times> world) list \<Rightarrow> 'm ISGLBClient \<Rightarrow> 'm ISGLBClient option" where
  "SendSFUStatus st [] c = None"
| "SendSFUStatus st ((cancelled, w) # ws) c =
     (if top_done c \<or> cancelled then Some c
      else case DoWithClient w (base c) of
             (ok, sent_on, b) \<Rightarrow>
               (let c1 = c\<lparr>base := b, statuses_sent := statuses_sent c @
                            (case sent_on of Some s \<Rightarrow> [(s, st)] | None \<Rightarrow> [])\<rparr> in
                if ok then Some c1 else SendSFUStatus st ws c1))"

text \<open>\<open>SendQualityReport\<close> tries once; the result tells on which stream it was sent, if it was.\<close>

definition SendQualityReport :: "quality_report \<Rightarrow> world \<Rightarrow> 'm ISGLBClient \<Rightarrow> stream option \<times> 'm ISGLBClient" where
  "SendQualityReport report w c =
     (case DoWithClient w (base c) of (ok, sent_on, b) \<Rightarrow> (sent_on, c\<lparr>base := b\<rparr>))"

text \<open>The status is sent once, unless the send is cancelled or the client is closed.\<close>

lemma SendSFUStatus_result:
  "SendSFUStatus st ws c = Some c' \<Longrightarrow>
   (\<exists>s. statuses_sent c' = statuses_sent c @ [(s, st)]) \<or>
   statuses_sent c' = statuses_sent c \<and>
     (top_done c \<or> ctxTop_done (base c') \<or> (\<exists>(cancelled, w) \<in> set ws. cancelled))"
proof (induction st ws c rule: SendSFUStatus.induct)
  case (2 st cancelled w ws c)
  show ?case
  proof (cases "top_done c \<or> cancelled")
    case True
    with 2(2) show ?thesis by auto
  next
    case False
    obtain ok sent_on b where do: "DoWithClient w (base c) = (ok, sent_on, b)" by (cases "DoWithClient w (base c)")
    have failed: "ok \<or> sent_on = None"
      using do by (auto simp: DoWithClient_def Let_def split: option.splits if_splits)
    show ?thesis
    proof (cases ok)
      case True
      with do False 2(2) DoWithClient_True [of w "base c" sent_on b] show ?thesis
        by (auto split: option.splits)
    next
      case not_ok: False
      with failed do False 2(2)
      have rest: "SendSFUStatus st ws (c\<lparr>base := b\<rparr>) = Some c'" by simp
      have "(\<exists>s. statuses_sent c' = statuses_sent (c\<lparr>base := b\<rparr>) @ [(s, st)]) \<or>
        statuses_sent c' = statuses_sent (c\<lparr>base := b\<rparr>) \<and>
        (top_done (c\<lparr>base := b\<rparr>) \<or> ctxTop_done (base c') \<or> (\<exists>(cancelled, w) \<in> set ws. cancelled))"
        using 2(1) [OF False do [symmetric]] failed not_ok rest by simp
      then show ?thesis by auto
    qed
  qed
qed simp

section \<open>Properties\<close>

lemma mod_add_le_iff:
  fixes u m N :: nat
  assumes "u < N" "m < N"
  shows "(u + m) mod N \<le> u \<longleftrightarrow> m = 0 \<or> N \<le> u + m"
proof (cases "u + m < N")
  case False
  then have "(u + m) mod N = u + m - N" using assms by (simp add: mod_if)
  with False assms show ?thesis by simp
qed auto

text \<open>
  \<open>Reconnect\<close> reconnects once more exactly when the 32 bit counter did not grow: when a
  multiple of \<open>2 ^ 32\<close> reconnections began meanwhile, or when the counter wrapped around.
\<close>

theorem reconnect_again_exactly:
  "should_reconnect_again before bodies \<longleftrightarrow>
     bodies mod 2 ^ 32 = 0 \<or> unat before + bodies mod 2 ^ 32 \<ge> 2 ^ 32"
proof -
  have n: "unat (of_nat bodies :: 32 word) = bodies mod 2 ^ 32"
    by (simp add: unat_of_nat take_bit_eq_mod)
  have "unat before < 2 ^ 32" "bodies mod 2 ^ 32 < (2::nat) ^ 32"
    using unsigned_less [of before] by simp_all
  note wrap = mod_add_le_iff [OF this]
  have "unat (before + of_nat bodies) = (unat before + bodies mod 2 ^ 32) mod 2 ^ 32"
    by (simp only: unat_word_ariths n) simp
  then show ?thesis
    unfolding should_reconnect_again_def word_le_nat_alt by (simp only: wrap)
qed

lemma SendSFUStatus_inv: "SendSFUStatus st ws c = Some c' \<Longrightarrow> client_inv (base c) \<Longrightarrow> client_inv (base c')"
proof (induction st ws c rule: SendSFUStatus.induct)
  case (2 st cancelled w ws c)
  show ?case
  proof (cases "top_done c \<or> cancelled")
    case True
    with 2(2,3) show ?thesis by auto
  next
    case False
    obtain ok sent_on b where do: "DoWithClient w (base c) = (ok, sent_on, b)" by (cases "DoWithClient w (base c)")
    then have inv: "client_inv b" by (rule client_inv_DoWithClient [OF 2(3)])
    show ?thesis
    proof (cases ok)
      case True
      with do False 2(2) inv show ?thesis by auto
    next
      case not_ok: False
      with do False 2(2) have rest: "SendSFUStatus st ws (c\<lparr>base := b, statuses_sent := statuses_sent c @
          (case sent_on of Some s \<Rightarrow> [(s, st)] | None \<Rightarrow> [])\<rparr>) = Some c'" by simp
      show ?thesis by (rule 2(1) [OF False do [symmetric] refl refl]) (use not_ok rest inv in simp_all)
    qed
  qed
qed simp

text \<open>
  When \<open>SendSFUStatus\<close> returns, the status was sent exactly once, on one stream, or it was not
  sent and the send was cancelled or the client closed; and of the client's streams only the newest
  is still open.
\<close>

theorem status_sent_once:
  assumes "SendSFUStatus st ws c = Some c'" and "client_inv (base c)"
  shows "client_inv (base c') \<and>
    ((\<exists>s. statuses_sent c' = statuses_sent c @ [(s, st)]) \<or>
     statuses_sent c' = statuses_sent c \<and>
       (top_done c \<or> ctxTop_done (base c') \<or> (\<exists>(cancelled, w) \<in> set ws. cancelled)))"
  using SendSFUStatus_result [OF assms(1)] SendSFUStatus_inv [OF assms] by simp

definition sample_status :: sfu_status where
  "sample_status = \<lparr>SFU = None, ForwardTracks = [], ProceedTracks = [], Clients = []\<rparr>"

theorem status_sent_once_witness:
  "\<exists>c'. SendSFUStatus sample_status
      [(False, \<lparr>op_ok = True, closed_meanwhile = False, factory_answer = Some 3\<rparr>),
       (False, \<lparr>op_ok = True, closed_meanwhile = False, factory_answer = None\<rparr>)]
      \<lparr>base = (NewClient :: nat Client), top_done = False, statuses_sent = []\<rparr> = Some c' \<and>
    statuses_sent c' = [(3, sample_status)] \<and> client_inv (base c')"
proof -
  let ?c = "\<lparr>base = (NewClient :: nat Client), top_done = False, statuses_sent = []\<rparr>"
  let ?ws = "[(False, \<lparr>op_ok = True, closed_meanwhile = False, factory_answer = Some 3\<rparr>),
       (False, \<lparr>op_ok = True, closed_meanwhile = False, factory_answer = None\<rparr>)]"
  obtain c' where c': "SendSFUStatus sample_status ?ws ?c = Some c'" "statuses_sent c' = [(3, sample_status)]"
    by (simp add: DoWithClient_def NewClient_def reconnect_def Let_def)
  have "client_inv (base ?c)" by (simp add: client_inv_new)
  from status_sent_once [OF c'(1) this] c' show ?thesis by simp
qed

end
