(* ===== verification/ISLB_Node.thy ===== *)
theory ISLB_Node
  imports Proto_Items
begin

text \<open>
  Service discovery: the registry of \<open>pkg/islb/registry.go\<close>, the node of \<open>pkg/islb/node.go\<close>
  with its neighbours and its RPC clients, the connection pool of \<open>pkg/sxu/connpool.go\<close> and the
  client factory of \<open>pkg/sxu/room/selector.go\<close>. NATS, nats-discovery and nats-grpc are not part of
  the repository: the identifier of a node (\<open>node.ID()\<close>), the answer of \<open>ndc.Get\<close>, the random
  client identifier and the result of \<open>CloseStream\<close> are arguments.
\<close>

section \<open>The registry\<close>

datatype action = Save | Update_Node | Delete | Other_Action

record Registry =
  dc :: string
  nodes :: "(string, discovery_node) gomap"

definition NewRegistry :: "string \<Rightarrow> Registry" where
  "NewRegistry d = \<lparr>dc = d, nodes = Map.empty\<rparr>"

definition handleNodeAction ::
    "(discovery_node \<Rightarrow> string) \<Rightarrow> action \<Rightarrow> discovery_node \<Rightarrow> Registry \<Rightarrow> bool \<times> Registry" where
  "handleNodeAction ID act node r =
     (True,
      case act of
        Save \<Rightarrow> r\<lparr>nodes := (nodes r)(ID node \<mapsto> node)\<rparr>
      | Update_Node \<Rightarrow> r\<lparr>nodes := (nodes r)(ID node \<mapsto> node)\<rparr>
      | Delete \<Rightarrow> r\<lparr>nodes := (nodes r)(ID node := None)\<rparr>
      | Other_Action \<Rightarrow> r)"

definition handleGetNodes :: "string range_order \<Rightarrow> string \<Rightarrow> Registry \<Rightarrow> discovery_node list" where
  "handleGetNodes ord service r =
     filter (\<lambda>item. DN_Service item = service \<or> service = ''*'')
       (map (\<lambda>k. the (nodes r k)) (visit ord (dom (nodes r))))"

fun registry_run :: "(discovery_node \<Rightarrow> string) \<Rightarrow> (action \<times> discovery_node) list \<Rightarrow> Registry \<Rightarrow> Registry" where
  "registry_run ID [] r = r"
| "registry_run ID ((act, node) # rest) r = registry_run ID rest (snd (handleNodeAction ID act node r))"

text \<open>A node is registered exactly when the last action that concerned it was not its deletion.\<close>

definition concerns :: "(discovery_node \<Rightarrow> string) \<Rightarrow> string \<Rightarrow> action \<times> discovery_node \<Rightarrow> bool" where
  "concerns ID k e \<longleftrightarrow> ID (snd e) = k \<and> fst e \<noteq> Other_Action"

lemma registry_run_lookup:
  "nodes (registry_run ID es r) k =
     (case last_such (concerns ID k) es of
        None \<Rightarrow> nodes r k
      | Some (act, node) \<Rightarrow> if act = Delete then None else Some node)"
proof (induction es arbitrary: r)
  case (Cons e es)
  obtain act node where e: "e = (act, node)" by (cases e)
  show ?case
    by (cases act) (auto simp: Cons e handleNodeAction_def concerns_def split: option.split prod.split)
qed simp

lemma registry_run_finite: "finite (dom (nodes r)) \<Longrightarrow> finite (dom (nodes (registry_run ID es r)))"
proof (induction es arbitrary: r)
  case (Cons e es)
  then show ?case by (cases e; cases "fst e") (simp_all add: handleNodeAction_def)
qed simp

lemma handleGetNodes_set:
  assumes "finite (dom (nodes r))"
  shows "set (handleGetNodes ord service r) =
    {n. (\<exists>k. nodes r k = Some n) \<and> (DN_Service n = service \<or> service = ''*'')}"
  using assms by (force simp: handleGetNodes_def)

section \<open>The node\<close>

text \<open>A client of nats-grpc knows its peer; \<open>serial\<close> tells clients apart.\<close>

record nrpc_client =
  cl_peer :: string
  cl_self :: string
  serial :: nat

datatype node_state = NodeUp | NodeDown | Other_State

text \<open>\<open>created\<close> counts the clients made so far.\<close>

record Node =
  node_NID :: string
  neighborNodes :: "(string, discovery_node) gomap"
  clis :: "(string, nrpc_client) gomap"
  created :: nat

definition NewNode :: "string \<Rightarrow> Node" where
  "NewNode nid = \<lparr>node_NID = nid, neighborNodes = Map.empty, clis = Map.empty, created = 0\<rparr>"

definition new_nrpc_client :: "string \<Rightarrow> Node \<Rightarrow> nrpc_client \<times> Node" where
  "new_nrpc_client peer n =
     (\<lparr>cl_peer = peer, cl_self = node_NID n, serial = created n\<rparr>, n\<lparr>created := created n + 1\<rparr>)"

text \<open>The two loops that look for a peer; a later match replaces an earlier one.\<close>

fun pick_neighbor :: "string \<Rightarrow> string \<Rightarrow> string list \<Rightarrow> nrpc_client option \<times> Node \<Rightarrow> nrpc_client option \<times> Node" where
  "pick_neighbor service peerNID [] acc = acc"
| "pick_neighbor service peerNID (nid # nids) (cli, n) =
     (if DN_Service (the (neighborNodes n nid)) = service \<and> (nid = peerNID \<or> peerNID = ''*'')
      then (let (c, n1) = new_nrpc_client nid n in pick_neighbor service peerNID nids (Some c, n1))
      else pick_neighbor service peerNID nids (cli, n))"

fun pick_discovered :: "string \<Rightarrow> discovery_node list \<Rightarrow> nrpc_client option \<times> Node \<Rightarrow> nrpc_client option \<times> Node" where
  "pick_discovered peerNID [] acc = acc"
| "pick_discovered peerNID (d # ds) (cli, n) =
     (if NID d = peerNID \<or> peerNID = ''*''
      then (let (c, n1) = new_nrpc_client (NID d) n in pick_discovered peerNID ds (Some c, n1))
      else pick_discovered peerNID ds (cli, n))"

datatype node_error = Get_Failed | No_Nodes | No_Peer

text \<open>\<open>discovered\<close> is the answer of \<open>ndc.Get\<close>, \<open>ID\<close> the random identifier of the new client.\<close>

definition NewNatsRPCClientWithID ::
    "string range_order \<Rightarrow> discovery_node list option \<Rightarrow> string \<Rightarrow> string \<Rightarrow> string \<Rightarrow> Node
      \<Rightarrow> (node_error + nrpc_client \<times> string) \<times> Node" where
  "NewNatsRPCClientWithID ord discovered ID service peerNID n =
     (let register = (\<lambda>r. case r of
            (None, n1) \<Rightarrow> (Inl No_Peer, n1)
          | (Some cli, n1) \<Rightarrow> (Inr (cli, ID), n1\<lparr>clis := (clis n1)(ID \<mapsto> cli)\<rparr>)) in
      case pick_neighbor service peerNID (visit ord (dom (neighborNodes n))) (None, n) of
        (Some cli, n1) \<Rightarrow> register (Some cli, n1)
      | (None, n1) \<Rightarrow>
          (case discovered of
             None \<Rightarrow> (Inl Get_Failed, n1)
           | Some ds \<Rightarrow>
               if length ds = 0 then (Inl No_Nodes, n1)
               else register (pick_discovered peerNID ds (None, n1))))"

definition NewNatsRPCClient ::
    "string range_order \<Rightarrow> discovery_node list option \<Rightarrow> string \<Rightarrow> string \<Rightarrow> string \<Rightarrow> Node
      \<Rightarrow> (node_error + nrpc_client) \<times> Node" where
  "NewNatsRPCClient ord discovered ID service peerNID n =
     (case NewNatsRPCClientWithID ord discovered ID service peerNID n of
        (Inl err, n1) \<Rightarrow> (Inl err, n1)
      | (Inr (cli, _), n1) \<Rightarrow> (Inr cli, n1))"

definition NatsRPCClientByID :: "string \<Rightarrow> Node \<Rightarrow> nrpc_client option" where
  "NatsRPCClientByID ID n = clis n ID"

definition GetNeighborNodes :: "Node \<Rightarrow> (string, discovery_node) gomap" where
  "GetNeighborNodes n = neighborNodes n"

text \<open>\<open>closes\<close> is the result of a client's \<open>CloseStream\<close> for a peer.\<close>

definition handleNeighborNodes ::
    "(nrpc_client \<Rightarrow> string \<Rightarrow> bool) \<Rightarrow> node_state \<Rightarrow> discovery_node \<Rightarrow> Node \<Rightarrow> Node" where
  "handleNeighborNodes closes state node n =
     (case state of
        NodeUp \<Rightarrow>
          if neighborNodes n (NID node) = None
          then n\<lparr>neighborNodes := (neighborNodes n)(NID node \<mapsto> node)\<rparr> else n
      | NodeDown \<Rightarrow>
          n\<lparr>neighborNodes := (neighborNodes n)(NID node := None),
            clis := (\<lambda>cid. case clis n cid of
                       Some cli \<Rightarrow> if closes cli (NID node) then None else Some cli
                     | None \<Rightarrow> None)\<rparr>
      | Other_State \<Rightarrow> n)"

text \<open>The part of \<open>Watch\<close> before the subscription: the nodes found are up.\<close>

definition Watch_found :: "(nrpc_client \<Rightarrow> string \<Rightarrow> bool) \<Rightarrow> discovery_node list \<Rightarrow> Node \<Rightarrow> Node" where
  "Watch_found closes ds n = foldl (\<lambda>n d. handleNeighborNodes closes NodeUp d n) n ds"

text \<open>What the two searches find is a client for the peer that was asked for.\<close>

lemma pick_neighbor_frame:
  "pick_neighbor service peer nids (cli, n) = (cli', n') \<Longrightarrow>
   clis n' = clis n \<and> neighborNodes n' = neighborNodes n \<and> node_NID n' = node_NID n \<and> created n \<le> created n'"
proof (induction nids arbitrary: cli n)
  case (Cons nid nids)
  then show ?case by (fastforce simp: new_nrpc_client_def Let_def split: if_splits)
qed simp

lemma pick_discovered_frame:
  "pick_discovered peer ds (cli, n) = (cli', n') \<Longrightarrow>
   clis n' = clis n \<and> neighborNodes n' = neighborNodes n \<and> node_NID n' = node_NID n \<and> created n \<le> created n'"
proof (induction ds arbitrary: cli n)
  case (Cons d ds)
  then show ?case by (fastforce simp: new_nrpc_client_def Let_def split: if_splits)
qed simp

lemma pick_neighbor_peer:
  "pick_neighbor service peer nids (cli, n) = (cli', n') \<Longrightarrow> (\<And>c. cli = Some c \<Longrightarrow> P (cl_peer c)) \<Longrightarrow>
   (\<And>nid. nid \<in> set nids \<Longrightarrow> DN_Service (the (neighborNodes n nid)) = service \<Longrightarrow>
      nid = peer \<or> peer = ''*'' \<Longrightarrow> P nid) \<Longrightarrow> cli' = Some c' \<Longrightarrow> P (cl_peer c')"
proof (induction nids arbitrary: cli n)
  case (Cons nid nids)
  show ?case
  proof (cases "DN_Service (the (neighborNodes n nid)) = service \<and> (nid = peer \<or> peer = ''*'')")
    case True
    let ?c = "fst (new_nrpc_client nid n)" and ?n = "snd (new_nrpc_client nid n)"
    have "pick_neighbor service peer nids (Some ?c, ?n) = (cli', n')"
      using Cons.prems(1) True by (simp add: Let_def split: prod.splits)
    then show ?thesis
      by (rule Cons.IH) (use True Cons.prems in \<open>auto simp: new_nrpc_client_def\<close>)
  next
    case False
    then have "pick_neighbor service peer nids (cli, n) = (cli', n')"
      using Cons.prems(1) by (auto split: if_splits)
    then show ?thesis by (rule Cons.IH) (use Cons.prems in auto)
  qed
qed simp

lemma pick_discovered_peer:
  "pick_discovered peer ds (cli, n) = (cli', n') \<Longrightarrow> (\<And>c. cli = Some c \<Longrightarrow> P (cl_peer c)) \<Longrightarrow>
   (\<And>d. d \<in> set ds \<Longrightarrow> NID d = peer \<or> peer = ''*'' \<Longrightarrow> P (NID d)) \<Longrightarrow> cli' = Some c' \<Longrightarrow> P (cl_peer c')"
proof (induction ds arbitrary: cli n)
  case (Cons d ds)
  show ?case
  proof (cases "NID d = peer \<or> peer = ''*''")
    case True
    let ?c = "fst (new_nrpc_client (NID d) n)" and ?n = "snd (new_nrpc_client (NID d) n)"
    have "pick_discovered peer ds (Some ?c, ?n) = (cli', n')"
      using Cons.prems(1) True by (auto simp: Let_def split: prod.splits if_splits)
    then show ?thesis
      by (rule Cons.IH) (use True Cons.prems in \<open>auto simp: new_nrpc_client_def\<close>)
  next
    case False
    then have "pick_discovered peer ds (cli, n) = (cli', n')"
      using Cons.prems(1) by (auto split: if_splits)
    then show ?thesis by (rule Cons.IH) (use Cons.prems in auto)
  qed
qed simp

text \<open>
  The outcome of a successful call: the client is for the peer that was asked for and is
  registered under its identifier; nothing else changes.
\<close>

lemma NewNatsRPCClientWithID_Inr:
  assumes "NewNatsRPCClientWithID ord discovered ID service peer n = (Inr (cli, ID'), n')"
    "finite (dom (neighborNodes n))"
  shows "ID' = ID" "clis n' = (clis n)(ID \<mapsto> cli)" "peer \<noteq> ''*'' \<Longrightarrow> cl_peer cli = peer"
    "neighborNodes n' = neighborNodes n"
proof -
  let ?nids = "visit ord (dom (neighborNodes n))"
  obtain c1 n1 where nb: "pick_neighbor service peer ?nids (None, n) = (c1, n1)" by fastforce
  obtain m where m: "ID' = ID" "n' = m\<lparr>clis := (clis m)(ID \<mapsto> cli)\<rparr>"
    and origin: "(c1, n1) = (Some cli, m) \<or> (\<exists>ds. pick_discovered peer ds (None, n1) = (Some cli, m))"
  proof (cases c1)
    case None
    with assms(1) nb obtain ds m where "pick_discovered peer ds (None, n1) = (Some cli, m)"
      "ID' = ID" "n' = m\<lparr>clis := (clis m)(ID \<mapsto> cli)\<rparr>"
      by (auto simp: NewNatsRPCClientWithID_def Let_def split: option.splits prod.splits if_splits)
    then show thesis by (intro that [of m]) auto
  next
    case (Some c)
    with assms(1) nb show thesis
      by (intro that [of n1]) (auto simp: NewNatsRPCClientWithID_def Let_def)
  qed
  have "clis m = clis n \<and> neighborNodes m = neighborNodes n"
    using origin pick_neighbor_frame [OF nb] by (auto dest: pick_discovered_frame)
  with m show "ID' = ID" "clis n' = (clis n)(ID \<mapsto> cli)" "neighborNodes n' = neighborNodes n" by simp_all
  show "cl_peer cli = peer" if "peer \<noteq> ''*''"
    using origin
  proof
    assume "(c1, n1) = (Some cli, m)"
    with pick_neighbor_peer [OF nb, of "\<lambda>p. p = peer" cli] that show ?thesis by simp
  next
    assume "\<exists>ds. pick_discovered peer ds (None, n1) = (Some cli, m)"
    then obtain ds where ds: "pick_discovered peer ds (None, n1) = (Some cli, m)" ..
    from pick_discovered_peer [OF ds, of "\<lambda>p. p = peer" cli] that show ?thesis by simp
  qed
qed

section \<open>The connection pool\<close>

text \<open>Per service, the client identifier of each peer.\<close>

type_synonym connID = string

type_synonym peerConnList = "(string, connID) gomap"

record NRPCConnPool =
  pool_node :: Node
  connList :: "(string, peerConnList) gomap"

definition NewNRPCConnPool :: "Node \<Rightarrow> NRPCConnPool" where
  "NewNRPCConnPool n = \<lparr>pool_node = n, connList = Map.empty\<rparr>"

definition create_conn ::
    "string range_order \<Rightarrow> discovery_node list option \<Rightarrow> string \<Rightarrow> string \<Rightarrow> string \<Rightarrow> peerConnList
      \<Rightarrow> NRPCConnPool \<Rightarrow> (node_error + nrpc_client) \<times> NRPCConnPool" where
  "create_conn ord discovered ID service peerNID pcl p =
     (case NewNatsRPCClientWithID ord discovered ID service peerNID (pool_node p) of
        (Inl err, n1) \<Rightarrow> (Inl err, p\<lparr>pool_node := n1\<rparr>)
      | (Inr (conn, cid), n1) \<Rightarrow>
          (Inr conn, p\<lparr>pool_node := n1, connList := (connList p)(service \<mapsto> pcl(peerNID \<mapsto> cid))\<rparr>))"

definition GetConn ::
    "string range_order \<Rightarrow> discovery_node list option \<Rightarrow> string \<Rightarrow> string \<Rightarrow> string
      \<Rightarrow> NRPCConnPool \<Rightarrow> (node_error + nrpc_client) \<times> NRPCConnPool" where
  "GetConn ord discovered ID service peerNID p =
     (case connList p service of
        Some pcl \<Rightarrow>
          (case pcl peerNID of
             Some cid \<Rightarrow>
               (case NatsRPCClientByID cid (pool_node p) of
                  Some conn \<Rightarrow> (Inr conn, p)
                | None \<Rightarrow> create_conn ord discovered ID service peerNID pcl p)
           | None \<Rightarrow> create_conn ord discovered ID service peerNID pcl p)
      | None \<Rightarrow> create_conn ord discovered ID service peerNID Map.empty p)"

text \<open>
  The identifiers the pool has given out are its own: no two entries share one, and a client
  found under one is for the entry's peer.
\<close>

definition pooled :: "NRPCConnPool \<Rightarrow> string \<Rightarrow> string \<Rightarrow> connID option" where
  "pooled p service peer = (case connList p service of None \<Rightarrow> None | Some pcl \<Rightarrow> pcl peer)"

definition pool_inv :: "NRPCConnPool \<Rightarrow> bool" where
  "pool_inv p \<longleftrightarrow>
     finite (dom (neighborNodes (pool_node p))) \<and>
     (\<forall>service peer cid cli. pooled p service peer = Some cid \<longrightarrow> clis (pool_node p) cid = Some cli \<longrightarrow>
        peer \<noteq> ''*'' \<longrightarrow> cl_peer cli = peer)"

definition fresh_ID :: "string \<Rightarrow> NRPCConnPool \<Rightarrow> bool" where
  "fresh_ID ID p \<longleftrightarrow> (\<forall>service peer. pooled p service peer \<noteq> Some ID)"

lemma GetConn_cases:
  assumes "GetConn ord discovered ID service peer p = (Inr conn, p')"
  obtains (cached) cid where "pooled p service peer = Some cid" "clis (pool_node p) cid = Some conn" "p' = p"
    | (created) pcl n' where
      "NewNatsRPCClientWithID ord discovered ID service peer (pool_node p) = (Inr (conn, ID), n')"
      "pcl = (case connList p service of None \<Rightarrow> Map.empty | Some pcl \<Rightarrow> pcl)"
      "p' = p\<lparr>pool_node := n', connList := (connList p)(service \<mapsto> pcl(peer \<mapsto> ID))\<rparr>"
proof -
  have make: thesis if c: "create_conn ord discovered ID service peer pcl p = (Inr conn, p')"
    and pcl: "pcl = (case connList p service of None \<Rightarrow> Map.empty | Some pcl \<Rightarrow> pcl)" for pcl
  proof -
    obtain cid n' where new: "NewNatsRPCClientWithID ord discovered ID service peer (pool_node p) = (Inr (conn, cid), n')"
      and p': "p' = p\<lparr>pool_node := n', connList := (connList p)(service \<mapsto> pcl(peer \<mapsto> cid))\<rparr>"
      using c by (auto simp: create_conn_def split: prod.splits sum.splits)
    have "cid = ID" using new
      by (auto simp: NewNatsRPCClientWithID_def Let_def split: option.splits prod.splits if_splits)
    with new p' pcl show thesis by (intro created) simp_all
  qed
  show thesis
    using assms make
    by (auto simp: GetConn_def NatsRPCClientByID_def pooled_def intro: cached split: option.splits)
qed

lemma pooled_update:
  "pooled (p\<lparr>pool_node := n, connList := (connList p)(service \<mapsto>
     (case connList p service of None \<Rightarrow> Map.empty | Some pcl \<Rightarrow> pcl)(peer \<mapsto> ID))\<rparr>) service' peer' =
   (if service' = service \<and> peer' = peer then Some ID else pooled p service' peer')"
  by (simp add: pooled_def split: option.split)

lemma GetConn_pool:
  assumes "GetConn ord discovered ID service peer p = (Inr conn, p')" "pool_inv p" "fresh_ID ID p"
    "peer \<noteq> ''*''"
  shows "pool_inv p'" "cl_peer conn = peer"
    and "GetConn ord' discovered' ID' service peer p' = (Inr conn, p')"
proof -
  have fin: "finite (dom (neighborNodes (pool_node p)))" using assms(2) by (simp add: pool_inv_def)
  have "pool_inv p' \<and> cl_peer conn = peer \<and> GetConn ord' discovered' ID' service peer p' = (Inr conn, p')"
    using assms(1)
  proof (cases rule: GetConn_cases)
    case (cached cid)
    with assms(2,4) have "cl_peer conn = peer" by (auto simp: pool_inv_def)
    with cached assms(1,2) show ?thesis
      by (auto simp: GetConn_def NatsRPCClientByID_def pooled_def split: option.splits)
  next
    case (created pcl n')
    note new = NewNatsRPCClientWithID_Inr [OF created(1) fin]
    have pooled: "pooled p' s q = (if s = service \<and> q = peer then Some ID else pooled p s q)" for s q
      unfolding created(2,3) by (rule pooled_update)
    have "pool_node p' = n'" by (simp add: created(3))
    with pooled new assms(2-4) have "pool_inv p'"
      by (auto simp: pool_inv_def fresh_ID_def split: if_splits)
    moreover have "GetConn ord' discovered' ID' service peer p' = (Inr conn, p')"
      by (simp add: GetConn_def created(3) NatsRPCClientByID_def new(2))
    ultimately show ?thesis using new(3) assms(4) by simp
  qed
  then show "pool_inv p'" "cl_peer conn = peer"
    and "GetConn ord' discovered' ID' service peer p' = (Inr conn, p')" by simp_all
qed

section \<open>FirstClientFactory\<close>

definition ServiceSXU :: string where "ServiceSXU = ''rtc''"

text \<open>
  The first neighbour that is an SXU is asked for; when that fails the nil client is returned,
  although the log says that the next one is tried.
\<close>

fun first_client ::
    "string range_order \<Rightarrow> discovery_node list option \<Rightarrow> string \<Rightarrow> string list \<Rightarrow> Node
      \<Rightarrow> nrpc_client option \<times> Node" where
  "first_client ord discovered ID [] n = (None, n)"
| "first_client ord discovered ID (nid # nids) n =
     (let node = the (neighborNodes n nid) in
      if DN_Service node = ServiceSXU
      then (case NewNatsRPCClient ord discovered ID ServiceSXU (NID node) n of
              (Inl err, n1) \<Rightarrow> (None, n1)
            | (Inr cli, n1) \<Rightarrow> (Some cli, n1))
      else first_client ord discovered ID nids n)"

definition FirstClientFactory_NewClient ::
    "string range_order \<Rightarrow> string range_order \<Rightarrow> discovery_node list option \<Rightarrow> string \<Rightarrow> Node
      \<Rightarrow> nrpc_client option \<times> Node" where
  "FirstClientFactory_NewClient ord ord' discovered ID n =
     first_client ord' discovered ID (visit ord (dom (GetNeighborNodes n))) n"

section \<open>Properties\<close>

text \<open>
  A registry that has handled a sequence of actions returns, for a service, exactly the nodes
  of that service whose last action was to be saved or updated, and all of them for \<open>*\<close>.
\<close>

theorem registry_returns_alive:
  "set (handleGetNodes ord service (registry_run ID es (NewRegistry d))) =
     {n. (\<exists>k act. last_such (concerns ID k) es = Some (act, n) \<and> act \<noteq> Delete) \<and>
         (DN_Service n = service \<or> service = ''*'')}"
proof -
  have "finite (dom (nodes (NewRegistry d)))" by (simp add: NewRegistry_def)
  then have "finite (dom (nodes (registry_run ID es (NewRegistry d))))" by (rule registry_run_finite)
  moreover have "nodes (registry_run ID es (NewRegistry d)) k = Some n \<longleftrightarrow>
      (\<exists>act. last_such (concerns ID k) es = Some (act, n) \<and> act \<noteq> Delete)" for k n
    by (auto simp: registry_run_lookup NewRegistry_def split: option.splits prod.splits if_splits)
  ultimately show ?thesis by (simp add: handleGetNodes_set)
qed

text \<open>
  A connection that \<open>GetConn\<close> returns is to the peer that was asked for; asking again returns
  the same connection and creates no other, whatever discovery answers by then.
\<close>

theorem pool_reuses_connection:
  assumes "GetConn ord discovered ID service peer p = (Inr conn, p')" and "pool_inv p"
    and "fresh_ID ID p" and "peer \<noteq> ''*''"
  shows "pool_inv p' \<and> cl_peer conn = peer \<and> GetConn ord' discovered' ID' service peer p' = (Inr conn, p')"
  using GetConn_pool [OF assms] by simp

theorem pool_reuses_connection_witness:
  "\<exists>conn p'. GetConn ascending (Some [\<lparr>DC = ''d'', DN_Service = ''rtc'', NID = ''b'',
        RPC = \<lparr>Protocol = [], RPC_Addr = [], Params = Map.empty\<rparr>, ExtraInfo = Map.empty\<rparr>])
      ''id'' ''rtc'' ''b'' (NewNRPCConnPool (NewNode ''a'')) = (Inr conn, p') \<and> cl_peer conn = ''b'' \<and>
    GetConn ascending None ''other'' ''rtc'' ''b'' p' = (Inr conn, p')"
proof -
  let ?d = "\<lparr>DC = ''d'', DN_Service = ''rtc'', NID = ''b'',
        RPC = \<lparr>Protocol = [], RPC_Addr = [], Params = Map.empty\<rparr>, ExtraInfo = Map.empty\<rparr>"
  let ?p = "NewNRPCConnPool (NewNode ''a'')"
  obtain conn p' where conn: "GetConn ascending (Some [?d]) ''id'' ''rtc'' ''b'' ?p = (Inr conn, p')"
    by (simp add: GetConn_def NewNRPCConnPool_def create_conn_def NewNatsRPCClientWithID_def NewNode_def
        new_nrpc_client_def Let_def)
  have inv: "pool_inv ?p" "fresh_ID ''id'' ?p"
    by (simp_all add: pool_inv_def fresh_ID_def pooled_def NewNRPCConnPool_def NewNode_def)
  have "''b'' \<noteq> ''*''" by simp
  from pool_reuses_connection [OF conn inv this] conn show ?thesis by blast
qed

end
