(* ===== verification/RTC_Messages.thy ===== *)
theory RTC_Messages
  imports Dion_Messages
begin

text \<open>
  The messages of ion's RTC protocol as the repository builds and reads them: the client side in
  \<open>pkg/sfu\<close> and \<open>pkg/sxu/rtc\<close>, the server side in \<open>pkg/sfu/service.go\<close>. Only fields that the
  repository sets or reads are kept; a pointer that may be nil is an option. The error codes are
  constants of another package and have names only.
\<close>

type_synonym target = "32 word"

definition Target_PUBLISHER :: target where "Target_PUBLISHER = 0"

definition Target_SUBSCRIBER :: target where "Target_SUBSCRIBER = 1"

lemma targets_differ [simp]:
  "Target_PUBLISHER \<noteq> Target_SUBSCRIBER" "Target_SUBSCRIBER \<noteq> Target_PUBLISHER"
  by (simp_all add: Target_PUBLISHER_def Target_SUBSCRIBER_def)

record session_description =
  SD_Target :: target
  SD_Type :: string
  SD_Sdp :: string

record subscription_info =
  SI_TrackId :: string
  SI_Mute :: bool
  SI_Subscribe :: bool
  SI_Layer :: string

datatype error_code = InternalError | UnsupportedMediaType | Other_Code "32 word"

record rtc_err =
  Err_Code :: error_code
  Err_Reason :: string

datatype track_state = TrackEvent_ADD | TrackEvent_UPDATE | TrackEvent_REMOVE

record track_info =
  TI_Id :: string
  TI_Kind :: string
  TI_StreamId :: string
  TI_Muted :: bool
  TI_Layer :: string

text \<open>\<open>Request_Other\<close> and \<open>Reply_Unknown\<close> stand for a payload the receiver has no case for.\<close>

datatype rtc_request =
    Request_Join string string "(string, string) gomap" "session_description option"
  | Request_Trickle target string
  | Request_Description session_description
  | Request_Subscription "subscription_info list"
  | Request_Other

datatype rtc_reply =
    Reply_Join bool "rtc_err option" "session_description option"
  | Reply_Description session_description
  | Reply_Trickle target string
  | Reply_TrackEvent string track_state "track_info list"
  | Reply_Subscription bool "rtc_err option"
  | Reply_Error rtc_err
  | Reply_Unknown

text \<open>What a stream's \<open>Recv\<close> fails with: its end, a cancelled context, anything else.\<close>

datatype recv_error = EOF | Canceled string | Other_Error string

text \<open>How the code reads a flag of a join's configuration.\<close>

definition config_flag :: "(string, string) gomap \<Rightarrow> string \<Rightarrow> bool" where
  "config_flag config name = (case config name of Some val \<Rightarrow> val = ''true'' | None \<Rightarrow> False)"

end
