(* ===== verification/RTC_Peer.thy ===== *)
theory RTC_Peer
  imports RTC_Messages
begin

text \<open>
  The upstream connection of \<open>pkg/sxu/rtc\<close>: an \<open>RTC\<close> joins a session of the local SFU and one of a
  remote SFU, answers the offers of the remote, exchanges candidates and asks for layers. The
  stream, the peer of ion-sfu and the JSON encoding of candidates are not part of the repository:
  what they answer is an argument of every operation (\<open>env\<close>), a function of the calls made so far,
  so they may keep state; every call on them is appended to a log. Descriptions are their texts.
\<close>

section \<open>Calls\<close>

datatype 'c rtc_io =
    Send rtc_request
  | CloseSend
  | Peer_Join string
  | Peer_Answer string
  | Peer_Trickle 'c target

record 'c env =
  send_error :: "'c rtc_io list \<Rightarrow> string option"
  join_error :: "'c rtc_io list \<Rightarrow> string option"
  answer_of :: "'c rtc_io list \<Rightarrow> string + string"
  trickle_error :: "'c rtc_io list \<Rightarrow> string option"
  marshal :: "'c \<Rightarrow> string + string"
  unmarshal :: "string \<Rightarrow> 'c"
  error_text :: "rtc_err option \<Rightarrow> string"

record 'c RTC =
  uid :: string
  io :: "'c rtc_io list"

definition NewRTC :: "string \<Rightarrow> 'c RTC" where
  "NewRTC peerID = \<lparr>uid = peerID, io = []\<rparr>"

definition call :: "'c rtc_io \<Rightarrow> 'c RTC \<Rightarrow> 'c RTC" where
  "call c r = r\<lparr>io := io r @ [c]\<rparr>"

section \<open>Requests\<close>

text \<open>Every operation returns its error, if it has one, and the state.\<close>

definition stream_Send :: "'c env \<Rightarrow> rtc_request \<Rightarrow> 'c RTC \<Rightarrow> string option \<times> 'c RTC" where
  "stream_Send E request r = (let r1 = call (Send request) r in (send_error E (io r1), r1))"

definition join_config :: "(string, string) gomap" where
  "join_config =
     [''NoPublish'' \<mapsto> ''true'', ''NoSubscribe'' \<mapsto> ''false'', ''NoAutoSubscribe'' \<mapsto> ''false'']"

definition SendJoin :: "'c env \<Rightarrow> string \<Rightarrow> string \<Rightarrow> 'c RTC \<Rightarrow> string option \<times> 'c RTC" where
  "SendJoin E sid u r = stream_Send E (Request_Join sid u join_config None) r"

definition SendTrickleInit :: "'c env \<Rightarrow> 'c \<Rightarrow> target \<Rightarrow> 'c RTC \<Rightarrow> string option \<times> 'c RTC" where
  "SendTrickleInit E candidate t r =
     (case marshal E candidate of
        Inl err \<Rightarrow> (Some err, r)
      | Inr bytes \<Rightarrow> stream_Send E (Request_Trickle t bytes) r)"

definition SendAnswer :: "'c env \<Rightarrow> string \<Rightarrow> 'c RTC \<Rightarrow> string option \<times> 'c RTC" where
  "SendAnswer E sdp r = stream_Send E (Request_Description \<lparr>SD_Target = Target_SUBSCRIBER, SD_Type = ''answer'', SD_Sdp = sdp\<rparr>) r"

definition Subscribe :: "'c env \<Rightarrow> subscription_info list \<Rightarrow> 'c RTC \<Rightarrow> string option \<times> 'c RTC" where
  "Subscribe E trackInfos r =
     (if length trackInfos = 0 then (None, r) else stream_Send E (Request_Subscription trackInfos) r)"

section \<open>The local peer\<close>

definition Join :: "'c env \<Rightarrow> string \<Rightarrow> 'c RTC \<Rightarrow> string option \<times> 'c RTC" where
  "Join E sid r = (let r1 = call (Peer_Join sid) r in (join_error E (io r1), r1))"

text \<open>A candidate of the remote goes to the publisher of the peer, whatever its target says.\<close>

definition trickle :: "'c env \<Rightarrow> 'c \<Rightarrow> target \<Rightarrow> 'c RTC \<Rightarrow> string option \<times> 'c RTC" where
  "trickle E candidate t r =
     (let r1 = call (Peer_Trickle candidate Target_PUBLISHER) r in (trickle_error E (io r1), r1))"

definition negotiate :: "'c env \<Rightarrow> string \<Rightarrow> 'c RTC \<Rightarrow> string option \<times> 'c RTC" where
  "negotiate E offer r =
     (let r1 = call (Peer_Answer offer) r in
      case answer_of E (io r1) of
        Inl err \<Rightarrow> (Some err, r1)
      | Inr sdp \<Rightarrow> SendAnswer E sdp r1)"

text \<open>The callback for a gathered candidate; \<open>None\<close> tells that gathering is done.\<close>

definition OnICECandidate :: "'c env \<Rightarrow> 'c option \<Rightarrow> target \<Rightarrow> 'c RTC \<Rightarrow> 'c RTC" where
  "OnICECandidate E c t r =
     (if t = Target_PUBLISHER
      then (case c of None \<Rightarrow> r | Some candidate \<Rightarrow> snd (SendTrickleInit E candidate Target_SUBSCRIBER r))
      else r)"

section \<open>The signalling loop\<close>

datatype rtc_error = Recv_Error recv_error | Failed string

text \<open>What the loop and the callbacks are given, in the order in which it happens.\<close>

datatype 'c rtc_input =
    Received rtc_reply
  | Recv_Failed recv_error
  | Gathered "'c option" target

text \<open>The switch of \<open>onSingalHandle\<close>: the error it returns, or none when it goes on.\<close>

definition on_reply :: "'c env \<Rightarrow> rtc_reply \<Rightarrow> 'c RTC \<Rightarrow> string option \<times> 'c RTC" where
  "on_reply E reply r =
     (case reply of
        Reply_Join success err _ \<Rightarrow> (if \<not> success then Some (error_text E err) else None, r)
      | Reply_Description d \<Rightarrow> if SD_Type d = ''offer'' then negotiate E (SD_Sdp d) r else (None, r)
      | Reply_Trickle t bytes \<Rightarrow> trickle E (unmarshal E bytes) t r
      | Reply_TrackEvent _ _ _ \<Rightarrow> (None, r)
      | Reply_Subscription success err \<Rightarrow> (if \<not> success then Some (error_text E err) else None, r)
      | Reply_Error err \<Rightarrow> (Some (error_text E (Some err)), r)
      | Reply_Unknown \<Rightarrow> (None, r))"

text \<open>The result is \<open>None\<close> as long as the loop waits for more.\<close>

fun onSingalHandle :: "'c env \<Rightarrow> 'c rtc_input list \<Rightarrow> 'c RTC \<Rightarrow> rtc_error option \<times> 'c RTC" where
  "onSingalHandle E [] r = (None, r)"
| "onSingalHandle E (Gathered c t # ins) r = onSingalHandle E ins (OnICECandidate E c t r)"
| "onSingalHandle E (Recv_Failed err # ins) r =
     (Some (Recv_Error err), case err of Other_Error _ \<Rightarrow> r | _ \<Rightarrow> call CloseSend r)"
| "onSingalHandle E (Received reply # ins) r =
     (case on_reply E reply r of
        (Some err, r1) \<Rightarrow> (Some (Failed err), r1)
      | (None, r1) \<Rightarrow> onSingalHandle E ins r1)"

text \<open>\<open>early\<close> are the candidates gathered between the two joins.\<close>

definition Run :: "'c env \<Rightarrow> string \<Rightarrow> string \<Rightarrow> ('c option \<times> target) list \<Rightarrow> 'c rtc_input list \<Rightarrow> 'c RTC
    \<Rightarrow> rtc_error option \<times> 'c RTC" where
  "Run E remoteSid localSid early ins r =
     (case Join E localSid r of
        (Some err, r1) \<Rightarrow> (Some (Failed err), r1)
      | (None, r1) \<Rightarrow>
          (let r2 = foldl (\<lambda>r (c, t). OnICECandidate E c t r) r1 early in
           case SendJoin E remoteSid (uid r2) r2 of
             (Some err, r3) \<Rightarrow> (Some (Failed err), r3)
           | (None, r3) \<Rightarrow> onSingalHandle E ins r3))"

section \<open>Updating the tracks\<close>

text \<open>A missing key of a Go map reads as the empty string.\<close>

definition Layers :: "subscription_layer \<Rightarrow> string" where
  "Layers l =
     (if l = Subscription_Q then ''q'' else if l = Subscription_H then ''h''
      else if l = Subscription_F then ''f'' else '''')"

text \<open>A published track is its identifier and its RID.\<close>

type_synonym remote_track = "string \<times> string"

definition TrackSame :: "subscription \<Rightarrow> remote_track \<Rightarrow> bool" where
  "TrackSame t1 t2 \<longleftrightarrow> TrackId t1 = fst t2 \<and> Layers (Layer t1) = snd t2"

definition track_infos :: "subscription list \<Rightarrow> subscription_info list" where
  "track_infos tracks = map (\<lambda>track. \<lparr>SI_TrackId = TrackId track, SI_Mute = Mute track,
     SI_Subscribe = True, SI_Layer = Layers (Layer track)\<rparr>) tracks"

definition update_tracks :: "'c env \<Rightarrow> subscription list \<Rightarrow> 'c RTC \<Rightarrow> string option \<times> 'c RTC" where
  "update_tracks E tracks r = Subscribe E (track_infos tracks) r"

definition isSame :: "remote_track list \<Rightarrow> subscription list \<Rightarrow> bool" where
  "isSame published tracks =
     (let temp = foldl (\<lambda>m t. m(fst t \<mapsto> t)) Map.empty published in
      list_all (\<lambda>sub. case temp (TrackId sub) of Some t \<Rightarrow> TrackSame sub t | None \<Rightarrow> True) tracks)"

text \<open>\<open>publisher\<close> is \<open>None\<close> while the peer has no publisher.\<close>

definition RTC_Update :: "'c env \<Rightarrow> remote_track list option \<Rightarrow> subscription list \<Rightarrow> 'c RTC
    \<Rightarrow> string option \<times> 'c RTC" where
  "RTC_Update E publisher tracks r =
     (case publisher of
        None \<Rightarrow> (Some ''peer not start'', r)
      | Some published \<Rightarrow> if \<not> isSame published tracks then update_tracks E tracks r else (None, r))"

section \<open>What a run does\<close>

fun answered :: "'c rtc_io list \<Rightarrow> string list" where
  "answered [] = []"
| "answered (Peer_Answer sdp # cs) = sdp # answered cs"
| "answered (_ # cs) = answered cs"

fun answers_sent :: "'c rtc_io list \<Rightarrow> string list" where
  "answers_sent [] = []"
| "answers_sent (Send (Request_Description d) # cs) = SD_Sdp d # answers_sent cs"
| "answers_sent (_ # cs) = answers_sent cs"

fun offer_of :: "rtc_reply \<Rightarrow> string list" where
  "offer_of (Reply_Description d) = (if SD_Type d = ''offer'' then [SD_Sdp d] else [])"
| "offer_of _ = []"

fun offers :: "'c rtc_input list \<Rightarrow> string list" where
  "offers [] = []"
| "offers (Received reply # ins) = offer_of reply @ offers ins"
| "offers (_ # ins) = offers ins"

lemma answered_append [simp]: "answered (cs @ ds) = answered cs @ answered ds"
  by (induction cs rule: answered.induct) auto

lemma answers_sent_append [simp]: "answers_sent (cs @ ds) = answers_sent cs @ answers_sent ds"
  by (induction cs rule: answers_sent.induct) auto

lemmas request_defs = stream_Send_def SendTrickleInit_def SendAnswer_def Subscribe_def Join_def trickle_def
  negotiate_def OnICECandidate_def call_def Let_def

lemma gathered_frame [simp]:
  "answered (io (OnICECandidate E c t r)) = answered (io r)"
  "answers_sent (io (OnICECandidate E c t r)) = answers_sent (io r)"
  "uid (OnICECandidate E c t r) = uid r"
  by (auto simp: request_defs split: option.split sum.split)

lemma on_reply_answers:
  assumes "on_reply E reply r = (None, r')"
  shows "answered (io r') = answered (io r) @ offer_of reply"
    and "length (answers_sent (io r')) = length (answers_sent (io r)) + length (offer_of reply)"
  using assms by (cases reply; auto simp: on_reply_def request_defs split: sum.splits if_splits)+

text \<open>While the loop runs, it has answered every offer it received, in order.\<close>

lemma onSingalHandle_answers:
  "onSingalHandle E ins r = (None, r') \<Longrightarrow>
   answered (io r') = answered (io r) @ offers ins \<and>
   length (answers_sent (io r')) = length (answers_sent (io r)) + length (offers ins)"
proof (induction E ins r rule: onSingalHandle.induct)
  case (4 E reply ins r)
  from 4(2) obtain r1 where r1: "on_reply E reply r = (None, r1)" and rest: "onSingalHandle E ins r1 = (None, r')"
    by (auto split: prod.splits option.splits)
  with on_reply_answers [OF r1] 4(1) [OF r1 [symmetric] refl rest] show ?case by simp
qed simp_all

lemma isSame_iff:
  "isSame published tracks \<longleftrightarrow>
     (\<forall>sub \<in> set tracks. \<forall>t. last_such (\<lambda>t. fst t = TrackId sub) published = Some t \<longrightarrow> Layers (Layer sub) = snd t)"
  by (auto simp: isSame_def Let_def list_all_iff foldl_upd_apply TrackSame_def split: option.splits
      dest: last_such_SomeD)

lemma OnICECandidate_grows: "\<exists>cs. io (OnICECandidate E c t r) = io r @ cs"
  by (auto simp: request_defs split: option.split sum.split)

lemma on_reply_grows: "on_reply E reply r = (err, r') \<Longrightarrow> \<exists>cs. io r' = io r @ cs"
  by (cases reply) (auto simp: on_reply_def request_defs split: sum.splits if_splits)

lemma onSingalHandle_grows: "onSingalHandle E ins r = (err, r') \<Longrightarrow> \<exists>cs. io r' = io r @ cs"
proof (induction E ins r rule: onSingalHandle.induct)
  case (2 E c t ins r)
  then obtain cs where "io r' = io (OnICECandidate E c t r) @ cs" by auto
  with OnICECandidate_grows [of E c t r] show ?case by auto
next
  case (4 E reply ins r)
  obtain e r1 where r1: "on_reply E reply r = (e, r1)" by (cases "on_reply E reply r")
  note grows = on_reply_grows [OF r1]
  show ?case
  proof (cases e)
    case None
    with r1 4(2) have rest: "onSingalHandle E ins r1 = (err, r')" by simp
    from 4(1) [OF r1 [unfolded None, symmetric] refl rest] grows show ?thesis by auto
  next
    case (Some err1)
    with r1 4(2) grows show ?thesis by auto
  qed
qed (auto simp: call_def split: recv_error.splits)

lemma early_frame:
  "answered (io (foldl (\<lambda>r (c, t). OnICECandidate E c t r) r early)) = answered (io r)"
  "answers_sent (io (foldl (\<lambda>r (c, t). OnICECandidate E c t r) r early)) = answers_sent (io r)"
  "\<exists>cs. io (foldl (\<lambda>r (c, t). OnICECandidate E c t r) r early) = io r @ cs"
proof (induction early arbitrary: r)
  case (Cons e early)
  { case 1 with Cons(1) show ?case by (cases e) simp }
  { case 2 with Cons(2) show ?case by (cases e) simp }
  { case 3
    obtain c t where e: "e = (c, t)" by (cases e)
    from Cons(3) [of "OnICECandidate E c t r"] OnICECandidate_grows [of E c t r] show ?case by (auto simp: e) }
qed simp_all

text \<open>The joins among the calls: a run makes one of each kind, the local one first, and nothing else does.\<close>

fun joins :: "'c rtc_io list \<Rightarrow> 'c rtc_io list" where
  "joins [] = []"
| "joins (Peer_Join sid # cs) = Peer_Join sid # joins cs"
| "joins (Send (Request_Join sid u config desc) # cs) = Send (Request_Join sid u config desc) # joins cs"
| "joins (_ # cs) = joins cs"

definition both_joins :: "string \<Rightarrow> string \<Rightarrow> string \<Rightarrow> 'c rtc_io list" where
  "both_joins remoteSid localSid u = [Peer_Join localSid, Send (Request_Join remoteSid u join_config None)]"

lemma joins_append [simp]: "joins (cs @ ds) = joins cs @ joins ds"
  by (induction cs rule: joins.induct) auto

lemma gathered_joins [simp]: "joins (io (OnICECandidate E c t r)) = joins (io r)"
  by (auto simp: request_defs split: option.split sum.split)

lemma on_reply_joins: "on_reply E reply r = (err, r') \<Longrightarrow> joins (io r') = joins (io r)"
  by (cases reply) (auto simp: on_reply_def request_defs split: sum.splits if_splits)

lemma onSingalHandle_joins: "onSingalHandle E ins r = (err, r') \<Longrightarrow> joins (io r') = joins (io r)"
proof (induction E ins r rule: onSingalHandle.induct)
  case (4 E reply ins r)
  obtain e r1 where r1: "on_reply E reply r = (e, r1)" by (cases "on_reply E reply r")
  with 4 on_reply_joins [OF r1] show ?case by (cases e) auto
qed (auto simp: call_def split: recv_error.splits)

lemma early_joins:
  "joins (io (foldl (\<lambda>r (c, t). OnICECandidate E c t r) r early)) = joins (io r) \<and>
   uid (foldl (\<lambda>r (c, t). OnICECandidate E c t r) r early) = uid r"
  by (induction early arbitrary: r) auto

lemma Run_joins:
  assumes "Run E remoteSid localSid early ins r = (None, r')"
  shows "joins (io r') = joins (io r) @ both_joins remoteSid localSid (uid r)"
proof -
  define r1 where "r1 = call (Peer_Join localSid) r"
  define r2 where "r2 = foldl (\<lambda>r (c, t). OnICECandidate E c t r) r1 early"
  define r3 where "r3 = snd (SendJoin E remoteSid (uid r2) r2)"
  have run: "onSingalHandle E ins r3 = (None, r')"
    using assms by (auto simp: Run_def Join_def Let_def r1_def r2_def r3_def split: option.splits prod.splits)
  have r2: "joins (io r2) = joins (io r) @ [Peer_Join localSid]" "uid r2 = uid r"
    using early_joins [of E r1 early] by (simp_all add: r2_def r1_def call_def)
  then have "joins (io r3) = joins (io r) @ both_joins remoteSid localSid (uid r)"
    by (simp add: r3_def SendJoin_def stream_Send_def call_def Let_def both_joins_def)
  with onSingalHandle_joins [OF run] show ?thesis by simp
qed

lemma RTC_Update_joins: "RTC_Update E publisher tracks r = (err, r') \<Longrightarrow> joins (io r') = joins (io r)"
  by (auto simp: RTC_Update_def update_tracks_def Subscribe_def stream_Send_def call_def Let_def
      split: option.splits if_splits)

section \<open>Properties\<close>

text \<open>
  C26. A run first joins the local session; as long as it goes on, it has given every offer of the
  remote to the local peer, in the order in which they came, and has sent one answer for each.
\<close>

theorem rtc_answers_offers:
  fixes E :: "'c env"
  assumes "Run E remoteSid localSid early ins (NewRTC u) = (None, r)"
  shows "(\<exists>cs. io r = Peer_Join localSid # cs) \<and> answered (io r) = offers ins \<and>
    length (answers_sent (io r)) = length (offers ins)"
proof -
  define r1 :: "'c RTC" where "r1 = call (Peer_Join localSid) (NewRTC u)"
  define r2 where "r2 = foldl (\<lambda>r (c, t). OnICECandidate E c t r) r1 early"
  define r3 where "r3 = snd (SendJoin E remoteSid (uid r2) r2)"
  have run: "onSingalHandle E ins r3 = (None, r)"
    using assms by (auto simp: Run_def Join_def Let_def r1_def r2_def r3_def split: option.splits prod.splits)
  have r1: "io r1 = [Peer_Join localSid]" by (simp add: r1_def call_def NewRTC_def)
  obtain cs where r2: "io r2 = Peer_Join localSid # cs" using early_frame(3) [of E r1 early] by (auto simp: r2_def r1)
  have "answered (io r2) = []" "answers_sent (io r2) = []"
    by (simp_all add: r2_def early_frame r1)
  then have r3: "answered (io r3) = []" "answers_sent (io r3) = []" "\<exists>ds. io r3 = Peer_Join localSid # ds"
    by (simp_all add: r3_def SendJoin_def stream_Send_def call_def Let_def r2)
  from onSingalHandle_answers [OF run] onSingalHandle_grows [OF run] r3 show ?thesis by auto
qed

definition demo_env :: "string env" where
  "demo_env = \<lparr>send_error = (\<lambda>_. None), join_error = (\<lambda>_. None), answer_of = (\<lambda>_. Inr ''sdp''),
     trickle_error = (\<lambda>_. None), marshal = Inr, unmarshal = (\<lambda>c. c),
     error_text = (\<lambda>_. ''error'')\<rparr>"

theorem rtc_answers_offers_witness:
  "\<exists>r. Run demo_env ''s'' ''l'' [(Some ''c'', Target_PUBLISHER)]
      [Received (Reply_Join True None None),
       Received (Reply_Description \<lparr>SD_Target = Target_SUBSCRIBER, SD_Type = ''offer'', SD_Sdp = ''o''\<rparr>)] (NewRTC ''u'') = (None, r) \<and>
     answered (io r) = [''o''] \<and> length (answers_sent (io r)) = 1"
proof -
  obtain r where r: "Run demo_env ''s'' ''l'' [(Some ''c'', Target_PUBLISHER)]
      [Received (Reply_Join True None None),
       Received (Reply_Description \<lparr>SD_Target = Target_SUBSCRIBER, SD_Type = ''offer'', SD_Sdp = ''o''\<rparr>)] (NewRTC ''u'') = (None, r)"
    by (simp add: Run_def demo_env_def SendJoin_def request_defs on_reply_def Target_PUBLISHER_def)
  from rtc_answers_offers [OF r] r show ?thesis by simp
qed

text \<open>
  An update asks the remote for the listed tracks exactly when one of them is received in
  another layer than it is listed with. A listed track that is not received, and a received track
  that is no longer listed, lead to no request.
\<close>

theorem rtc_update_requests:
  "io (snd (RTC_Update E (Some published) tracks r)) = io r @
     (if \<exists>sub \<in> set tracks. \<exists>t. last_such (\<lambda>t. fst t = TrackId sub) published = Some t \<and> snd t \<noteq> Layers (Layer sub)
      then [Send (Request_Subscription (track_infos tracks))]
      else [])"
proof (cases "isSame published tracks")
  case True
  then have "\<not> (\<exists>sub \<in> set tracks. \<exists>t. last_such (\<lambda>t. fst t = TrackId sub) published = Some t \<and> snd t \<noteq> Layers (Layer sub))"
    unfolding isSame_iff by fastforce
  with True show ?thesis by (simp add: RTC_Update_def)
next
  case False
  then have "\<exists>sub \<in> set tracks. \<exists>t. last_such (\<lambda>t. fst t = TrackId sub) published = Some t \<and> snd t \<noteq> Layers (Layer sub)"
    unfolding isSame_iff by fastforce
  moreover from this have "tracks \<noteq> []" by auto
  ultimately show ?thesis
    using False by (simp add: RTC_Update_def update_tracks_def track_infos_def Subscribe_def stream_Send_def call_def Let_def)
qed

end
