(* ===== verification/Signaller.thy ===== *)
theory Signaller
  imports RTC_Peer
begin

text \<open>
  The forwarding door of \<open>pkg/sxu/signaller/signaller.go\<close>: \<open>BLock\<close> connects to the remote SFU and
  runs an \<open>RTC\<close> until it fails, while \<open>Update\<close> and \<open>Remove\<close> are called by another goroutine. Every
  statement of \<open>BLock\<close> that the other goroutine can see is a step of its own, so the calls
  interleave with it. Whether the connection and the stream are made is open.
\<close>

section \<open>State\<close>

text \<open>Where \<open>BLock\<close> is; \<open>track\<close> is its local variable.\<close>

datatype block_pc =
    B_Start
  | B_Conn forward_track
  | B_Signal forward_track
  | B_Join forward_track
  | B_Run forward_track
  | B_Returned

text \<open>\<open>s_cancel\<close> tells whether the cancel function is set, \<open>s_cancelled\<close> whether it was called.\<close>

record 'c signaller =
  s_track :: "forward_track option"
  s_cancel :: bool
  s_cancelled :: bool
  s_r :: "'c RTC option"
  s_pc :: block_pc
  peer_closed :: bool

definition SignallerFactory_NewDoor :: "'c signaller" where
  "SignallerFactory_NewDoor = \<lparr>s_track = None, s_cancel = False, s_cancelled = False, s_r = None,
     s_pc = B_Start, peer_closed = False\<rparr>"

section \<open>Operations\<close>

text \<open>A nil track is the same as any; a nil source node is a panic.\<close>

definition ForwardTrackSame :: "forward_track option \<Rightarrow> forward_track option \<Rightarrow> bool option" where
  "ForwardTrackSame track1 track2 =
     (case (track1, track2) of
        (Some t1, Some t2) \<Rightarrow>
          (case (Src t1, Src t2) of
             (Some n1, Some n2) \<Rightarrow>
               if Nid n1 \<noteq> Nid n2 then Some False
               else if RemoteSessionId t1 \<noteq> RemoteSessionId t2 then Some False
               else if LocalSessionId t1 \<noteq> LocalSessionId t2 then Some False
               else Some True
           | _ \<Rightarrow> None)
      | _ \<Rightarrow> Some True)"

definition Signaller_Remove :: "'c signaller \<Rightarrow> 'c signaller" where
  "Signaller_Remove s = (if s_cancel s then s\<lparr>s_cancelled := True\<rparr> else s)"

definition Signaller_Update :: "'c env \<Rightarrow> remote_track list option \<Rightarrow> forward_track \<Rightarrow> 'c signaller
    \<Rightarrow> (string option \<times> 'c signaller) option" where
  "Signaller_Update E publisher track s =
     (case ForwardTrackSame (s_track s) (Some track) of
        None \<Rightarrow> None
      | Some False \<Rightarrow> Some (None, Signaller_Remove s)
      | Some True \<Rightarrow>
          (case s_r s of
             None \<Rightarrow> Some (Some ''peer not start'', s)
           | Some r \<Rightarrow>
               (case RTC_Update E publisher (Tracks track) r of
                  (err, r1) \<Rightarrow> Some (err, s\<lparr>s_r := Some r1\<rparr>))))"

text \<open>The statements of \<open>BLock\<close>. Its deferred calls cancel the context and close the peer.\<close>

definition BLock_begin :: "forward_track \<Rightarrow> 'c signaller \<Rightarrow> 'c signaller option" where
  "BLock_begin track s =
     (case Src track of None \<Rightarrow> None | Some _ \<Rightarrow> Some (s\<lparr>s_track := Some track, s_pc := B_Conn track\<rparr>))"

definition BLock_conn :: "bool \<Rightarrow> forward_track \<Rightarrow> 'c signaller \<Rightarrow> 'c signaller" where
  "BLock_conn ok track s =
     (if \<not> ok then s\<lparr>s_pc := B_Returned\<rparr> else s\<lparr>s_cancel := True, s_pc := B_Signal track\<rparr>)"

definition BLock_signal :: "bool \<Rightarrow> string \<Rightarrow> forward_track \<Rightarrow> 'c signaller \<Rightarrow> 'c signaller" where
  "BLock_signal ok peerID track s =
     (if \<not> ok then s\<lparr>s_cancelled := True, s_pc := B_Returned\<rparr>
      else s\<lparr>s_r := Some (NewRTC peerID), s_pc := B_Join track\<rparr>)"

definition BLock_result :: "rtc_error option \<times> 'c RTC \<Rightarrow> forward_track \<Rightarrow> 'c signaller \<Rightarrow> 'c signaller" where
  "BLock_result res track s =
     (case res of
        (None, r) \<Rightarrow> s\<lparr>s_r := Some r, s_pc := B_Run track\<rparr>
      | (Some err, r) \<Rightarrow> s\<lparr>s_r := Some r, s_cancelled := True, peer_closed := True, s_pc := B_Returned\<rparr>)"

definition BLock_join :: "'c env \<Rightarrow> ('c option \<times> target) list \<Rightarrow> forward_track \<Rightarrow> 'c RTC \<Rightarrow> 'c signaller \<Rightarrow> 'c signaller" where
  "BLock_join E early track r s = BLock_result (Run E (RemoteSessionId track) (LocalSessionId track) early [] r) track s"

definition BLock_input :: "'c env \<Rightarrow> 'c rtc_input \<Rightarrow> forward_track \<Rightarrow> 'c RTC \<Rightarrow> 'c signaller \<Rightarrow> 'c signaller" where
  "BLock_input E i track r s = BLock_result (onSingalHandle E [i] r) track s"

inductive signaller_step :: "'c env \<Rightarrow> 'c signaller \<Rightarrow> 'c signaller option \<Rightarrow> bool" for E :: "'c env" where
  block: "s_pc s = B_Start \<Longrightarrow> signaller_step E s (BLock_begin track s)"
| conn: "s_pc s = B_Conn track \<Longrightarrow> signaller_step E s (Some (BLock_conn ok track s))"
| signal: "s_pc s = B_Signal track \<Longrightarrow> signaller_step E s (Some (BLock_signal ok peerID track s))"
| join: "s_pc s = B_Join track \<Longrightarrow> s_r s = Some r \<Longrightarrow> signaller_step E s (Some (BLock_join E early track r s))"
| input: "s_pc s = B_Run track \<Longrightarrow> s_r s = Some r \<Longrightarrow> signaller_step E s (Some (BLock_input E i track r s))"
| update: "signaller_step E s (map_option snd (Signaller_Update E publisher track s))"
| remove: "signaller_step E s (Some (Signaller_Remove s))"

abbreviation signaller_reachable :: "'c env \<Rightarrow> 'c signaller \<Rightarrow> bool" where
  "signaller_reachable E \<equiv> reachable (\<lambda>s s'. signaller_step E s (Some s')) SignallerFactory_NewDoor"

lemma signaller_next:
  "signaller_reachable E s \<Longrightarrow> signaller_step E s (Some s') \<Longrightarrow> signaller_reachable E s'"
  by (rule reachable_step)

section \<open>Invariant\<close>

text \<open>
  \<open>BLock\<close> works on the track it was called with; an \<open>RTC\<close> exists from the join on; the cancel function
  is set from the moment on at which the stream is made, and after \<open>BLock\<close> has returned from there
  the context is cancelled and the peer closed. Before \<open>Run\<close> the \<open>RTC\<close> has joined nothing, and
  while it runs it has joined the two sessions of the track, each once.
\<close>

definition rtc_joined :: "('c rtc_io list \<Rightarrow> bool) \<Rightarrow> 'c signaller \<Rightarrow> bool" where
  "rtc_joined P s \<longleftrightarrow> (\<exists>r. s_r s = Some r \<and> P (joins (io r)))"

definition track_joins :: "forward_track \<Rightarrow> 'c rtc_io list \<Rightarrow> bool" where
  "track_joins t cs \<longleftrightarrow> (\<exists>u. cs = both_joins (RemoteSessionId t) (LocalSessionId t) u)"

definition signaller_inv :: "'c signaller \<Rightarrow> bool" where
  "signaller_inv s \<longleftrightarrow>
     (case s_pc s of
        B_Start \<Rightarrow> s_track s = None \<and> \<not> s_cancel s \<and> s_r s = None \<and> \<not> peer_closed s
      | B_Conn t \<Rightarrow> s_track s = Some t \<and> \<not> s_cancel s \<and> s_r s = None \<and> \<not> peer_closed s
      | B_Signal t \<Rightarrow> s_track s = Some t \<and> s_cancel s \<and> s_r s = None \<and> \<not> peer_closed s
      | B_Join t \<Rightarrow> s_track s = Some t \<and> s_cancel s \<and> rtc_joined (\<lambda>cs. cs = []) s \<and> \<not> peer_closed s
      | B_Run t \<Rightarrow> s_track s = Some t \<and> s_cancel s \<and> rtc_joined (track_joins t) s \<and> \<not> peer_closed s
      | B_Returned \<Rightarrow> (s_cancel s \<longrightarrow> s_cancelled s) \<and> (s_r s \<noteq> None \<longrightarrow> peer_closed s \<and> s_cancel s))"

lemma BLock_result_inv:
  assumes "signaller_inv s" "s_pc s = B_Join t \<or> s_pc s = B_Run t"
    and "\<And>r. res = (None, r) \<Longrightarrow> track_joins t (joins (io r))"
  shows "signaller_inv (BLock_result res t s)"
proof -
  obtain err r where res: "res = (err, r)" by (cases res)
  have "s_track s = Some t" "s_cancel s" "\<not> peer_closed s"
    using assms(1,2) by (auto simp: signaller_inv_def)
  then show ?thesis
    using assms(3) by (cases err) (simp_all add: res BLock_result_def signaller_inv_def rtc_joined_def)
qed

lemma BLock_join_inv:
  assumes "signaller_inv s" "s_pc s = B_Join t" "s_r s = Some r"
  shows "signaller_inv (BLock_join E early t r s)"
proof -
  have "joins (io r) = []" using assms by (simp add: signaller_inv_def rtc_joined_def)
  then show ?thesis unfolding BLock_join_def
    by (intro BLock_result_inv [OF assms(1)]) (simp_all add: assms(2) track_joins_def, use Run_joins in fastforce)
qed

lemma BLock_input_inv:
  assumes "signaller_inv s" "s_pc s = B_Run t" "s_r s = Some r"
  shows "signaller_inv (BLock_input E i t r s)"
proof -
  have "track_joins t (joins (io r))" using assms by (simp add: signaller_inv_def rtc_joined_def)
  then show ?thesis unfolding BLock_input_def
    by (intro BLock_result_inv [OF assms(1)]) (auto simp: assms(2) dest: onSingalHandle_joins)
qed

lemma Signaller_Update_frame:
  assumes "Signaller_Update E publisher track s = Some (err, s')"
  shows "s_track s' = s_track s \<and> s_cancel s' = s_cancel s \<and> s_pc s' = s_pc s \<and> peer_closed s' = peer_closed s \<and>
    map_option (\<lambda>r. joins (io r)) (s_r s') = map_option (\<lambda>r. joins (io r)) (s_r s) \<and> (s_cancelled s \<longrightarrow> s_cancelled s')"
  using assms by (auto simp: Signaller_Update_def Signaller_Remove_def
      split: option.splits bool.splits prod.splits if_splits dest: RTC_Update_joins)

lemma rtc_joined_option: "rtc_joined P s \<longleftrightarrow> (\<exists>cs. map_option (\<lambda>r. joins (io r)) (s_r s) = Some cs \<and> P cs)"
  by (auto simp: rtc_joined_def)

lemma signaller_inv_cong:
  assumes "signaller_inv s" "s_track s' = s_track s" "s_cancel s' = s_cancel s" "s_pc s' = s_pc s"
    "peer_closed s' = peer_closed s"
    "map_option (\<lambda>r. joins (io r)) (s_r s') = map_option (\<lambda>r. joins (io r)) (s_r s)" "s_cancelled s \<longrightarrow> s_cancelled s'"
  shows "signaller_inv s'"
proof -
  have none: "(s_r s' = None) = (s_r s = None)" using assms(6) by (metis option.map_disc_iff)
  have joined: "rtc_joined P s' = rtc_joined P s" for P by (simp only: rtc_joined_option assms(6))
  show ?thesis
    using assms(1,7) unfolding signaller_inv_def assms(2-5) none joined by (cases "s_pc s") simp_all
qed

lemma signaller_inv_step:
  assumes "signaller_step E s (Some s')" "signaller_inv s"
  shows "signaller_inv s'"
  using assms(1)
proof cases
  case (block track)
  with assms(2) show ?thesis
    by (cases "Src track") (simp_all add: signaller_inv_def BLock_begin_def)
next
  case (conn track ok)
  with assms(2) show ?thesis by (cases ok) (simp_all add: signaller_inv_def BLock_conn_def)
next
  case (signal track ok peerID)
  with assms(2) show ?thesis
    by (cases ok) (simp_all add: signaller_inv_def BLock_signal_def rtc_joined_def NewRTC_def)
next
  case (join track r early)
  with BLock_join_inv [OF assms(2) join(2,3)] show ?thesis by simp
next
  case (input track r i)
  with BLock_input_inv [OF assms(2) input(2,3)] show ?thesis by simp
next
  case (update publisher track)
  then obtain err where "Signaller_Update E publisher track s = Some (err, s')"
    by (cases "Signaller_Update E publisher track s") auto
  from Signaller_Update_frame [OF this] show ?thesis
    by (intro signaller_inv_cong [OF assms(2)]) simp_all
next
  case remove
  then show ?thesis by (intro signaller_inv_cong [OF assms(2)]) (simp_all add: Signaller_Remove_def)
qed

lemma signaller_inv_reachable: "signaller_reachable E s \<Longrightarrow> signaller_inv s"
  by (induction rule: reachable_invariant)
    (auto intro: signaller_inv_step, simp add: signaller_inv_def SignallerFactory_NewDoor_def)

section \<open>Properties\<close>

text \<open>
  Once the door has its cancel function, an update to another remote or local session returns
  without an error and cancels the context, which ends \<open>BLock\<close>; an update of the same session
  never cancels it.
\<close>

theorem signaller_update_restarts:
  assumes "signaller_reachable E s" and "s_cancel s" and "ForwardTrackSame (s_track s) (Some track) = Some same"
  shows "\<exists>err s'. Signaller_Update E publisher track s = Some (err, s') \<and>
    (\<not> same \<longrightarrow> err = None \<and> s_cancelled s') \<and> (same \<longrightarrow> s_cancelled s' = s_cancelled s)"
  using assms(2,3) by (cases same) (auto simp: Signaller_Update_def Signaller_Remove_def split: option.split prod.split)

definition demo_forward :: "string \<Rightarrow> forward_track" where
  "demo_forward local = \<lparr>Src = Some \<lparr>Dc = [], Nid = ''n'', Service = ''rtc'', Rpc = None\<rparr>,
     RemoteSessionId = ''s'', LocalSessionId = local, Tracks = []\<rparr>"

lemma demo_connecting:
  "signaller_reachable demo_env (SignallerFactory_NewDoor\<lparr>s_track := Some (demo_forward ''a''), s_pc := B_Conn (demo_forward ''a'')\<rparr>)"
  (is "signaller_reachable _ ?s")
proof -
  have "signaller_step demo_env SignallerFactory_NewDoor (BLock_begin (demo_forward ''a'') SignallerFactory_NewDoor)"
    by (rule signaller_step.block) (simp add: SignallerFactory_NewDoor_def)
  then have "signaller_step demo_env SignallerFactory_NewDoor (Some ?s)"
    by (simp add: BLock_begin_def demo_forward_def)
  then show ?thesis by (rule reachable_first)
qed

theorem signaller_update_restarts_witness:
  "\<exists>s s'. signaller_reachable demo_env s \<and>
     Signaller_Update demo_env None (demo_forward ''b'') s = Some (None, s') \<and> s_cancelled s' \<and> \<not> s_cancelled s"
proof -
  let ?c = "SignallerFactory_NewDoor\<lparr>s_track := Some (demo_forward ''a''), s_pc := B_Conn (demo_forward ''a'')\<rparr>"
  let ?s = "BLock_conn True (demo_forward ''a'') ?c"
  have "signaller_step demo_env ?c (Some ?s)" by (rule signaller_step.conn) simp
  with demo_connecting have r: "signaller_reachable demo_env ?s" by (rule signaller_next)
  have "s_cancel ?s" "\<not> s_cancelled ?s" "ForwardTrackSame (s_track ?s) (Some (demo_forward ''b'')) = Some False"
    by (simp_all add: BLock_conn_def SignallerFactory_NewDoor_def ForwardTrackSame_def demo_forward_def)
  from signaller_update_restarts [OF r this(1,3), of None] this(2) r show ?thesis by blast
qed

text \<open>
  An update that arrives while \<open>BLock\<close> is still connecting is lost: it returns without an
  error and changes nothing, and \<open>BLock\<close> goes on to run with the old track.
\<close>

theorem signaller_loses_update:
  "\<exists>s s'. signaller_reachable demo_env s \<and>
     ForwardTrackSame (s_track s) (Some (demo_forward ''b'')) = Some False \<and>
     Signaller_Update demo_env None (demo_forward ''b'') s = Some (None, s) \<and>
     reachable (\<lambda>s s'. signaller_step demo_env s (Some s')) s s' \<and>
     s_pc s' = B_Run (demo_forward ''a'') \<and> \<not> s_cancelled s' \<and>
     (\<exists>r. s_r s' = Some r \<and> hd (io r) = Peer_Join ''a'')"
proof -
  let ?a = "demo_forward ''a''"
  let ?c = "SignallerFactory_NewDoor\<lparr>s_track := Some ?a, s_pc := B_Conn ?a\<rparr>"
  let ?d = "BLock_conn True ?a ?c"
  let ?e = "BLock_signal True ''u'' ?a ?d"
  let ?f = "BLock_join demo_env [] ?a (NewRTC ''u'') ?e"
  have same: "ForwardTrackSame (s_track ?c) (Some (demo_forward ''b'')) = Some False"
    by (simp add: ForwardTrackSame_def demo_forward_def)
  then have lost: "Signaller_Update demo_env None (demo_forward ''b'') ?c = Some (None, ?c)"
    by (simp add: Signaller_Update_def Signaller_Remove_def SignallerFactory_NewDoor_def)
  have 1: "signaller_step demo_env ?c (Some ?d)" by (rule signaller_step.conn) simp
  have 2: "signaller_step demo_env ?d (Some ?e)" by (rule signaller_step.signal) (simp add: BLock_conn_def)
  have 3: "signaller_step demo_env ?e (Some ?f)" by (rule signaller_step.join) (simp_all add: BLock_signal_def)
  have "reachable (\<lambda>s s'. signaller_step demo_env s (Some s')) ?c ?d" using 1 by (rule reachable_first)
  then have "reachable (\<lambda>s s'. signaller_step demo_env s (Some s')) ?c ?e" using 2 by (rule reachable_step)
  then have r: "reachable (\<lambda>s s'. signaller_step demo_env s (Some s')) ?c ?f" using 3 by (rule reachable_step)
  have "s_pc ?f = B_Run ?a \<and> \<not> s_cancelled ?f \<and> (\<exists>r. s_r ?f = Some r \<and> hd (io r) = Peer_Join ''a'')"
    by (simp add: BLock_join_def BLock_result_def BLock_signal_def BLock_conn_def SignallerFactory_NewDoor_def
        Run_def Join_def SendJoin_def stream_Send_def call_def NewRTC_def demo_env_def demo_forward_def Let_def)
  with demo_connecting same lost r show ?thesis by blast
qed

text \<open>
  A step while \<open>BLock\<close> runs keeps its track or ends it.
\<close>

lemma running_step:
  assumes "signaller_step E s (Some s')" "s_pc s = B_Run t"
  shows "s_pc s' = B_Run t \<and> s_track s' = s_track s \<or> s_pc s' = B_Returned"
  using assms(1)
proof cases
  case (input track r i)
  with assms(2) show ?thesis
    by (cases "onSingalHandle E [i] r") (simp add: BLock_input_def BLock_result_def split: option.split)
next
  case (update publisher track)
  then obtain err where "Signaller_Update E publisher track s = Some (err, s')"
    by (cases "Signaller_Update E publisher track s") auto
  from Signaller_Update_frame [OF this] assms(2) show ?thesis by simp
qed (use assms(2) in \<open>auto simp: Signaller_Remove_def\<close>)

text \<open>
  C25. When \<open>BLock\<close> has returned after it made its stream, the context of the stream is cancelled,
  and if it had made its \<open>RTC\<close>, the peer is closed. While it runs, it works on the track it was
  called with, whatever updates came since: it has joined the local and the remote session of that
  track, each once and no other, its peer is open and the door can cancel its context. It goes on so
  until it returns.
\<close>

theorem signaller_cleans_up:
  assumes "signaller_reachable E s"
  shows "(s_pc s = B_Returned \<longrightarrow> (s_cancel s \<longrightarrow> s_cancelled s) \<and> (s_r s \<noteq> None \<longrightarrow> peer_closed s \<and> s_cancelled s)) \<and>
    (\<forall>t. s_pc s = B_Run t \<longrightarrow> s_track s = Some t \<and> s_cancel s \<and> \<not> peer_closed s \<and>
      (\<exists>r u. s_r s = Some r \<and>
        joins (io r) = [Peer_Join (LocalSessionId t), Send (Request_Join (RemoteSessionId t) u join_config None)]) \<and>
      (\<forall>s'. signaller_step E s (Some s') \<longrightarrow> s_pc s' = B_Run t \<and> s_track s' = Some t \<or> s_pc s' = B_Returned))"
proof (intro conjI allI impI)
  note inv = signaller_inv_reachable [OF assms, unfolded signaller_inv_def]
  show "s_cancelled s" if "s_pc s = B_Returned" "s_cancel s" using that inv by simp
  show "peer_closed s" "s_cancelled s" if "s_pc s = B_Returned" "s_r s \<noteq> None" using that inv by simp_all
  fix t assume t: "s_pc s = B_Run t"
  show track: "s_track s = Some t" and "s_cancel s" "\<not> peer_closed s" using t inv by simp_all
  show "\<exists>r u. s_r s = Some r \<and>
      joins (io r) = [Peer_Join (LocalSessionId t), Send (Request_Join (RemoteSessionId t) u join_config None)]"
    using t inv by (auto simp: rtc_joined_def track_joins_def both_joins_def)
  show "s_pc s' = B_Run t \<and> s_track s' = Some t \<or> s_pc s' = B_Returned" if "signaller_step E s (Some s')" for s'
    using running_step [OF that t] track by simp
qed

theorem signaller_cleans_up_witness:
  "\<exists>s. signaller_reachable demo_env s \<and> s_pc s = B_Returned \<and> peer_closed s \<and> s_cancelled s"
proof -
  let ?a = "demo_forward ''a''"
  let ?c = "SignallerFactory_NewDoor\<lparr>s_track := Some ?a, s_pc := B_Conn ?a\<rparr>"
  let ?d = "BLock_conn True ?a ?c"
  let ?e = "BLock_signal True ''u'' ?a ?d"
  let ?f = "BLock_join demo_env [] ?a (NewRTC ''u'') ?e"
  define r where "r = the (s_r ?f)"
  let ?g = "BLock_input demo_env (Recv_Failed EOF) ?a r ?f"
  have f: "s_pc ?f = B_Run ?a" "s_r ?f = Some r"
    by (simp_all add: r_def BLock_join_def BLock_result_def BLock_signal_def
        Run_def Join_def SendJoin_def stream_Send_def call_def NewRTC_def demo_env_def demo_forward_def Let_def)
  have 1: "signaller_step demo_env ?c (Some ?d)" by (rule signaller_step.conn) simp
  have 2: "signaller_step demo_env ?d (Some ?e)" by (rule signaller_step.signal) (simp add: BLock_conn_def)
  have 3: "signaller_step demo_env ?e (Some ?f)" by (rule signaller_step.join) (simp_all add: BLock_signal_def)
  have 4: "signaller_step demo_env ?f (Some ?g)" using f by (rule signaller_step.input)
  have g: "signaller_reachable demo_env ?g"
    by (rule signaller_next [OF signaller_next [OF signaller_next [OF signaller_next [OF demo_connecting 1] 2] 3] 4])
  have "s_pc ?g = B_Returned" "s_r ?g \<noteq> None" by (simp_all add: BLock_input_def BLock_result_def)
  with signaller_cleans_up [OF g] g show ?thesis by blast
qed

end
