(* ===== verification/SFU_Service.thy ===== *)
theory SFU_Service
  imports RTC_Messages Syncer
begin

text \<open>
  The signalling service of an SFU, \<open>pkg/sfu/service.go\<close>: \<open>Signal\<close>, one goroutine per connection,
  with the goroutine that receives for it, the callbacks of its peer, and the map of streams and
  the channel of session events (\<open>pkg/sfu/tracker.go\<close>) that all connections share. The peer, its
  publisher, subscriber and session are ion-sfu's: what they answer is an argument (\<open>peer_env\<close>), a
  function of the calls made on the connection so far, and every step may take another one.
\<close>

section \<open>Peers\<close>

datatype peer_error = ErrTransportExists | ErrOfferIgnored | ErrNoTransportEstablished | Peer_Error string

datatype sdp_type = SDP_Offer | SDP_Answer | SDP_Other

text \<open>A published track with the identifier of its receiver.\<close>

record pub_track =
  Trk_ID :: string
  Trk_Kind :: string
  Trk_StreamID :: string
  Trk_RID :: string
  Trk_Receiver :: string

text \<open>A peer of the session; \<open>None\<close> when it has no publisher.\<close>

record session_peer =
  SP_ID :: string
  SP_Tracks :: "pub_track list option"

text \<open>The calls on the stream, the peer, and the peer's publisher and subscriber.\<close>

datatype 'c sfu_io =
    Sent rtc_reply
  | P_Join string string bool bool bool
  | P_Answer string string
  | P_SetRemote string string
  | P_Trickle 'c target
  | P_AddDown string string
  | P_Mute bool
  | P_SwitchLayer nat
  | P_RemoveDown string string
  | P_Negotiate
  | P_Close

text \<open>
  \<open>e_publisher\<close> and \<open>e_subscriber\<close> tell whether the pointers are set, \<open>e_peers\<close> is \<open>None\<close> while the
  peer has no session, \<open>e_added\<close> tells whether \<open>AddDownTrack\<close> returned a track; a down track may be
  a nil pointer.
\<close>

record 'c peer_env =
  e_send :: "'c sfu_io list \<Rightarrow> string option"
  e_ID :: "'c sfu_io list \<Rightarrow> string"
  e_join :: "'c sfu_io list \<Rightarrow> peer_error option"
  e_publisher :: "'c sfu_io list \<Rightarrow> bool"
  e_subscriber :: "'c sfu_io list \<Rightarrow> bool"
  e_peers :: "'c sfu_io list \<Rightarrow> session_peer list option"
  e_answer :: "'c sfu_io list \<Rightarrow> string + string \<times> string"
  e_set_remote :: "'c sfu_io list \<Rightarrow> peer_error option"
  e_trickle :: "'c sfu_io list \<Rightarrow> peer_error option"
  e_added :: "'c sfu_io list \<Rightarrow> bool"
  e_down_tracks :: "'c sfu_io list \<Rightarrow> (string \<times> string) option list"
  e_marshal :: "'c \<Rightarrow> string option"
  e_unmarshal :: "string \<Rightarrow> string + 'c"
  e_text :: "peer_error \<Rightarrow> string"
  e_sdp_type :: "string \<Rightarrow> sdp_type"

text \<open>
  What \<open>Signal\<close> returns; of a gRPC status only the code is kept. A handler gives \<open>None\<close> for a panic,
  otherwise the result with which \<open>Signal\<close> returns, if it does, and the calls so far.
\<close>

datatype signal_result = Return_nil | Return_err recv_error | Return_other string | Status_Internal | Status_Unknown

type_synonym 'c handled = "(signal_result option \<times> 'c sfu_io list) option"

section \<open>Requests\<close>

definition send_reply :: "'c peer_env \<Rightarrow> rtc_reply \<Rightarrow> 'c sfu_io list \<Rightarrow> string option \<times> 'c sfu_io list" where
  "send_reply E reply ios = (let ios1 = ios @ [Sent reply] in (e_send E ios1, ios1))"

text \<open>A reply whose failure ends \<open>Signal\<close>, and one whose failure is only logged.\<close>

definition must_send :: "'c peer_env \<Rightarrow> rtc_reply \<Rightarrow> 'c sfu_io list \<Rightarrow> signal_result option \<times> 'c sfu_io list" where
  "must_send E reply ios =
     (case send_reply E reply ios of (err, ios1) \<Rightarrow> (case err of Some _ \<Rightarrow> Some Status_Internal | None \<Rightarrow> None, ios1))"

definition may_send :: "'c peer_env \<Rightarrow> rtc_reply \<Rightarrow> 'c sfu_io list \<Rightarrow> 'c sfu_io list" where
  "may_send E reply ios = snd (send_reply E reply ios)"

definition info_of :: "pub_track \<Rightarrow> track_info" where
  "info_of t = \<lparr>TI_Id = Trk_ID t, TI_Kind = Trk_Kind t, TI_StreamId = Trk_StreamID t, TI_Muted = False,
     TI_Layer = Trk_RID t\<rparr>"

text \<open>The existing tracks of one peer of the session, for the new peer.\<close>

definition existing_peer :: "'c peer_env \<Rightarrow> 'c sfu_io list \<Rightarrow> session_peer \<Rightarrow> 'c sfu_io list" where
  "existing_peer E ios p =
     (if e_ID E ios \<noteq> SP_ID p then
        (case SP_Tracks p of
           None \<Rightarrow> ios
         | Some pubTracks \<Rightarrow>
             if length pubTracks = 0 then ios
             else may_send E (Reply_TrackEvent (SP_ID p) TrackEvent_ADD (map info_of pubTracks)) ios)
      else ios)"

definition join_existing :: "'c peer_env \<Rightarrow> 'c sfu_io list \<Rightarrow> 'c handled" where
  "join_existing E ios =
     (case e_peers E ios of
        None \<Rightarrow> None
      | Some peers \<Rightarrow> Some (None, foldl (existing_peer E) ios peers))"

definition join_publish :: "'c peer_env \<Rightarrow> session_description option \<Rightarrow> 'c sfu_io list \<Rightarrow> 'c handled" where
  "join_publish E desc ios =
     (if e_publisher E ios then
        (case desc of
           None \<Rightarrow> None
         | Some d \<Rightarrow>
             (let ios1 = ios @ [P_Answer (SD_Type d) (SD_Sdp d)] in
              case e_answer E ios1 of
                Inl _ \<Rightarrow> Some (Some Status_Internal, ios1)
              | Inr (ty, sdp) \<Rightarrow>
                  join_existing E (may_send E (Reply_Join True None
                    (Some \<lparr>SD_Target = Target_PUBLISHER, SD_Type = ty, SD_Sdp = sdp\<rparr>)) ios1)))
      else join_existing E ios)"

definition handle_join :: "'c peer_env \<Rightarrow> string \<Rightarrow> string \<Rightarrow> (string, string) gomap
    \<Rightarrow> session_description option \<Rightarrow> 'c sfu_io list \<Rightarrow> 'c handled" where
  "handle_join E sid uid config desc ios =
     (let ios1 = ios @ [P_Join sid uid (config_flag config ''NoPublish'') (config_flag config ''NoSubscribe'')
                          (config_flag config ''NoAutoSubscribe'')] in
      case e_join E ios1 of
        None \<Rightarrow> join_publish E desc ios1
      | Some err \<Rightarrow>
          if err = ErrTransportExists \<or> err = ErrOfferIgnored then
            (case must_send E (Reply_Join False (Some \<lparr>Err_Code = InternalError,
                    Err_Reason = ''join error: '' @ e_text E err\<rparr>) None) ios1 of
               (Some r, ios2) \<Rightarrow> Some (Some r, ios2)
             | (None, ios2) \<Rightarrow> join_publish E desc ios2)
          else Some (Some Status_Unknown, ios1))"

text \<open>The error of a sent answer is local to its case, so the check behind the switch never sees it.\<close>

definition handle_description :: "'c peer_env \<Rightarrow> session_description \<Rightarrow> 'c sfu_io list \<Rightarrow> 'c handled" where
  "handle_description E d ios =
     (case e_sdp_type E (SD_Type d) of
        SDP_Offer \<Rightarrow>
          (let ios1 = ios @ [P_Answer (SD_Type d) (SD_Sdp d)] in
           case e_answer E ios1 of
             Inl _ \<Rightarrow> Some (Some Status_Internal, ios1)
           | Inr (ty, sdp) \<Rightarrow> Some (must_send E (Reply_Description
                 \<lparr>SD_Target = Target_PUBLISHER, SD_Type = ty, SD_Sdp = sdp\<rparr>) ios1))
      | SDP_Answer \<Rightarrow>
          (let ios1 = ios @ [P_SetRemote (SD_Type d) (SD_Sdp d)] in
           case e_set_remote E ios1 of
             None \<Rightarrow> Some (None, ios1)
           | Some err \<Rightarrow>
               if err = ErrNoTransportEstablished
               then Some (must_send E (Reply_Join False (Some \<lparr>Err_Code = UnsupportedMediaType,
                      Err_Reason = ''set remote description error: '' @ e_text E err\<rparr>) None) ios1)
               else Some (Some Status_Unknown, ios1))
      | SDP_Other \<Rightarrow> Some (None, ios))"

definition handle_trickle :: "'c peer_env \<Rightarrow> target \<Rightarrow> string \<Rightarrow> 'c sfu_io list \<Rightarrow> 'c handled" where
  "handle_trickle E t init ios =
     (case e_unmarshal E init of
        Inl err \<Rightarrow> Some (must_send E (Reply_Error \<lparr>Err_Code = InternalError,
            Err_Reason = ''unmarshal ice candidate error:  '' @ err\<rparr>) ios)
      | Inr candidate \<Rightarrow>
          (let ios1 = ios @ [P_Trickle candidate t] in
           case e_trickle E ios1 of
             None \<Rightarrow> Some (None, ios1)
           | Some err \<Rightarrow>
               if err = ErrNoTransportEstablished
               then Some (must_send E (Reply_Error \<lparr>Err_Code = InternalError,
                      Err_Reason = ''trickle error:  '' @ e_text E err\<rparr>) ios1)
               else Some (Some Status_Unknown, ios1)))"

section \<open>Subscriptions\<close>

text \<open>
  The flag tells whether a negotiation is needed. Subscribing a track of another peer goes through
  the router of this peer's publisher, a nil dereference when there is none; a track that was not
  added is a nil pointer, which the switch of the layer dereferences.
\<close>

type_synonym 'c subscribing = "(bool \<times> 'c sfu_io list) option"

definition layer_index :: "string \<Rightarrow> nat option" where
  "layer_index layer =
     (if layer = ''f'' then Some 2 else if layer = ''h'' then Some 1 else if layer = ''q'' then Some 0 else None)"

definition add_down_track :: "'c peer_env \<Rightarrow> subscription_info \<Rightarrow> 'c sfu_io list \<Rightarrow> 'c subscribing" where
  "add_down_track E trackInfo ios =
     (if \<not> e_publisher E ios then None
      else
        (let ios1 = ios @ [P_AddDown (SI_TrackId trackInfo) (SI_Layer trackInfo)] in
         case layer_index (SI_Layer trackInfo) of
           None \<Rightarrow> Some (True, ios1)
         | Some n \<Rightarrow> if e_added E ios1 then Some (True, ios1 @ [P_Mute False, P_SwitchLayer n]) else None))"

fun subscribe_tracks :: "'c peer_env \<Rightarrow> subscription_info \<Rightarrow> pub_track list \<Rightarrow> bool \<times> 'c sfu_io list
    \<Rightarrow> 'c subscribing" where
  "subscribe_tracks E trackInfo [] st = Some st"
| "subscribe_tracks E trackInfo (track # tracks) st =
     (if Trk_Receiver track = SI_TrackId trackInfo \<and> Trk_RID track = SI_Layer trackInfo
      then (case add_down_track E trackInfo (snd st) of
              None \<Rightarrow> None
            | Some st1 \<Rightarrow> subscribe_tracks E trackInfo tracks st1)
      else subscribe_tracks E trackInfo tracks st)"

fun subscribe_peers :: "'c peer_env \<Rightarrow> subscription_info \<Rightarrow> session_peer list \<Rightarrow> bool \<times> 'c sfu_io list
    \<Rightarrow> 'c subscribing" where
  "subscribe_peers E trackInfo [] st = Some st"
| "subscribe_peers E trackInfo (p # peers) st =
     (case SP_Tracks p of
        Some tracks \<Rightarrow>
          if SP_ID p \<noteq> e_ID E (snd st)
          then (case subscribe_tracks E trackInfo tracks st of
                  None \<Rightarrow> None
                | Some st1 \<Rightarrow> subscribe_peers E trackInfo peers st1)
          else subscribe_peers E trackInfo peers st
      | None \<Rightarrow> subscribe_peers E trackInfo peers st)"

fun remove_down_tracks :: "string \<Rightarrow> (string \<times> string) option list \<Rightarrow> bool \<times> 'c sfu_io list
    \<Rightarrow> 'c subscribing" where
  "remove_down_tracks trackId [] st = Some st"
| "remove_down_tracks trackId (None # downs) st = None"
| "remove_down_tracks trackId (Some (streamID, ID) # downs) st =
     remove_down_tracks trackId downs
       (if ID = trackId then (True, snd st @ [P_RemoveDown streamID ID]) else st)"

definition subscribe_one :: "'c peer_env \<Rightarrow> subscription_info \<Rightarrow> bool \<times> 'c sfu_io list \<Rightarrow> 'c subscribing" where
  "subscribe_one E trackInfo st =
     (if SI_Subscribe trackInfo
      then (case e_peers E (snd st) of
              None \<Rightarrow> None
            | Some peers \<Rightarrow> subscribe_peers E trackInfo peers st)
      else remove_down_tracks (SI_TrackId trackInfo) (e_down_tracks E (snd st)) st)"

fun subscribe_all :: "'c peer_env \<Rightarrow> subscription_info list \<Rightarrow> bool \<times> 'c sfu_io list \<Rightarrow> 'c subscribing" where
  "subscribe_all E [] st = Some st"
| "subscribe_all E (trackInfo # infos) st =
     (case subscribe_one E trackInfo st of
        None \<Rightarrow> None
      | Some st1 \<Rightarrow> subscribe_all E infos st1)"

definition handle_subscription :: "'c peer_env \<Rightarrow> subscription_info list \<Rightarrow> 'c sfu_io list \<Rightarrow> 'c handled" where
  "handle_subscription E subscriptions ios =
     (if e_subscriber E ios
      then (case subscribe_all E subscriptions (False, ios) of
              None \<Rightarrow> None
            | Some (needNegotiate, ios1) \<Rightarrow>
                Some (None, may_send E (Reply_Subscription True None)
                  (if needNegotiate then ios1 @ [P_Negotiate] else ios1)))
      else Some (None, may_send E (Reply_Subscription True None) ios))"

section \<open>State\<close>

text \<open>
  Where \<open>Signal\<close> is: in its loop, sending the ADD event of a join, in the rest of the join, running
  its deferred calls (first the REMOVE events, then, with the context cancelled, the clean-up), or
  returned. Where its receiving goroutine is: at the check of the context, in \<open>Recv\<close>, sending what it
  received, or done.
\<close>

datatype signal_pc =
    S_Unused
  | S_Loop
  | S_Adding string string "(string, string) gomap" "session_description option"
  | S_Joining string string "(string, string) gomap" "session_description option"
  | S_Closing signal_result
  | S_Cleanup signal_result
  | S_Returned signal_result

datatype recv_pc = V_Check | V_Recv | V_Message rtc_request | V_Error recv_error | V_Done

text \<open>
  \<open>sc_deferred\<close> are the deferred \<open>removeClient\<close> calls, the next one first; \<open>sc_armed\<close> the user of a
  track callback that has not run; \<open>sc_callbacks\<close> tells whether the callbacks are set; \<open>sc_ice\<close>
  counts the callbacks that are sending a failed ICE state.
\<close>

record 'c signal_conn =
  sc_io :: "'c sfu_io list"
  sc_tracks :: "track_info list"
  sc_deferred :: "client_needed_session list"
  sc_armed :: "string option"
  sc_callbacks :: bool
  sc_ice :: nat
  sc_pc :: signal_pc
  sc_recv :: recv_pc

text \<open>A connection is a number; \<open>svc_log\<close> records which connection has sent which event.\<close>

record 'c SFUService =
  sigs :: "(string, nat) gomap"
  sessionEv :: "session_event list"
  ev_fetched :: "session_event list"
  TrackSession :: bool
  svc_log :: "(nat \<times> session_event) list"
  signals :: "nat \<Rightarrow> 'c signal_conn"

definition sessionEv_cap :: nat where "sessionEv_cap = 16"

definition NewSFUService :: "bool \<Rightarrow> 'c SFUService" where
  "NewSFUService track = \<lparr>sigs = Map.empty, sessionEv = [], ev_fetched = [], TrackSession = track, svc_log = [],
     signals = (\<lambda>_. \<lparr>sc_io = [], sc_tracks = [], sc_deferred = [], sc_armed = None, sc_callbacks = False,
       sc_ice = 0, sc_pc = S_Unused, sc_recv = V_Done\<rparr>)\<rparr>"

definition upd_signal :: "nat \<Rightarrow> ('c signal_conn \<Rightarrow> 'c signal_conn) \<Rightarrow> 'c SFUService \<Rightarrow> 'c SFUService" where
  "upd_signal g f s = s\<lparr>signals := (signals s)(g := f (signals s g))\<rparr>"

section \<open>Shared operations\<close>

definition session_added :: "client_needed_session \<Rightarrow> session_event" where
  "session_added sess = \<lparr>SE_Session = sess, State = SessionEvent_ADD\<rparr>"

definition session_removed :: "client_needed_session \<Rightarrow> session_event" where
  "session_removed sess = \<lparr>SE_Session = sess, State = SessionEvent_REMOVE\<rparr>"

definition send_event :: "nat \<Rightarrow> session_event \<Rightarrow> 'c SFUService \<Rightarrow> 'c SFUService" where
  "send_event g e s = s\<lparr>sessionEv := sessionEv s @ [e], svc_log := svc_log s @ [(g, e)]\<rparr>"

definition addClient :: "nat \<Rightarrow> client_needed_session \<Rightarrow> 'c SFUService \<Rightarrow> 'c SFUService" where
  "addClient g sess s = send_event g (session_added sess) s"

definition removeClient :: "nat \<Rightarrow> client_needed_session \<Rightarrow> 'c SFUService \<Rightarrow> 'c SFUService" where
  "removeClient g sess s = send_event g (session_removed sess) s"

definition log_io :: "'c sfu_io \<Rightarrow> 'c signal_conn \<Rightarrow> 'c signal_conn" where
  "log_io i c = c\<lparr>sc_io := sc_io c @ [i]\<rparr>"

definition BroadcastTrackEvent :: "string range_order \<Rightarrow> string \<Rightarrow> track_info list \<Rightarrow> track_state
    \<Rightarrow> 'c SFUService \<Rightarrow> 'c SFUService" where
  "BroadcastTrackEvent ord uid tracks state s =
     foldl (\<lambda>s ID. if ID = uid then s
              else (case sigs s ID of
                      Some g \<Rightarrow> upd_signal g (log_io (Sent (Reply_TrackEvent uid state tracks))) s
                    | None \<Rightarrow> s))
       s (visit ord (dom (sigs s)))"

section \<open>Steps of a connection\<close>

text \<open>A message that the loop takes: a tracked client's join first sends the ADD event.\<close>

definition take_handled :: "nat \<Rightarrow> 'c handled \<Rightarrow> 'c SFUService \<Rightarrow> 'c SFUService option" where
  "take_handled g h s =
     (case h of
        None \<Rightarrow> None
      | Some (Some r, ios) \<Rightarrow> Some (upd_signal g (\<lambda>c. c\<lparr>sc_io := ios, sc_pc := S_Closing r\<rparr>) s)
      | Some (None, ios) \<Rightarrow> Some (upd_signal g (\<lambda>c. c\<lparr>sc_io := ios\<rparr>) s))"

definition take_message :: "'c peer_env \<Rightarrow> nat \<Rightarrow> rtc_request \<Rightarrow> 'c SFUService \<Rightarrow> 'c SFUService option" where
  "take_message E g request s =
     (let ios = sc_io (signals s g) in
      case request of
        Request_Join sid uid config desc \<Rightarrow>
          Some (upd_signal g (\<lambda>c. c\<lparr>sc_pc :=
            if TrackSession s \<and> config_flag config ''IsClient'' then S_Adding sid uid config desc
            else S_Joining sid uid config desc\<rparr>) s)
      | Request_Description d \<Rightarrow> take_handled g (handle_description E d ios) s
      | Request_Trickle t init \<Rightarrow> take_handled g (handle_trickle E t init ios) s
      | Request_Subscription subs \<Rightarrow> take_handled g (handle_subscription E subs ios) s
      | Request_Other \<Rightarrow> Some s)"

definition take_error :: "nat \<Rightarrow> signal_result \<Rightarrow> 'c SFUService \<Rightarrow> 'c SFUService" where
  "take_error g r s = upd_signal g (\<lambda>c. c\<lparr>sc_io := sc_io c @ [P_Close], sc_pc := S_Closing r\<rparr>) s"

definition recv_result :: "recv_error \<Rightarrow> signal_result" where
  "recv_result err = (case err of Other_Error _ \<Rightarrow> Return_err err | _ \<Rightarrow> Return_nil)"

text \<open>The ADD event of a join; its REMOVE is deferred.\<close>

definition join_add :: "nat \<Rightarrow> string \<Rightarrow> string \<Rightarrow> (string, string) gomap \<Rightarrow> session_description option
    \<Rightarrow> 'c SFUService \<Rightarrow> 'c SFUService" where
  "join_add g sid uid config desc s =
     (let sess = \<lparr>Session = sid, User = uid\<rparr> in
      upd_signal g (\<lambda>c. c\<lparr>sc_deferred := sess # sc_deferred c, sc_pc := S_Joining sid uid config desc\<rparr>)
        (addClient g sess s))"

text \<open>The rest of a join; the stream is registered under the identifier of the peer at its end.\<close>

definition join_rest :: "'c peer_env \<Rightarrow> nat \<Rightarrow> string \<Rightarrow> string \<Rightarrow> (string, string) gomap
    \<Rightarrow> session_description option \<Rightarrow> 'c SFUService \<Rightarrow> 'c SFUService option" where
  "join_rest E g sid uid config desc s =
     (let s1 = upd_signal g (\<lambda>c. c\<lparr>sc_callbacks := True\<rparr>) s in
      case handle_join E sid uid config desc (sc_io (signals s1 g)) of
        None \<Rightarrow> None
      | Some (Some r, ios) \<Rightarrow> Some (upd_signal g (\<lambda>c. c\<lparr>sc_io := ios, sc_pc := S_Closing r\<rparr>) s1)
      | Some (None, ios) \<Rightarrow>
          Some (upd_signal g (\<lambda>c. c\<lparr>sc_io := ios, sc_pc := S_Loop,
                    sc_armed := if e_publisher E ios then Some uid else sc_armed c\<rparr>)
                 (s1\<lparr>sigs := (sigs s1)(e_ID E ios \<mapsto> g)\<rparr>)))"

text \<open>
  The debounced callback of the first published track. It runs once per join: it broadcasts the
  tracks that are published by then.
\<close>

definition on_publisher_track :: "string range_order \<Rightarrow> nat \<Rightarrow> string \<Rightarrow> pub_track list \<Rightarrow> 'c SFUService \<Rightarrow> 'c SFUService" where
  "on_publisher_track ord g uid pubTracks s =
     (let s1 = upd_signal g (\<lambda>c. c\<lparr>sc_armed := None\<rparr>) s in
      if length pubTracks = 0 then s1
      else
        (let peerTracks = map info_of pubTracks in
         BroadcastTrackEvent ord uid peerTracks TrackEvent_ADD
           (upd_signal g (\<lambda>c. c\<lparr>sc_tracks := sc_tracks c @ peerTracks\<rparr>) s1)))"

text \<open>A candidate that cannot be marshalled is sent as an empty text.\<close>

definition on_ice_candidate :: "'c peer_env \<Rightarrow> nat \<Rightarrow> 'c \<Rightarrow> target \<Rightarrow> 'c SFUService \<Rightarrow> 'c SFUService" where
  "on_ice_candidate E g candidate t s =
     upd_signal g (log_io (Sent (Reply_Trickle t
       (case e_marshal E candidate of Some bytes \<Rightarrow> bytes | None \<Rightarrow> '''')))) s"

definition on_offer :: "nat \<Rightarrow> string \<Rightarrow> string \<Rightarrow> 'c SFUService \<Rightarrow> 'c SFUService" where
  "on_offer g ty sdp s =
     upd_signal g (log_io (Sent (Reply_Description
       \<lparr>SD_Target = Target_SUBSCRIBER, SD_Type = ty, SD_Sdp = sdp\<rparr>))) s"

text \<open>The deferred calls: one REMOVE event each, then the clean-up.\<close>

definition remove_next :: "nat \<Rightarrow> 'c SFUService \<Rightarrow> 'c SFUService" where
  "remove_next g s =
     (case sc_deferred (signals s g) of
        [] \<Rightarrow> s
      | sess # rest \<Rightarrow> upd_signal g (\<lambda>c. c\<lparr>sc_deferred := rest\<rparr>) (removeClient g sess s))"

fun cleanup_down :: "track_info list \<Rightarrow> (string \<times> string) option list \<Rightarrow> 'c sfu_io list \<Rightarrow> 'c sfu_io list option" where
  "cleanup_down infos [] ios = Some ios"
| "cleanup_down infos (None # downs) ios = None"
| "cleanup_down infos (Some (streamID, ID) # downs) ios =
     cleanup_down infos downs
       (ios @ map (\<lambda>_. P_RemoveDown streamID ID) (filter (\<lambda>t. ID = TI_Id t) infos))"

definition cleanup :: "'c peer_env \<Rightarrow> string range_order \<Rightarrow> nat \<Rightarrow> 'c SFUService \<Rightarrow> 'c SFUService option" where
  "cleanup E ord g s =
     (let ios = sc_io (signals s g); tracksInfo = sc_tracks (signals s g) in
      if e_peers E ios = None then Some s
      else
        (let uid = e_ID E ios;
             s1 = s\<lparr>sigs := (sigs s)(uid := None)\<rparr>;
             s2 = (if length tracksInfo > 0
                   then BroadcastTrackEvent ord uid tracksInfo TrackEvent_REMOVE s1 else s1);
             ios2 = sc_io (signals s2 g) in
         if e_subscriber E ios2
         then (case cleanup_down tracksInfo (e_down_tracks E ios2) ios2 of
                 None \<Rightarrow> None
               | Some ios3 \<Rightarrow> Some (upd_signal g (\<lambda>c. c\<lparr>sc_io := ios3\<rparr>) s2))
         else Some s2))"

text \<open>The context is cancelled between the REMOVE events and the clean-up.\<close>

fun ctx_done :: "signal_pc \<Rightarrow> bool" where
  "ctx_done (S_Cleanup _) = True"
| "ctx_done (S_Returned _) = True"
| "ctx_done _ = False"

text \<open>
  A step to \<open>None\<close> is a panic. The channels \<open>errch\<close> and \<open>msgch\<close> have no buffer: a message passes when
  the loop takes it. Every step may take other answers of the peer.
\<close>

inductive sfu_step :: "'c SFUService \<Rightarrow> 'c SFUService option \<Rightarrow> bool" where
  connect: "sc_pc (signals s g) = S_Unused \<Longrightarrow>
    sfu_step s (Some (upd_signal g (\<lambda>c. c\<lparr>sc_pc := S_Loop, sc_recv := V_Check\<rparr>) s))"
| check: "sc_recv (signals s g) = V_Check \<Longrightarrow>
    sfu_step s (Some (upd_signal g (\<lambda>c. c\<lparr>sc_recv := if ctx_done (sc_pc c) then V_Done else V_Recv\<rparr>) s))"
| recv: "sc_recv (signals s g) = V_Recv \<Longrightarrow>
    sfu_step s (Some (upd_signal g (\<lambda>c. c\<lparr>sc_recv := V_Message request\<rparr>) s))"
| recv_failed: "sc_recv (signals s g) = V_Recv \<Longrightarrow>
    sfu_step s (Some (upd_signal g (\<lambda>c. c\<lparr>sc_recv := V_Error err\<rparr>) s))"
| ice_failed: "sc_pc (signals s g) \<noteq> S_Unused \<Longrightarrow>
    sfu_step s (Some (upd_signal g (\<lambda>c. c\<lparr>sc_ice := sc_ice c + 1\<rparr>) s))"
| message: "sc_pc (signals s g) = S_Loop \<Longrightarrow> sc_recv (signals s g) = V_Message request \<Longrightarrow>
    sfu_step s (take_message E g request (upd_signal g (\<lambda>c. c\<lparr>sc_recv := V_Check\<rparr>) s))"
| error: "sc_pc (signals s g) = S_Loop \<Longrightarrow> sc_recv (signals s g) = V_Error err \<Longrightarrow>
    sfu_step s (Some (take_error g (recv_result err) (upd_signal g (\<lambda>c. c\<lparr>sc_recv := V_Done\<rparr>) s)))"
| ice_error: "sc_pc (signals s g) = S_Loop \<Longrightarrow> sc_ice (signals s g) > 0 \<Longrightarrow>
    sfu_step s (Some (take_error g (Return_other text) (upd_signal g (\<lambda>c. c\<lparr>sc_ice := sc_ice c - 1\<rparr>) s)))"
| add: "sc_pc (signals s g) = S_Adding sid uid config desc \<Longrightarrow> length (sessionEv s) < sessionEv_cap \<Longrightarrow>
    sfu_step s (Some (join_add g sid uid config desc s))"
| join: "sc_pc (signals s g) = S_Joining sid uid config desc \<Longrightarrow>
    sfu_step s (join_rest E g sid uid config desc s)"
| track: "sc_armed (signals s g) = Some uid \<Longrightarrow>
    sfu_step s (Some (on_publisher_track ord g uid pubTracks s))"
| candidate: "sc_callbacks (signals s g) \<Longrightarrow> sfu_step s (Some (on_ice_candidate E g candidate t s))"
| offer: "sc_callbacks (signals s g) \<Longrightarrow> sfu_step s (Some (on_offer g ty sdp s))"
| remove: "sc_pc (signals s g) = S_Closing r \<Longrightarrow> sc_deferred (signals s g) \<noteq> [] \<Longrightarrow>
    length (sessionEv s) < sessionEv_cap \<Longrightarrow> sfu_step s (Some (remove_next g s))"
| cancel: "sc_pc (signals s g) = S_Closing r \<Longrightarrow> sc_deferred (signals s g) = [] \<Longrightarrow>
    sfu_step s (Some (upd_signal g (\<lambda>c. c\<lparr>sc_pc := S_Cleanup r\<rparr>) s))"
| clean: "sc_pc (signals s g) = S_Cleanup r \<Longrightarrow>
    sfu_step s (map_option (upd_signal g (\<lambda>c. c\<lparr>sc_pc := S_Returned r\<rparr>)) (cleanup E ord g s))"
| fetch: "sessionEv s = e # rest \<Longrightarrow>
    sfu_step s (Some (s\<lparr>sessionEv := rest, ev_fetched := ev_fetched s @ [e]\<rparr>))"

abbreviation sfu_reachable :: "bool \<Rightarrow> 'c SFUService \<Rightarrow> bool" where
  "sfu_reachable track \<equiv> reachable (\<lambda>s s'. sfu_step s (Some s')) (NewSFUService track)"

end
