(* ===== verification/SFU_Properties.thy ===== *)
theory SFU_Properties
  imports SFU_Service
begin

text \<open>
  What the signalling service of an SFU keeps: the session events of a connection are balanced, its
  receiving goroutine outlives it, and the syncer that handles the events may lose a client that is
  still connected.
\<close>

section \<open>Frames\<close>

lemma upd_signal_simps [simp]:
  "signals (upd_signal g f s) h = (if h = g then f (signals s g) else signals s h)"
  "sigs (upd_signal g f s) = sigs s" "sessionEv (upd_signal g f s) = sessionEv s"
  "ev_fetched (upd_signal g f s) = ev_fetched s" "svc_log (upd_signal g f s) = svc_log s"
  "TrackSession (upd_signal g f s) = TrackSession s"
  by (simp_all add: upd_signal_def)

lemma send_event_simps [simp]:
  "signals (send_event g e s) = signals s" "sessionEv (send_event g e s) = sessionEv s @ [e]"
  "svc_log (send_event g e s) = svc_log s @ [(g, e)]" "ev_fetched (send_event g e s) = ev_fetched s"
  by (simp_all add: send_event_def)

text \<open>What the invariants read of a connection.\<close>

definition phase :: "'c signal_conn \<Rightarrow> client_needed_session list \<times> signal_pc \<times> recv_pc" where
  "phase c = (sc_deferred c, sc_pc c, sc_recv c)"

text \<open>What they read of the channel.\<close>

definition channel :: "'c SFUService \<Rightarrow> (nat \<times> session_event) list \<times> session_event list" where
  "channel s = (svc_log s, ev_fetched s @ sessionEv s)"

lemma phase_upd [simp]:
  "phase (c\<lparr>sc_io := ios\<rparr>) = phase c" "phase (c\<lparr>sc_tracks := ts\<rparr>) = phase c"
  "phase (c\<lparr>sc_armed := a\<rparr>) = phase c" "phase (c\<lparr>sc_callbacks := b\<rparr>) = phase c" "phase (c\<lparr>sc_ice := n\<rparr>) = phase c"
  "phase (log_io i c) = phase c"
  by (simp_all add: phase_def log_io_def)

lemma channel_upd_signal [simp]: "channel (upd_signal g f s) = channel s"
  by (simp add: channel_def)

lemma BroadcastTrackEvent_frame [simp]:
  "phase (signals (BroadcastTrackEvent ord uid tracks st s) h) = phase (signals s h)"
  "channel (BroadcastTrackEvent ord uid tracks st s) = channel s"
proof -
  define f where "f = (\<lambda>s ID. if ID = uid then s else (case sigs s ID of
     Some g \<Rightarrow> upd_signal g (log_io (Sent (Reply_TrackEvent uid st tracks))) s | None \<Rightarrow> (s :: 'a SFUService)))"
  have one: "phase (signals (f s ID) h) = phase (signals s h)" "channel (f s ID) = channel s" for s ID
    by (auto simp: f_def split: option.split)
  have "phase (signals (foldl f s ids) h) = phase (signals s h) \<and> channel (foldl f s ids) = channel s" for ids
    by (induction ids arbitrary: s) (simp_all add: one)
  then show "phase (signals (BroadcastTrackEvent ord uid tracks st s) h) = phase (signals s h)"
    "channel (BroadcastTrackEvent ord uid tracks st s) = channel s"
    unfolding BroadcastTrackEvent_def f_def [symmetric] by simp_all
qed

lemma upd_sigs_frame [simp]: "signals (s\<lparr>sigs := m\<rparr>) = signals s" "channel (s\<lparr>sigs := m\<rparr>) = channel s"
  by (simp_all add: channel_def)

lemma cleanup_frame:
  assumes "cleanup E ord g s = Some s'"
  shows "phase (signals s' h) = phase (signals s h)" "channel s' = channel s"
  using assms by (auto simp: cleanup_def Let_def split: if_splits option.splits)

text \<open>
  A connection, as the invariants see it, and the events it has sent: one ADD per deferred call and
  per call that has run, one REMOVE per call that has run.
\<close>

fun leaving :: "signal_pc \<Rightarrow> bool" where
  "leaving (S_Closing _) = True"
| "leaving (S_Cleanup _) = True"
| "leaving (S_Returned _) = True"
| "leaving _ = False"

definition emptied :: "signal_pc \<Rightarrow> bool" where
  "emptied p \<longleftrightarrow> p = S_Unused \<or> ctx_done p"

definition balanced :: "client_needed_session list \<times> signal_pc \<times> recv_pc \<Rightarrow> session_event list \<Rightarrow> bool" where
  "balanced ph evs \<longleftrightarrow>
     (case ph of (ds, p, v) \<Rightarrow>
        (\<exists>js. evs = map session_added (rev (js @ ds)) @ map session_removed js \<and> (\<not> leaving p \<longrightarrow> js = [])) \<and>
        (emptied p \<longrightarrow> ds = []))"

definition sent_by :: "nat \<Rightarrow> (nat \<times> session_event) list \<Rightarrow> session_event list" where
  "sent_by g evs = map snd (filter (\<lambda>(h, e). h = g) evs)"

lemma sent_by_simps [simp]:
  "sent_by g [] = []" "sent_by g (evs @ [(h, e)]) = sent_by g evs @ (if h = g then [e] else [])"
  by (simp_all add: sent_by_def)

lemma balanced_move:
  assumes "balanced (ds, p, v) evs" "leaving p \<longrightarrow> leaving p'" "emptied p' \<longrightarrow> ds = []"
  shows "balanced (ds, p', v') evs"
  using assms by (auto simp: balanced_def)

lemma balanced_add:
  assumes "balanced (ds, p, v) evs" "\<not> leaving p" "\<not> emptied p'"
  shows "balanced (sess # ds, p', v') (evs @ [session_added sess])"
  using assms by (auto simp: balanced_def)

lemma balanced_remove:
  assumes "balanced (sess # ds, p, v) evs" "leaving p" "\<not> emptied p"
  shows "balanced (ds, p, v') (evs @ [session_removed sess])"
proof -
  obtain js where "evs = map session_added (rev (js @ sess # ds)) @ map session_removed js"
    using assms(1) by (auto simp: balanced_def)
  then have "evs @ [session_removed sess] =
      map session_added (rev ((js @ [sess]) @ ds)) @ map session_removed (js @ [sess])" by simp
  then show ?thesis using assms(2,3) unfolding balanced_def by blast
qed

definition sfu_inv :: "'c SFUService \<Rightarrow> bool" where
  "sfu_inv s \<longleftrightarrow> (\<forall>g. balanced (phase (signals s g)) (sent_by g (fst (channel s)))) \<and>
     snd (channel s) = map snd (fst (channel s))"

lemma sfu_inv_phases:
  assumes "sfu_inv s" "channel s' = channel s" "\<And>h. h \<noteq> g \<Longrightarrow> phase (signals s' h) = phase (signals s h)"
    "phase (signals s g) = (ds, p, v)" "phase (signals s' g) = (ds, p', v')"
    "leaving p \<longrightarrow> leaving p'" "emptied p' \<longrightarrow> ds = []"
  shows "sfu_inv s'"
proof -
  have "balanced (phase (signals s' h)) (sent_by h (fst (channel s)))" for h
    using assms(1,3-7) balanced_move [of ds p v _ p' v'] unfolding sfu_inv_def
    by (cases "h = g") (simp_all, metis)
  then show ?thesis using assms(1,2) by (simp add: sfu_inv_def)
qed

lemma sfu_inv_event:
  assumes "sfu_inv s" "svc_log s' = svc_log s @ [(g, e)]" "ev_fetched s' @ sessionEv s' = (ev_fetched s @ sessionEv s) @ [e]"
    "\<And>h. h \<noteq> g \<Longrightarrow> phase (signals s' h) = phase (signals s h)"
    "balanced (phase (signals s' g)) (sent_by g (svc_log s) @ [e])"
  shows "sfu_inv s'"
  using assms by (auto simp: sfu_inv_def channel_def)

text \<open>A step that sends no event and moves one connection to a place that satisfies \<open>P\<close>.\<close>

definition moves :: "nat \<Rightarrow> (signal_pc \<Rightarrow> bool) \<Rightarrow> 'c SFUService \<Rightarrow> 'c SFUService \<Rightarrow> bool" where
  "moves g P s s' \<longleftrightarrow> channel s' = channel s \<and> (\<forall>h. h \<noteq> g \<longrightarrow> phase (signals s' h) = phase (signals s h)) \<and>
     sc_deferred (signals s' g) = sc_deferred (signals s g) \<and> sc_recv (signals s' g) = sc_recv (signals s g) \<and>
     P (sc_pc (signals s' g))"

lemma moves_here [simp]: "P (sc_pc (signals s g)) \<Longrightarrow> moves g P s s"
  by (simp add: moves_def)

lemma moves_upd_signal [simp]:
  "moves g P s (upd_signal g f s) \<longleftrightarrow>
     sc_deferred (f (signals s g)) = sc_deferred (signals s g) \<and> sc_recv (f (signals s g)) = sc_recv (signals s g) \<and>
     P (sc_pc (f (signals s g)))"
  by (auto simp: moves_def)

lemma moves_take_handled:
  assumes "take_handled g h s = Some s'" "P (sc_pc (signals s g))" "\<And>r. P (S_Closing r)"
  shows "moves g P s s'"
  using assms by (auto simp: take_handled_def split: option.splits prod.splits)

lemma moves_take_message:
  assumes "take_message E g request s = Some s'" "sc_pc (signals s g) = S_Loop"
  shows "moves g (\<lambda>p. \<not> emptied p) s s'"
proof (cases request)
  case Request_Join
  with assms show ?thesis by (auto simp: take_message_def emptied_def)
next
  case Request_Other
  with assms show ?thesis by (simp add: take_message_def emptied_def)
qed (use assms in \<open>simp_all add: take_message_def Let_def moves_take_handled emptied_def\<close>)

lemma moves_join_rest:
  assumes "join_rest E g sid usr config desc s = Some s'"
  shows "moves g (\<lambda>p. \<not> emptied p) s s'"
  using assms by (auto simp: join_rest_def Let_def moves_def channel_def emptied_def upd_signal_def
      split: option.splits prod.splits)

lemma sfu_inv_moves:
  assumes "moves g P s s'" "sfu_inv s" "\<And>p. P p \<Longrightarrow> \<not> emptied p" "\<not> leaving (sc_pc (signals s g))"
  shows "sfu_inv s'"
  by (rule sfu_inv_phases [of s s' g "sc_deferred (signals s g)" "sc_pc (signals s g)" "sc_recv (signals s g)"
        "sc_pc (signals s' g)" "sc_recv (signals s g)"])
    (use assms in \<open>auto simp: moves_def phase_def\<close>)

lemma sfu_inv_receiving:
  assumes "sfu_inv s"
  shows "sfu_inv (upd_signal g (\<lambda>c. c\<lparr>sc_recv := v c\<rparr>) s)"
proof (rule sfu_inv_phases [OF assms])
  show "phase (signals s g) = (sc_deferred (signals s g), sc_pc (signals s g), sc_recv (signals s g))"
    by (simp add: phase_def)
  show "emptied (sc_pc (signals s g)) \<longrightarrow> sc_deferred (signals s g) = []"
    using assms by (auto simp: sfu_inv_def balanced_def phase_def)
qed (simp_all add: phase_def)

lemma sfu_inv_same:
  assumes "sfu_inv s" "channel s' = channel s" "\<And>h. phase (signals s' h) = phase (signals s h)"
  shows "sfu_inv s'"
  using assms by (simp add: sfu_inv_def)

lemma sfu_inv_conn:
  "sfu_inv s \<Longrightarrow> balanced (sc_deferred (signals s g), sc_pc (signals s g), sc_recv (signals s g)) (sent_by g (svc_log s))"
  by (simp add: sfu_inv_def phase_def channel_def)

lemma sfu_inv_step:
  assumes "sfu_step s (Some s')" "sfu_inv s"
  shows "sfu_inv s'"
  using assms(1)
proof cases
  case (connect g)
  then show ?thesis
    by (intro sfu_inv_phases [OF assms(2), of s' g _ S_Unused _ S_Loop]) (auto simp: phase_def emptied_def)
next
  case (check g)
  from sfu_inv_receiving [OF assms(2), of g "\<lambda>c. if ctx_done (sc_pc c) then V_Done else V_Recv"] check
  show ?thesis by simp
next
  case (recv g request)
  with sfu_inv_receiving [OF assms(2), of g "\<lambda>_. V_Message request"] show ?thesis by simp
next
  case (recv_failed g err)
  with sfu_inv_receiving [OF assms(2), of g "\<lambda>_. V_Error err"] show ?thesis by simp
next
  case (ice_failed g)
  then show ?thesis using assms(2) by (simp add: sfu_inv_def)
next
  case (message g request E)
  let ?s = "upd_signal g (\<lambda>c. c\<lparr>sc_recv := V_Check\<rparr>) s"
  have "moves g (\<lambda>p. \<not> emptied p) ?s s'" using message by (intro moves_take_message) simp_all
  from sfu_inv_moves [OF this sfu_inv_receiving [OF assms(2)]] message show ?thesis by simp
next
  case (error g err)
  then show ?thesis
    by (intro sfu_inv_phases [OF assms(2), of s' g _ S_Loop _ "S_Closing (recv_result err)"])
      (auto simp: phase_def emptied_def take_error_def)
next
  case (ice_error g why)
  then show ?thesis
    by (intro sfu_inv_phases [OF assms(2), of s' g _ S_Loop _ "S_Closing (Return_other why)"])
      (auto simp: phase_def emptied_def take_error_def)
next
  case (add g sid usr config desc)
  let ?sess = "\<lparr>Session = sid, User = usr\<rparr>"
  have "balanced (sc_deferred (signals s g), S_Adding sid usr config desc, sc_recv (signals s g)) (sent_by g (svc_log s))"
    using sfu_inv_conn [OF assms(2), of g] add by simp
  from balanced_add [OF this, of "S_Joining sid usr config desc" ?sess] add show ?thesis
    by (intro sfu_inv_event [OF assms(2), of s' g "session_added ?sess"])
      (simp_all add: join_add_def addClient_def phase_def emptied_def Let_def)
next
  case (join g sid usr config desc E)
  then have "moves g (\<lambda>p. \<not> emptied p) s s'" by (intro moves_join_rest) simp
  from sfu_inv_moves [OF this assms(2)] join show ?thesis by simp
next
  case (track g usr ord pubTracks)
  then show ?thesis by (intro sfu_inv_same [OF assms(2)]) (auto simp: on_publisher_track_def Let_def)
next
  case candidate
  then show ?thesis by (intro sfu_inv_same [OF assms(2)]) (auto simp: on_ice_candidate_def)
next
  case offer
  then show ?thesis by (intro sfu_inv_same [OF assms(2)]) (auto simp: on_offer_def)
next
  case (remove g r)
  then obtain sess ds where ds: "sc_deferred (signals s g) = sess # ds" by (cases "sc_deferred (signals s g)") auto
  have "balanced (sess # ds, S_Closing r, sc_recv (signals s g)) (sent_by g (svc_log s))"
    using sfu_inv_conn [OF assms(2), of g] remove ds by simp
  from balanced_remove [OF this] remove ds show ?thesis
    by (intro sfu_inv_event [OF assms(2), of s' g "session_removed sess"])
      (simp_all add: remove_next_def removeClient_def phase_def emptied_def)
next
  case (cancel g r)
  then show ?thesis
    by (intro sfu_inv_phases [OF assms(2), of s' g "[]" "S_Closing r" _ "S_Cleanup r"])
      (auto simp: phase_def emptied_def)
next
  case (clean g r E ord)
  then obtain t where t: "cleanup E ord g s = Some t" "s' = upd_signal g (\<lambda>c. c\<lparr>sc_pc := S_Returned r\<rparr>) t"
    by (cases "cleanup E ord g s") auto
  have t_inv: "sfu_inv t" using cleanup_frame [OF t(1)] by (intro sfu_inv_same [OF assms(2)])
  have "phase (signals t g) = phase (signals s g)" by (rule cleanup_frame [OF t(1)])
  then have pc: "sc_pc (signals t g) = S_Cleanup r" using clean by (simp add: phase_def)
  then have "sc_deferred (signals t g) = []"
    using sfu_inv_conn [OF t_inv, of g] by (simp add: balanced_def emptied_def)
  with pc show ?thesis unfolding t(2)
    by (intro sfu_inv_phases [OF t_inv, of _ g "[]" "S_Cleanup r" _ "S_Returned r"]) (auto simp: phase_def emptied_def)
next
  case (fetch e rest)
  then show ?thesis using assms(2) by (simp add: sfu_inv_def channel_def)
qed

lemma sfu_inv_reachable: "sfu_reachable track s \<Longrightarrow> sfu_inv s"
  by (induction rule: reachable_invariant)
    (auto intro: sfu_inv_step, simp add: sfu_inv_def NewSFUService_def phase_def channel_def balanced_def emptied_def)

section \<open>The receiving goroutine\<close>

definition stranded :: "nat \<Rightarrow> 'c SFUService \<Rightarrow> bool" where
  "stranded g s \<longleftrightarrow> leaving (sc_pc (signals s g)) \<and> sc_recv (signals s g) \<notin> {V_Check, V_Done}"

lemma stranded_phase:
  assumes "stranded g s" "phase (signals s' g) = phase (signals s g)"
  shows "stranded g s'"
  using assms by (simp add: stranded_def phase_def)

lemma stranded_step:
  assumes "sfu_step s (Some s')" "stranded g s"
  shows "stranded g s'"
  using assms(1)
proof cases
  case (message h request E)
  let ?s = "upd_signal h (\<lambda>c. c\<lparr>sc_recv := V_Check\<rparr>) s"
  have "h \<noteq> g" using message assms(2) by (auto simp: stranded_def)
  moreover have "moves h (\<lambda>p. \<not> emptied p) ?s s'" using message by (intro moves_take_message) simp_all
  ultimately show ?thesis by (intro stranded_phase [OF assms(2)]) (auto simp: moves_def)
next
  case (join h sid usr config desc E)
  then have "moves h (\<lambda>p. \<not> emptied p) s s'" by (intro moves_join_rest) simp
  moreover have "h \<noteq> g" using join assms(2) by (auto simp: stranded_def)
  ultimately show ?thesis by (intro stranded_phase [OF assms(2)]) (auto simp: moves_def)
next
  case (clean h r E ord)
  then obtain t where t: "cleanup E ord h s = Some t" "s' = upd_signal h (\<lambda>c. c\<lparr>sc_pc := S_Returned r\<rparr>) t"
    by (cases "cleanup E ord h s") auto
  have "stranded g t" by (rule stranded_phase [OF assms(2) cleanup_frame(1) [OF t(1)]])
  then show ?thesis by (auto simp: t(2) stranded_def)
next
  case (track h usr ord pubTracks)
  then show ?thesis by (intro stranded_phase [OF assms(2)]) (auto simp: on_publisher_track_def Let_def)
next
  case (remove h r)
  then show ?thesis using assms(2)
    by (cases "sc_deferred (signals s h)") (auto simp: stranded_def remove_next_def removeClient_def)
qed (use assms(2) in \<open>auto simp: stranded_def take_error_def join_add_def addClient_def on_ice_candidate_def
        on_offer_def log_io_def Let_def\<close>)

lemma stranded_reachable:
  "reachable (\<lambda>s s'. sfu_step s (Some s')) s s' \<Longrightarrow> stranded g s \<Longrightarrow> stranded g s'"
  by (induction rule: reachable_invariant) (auto intro: stranded_step)

section \<open>The events and the syncer\<close>

fun handle_events :: "texts \<Rightarrow> session_event list \<Rightarrow> ISGLBSyncer \<Rightarrow> ISGLBSyncer option" where
  "handle_events E [] s = Some s"
| "handle_events E (event # events) s =
     (case handleSessionEvent E event s of
        None \<Rightarrow> None
      | Some s1 \<Rightarrow> handle_events E events s1)"

lemma handleSessionEvent_dom:
  assumes "handleSessionEvent E e s = Some s'" "State e = SessionEvent_ADD \<or> State e = SessionEvent_REMOVE"
  shows "k \<in> dom (clientSet s') \<longleftrightarrow>
    (if client_key (SE_Session e) = k then State e = SessionEvent_ADD else k \<in> dom (clientSet s))"
proof (cases "State e = SessionEvent_ADD")
  case True
  with assms(1) show ?thesis
    by (auto simp: handleSessionEvent_def Add_def NotifySFUStatus_def ClientNeededSessionItem_ops_def
        split: option.splits if_splits)
next
  case False
  with assms show ?thesis
    by (auto simp: handleSessionEvent_def Del_def NotifySFUStatus_def ClientNeededSessionItem_ops_def
        split: option.splits if_splits)
qed

section \<open>Runs\<close>

text \<open>A peer that joins, has neither publisher nor subscriber, and is alone in its session.\<close>

definition demo_peer :: "string peer_env" where
  "demo_peer = \<lparr>e_send = (\<lambda>_. None), e_ID = (\<lambda>_. ''u''), e_join = (\<lambda>_. None), e_publisher = (\<lambda>_. False),
     e_subscriber = (\<lambda>_. False), e_peers = (\<lambda>_. Some []), e_answer = (\<lambda>_. Inr (''answer'', '''')),
     e_set_remote = (\<lambda>_. None), e_trickle = (\<lambda>_. None), e_added = (\<lambda>_. True), e_down_tracks = (\<lambda>_. []),
     e_marshal = Some, e_unmarshal = Inr, e_text = (\<lambda>_. ''error''), e_sdp_type = (\<lambda>_. SDP_Offer)\<rparr>"

definition demo_client :: client_needed_session where
  "demo_client = \<lparr>Session = ''s'', User = ''u''\<rparr>"

abbreviation runs_to :: "'c SFUService \<Rightarrow> 'c SFUService \<Rightarrow> bool" where
  "runs_to \<equiv> reachable (\<lambda>s s'. sfu_step s (Some s'))"

lemma runs_to_trans: "runs_to s t \<Longrightarrow> runs_to t u \<Longrightarrow> runs_to s u"
  by (simp add: reachable_def)

lemma run_connect:
  assumes "sc_pc (signals s g) = S_Unused"
  shows "runs_to s (upd_signal g (\<lambda>c. c\<lparr>sc_pc := S_Loop, sc_recv := V_Recv\<rparr>) s)"
proof -
  let ?t = "upd_signal g (\<lambda>c. c\<lparr>sc_pc := S_Loop, sc_recv := V_Check\<rparr>) s"
  let ?u = "upd_signal g (\<lambda>c. c\<lparr>sc_recv := if ctx_done (sc_pc c) then V_Done else V_Recv\<rparr>) ?t"
  have "sfu_step s (Some ?t)" using assms by (rule sfu_step.connect)
  then have "runs_to s ?t" by (rule reachable_first)
  moreover have "sfu_step ?t (Some ?u)" by (rule sfu_step.check) simp
  ultimately have "runs_to s ?u" by (rule reachable_step)
  also have "?u = upd_signal g (\<lambda>c. c\<lparr>sc_pc := S_Loop, sc_recv := V_Recv\<rparr>) s"
    by (simp add: upd_signal_def)
  finally show ?thesis .
qed

lemma run_join:
  fixes s :: "string SFUService"
  assumes "sc_pc (signals s g) = S_Unused" "TrackSession s" "length (sessionEv s) < sessionEv_cap"
    "sc_deferred (signals s g) = []" "sc_tracks (signals s g) = []"
  obtains s' where "runs_to s s'" "sc_pc (signals s' g) = S_Loop" "sc_recv (signals s' g) = V_Check"
    "sc_deferred (signals s' g) = [demo_client]" "sc_tracks (signals s' g) = []"
    "\<And>h. h \<noteq> g \<Longrightarrow> signals s' h = signals s h" "sigs s' = (sigs s)(''u'' \<mapsto> g)"
    "sessionEv s' = sessionEv s @ [session_added demo_client]" "ev_fetched s' = ev_fetched s"
    "TrackSession s' = TrackSession s"
proof -
  define config where "config = [''IsClient'' \<mapsto> ''true'', ''NoPublish'' \<mapsto> ''true'' :: string]"
  let ?req = "Request_Join ''s'' ''u'' config None"
  define a where "a = upd_signal g (\<lambda>c. c\<lparr>sc_pc := S_Loop, sc_recv := V_Recv\<rparr>) s"
  define b where "b = upd_signal g (\<lambda>c. c\<lparr>sc_recv := V_Message ?req\<rparr>) a"
  define b' where "b' = upd_signal g (\<lambda>c. c\<lparr>sc_recv := V_Check\<rparr>) b"
  define d where "d = upd_signal g (\<lambda>c. c\<lparr>sc_pc := S_Adding ''s'' ''u'' config None\<rparr>) b'"
  define e where "e = join_add g ''s'' ''u'' config None d"
  note defs = a_def b_def b'_def d_def
  obtain s' where s': "join_rest demo_peer g ''s'' ''u'' config None e = Some s'"
    by (simp add: join_rest_def handle_join_def join_publish_def join_existing_def demo_peer_def Let_def)
  have "runs_to s a" unfolding a_def using assms(1) by (rule run_connect)
  moreover have "sfu_step a (Some b)" unfolding b_def by (rule sfu_step.recv) (simp add: a_def)
  ultimately have "runs_to s b" by (rule reachable_step)
  moreover have "sfu_step b (take_message demo_peer g ?req b')"
    unfolding b'_def by (rule sfu_step.message) (simp_all add: a_def b_def)
  then have "sfu_step b (Some d)"
    using assms(2) by (simp add: take_message_def defs config_flag_def config_def)
  ultimately have "runs_to s d" by (rule reachable_step)
  moreover have "sfu_step d (Some e)"
    unfolding e_def by (rule sfu_step.add) (simp_all add: defs assms(3))
  ultimately have "runs_to s e" by (rule reachable_step)
  moreover have "sfu_step e (join_rest demo_peer g ''s'' ''u'' config None e)"
    by (rule sfu_step.join) (simp add: e_def d_def join_add_def addClient_def Let_def)
  then have "sfu_step e (Some s')" by (simp only: s')
  ultimately have "runs_to s s'" by (rule reachable_step)
  from this show ?thesis
  proof (rule that)
  qed (use s' assms in \<open>auto simp: e_def defs join_add_def addClient_def send_event_def join_rest_def handle_join_def
      join_publish_def join_existing_def demo_peer_def demo_client_def Let_def upd_signal_def\<close>)
qed

lemma run_leave:
  fixes s :: "string SFUService"
  assumes "sc_pc (signals s g) = S_Loop" "sc_recv (signals s g) = V_Check" "sc_deferred (signals s g) = [sess]"
    "sc_tracks (signals s g) = []" "length (sessionEv s) < sessionEv_cap"
  obtains s' where "runs_to s s'" "sc_pc (signals s' g) = S_Returned Return_nil"
    "\<And>h. h \<noteq> g \<Longrightarrow> signals s' h = signals s h" "sigs s' = (sigs s)(''u'' := None)"
    "sessionEv s' = sessionEv s @ [session_removed sess]" "ev_fetched s' = ev_fetched s"
proof -
  define a where "a = upd_signal g (\<lambda>c. c\<lparr>sc_recv := if ctx_done (sc_pc c) then V_Done else V_Recv\<rparr>) s"
  define b where "b = upd_signal g (\<lambda>c. c\<lparr>sc_recv := V_Error EOF\<rparr>) a"
  define d where "d = take_error g (recv_result EOF) (upd_signal g (\<lambda>c. c\<lparr>sc_recv := V_Done\<rparr>) b)"
  define e where "e = remove_next g d"
  define f where "f = upd_signal g (\<lambda>c. c\<lparr>sc_pc := S_Cleanup Return_nil\<rparr>) e"
  define t where "t = f\<lparr>sigs := (sigs f)(''u'' := None)\<rparr>"
  define s' where "s' = upd_signal g (\<lambda>c. c\<lparr>sc_pc := S_Returned Return_nil\<rparr>) t"
  note defs = a_def b_def d_def
  have 1: "sfu_step s (Some a)" unfolding a_def using assms(2) by (rule sfu_step.check)
  have 2: "sfu_step a (Some b)" unfolding b_def by (rule sfu_step.recv_failed) (simp add: a_def assms(1))
  have 3: "sfu_step b (Some d)"
    unfolding d_def by (rule sfu_step.error) (simp_all add: a_def b_def assms(1))
  have 4: "sfu_step d (Some e)"
    unfolding e_def by (rule sfu_step.remove) (simp_all add: defs take_error_def assms)
  have e: "sc_pc (signals e g) = S_Closing Return_nil" "sc_deferred (signals e g) = []"
    by (simp_all add: e_def remove_next_def defs take_error_def removeClient_def recv_result_def assms(3))
  then have 5: "sfu_step e (Some f)" unfolding f_def by (rule sfu_step.cancel)
  have "sfu_step f (map_option (upd_signal g (\<lambda>c. c\<lparr>sc_pc := S_Returned Return_nil\<rparr>)) (cleanup demo_peer ascending g f))"
    by (rule sfu_step.clean) (simp add: f_def)
  moreover have "cleanup demo_peer ascending g f = Some t"
    using assms(4) by (simp add: cleanup_def demo_peer_def Let_def t_def f_def e_def remove_next_def defs take_error_def
        removeClient_def assms(3))
  ultimately have 6: "sfu_step f (Some s')" by (simp add: s'_def)
  have "runs_to s a" using 1 by (rule reachable_first)
  then have "runs_to s b" using 2 by (rule reachable_step)
  then have "runs_to s d" using 3 by (rule reachable_step)
  then have "runs_to s e" using 4 by (rule reachable_step)
  then have "runs_to s f" using 5 by (rule reachable_step)
  then have "runs_to s s'" using 6 by (rule reachable_step)
  then show ?thesis
  proof (rule that)
  qed (simp_all add: s'_def t_def f_def e_def remove_next_def defs take_error_def removeClient_def send_event_def
      upd_signal_def assms(3))
qed

lemma run_fetch:
  "\<exists>s'. runs_to s s' \<and> signals s' = signals s \<and> sigs s' = sigs s \<and> sessionEv s' = [] \<and>
     ev_fetched s' = ev_fetched s @ sessionEv s"
proof (induction "sessionEv s" arbitrary: s)
  case Nil
  have "runs_to s s" by simp
  with Nil show ?case by (intro exI [of _ s]) simp
next
  case (Cons e rest)
  let ?t = "s\<lparr>sessionEv := rest, ev_fetched := ev_fetched s @ [e]\<rparr>"
  have "sfu_step s (Some ?t)" using Cons(2) [symmetric] by (rule sfu_step.fetch)
  then have t: "runs_to s ?t" by (rule reachable_first)
  obtain s' where s': "runs_to ?t s'" "signals s' = signals s" "sigs s' = sigs s" "sessionEv s' = []"
    "ev_fetched s' = ev_fetched s @ e # rest"
    using Cons(1) [of ?t] by auto
  from runs_to_trans [OF t s'(1)] s'(2-) Cons(2) show ?case by (intro exI [of _ s']) auto
qed

section \<open>Properties\<close>

text \<open>
  C15. The session events of a connection are balanced: while it serves it has sent one ADD for
  every deferred REMOVE, and when \<open>Signal\<close> has returned it has sent the REMOVE of every session it
  has added, the newest first. The events arrive at the syncer in the order in which they were sent.
\<close>

theorem signal_balances_sessions:
  assumes "sfu_reachable track s"
  shows "(\<forall>r. sc_pc (signals s g) = S_Returned r \<longrightarrow>
      (\<exists>js. sent_by g (svc_log s) = map session_added (rev js) @ map session_removed js)) \<and>
    (sc_pc (signals s g) = S_Loop \<longrightarrow>
      sent_by g (svc_log s) = map session_added (rev (sc_deferred (signals s g)))) \<and>
    ev_fetched s @ sessionEv s = map snd (svc_log s)"
proof -
  note inv = sfu_inv_reachable [OF assms]
  have "ev_fetched s @ sessionEv s = map snd (svc_log s)" using inv by (simp add: sfu_inv_def channel_def)
  moreover have "\<exists>js. sent_by g (svc_log s) = map session_added (rev js) @ map session_removed js"
    if "sc_pc (signals s g) = S_Returned r" for r
    using sfu_inv_conn [OF inv, of g] that by (auto simp: balanced_def emptied_def)
  moreover have "sent_by g (svc_log s) = map session_added (rev (sc_deferred (signals s g)))"
    if "sc_pc (signals s g) = S_Loop"
    using sfu_inv_conn [OF inv, of g] that by (auto simp: balanced_def emptied_def)
  ultimately show ?thesis by blast
qed

lemma demo_joined:
  obtains s :: "string SFUService" where "sfu_reachable True s" "sc_pc (signals s 0) = S_Loop"
    "sc_recv (signals s 0) = V_Check" "sc_deferred (signals s 0) = [demo_client]" "sc_tracks (signals s 0) = []"
    "\<And>h. h \<noteq> 0 \<Longrightarrow> signals s h = signals (NewSFUService True) h" "sigs s = [''u'' \<mapsto> 0]"
    "sessionEv s = [session_added demo_client]" "ev_fetched s = []" "TrackSession s"
proof -
  let ?n = "NewSFUService True :: string SFUService"
  have "sc_pc (signals ?n 0) = S_Unused" "TrackSession ?n" "length (sessionEv ?n) < sessionEv_cap"
    "sc_deferred (signals ?n 0) = []" "sc_tracks (signals ?n 0) = []"
    by (simp_all add: NewSFUService_def sessionEv_cap_def)
  from run_join [OF this] obtain s where s: "runs_to ?n s" "sc_pc (signals s 0) = S_Loop"
    "sc_recv (signals s 0) = V_Check" "sc_deferred (signals s 0) = [demo_client]" "sc_tracks (signals s 0) = []"
    "\<And>h. h \<noteq> 0 \<Longrightarrow> signals s h = signals ?n h" "sigs s = (sigs ?n)(''u'' \<mapsto> 0)"
    "sessionEv s = sessionEv ?n @ [session_added demo_client]" "ev_fetched s = ev_fetched ?n" "TrackSession s = TrackSession ?n"
    by metis
  from s(1-6) show ?thesis
    by (rule that) (use s(7-10) in \<open>simp_all add: NewSFUService_def\<close>)
qed

theorem signal_balances_sessions_witness:
  "\<exists>s :: string SFUService. sfu_reachable True s \<and> sc_pc (signals s 0) = S_Returned Return_nil \<and>
     (\<exists>js. sent_by 0 (svc_log s) = map session_added (rev js) @ map session_removed js)"
proof -
  obtain s :: "string SFUService" where s: "sfu_reachable True s" "sc_pc (signals s 0) = S_Loop"
    "sc_recv (signals s 0) = V_Check" "sc_deferred (signals s 0) = [demo_client]" "sc_tracks (signals s 0) = []"
    "sessionEv s = [session_added demo_client]"
    using demo_joined by metis
  have "length (sessionEv s) < sessionEv_cap" by (simp add: s(6) sessionEv_cap_def)
  from run_leave [OF s(2-5) this] obtain s' where s': "runs_to s s'" "sc_pc (signals s' 0) = S_Returned Return_nil"
    by metis
  have "sfu_reachable True s'" by (rule runs_to_trans [OF s(1) s'(1)])
  from signal_balances_sessions [OF this, of 0] this s'(2) show ?thesis by blast
qed

text \<open>
  When \<open>Signal\<close> leaves its loop while its receiving goroutine is in \<open>Recv\<close> or has something to
  hand over, that goroutine never ends: nobody takes from its channels any more.
\<close>

theorem signal_leaks_receiver:
  assumes "leaving (sc_pc (signals s g))" and "sc_recv (signals s g) \<noteq> V_Check" and "sc_recv (signals s g) \<noteq> V_Done"
    and "reachable (\<lambda>s s'. sfu_step s (Some s')) s s'"
  shows "sc_recv (signals s' g) \<noteq> V_Done"
  using stranded_reachable [OF assms(4), of g] assms(1-3) by (simp add: stranded_def)

theorem signal_leaks_receiver_witness:
  "\<exists>s :: string SFUService. sfu_reachable False s \<and> leaving (sc_pc (signals s 0)) \<and>
     (\<exists>s'. runs_to s s' \<and> sc_recv (signals s' 0) = V_Error EOF)"
proof -
  let ?n = "NewSFUService False :: string SFUService"
  define a where "a = upd_signal 0 (\<lambda>c. c\<lparr>sc_pc := S_Loop, sc_recv := V_Recv\<rparr>) ?n"
  define b where "b = upd_signal 0 (\<lambda>c. c\<lparr>sc_ice := sc_ice c + 1\<rparr>) a"
  define d where "d = take_error 0 (Return_other ''ice'') (upd_signal 0 (\<lambda>c. c\<lparr>sc_ice := sc_ice c - 1\<rparr>) b)"
  define e where "e = upd_signal 0 (\<lambda>c. c\<lparr>sc_recv := V_Error EOF\<rparr>) d"
  have 1: "sfu_step a (Some b)" unfolding b_def by (rule sfu_step.ice_failed) (simp add: a_def)
  have 2: "sfu_step b (Some d)" unfolding d_def by (rule sfu_step.ice_error) (simp_all add: a_def b_def)
  have d: "leaving (sc_pc (signals d 0))" "sc_recv (signals d 0) = V_Recv"
    by (simp_all add: d_def take_error_def b_def a_def)
  have 3: "sfu_step d (Some e)" unfolding e_def by (rule sfu_step.recv_failed) (rule d(2))
  have "sfu_reachable False a" unfolding a_def by (rule run_connect) (simp add: NewSFUService_def)
  then have "sfu_reachable False b" using 1 by (rule reachable_step)
  then have reach: "sfu_reachable False d" using 2 by (rule reachable_step)
  have run: "runs_to d e" using 3 by (rule reachable_first)
  have "sc_recv (signals e 0) \<noteq> V_Done" by (rule signal_leaks_receiver [OF d(1) _ _ run]) (simp_all add: d(2))
  then have "sc_recv (signals e 0) = V_Error EOF" by (simp add: e_def)
  with d(1) reach run show ?thesis by blast
qed

text \<open>
  A syncer that has handled a sequence of session events has exactly the clients whose last
  event was an ADD, and those it had before that no event was about.
\<close>

theorem clients_follow_last_event:
  assumes "handle_events E events s = Some s'"
    and "\<And>e. e \<in> set events \<Longrightarrow> State e = SessionEvent_ADD \<or> State e = SessionEvent_REMOVE"
  shows "k \<in> dom (clientSet s') \<longleftrightarrow>
    (case last_such (\<lambda>e. client_key (SE_Session e) = k) events of
       Some e \<Rightarrow> State e = SessionEvent_ADD
     | None \<Rightarrow> k \<in> dom (clientSet s))"
  using assms
proof (induction events arbitrary: s)
  case (Cons e events)
  then obtain t where t: "handleSessionEvent E e s = Some t" "handle_events E events t = Some s'"
    by (auto split: option.splits)
  have "k \<in> dom (clientSet s') \<longleftrightarrow>
    (case last_such (\<lambda>e. client_key (SE_Session e) = k) events of
       Some e \<Rightarrow> State e = SessionEvent_ADD
     | None \<Rightarrow> k \<in> dom (clientSet t))"
    using Cons(3) by (intro Cons(1) [OF t(2)]) simp
  with handleSessionEvent_dom [OF t(1), of k] Cons(3) [of e] show ?case
    by (simp split: option.split)
qed simp

lemma handle_events_open:
  assumes "\<not> closed s"
  shows "\<exists>s'. handle_events E events s = Some s' \<and> \<not> closed s'"
  using assms
proof (induction events arbitrary: s)
  case (Cons e events)
  have "\<exists>t. handleSessionEvent E e s = Some t \<and> \<not> closed t"
    using Cons(2) by (auto simp: handleSessionEvent_def Add_def Del_def NotifySFUStatus_def
        ClientNeededSessionItem_ops_def)
  with Cons(1) show ?case by fastforce
qed simp

lemma session_event_states [simp]:
  "State (session_added sess) = SessionEvent_ADD" "State (session_removed sess) = SessionEvent_REMOVE"
  "SE_Session (session_added sess) = sess" "SE_Session (session_removed sess) = sess"
  "SessionEvent_REMOVE \<noteq> SessionEvent_ADD"
  by (simp_all add: session_added_def session_removed_def SessionEvent_ADD_def SessionEvent_REMOVE_def)

theorem clients_follow_last_event_witness:
  "\<exists>s'. handle_events \<lparr>node_text = (\<lambda>_. ''''), client_text = (\<lambda>_. ''''), forward_text = (\<lambda>_. ''''), proceed_text = (\<lambda>_. '''')\<rparr>
      [session_added demo_client]
      (NewSFUStatusSyncer \<lparr>Dc = [], Nid = ''n'', Service = [], Rpc = None\<rparr>) = Some s' \<and>
    client_key demo_client \<in> dom (clientSet s')"
  (is "\<exists>s'. handle_events ?E ?es ?s = Some s' \<and> _")
proof -
  obtain s' where s': "handle_events ?E ?es ?s = Some s'"
    using handle_events_open [of ?s ?E ?es] by (auto simp: NewSFUStatusSyncer_def)
  from clients_follow_last_event [OF s'] s' show ?thesis by simp
qed

text \<open>
  A client can be lost while it is connected. A client that publishes and subscribes has two
  connections with one user and session; when the first leaves, its REMOVE takes the client from the
  syncer and its clean-up takes the stream of the other from the map, although the other still serves.
\<close>

theorem client_lost_while_connected:
  "\<exists>s :: string SFUService. sfu_reachable True s \<and>
     sc_pc (signals s 1) = S_Loop \<and> sc_deferred (signals s 1) = [demo_client] \<and> sigs s = Map.empty \<and>
     (\<forall>E n. \<exists>t. handle_events E (ev_fetched s) (NewSFUStatusSyncer n) = Some t \<and>
        client_key demo_client \<notin> dom (clientSet t))"
proof -
  obtain a :: "string SFUService" where a: "sfu_reachable True a" "sc_pc (signals a 0) = S_Loop"
    "sc_recv (signals a 0) = V_Check" "sc_deferred (signals a 0) = [demo_client]" "sc_tracks (signals a 0) = []"
    "signals a 1 = signals (NewSFUService True) 1" "sigs a = [''u'' \<mapsto> 0]"
    "sessionEv a = [session_added demo_client]" "ev_fetched a = []" "TrackSession a"
    using demo_joined by (metis zero_neq_one)
  have "sc_pc (signals a 1) = S_Unused" "length (sessionEv a) < sessionEv_cap"
    "sc_deferred (signals a 1) = []" "sc_tracks (signals a 1) = []"
    unfolding a(6,8) by (simp_all add: NewSFUService_def sessionEv_cap_def)
  from run_join [OF this(1) a(10) this(2-4)] obtain b where b: "runs_to a b" "sc_pc (signals b 1) = S_Loop"
    "sc_deferred (signals b 1) = [demo_client]" "signals b 0 = signals a 0" "sigs b = (sigs a)(''u'' \<mapsto> 1)"
    "sessionEv b = sessionEv a @ [session_added demo_client]" "ev_fetched b = ev_fetched a"
    by (metis zero_neq_one)
  have "length (sessionEv b) < sessionEv_cap" by (simp add: b(6) a(8) sessionEv_cap_def)
  with a(2-5) b(4) obtain c where c: "runs_to b c" "signals c 1 = signals b 1"
    "sigs c = (sigs b)(''u'' := None)" "sessionEv c = sessionEv b @ [session_removed demo_client]"
    "ev_fetched c = ev_fetched b"
    using run_leave [of b 0 demo_client] by (metis zero_neq_one)
  from run_fetch [of c] obtain d where d: "runs_to c d" "signals d = signals c" "sigs d = sigs c"
    "ev_fetched d = ev_fetched c @ sessionEv c" by blast
  have events: "ev_fetched d = [session_added demo_client, session_added demo_client, session_removed demo_client]"
    by (simp add: d(4) c(4,5) b(6,7) a(8,9))
  have lost: "\<exists>t. handle_events E (ev_fetched d) (NewSFUStatusSyncer n) = Some t \<and>
      client_key demo_client \<notin> dom (clientSet t)" for E n
  proof -
    obtain t where t: "handle_events E (ev_fetched d) (NewSFUStatusSyncer n) = Some t"
      using handle_events_open [of "NewSFUStatusSyncer n"] by (auto simp: NewSFUStatusSyncer_def)
    have "client_key demo_client \<notin> dom (clientSet t)"
      using t handleSessionEvent_dom unfolding events by (auto split: option.splits)
    with t show ?thesis by blast
  qed
  have "sfu_reachable True d" by (rule runs_to_trans [OF runs_to_trans [OF runs_to_trans [OF a(1) b(1)] c(1)] d(1)])
  moreover have "sigs d = Map.empty" by (simp add: d(3) c(3) b(5) a(7))
  ultimately show ?thesis using lost b(2,3) c(2) d(2) by auto
qed

end
