(* ===== verification/SFU_Forwarding.thy ===== *)
theory SFU_Forwarding
  imports SFU_Service RTC_Peer
begin

text \<open>
  The two ends of a forwarding together: the requests that the client of \<open>pkg/sxu/rtc\<close> sends, as the
  signalling service of the remote SFU (\<open>pkg/sfu/service.go\<close>) handles them.
\<close>

section \<open>Handlers\<close>

lemma may_send_grows: "may_send E reply ios = ios @ [Sent reply]"
  by (simp add: may_send_def send_reply_def Let_def)

lemma existing_grows: "\<exists>more. foldl (existing_peer E) ios ps = ios @ more"
proof (induction ps arbitrary: ios)
  case (Cons p ps)
  have "\<exists>more. existing_peer E ios p = ios @ more"
    by (auto simp: existing_peer_def may_send_grows split: option.split)
  with Cons show ?case by (metis append.assoc foldl_Cons)
qed simp

text \<open>A join that publishes nothing: it joins and shows the existing tracks.\<close>

lemma handle_join_quiet:
  assumes "e_join E (ios @ [P_Join sid u (config_flag config ''NoPublish'') (config_flag config ''NoSubscribe'')
      (config_flag config ''NoAutoSubscribe'')]) = None"
    and "\<not> e_publisher E (ios @ [P_Join sid u (config_flag config ''NoPublish'') (config_flag config ''NoSubscribe'')
      (config_flag config ''NoAutoSubscribe'')])"
    and "\<And>ios. e_peers E ios = Some ps"
  shows "\<exists>more. handle_join E sid u config desc ios = Some (None, ios @
    P_Join sid u (config_flag config ''NoPublish'') (config_flag config ''NoSubscribe'')
      (config_flag config ''NoAutoSubscribe'') # more)"
proof -
  let ?ios = "ios @ [P_Join sid u (config_flag config ''NoPublish'') (config_flag config ''NoSubscribe'')
      (config_flag config ''NoAutoSubscribe'')]"
  obtain more where "foldl (existing_peer E) ?ios ps = ?ios @ more"
    using existing_grows [of E ?ios ps] by blast
  then show ?thesis
    using assms by (simp add: handle_join_def Let_def join_publish_def join_existing_def)
qed

text \<open>
  Without a publisher of its own a peer cannot subscribe a track: the first track that matches ends
  in a nil dereference, and one that does not match changes nothing.
\<close>

lemma subscribe_tracks_unpublished:
  assumes "\<not> e_publisher E (snd st)"
  shows "subscribe_tracks E info tracks st =
    (if \<exists>t \<in> set tracks. Trk_Receiver t = SI_TrackId info \<and> Trk_RID t = SI_Layer info then None else Some st)"
  using assms by (induction tracks) (auto simp: add_down_track_def)

lemma subscribe_peers_unpublished:
  assumes "\<not> e_publisher E (snd st)"
  shows "subscribe_peers E info ps st =
    (if \<exists>p \<in> set ps. SP_ID p \<noteq> e_ID E (snd st) \<and> (\<exists>tracks. SP_Tracks p = Some tracks \<and>
          (\<exists>t \<in> set tracks. Trk_Receiver t = SI_TrackId info \<and> Trk_RID t = SI_Layer info))
     then None else Some st)"
  using assms by (induction ps) (auto simp: subscribe_tracks_unpublished split: option.splits)

lemma subscribe_all_unpublished:
  assumes "\<not> e_publisher E (snd st)" "e_peers E (snd st) = Some ps" "\<And>info. info \<in> set infos \<Longrightarrow> SI_Subscribe info"
    and "info \<in> set infos" "p \<in> set ps" "SP_ID p \<noteq> e_ID E (snd st)" "SP_Tracks p = Some tracks" "t \<in> set tracks"
    and "Trk_Receiver t = SI_TrackId info" "Trk_RID t = SI_Layer info"
  shows "subscribe_all E infos st = None"
  using assms(3,4)
proof (induction infos)
  case (Cons i infos)
  have one: "subscribe_one E i st = subscribe_peers E i ps st"
    using Cons(2) [of i] assms(2) by (simp add: subscribe_one_def)
  show ?case
  proof (cases "subscribe_one E i st")
    case (Some st1)
    with one have st1: "st1 = st"
      by (simp add: subscribe_peers_unpublished [OF assms(1)] split: if_splits)
    have "i \<noteq> info"
    proof
      assume "i = info"
      with assms(5-10) have "subscribe_peers E i ps st = None"
        by (auto simp: subscribe_peers_unpublished [OF assms(1)])
      with one Some show False by simp
    qed
    with Cons Some st1 show ?thesis by simp
  qed simp
qed simp

section \<open>Properties\<close>

text \<open>
  C31. The client of a forwarding joins without publishing. When a peer that joined so has no
  publisher, as ion-sfu has it, its join is accepted, and the first request for a layer of a track
  that another peer of the session publishes makes the remote SFU panic.
\<close>

theorem rtc_update_panics_sfu:
  assumes "\<And>ios s u nosub noauto. P_Join s u True nosub noauto \<in> set ios \<Longrightarrow> \<not> e_publisher E ios"
    and "\<And>ios. e_join E ios = None" "\<And>ios. e_peers E ios = Some ps" "\<And>ios. e_subscriber E ios" "\<And>ios. e_ID E ios = u"
    and "p \<in> set ps" "SP_ID p \<noteq> u" "SP_Tracks p = Some pubTracks" "t \<in> set pubTracks"
    and "sub \<in> set tracks" "Trk_Receiver t = TrackId sub" "Trk_RID t = Layers (Layer sub)"
  shows "\<exists>ios. handle_join E sid u join_config None [] = Some (None, ios) \<and>
    handle_subscription E (track_infos tracks) ios = None"
proof -
  have config: "config_flag join_config ''NoPublish''" "\<not> config_flag join_config ''NoSubscribe''"
    "\<not> config_flag join_config ''NoAutoSubscribe''"
    by (simp_all add: config_flag_def join_config_def)
  have "\<not> e_publisher E [P_Join sid u True False False]" by (rule assms(1) [of sid u False False]) simp
  then obtain more where join: "handle_join E sid u join_config None [] = Some (None, P_Join sid u True False False # more)"
    using handle_join_quiet [of E "[]" sid u join_config ps None] assms(2,3) config by auto
  let ?ios = "P_Join sid u True False False # more"
  let ?info = "\<lparr>SI_TrackId = TrackId sub, SI_Mute = Mute sub, SI_Subscribe = True, SI_Layer = Layers (Layer sub)\<rparr>"
  have nopub: "\<not> e_publisher E (snd (False, ?ios))" by (rule assms(1) [of sid u False False]) simp
  have "subscribe_all E (track_infos tracks) (False, ?ios) = None"
    by (rule subscribe_all_unpublished [OF nopub, where info = ?info and ps = ps and p = p and tracks = pubTracks and t = t])
      (use assms in \<open>auto simp: track_infos_def\<close>)
  with join assms(4) show ?thesis by (simp add: handle_subscription_def)
qed

text \<open>A session with one other peer, which publishes one track; a peer that joins without publishing has no publisher.\<close>

definition demo_sfu :: "string peer_env" where
  "demo_sfu = \<lparr>e_send = (\<lambda>_. None), e_ID = (\<lambda>_. ''u''), e_join = (\<lambda>_. None),
     e_publisher = list_all (\<lambda>i. case i of P_Join _ _ nopub _ _ \<Rightarrow> \<not> nopub | _ \<Rightarrow> True),
     e_subscriber = (\<lambda>_. True),
     e_peers = (\<lambda>_. Some [\<lparr>SP_ID = ''p'', SP_Tracks = Some [\<lparr>Trk_ID = ''t'', Trk_Kind = ''video'', Trk_StreamID = ''m'',
       Trk_RID = ''f'', Trk_Receiver = ''t''\<rparr>]\<rparr>]),
     e_answer = (\<lambda>_. Inr (''answer'', ''a'')), e_set_remote = (\<lambda>_. None), e_trickle = (\<lambda>_. None),
     e_added = (\<lambda>_. True), e_down_tracks = (\<lambda>_. []), e_marshal = Some, e_unmarshal = Inr,
     e_text = (\<lambda>_. ''error''), e_sdp_type = (\<lambda>_. SDP_Offer)\<rparr>"

theorem rtc_update_panics_sfu_witness:
  "\<exists>ios. handle_join demo_sfu ''s'' ''u'' join_config None [] = Some (None, ios) \<and>
     handle_subscription demo_sfu (track_infos [\<lparr>TrackId = ''t'', Mute = False, Layer = Subscription_F\<rparr>]) ios = None"
proof -
  let ?t = "\<lparr>Trk_ID = ''t'', Trk_Kind = ''video'', Trk_StreamID = ''m'', Trk_RID = ''f'', Trk_Receiver = ''t''\<rparr>"
  let ?p = "\<lparr>SP_ID = ''p'', SP_Tracks = Some [?t]\<rparr>"
  have pub: "\<not> e_publisher demo_sfu ios" if "P_Join s u True nosub noauto \<in> set ios" for ios s u nosub noauto
    using that by (force simp: demo_sfu_def list_all_iff)
  show ?thesis
    by (rule rtc_update_panics_sfu [of demo_sfu "[?p]" "''u''" ?p "[?t]" ?t])
      (auto simp: demo_sfu_def Layers_def Subscription_Q_def Subscription_H_def Subscription_F_def list_all_iff
        split: sfu_io.splits)
qed

text \<open>
  A join that the peer accepts makes the service panic exactly when the peer got a publisher and
  the request brings no description; no request of a client of \<open>pkg/sxu/rtc\<close> for a join without
  publishing does.
\<close>

theorem join_panics_iff:
  assumes "\<And>ios. e_join E ios = None" and "\<And>ios. e_peers E ios \<noteq> None"
  shows "handle_join E sid u config desc ios = None \<longleftrightarrow>
    desc = None \<and> e_publisher E (ios @ [P_Join sid u (config_flag config ''NoPublish'')
      (config_flag config ''NoSubscribe'') (config_flag config ''NoAutoSubscribe'')])"
proof -
  have existing: "join_existing E ios \<noteq> None" for ios
    using assms(2) [of ios] by (auto simp: join_existing_def)
  then show ?thesis
    by (auto simp: handle_join_def assms(1) Let_def join_publish_def split: option.split sum.split)
qed

theorem join_panics_iff_witness:
  "handle_join demo_sfu ''s'' ''u'' Map.empty None [] = None \<and>
   handle_join demo_sfu ''s'' ''u'' join_config None [] \<noteq> None"
proof -
  have "e_join demo_sfu ios = None" "e_peers demo_sfu ios \<noteq> None" for ios by (simp_all add: demo_sfu_def)
  note iff = join_panics_iff [OF this, of "''s''" "''u''" _ None "[]"]
  have "e_publisher demo_sfu [P_Join ''s'' ''u'' False nosub noauto]" "\<not> e_publisher demo_sfu [P_Join ''s'' ''u'' True nosub noauto]"
    for nosub noauto by (simp_all add: demo_sfu_def)
  then show ?thesis unfolding iff by (simp add: config_flag_def join_config_def)
qed

end
