(* ===== verification/SFU_Client.thy ===== *)
theory SFU_Client
  imports RTC_Messages Stream_Client
begin

text \<open>
  The clients of an SFU, \<open>pkg/sfu/publisher.go\<close> and \<open>subscriber.go\<close> with \<open>negotiate.go\<close>,
  \<open>trickle.go\<close>, \<open>send.go\<close> and \<open>client.go\<close>: a reconnection makes a new peer connection and a new
  handler for it, the handler answers the replies of the SFU, and an error makes the client
  reconnect. Peer connections are pion's: what they answer is an argument (\<open>pc_env\<close>), a function of
  the calls made so far; a peer connection is a number.
\<close>

section \<open>Calls\<close>

datatype 'c pc_io =
    Try_PC
  | New_PC nat
  | Close_PC nat
  | Set_Remote nat string string
  | Add_Candidate nat 'c
  | Create_Answer nat
  | Create_Offer nat
  | Set_Local nat string
  | Need_Track nat
  | To_SFU rtc_request

text \<open>\<open>send_result\<close> is what \<open>Client.Send\<close> returns, \<open>current_remote\<close> whether the peer connection has a
  current remote description.\<close>

record 'c pc_env =
  new_pc :: "'c pc_io list \<Rightarrow> bool"
  set_remote_error :: "'c pc_io list \<Rightarrow> string option"
  current_remote :: "nat \<Rightarrow> 'c pc_io list \<Rightarrow> bool"
  create_answer :: "'c pc_io list \<Rightarrow> string + string"
  create_offer :: "'c pc_io list \<Rightarrow> string + string"
  set_local_error :: "'c pc_io list \<Rightarrow> string option"
  need_track_error :: "'c pc_io list \<Rightarrow> string option"
  send_result :: "'c pc_io list \<Rightarrow> string option"
  marshal_candidate :: "'c \<Rightarrow> string + string"
  unmarshal_candidate :: "string \<Rightarrow> 'c"
  err_text :: "rtc_err option \<Rightarrow> string"

text \<open>
  The handler of the newest peer connection and the candidates it keeps; \<open>got\<close> are the candidates it
  was given. \<open>offering\<close> are the peer connections whose offer is still to be made; \<open>refreshes\<close>
  counts the calls of \<open>refresh\<close>, \<open>leaked\<close> are the peer connections that got no tracks.
\<close>

record 'c sfu_client =
  pc_log :: "'c pc_io list"
  next_pc :: nat
  lastPeerConnection :: "nat option"
  handler :: "nat option"
  candidates :: "'c list"
  got :: "'c list"
  offering :: "nat list"
  session :: "client_needed_session option"
  refreshes :: nat
  leaked :: "nat list"

definition NewSFUClient :: "'c sfu_client" where
  "NewSFUClient = \<lparr>pc_log = [], next_pc = 0, lastPeerConnection = None, handler = None, candidates = [], got = [],
     offering = [], session = None, refreshes = 0, leaked = []\<rparr>"

definition pc_call :: "'c pc_io \<Rightarrow> 'c sfu_client \<Rightarrow> 'c sfu_client" where
  "pc_call i s = s\<lparr>pc_log := pc_log s @ [i]\<rparr>"

definition refresh :: "'c sfu_client \<Rightarrow> 'c sfu_client" where
  "refresh s = s\<lparr>refreshes := refreshes s + 1\<rparr>"

section \<open>Sending\<close>

text \<open>
  \<open>Client.Send\<close> on the stream client: the operation runs when there is a stream and the client is
  open; otherwise the request was not sent.
\<close>

definition Client_Send :: "world \<Rightarrow> string \<Rightarrow> 'm Client \<Rightarrow> string option \<times> 'm Client" where
  "Client_Send w err c =
     (let exec = (\<not> ctxTop_done c \<and> stream c \<noteq> None);
          c1 = snd (snd (DoWithClient w c)) in
      if \<not> exec then (Some ''rtc.Request not send'', c1)
      else (if op_ok w then None else Some err, c1))"

definition send_request :: "'c pc_env \<Rightarrow> rtc_request \<Rightarrow> 'c sfu_client \<Rightarrow> string option \<times> 'c sfu_client" where
  "send_request E request s = (let s1 = pc_call (To_SFU request) s in (send_result E (pc_log s1), s1))"

definition Client_SendJoin :: "'c pc_env \<Rightarrow> string \<Rightarrow> string \<Rightarrow> (string, string) gomap \<Rightarrow> string option
    \<Rightarrow> 'c sfu_client \<Rightarrow> string option \<times> 'c sfu_client" where
  "Client_SendJoin E sid usr config offer s =
     (let desc = (case offer of
                    Some sdp \<Rightarrow> Some \<lparr>SD_Target = Target_PUBLISHER, SD_Type = ''offer'', SD_Sdp = sdp\<rparr>
                  | None \<Rightarrow> None) in
      send_request E (Request_Join sid usr (config(''IsClient'' \<mapsto> ''true'')) desc) s)"

definition Client_SendTrickle :: "'c pc_env \<Rightarrow> 'c \<Rightarrow> target \<Rightarrow> 'c sfu_client \<Rightarrow> string option \<times> 'c sfu_client" where
  "Client_SendTrickle E candidate t s =
     (case marshal_candidate E candidate of
        Inl err \<Rightarrow> (Some err, s)
      | Inr bytes \<Rightarrow> send_request E (Request_Trickle t bytes) s)"

definition Subscriber_SendAnswer :: "'c pc_env \<Rightarrow> string \<Rightarrow> 'c sfu_client \<Rightarrow> string option \<times> 'c sfu_client" where
  "Subscriber_SendAnswer E sdp s =
     send_request E (Request_Description \<lparr>SD_Target = Target_SUBSCRIBER, SD_Type = ''answer'', SD_Sdp = sdp\<rparr>) s"

section \<open>Negotiation and candidates\<close>

text \<open>The candidates that were kept are added, in order; what adding one returns is ignored.\<close>

definition flush :: "nat \<Rightarrow> 'c sfu_client \<Rightarrow> 'c sfu_client" where
  "flush pc s =
     (if length (candidates s) > 0
      then s\<lparr>pc_log := pc_log s @ map (Add_Candidate pc) (candidates s), candidates := []\<rparr> else s)"

definition Publisher_negotiate :: "'c pc_env \<Rightarrow> nat \<Rightarrow> string \<Rightarrow> 'c sfu_client \<Rightarrow> string option \<times> 'c sfu_client" where
  "Publisher_negotiate E pc sdp s =
     (let s1 = pc_call (Set_Remote pc ''answer'' sdp) s in
      case set_remote_error E (pc_log s1) of
        Some err \<Rightarrow> (Some err, s1)
      | None \<Rightarrow> (None, flush pc s1))"

definition Subscriber_negotiate :: "'c pc_env \<Rightarrow> nat \<Rightarrow> string \<Rightarrow> 'c sfu_client \<Rightarrow> string option \<times> 'c sfu_client" where
  "Subscriber_negotiate E pc sdp s =
     (let s1 = pc_call (Set_Remote pc ''offer'' sdp) s in
      case set_remote_error E (pc_log s1) of
        Some err \<Rightarrow> (Some err, s1)
      | None \<Rightarrow>
          (let s2 = pc_call (Create_Answer pc) (flush pc s1) in
           case create_answer E (pc_log s2) of
             Inl err \<Rightarrow> (Some err, s2)
           | Inr answer \<Rightarrow>
               (let s3 = pc_call (Set_Local pc answer) s2 in
                case set_local_error E (pc_log s3) of
                  Some err \<Rightarrow> (Some err, s3)
                | None \<Rightarrow> Subscriber_SendAnswer E answer s3)))"

text \<open>A candidate for \<open>own\<close>, the target of this client, is kept until there is a remote description.\<close>

definition trickle_for :: "target \<Rightarrow> 'c pc_env \<Rightarrow> nat \<Rightarrow> 'c \<Rightarrow> target \<Rightarrow> 'c sfu_client \<Rightarrow> 'c sfu_client" where
  "trickle_for own E pc candidate t s =
     (if t \<noteq> own then s
      else
        (let s1 = s\<lparr>got := got s @ [candidate]\<rparr> in
         if \<not> current_remote E pc (pc_log s1) then s1\<lparr>candidates := candidates s1 @ [candidate]\<rparr>
         else pc_call (Add_Candidate pc candidate) s1))"

definition Subscriber_trickle :: "'c pc_env \<Rightarrow> nat \<Rightarrow> 'c \<Rightarrow> target \<Rightarrow> 'c sfu_client \<Rightarrow> 'c sfu_client" where
  "Subscriber_trickle = trickle_for Target_SUBSCRIBER"

definition Publisher_trickle :: "'c pc_env \<Rightarrow> nat \<Rightarrow> 'c \<Rightarrow> target \<Rightarrow> 'c sfu_client \<Rightarrow> 'c sfu_client" where
  "Publisher_trickle = trickle_for Target_PUBLISHER"

section \<open>Replies\<close>

text \<open>The error of the handler, if it has one, and the state; \<open>None\<close> is a panic.\<close>

definition Publisher_msgHandler :: "'c pc_env \<Rightarrow> nat \<Rightarrow> rtc_reply \<Rightarrow> 'c sfu_client
    \<Rightarrow> (string option \<times> 'c sfu_client) option" where
  "Publisher_msgHandler E pc reply s =
     (case reply of
        Reply_Join success err desc \<Rightarrow>
          if \<not> success then Some (Some (err_text E err), s)
          else (case desc of
                  None \<Rightarrow> None
                | Some d \<Rightarrow> if SD_Type d = ''answer'' then Some (Publisher_negotiate E pc (SD_Sdp d) s)
                            else Some (None, s))
      | Reply_Description d \<Rightarrow>
          if SD_Type d = ''answer'' then Some (Publisher_negotiate E pc (SD_Sdp d) s) else Some (None, s)
      | Reply_Trickle t init \<Rightarrow> Some (None, Publisher_trickle E pc (unmarshal_candidate E init) t s)
      | Reply_TrackEvent _ _ _ \<Rightarrow> Some (None, s)
      | Reply_Subscription _ _ \<Rightarrow> Some (None, s)
      | Reply_Error err \<Rightarrow> Some (Some (err_text E (Some err)), s)
      | Reply_Unknown \<Rightarrow> Some (Some ''Unknown RTC type!!!! '', s))"

definition Subscriber_msgHandler :: "'c pc_env \<Rightarrow> nat \<Rightarrow> rtc_reply \<Rightarrow> 'c sfu_client
    \<Rightarrow> (string option \<times> 'c sfu_client) option" where
  "Subscriber_msgHandler E pc reply s =
     (case reply of
        Reply_Join success err _ \<Rightarrow> Some (if \<not> success then Some (err_text E err) else None, s)
      | Reply_Description d \<Rightarrow>
          if SD_Type d = ''offer'' then Some (Subscriber_negotiate E pc (SD_Sdp d) s) else Some (None, s)
      | Reply_Trickle t init \<Rightarrow> Some (None, Subscriber_trickle E pc (unmarshal_candidate E init) t s)
      | Reply_TrackEvent _ _ _ \<Rightarrow> Some (None, s)
      | Reply_Subscription success err \<Rightarrow> Some (if \<not> success then Some (err_text E err) else None, s)
      | Reply_Error err \<Rightarrow> Some (Some (err_text E (Some err)), s)
      | Reply_Unknown \<Rightarrow> Some (Some ''Unknown RTC type!!!! '', s))"

text \<open>What the stream client calls for a reply: nothing before the first handler.\<close>

definition newMsgHandler :: "(nat \<Rightarrow> rtc_reply \<Rightarrow> 'c sfu_client \<Rightarrow> (string option \<times> 'c sfu_client) option)
    \<Rightarrow> rtc_reply \<Rightarrow> 'c sfu_client \<Rightarrow> 'c sfu_client option" where
  "newMsgHandler msgHandler reply s =
     (case handler s of
        None \<Rightarrow> Some s
      | Some pc \<Rightarrow>
          (case msgHandler pc reply s of
             None \<Rightarrow> None
           | Some (None, s1) \<Rightarrow> Some s1
           | Some (Some _, s1) \<Rightarrow> Some (refresh s1)))"

section \<open>Reconnecting\<close>

definition close_last :: "'c sfu_client \<Rightarrow> 'c sfu_client" where
  "close_last s = (case lastPeerConnection s of Some pc \<Rightarrow> pc_call (Close_PC pc) s | None \<Rightarrow> s)"

text \<open>A new peer connection and its handler, whose candidates are empty.\<close>

definition newPeerConnection :: "'c pc_env \<Rightarrow> 'c sfu_client \<Rightarrow> nat option \<times> 'c sfu_client" where
  "newPeerConnection E s =
     (let pc = next_pc s; s1 = pc_call Try_PC s in
      if new_pc E (pc_log s1) then (Some pc, (pc_call (New_PC pc) s1)\<lparr>next_pc := pc + 1\<rparr>) else (None, s1))"

definition OnMsgRecv_handler :: "nat \<Rightarrow> 'c sfu_client \<Rightarrow> 'c sfu_client" where
  "OnMsgRecv_handler pc s = s\<lparr>handler := Some pc, candidates := [], got := []\<rparr>"

definition Publisher_OnReconnect :: "'c pc_env \<Rightarrow> 'c sfu_client \<Rightarrow> 'c sfu_client" where
  "Publisher_OnReconnect E s =
     (case newPeerConnection E (close_last s) of
        (None, s1) \<Rightarrow> refresh s1
      | (Some pc, s1) \<Rightarrow>
          (let s2 = pc_call (Need_Track pc) (OnMsgRecv_handler pc s1) in
           case need_track_error E (pc_log s2) of
             Some _ \<Rightarrow> refresh (s2\<lparr>leaked := pc # leaked s2\<rparr>)
           | None \<Rightarrow> s2\<lparr>offering := offering s2 @ [pc], lastPeerConnection := Some pc\<rparr>))"

definition Subscriber_OnReconnect :: "'c pc_env \<Rightarrow> 'c sfu_client \<Rightarrow> 'c sfu_client" where
  "Subscriber_OnReconnect E s =
     (case newPeerConnection E (close_last s) of
        (None, s1) \<Rightarrow> refresh s1
      | (Some pc, s1) \<Rightarrow>
          (let s2 = OnMsgRecv_handler pc s1 in
           s2\<lparr>offering := offering s2 @ [pc], lastPeerConnection := Some pc\<rparr>))"

text \<open>
  The goroutines that a reconnection starts: they read the session when they run, and a missing
  session is a nil dereference.
\<close>

definition Publisher_join :: "'c pc_env \<Rightarrow> nat \<Rightarrow> 'c sfu_client \<Rightarrow> 'c sfu_client option" where
  "Publisher_join E pc s =
     (let s1 = pc_call (Create_Offer pc) (s\<lparr>offering := remove1 pc (offering s)\<rparr>) in
      case create_offer E (pc_log s1) of
        Inl _ \<Rightarrow> Some (refresh s1)
      | Inr offer \<Rightarrow>
          (let s2 = pc_call (Set_Local pc offer) s1 in
           case set_local_error E (pc_log s2) of
             Some _ \<Rightarrow> Some (refresh s2)
           | None \<Rightarrow>
               (case session s2 of
                  None \<Rightarrow> None
                | Some sess \<Rightarrow>
                    (case Client_SendJoin E (Session sess) (User sess) [''NoSubscribe'' \<mapsto> ''true''] (Some offer) s2 of
                       (Some _, s3) \<Rightarrow> Some (refresh s3)
                     | (None, s3) \<Rightarrow> Some s3))))"

definition Subscriber_join :: "'c pc_env \<Rightarrow> nat \<Rightarrow> 'c sfu_client \<Rightarrow> 'c sfu_client option" where
  "Subscriber_join E pc s =
     (let s1 = s\<lparr>offering := remove1 pc (offering s)\<rparr> in
      case session s1 of
        None \<Rightarrow> None
      | Some sess \<Rightarrow>
          (case Client_SendJoin E (Session sess) (User sess) [''NoPublish'' \<mapsto> ''true''] None s1 of
             (Some _, s2) \<Rightarrow> Some (refresh s2)
           | (None, s2) \<Rightarrow> Some s2))"

text \<open>The session is stored before the client reconnects.\<close>

definition SwitchSession :: "client_needed_session \<Rightarrow> 'c sfu_client \<Rightarrow> 'c sfu_client" where
  "SwitchSession sess s = s\<lparr>session := Some sess\<rparr>"

section \<open>Steps\<close>

inductive publisher_step :: "'c pc_env \<Rightarrow> 'c sfu_client \<Rightarrow> 'c sfu_client option \<Rightarrow> bool" for E where
  reconnect: "publisher_step E s (Some (Publisher_OnReconnect E s))"
| join: "pc \<in> set (offering s) \<Longrightarrow> publisher_step E s (Publisher_join E pc s)"
| reply: "publisher_step E s (newMsgHandler (Publisher_msgHandler E) reply s)"
| candidate: "publisher_step E s (Some (snd (Client_SendTrickle E candidate Target_PUBLISHER s)))"
| switch: "publisher_step E s (Some (SwitchSession sess s))"

inductive subscriber_step :: "'c pc_env \<Rightarrow> 'c sfu_client \<Rightarrow> 'c sfu_client option \<Rightarrow> bool" for E where
  reconnect: "subscriber_step E s (Some (Subscriber_OnReconnect E s))"
| join: "pc \<in> set (offering s) \<Longrightarrow> subscriber_step E s (Subscriber_join E pc s)"
| reply: "subscriber_step E s (newMsgHandler (Subscriber_msgHandler E) reply s)"
| candidate: "subscriber_step E s (Some (snd (Client_SendTrickle E candidate Target_SUBSCRIBER s)))"
| switch: "subscriber_step E s (Some (SwitchSession sess s))"

abbreviation publisher_reachable :: "'c pc_env \<Rightarrow> 'c sfu_client \<Rightarrow> bool" where
  "publisher_reachable E \<equiv> reachable (\<lambda>s s'. publisher_step E s (Some s')) NewSFUClient"

abbreviation subscriber_reachable :: "'c pc_env \<Rightarrow> 'c sfu_client \<Rightarrow> bool" where
  "subscriber_reachable E \<equiv> reachable (\<lambda>s s'. subscriber_step E s (Some s')) NewSFUClient"

end
