(* ===== verification/SFU_Client_Properties.thy ===== *)
theory SFU_Client_Properties
  imports SFU_Client "HOL-Library.Multiset"
begin

text \<open>
  The clients of an SFU: no candidate is lost, the publisher adds them in the order in which they
  came and only behind a remote description, and which peer connections stay open.
\<close>

section \<open>What the log says\<close>

fun added :: "nat \<Rightarrow> 'c pc_io list \<Rightarrow> 'c list" where
  "added pc [] = []"
| "added pc (Add_Candidate q c # ios) = (if q = pc then c # added pc ios else added pc ios)"
| "added pc (_ # ios) = added pc ios"

fun opened :: "'c pc_io list \<Rightarrow> nat set" where
  "opened [] = {}"
| "opened (New_PC pc # ios) = insert pc (opened ios)"
| "opened (_ # ios) = opened ios"

fun closed_pcs :: "'c pc_io list \<Rightarrow> nat set" where
  "closed_pcs [] = {}"
| "closed_pcs (Close_PC pc # ios) = insert pc (closed_pcs ios)"
| "closed_pcs (_ # ios) = closed_pcs ios"

lemma added_append [simp]: "added pc (ios @ jos) = added pc ios @ added pc jos"
  by (induction ios rule: added.induct) auto

lemma opened_append [simp]: "opened (ios @ jos) = opened ios \<union> opened jos"
  by (induction ios rule: opened.induct) auto

lemma closed_pcs_append [simp]: "closed_pcs (ios @ jos) = closed_pcs ios \<union> closed_pcs jos"
  by (induction ios rule: closed_pcs.induct) auto

lemma map_Add_Candidate [simp]:
  "added pc (map (Add_Candidate q) cs) = (if q = pc then cs else [])"
  "opened (map (Add_Candidate q) cs) = {}" "closed_pcs (map (Add_Candidate q) cs) = {}"
  by (induction cs) auto

lemma added_none: "(\<And>c. Add_Candidate pc c \<notin> set ios) \<Longrightarrow> added pc ios = []"
  by (induction pc ios rule: added.induct) auto

section \<open>Candidates are kept\<close>

definition kept :: "'c sfu_client \<Rightarrow> bool" where
  "kept s \<longleftrightarrow> (\<forall>pc c. Add_Candidate pc c \<in> set (pc_log s) \<longrightarrow> pc < next_pc s) \<and>
     (\<forall>pc. handler s = Some pc \<longrightarrow> pc < next_pc s \<and>
        mset (added pc (pc_log s)) + mset (candidates s) = mset (got s))"

text \<open>The operations of a handler keep the fields that the invariants read, apart from the log.\<close>

definition same_pcs :: "'c sfu_client \<Rightarrow> 'c sfu_client \<Rightarrow> bool" where
  "same_pcs s s' \<longleftrightarrow> handler s' = handler s \<and> next_pc s' = next_pc s \<and>
     lastPeerConnection s' = lastPeerConnection s \<and> leaked s' = leaked s \<and>
     opened (pc_log s') = opened (pc_log s) \<and> closed_pcs (pc_log s') = closed_pcs (pc_log s)"

lemma same_pcs_refl [simp]: "same_pcs s s"
  by (simp add: same_pcs_def)

lemma same_pcs_trans: "same_pcs s t \<Longrightarrow> same_pcs t u \<Longrightarrow> same_pcs s u"
  by (simp add: same_pcs_def)

text \<open>A call that neither adds a candidate nor makes or closes a peer connection.\<close>

fun plain :: "'c pc_io \<Rightarrow> bool" where
  "plain (New_PC _) = False"
| "plain (Close_PC _) = False"
| "plain (Add_Candidate _ _) = False"
| "plain _ = True"

lemma plain_log [simp]:
  "plain i \<Longrightarrow> added pc [i] = []" "plain i \<Longrightarrow> opened [i] = {}" "plain i \<Longrightarrow> closed_pcs [i] = {}"
  by (cases i; simp)+

lemma pc_call_plain:
  assumes "plain i"
  shows "kept s \<Longrightarrow> kept (pc_call i s)" "same_pcs s (pc_call i s)" "handler (pc_call i s) = handler s"
    "candidates (pc_call i s) = candidates s" "got (pc_call i s) = got s"
  using assms by (auto simp: kept_def same_pcs_def pc_call_def)

lemma flush_keeps:
  "kept s \<Longrightarrow> handler s = Some pc \<Longrightarrow> kept (flush pc s)" "same_pcs s (flush pc s)"
  by (auto simp: kept_def same_pcs_def flush_def)

lemma trickle_keeps:
  "kept s \<Longrightarrow> handler s = Some pc \<Longrightarrow> kept (trickle_for own E pc c t s)" "same_pcs s (trickle_for own E pc c t s)"
  by (auto simp: kept_def same_pcs_def trickle_for_def pc_call_def Let_def)

lemma refresh_keeps [simp]: "kept (refresh s) = kept s" "same_pcs s (refresh s)" "same_pcs s t \<Longrightarrow> same_pcs s (refresh t)"
  by (simp_all add: kept_def same_pcs_def refresh_def)

lemma send_request_keeps:
  assumes "send_request E request s = (err, s')"
  shows "kept s \<Longrightarrow> kept s'" "same_pcs s s'"
  using assms pc_call_plain [of "To_SFU request" s] by (auto simp: send_request_def Let_def)

lemma Publisher_negotiate_keeps:
  assumes "Publisher_negotiate E pc sdp s = (err, s')"
  shows "kept s \<Longrightarrow> handler s = Some pc \<Longrightarrow> kept s'" "same_pcs s s'"
  using assms pc_call_plain [of "Set_Remote pc ''answer'' sdp" s] flush_keeps [of "pc_call (Set_Remote pc ''answer'' sdp) s" pc]
  by (auto simp: Publisher_negotiate_def Let_def split: option.splits intro: same_pcs_trans)

lemma Subscriber_negotiate_keeps:
  assumes "Subscriber_negotiate E pc sdp s = (err, s')"
  shows "kept s \<Longrightarrow> handler s = Some pc \<Longrightarrow> kept s'" "same_pcs s s'"
proof -
  define s1 where "s1 = pc_call (Set_Remote pc ''offer'' sdp) s"
  define s2 where "s2 = pc_call (Create_Answer pc) (flush pc s1)"
  define s3 where "s3 = (\<lambda>answer. pc_call (Set_Local pc answer) s2)"
  have cases: "s' = s1 \<or> s' = s2 \<or> (\<exists>a. s' = s3 a) \<or> (\<exists>a e. Subscriber_SendAnswer E a (s3 a) = (e, s'))"
    using assms by (auto simp: Subscriber_negotiate_def Let_def s1_def s2_def s3_def
        split: option.splits sum.splits)
  have 1: "same_pcs s s1" unfolding s1_def by (rule pc_call_plain) simp
  have "same_pcs (flush pc s1) s2" unfolding s2_def by (rule pc_call_plain) simp
  then have 2: "same_pcs s s2" by (rule same_pcs_trans [OF same_pcs_trans [OF 1 flush_keeps(2)]])
  have "same_pcs s2 (s3 a)" for a unfolding s3_def by (rule pc_call_plain) simp
  then have 3: "same_pcs s (s3 a)" for a by (rule same_pcs_trans [OF 2])
  show "same_pcs s s'"
    using cases 1 2 3 same_pcs_trans send_request_keeps(2) unfolding Subscriber_SendAnswer_def by blast
  assume kept: "kept s" and h: "handler s = Some pc"
  have "kept s1" "handler s1 = Some pc"
    unfolding s1_def using kept h by (simp_all add: pc_call_plain)
  then have "kept s2" unfolding s2_def by (intro pc_call_plain flush_keeps) simp
  then have "kept (s3 a)" for a unfolding s3_def by (intro pc_call_plain) simp
  with cases \<open>kept s1\<close> \<open>kept s2\<close> show "kept s'"
    using send_request_keeps(1) unfolding Subscriber_SendAnswer_def by blast
qed

lemma Publisher_msgHandler_cases:
  assumes "Publisher_msgHandler E pc reply s = Some (err, s')"
  shows "s' = s \<or> (\<exists>sdp. Publisher_negotiate E pc sdp s = (err, s')) \<or>
    (\<exists>c t. s' = trickle_for Target_PUBLISHER E pc c t s)"
  using assms by (cases reply) (auto simp: Publisher_msgHandler_def Publisher_trickle_def split: if_splits option.splits)

lemma Publisher_msgHandler_keeps:
  assumes "Publisher_msgHandler E pc reply s = Some (err, s')"
  shows "kept s \<Longrightarrow> handler s = Some pc \<Longrightarrow> kept s'" "same_pcs s s'"
  using Publisher_msgHandler_cases [OF assms] Publisher_negotiate_keeps trickle_keeps by (metis same_pcs_refl)+

lemma Subscriber_msgHandler_cases:
  assumes "Subscriber_msgHandler E pc reply s = Some (err, s')"
  shows "s' = s \<or> (\<exists>sdp. Subscriber_negotiate E pc sdp s = (err, s')) \<or>
    (\<exists>c t. s' = trickle_for Target_SUBSCRIBER E pc c t s)"
  using assms by (cases reply) (auto simp: Subscriber_msgHandler_def Subscriber_trickle_def split: if_splits option.splits)

lemma Subscriber_msgHandler_keeps:
  assumes "Subscriber_msgHandler E pc reply s = Some (err, s')"
  shows "kept s \<Longrightarrow> handler s = Some pc \<Longrightarrow> kept s'" "same_pcs s s'"
  using Subscriber_msgHandler_cases [OF assms] Subscriber_negotiate_keeps trickle_keeps by (metis same_pcs_refl)+

lemma newMsgHandler_cases:
  assumes "newMsgHandler msgHandler reply s = Some s'"
  obtains (none) "handler s = None" "s' = s"
  | (handled) pc err t where "handler s = Some pc" "msgHandler pc reply s = Some (err, t)" "s' = t \<or> s' = refresh t"
  using assms by (auto simp: newMsgHandler_def split: option.splits prod.splits)

lemma Client_SendJoin_keeps:
  assumes "Client_SendJoin E sid usr config offer s = (err, s')"
  shows "kept s \<Longrightarrow> kept s'" "same_pcs s s'"
  using send_request_keeps [OF assms [unfolded Client_SendJoin_def Let_def]] by blast+

lemma SendTrickle_keeps:
  "kept s \<Longrightarrow> kept (snd (Client_SendTrickle E c t s))" "same_pcs s (snd (Client_SendTrickle E c t s))"
proof -
  obtain err s1 where "Client_SendTrickle E c t s = (err, s1)" "s1 = s \<or> (\<exists>r. send_request E r s = (err, s1))"
    by (cases "Client_SendTrickle E c t s") (auto simp: Client_SendTrickle_def split: sum.splits)
  then show "kept s \<Longrightarrow> kept (snd (Client_SendTrickle E c t s))" "same_pcs s (snd (Client_SendTrickle E c t s))"
    using send_request_keeps by auto
qed

lemma update_keeps [simp]:
  "kept (s\<lparr>offering := ps\<rparr>) = kept s" "kept (s\<lparr>session := x\<rparr>) = kept s" "kept (s\<lparr>lastPeerConnection := l\<rparr>) = kept s"
  "kept (s\<lparr>leaked := ps\<rparr>) = kept s" "same_pcs s (s\<lparr>offering := ps\<rparr>)" "same_pcs s (s\<lparr>session := x\<rparr>)"
  by (simp_all add: kept_def same_pcs_def)

lemma Subscriber_join_keeps:
  assumes "Subscriber_join E pc s = Some s'"
  shows "kept s \<Longrightarrow> kept s'" "same_pcs s s'"
proof -
  obtain sess :: client_needed_session and err t where t: "Client_SendJoin E (Session sess) (User sess) [''NoPublish'' \<mapsto> ''true''] None
      (s\<lparr>offering := remove1 pc (offering s)\<rparr>) = (err, t)" "s' = t \<or> s' = refresh t"
    using assms by (auto simp: Subscriber_join_def Let_def split: option.splits prod.splits)
  from Client_SendJoin_keeps [OF t(1)] t(2) show "kept s \<Longrightarrow> kept s'" "same_pcs s s'"
    using same_pcs_trans [OF update_keeps(5)] refresh_keeps by auto
qed

lemma Publisher_join_keeps:
  assumes "Publisher_join E pc s = Some s'"
  shows "kept s \<Longrightarrow> kept s'" "same_pcs s s'"
proof -
  define s1 where "s1 = pc_call (Create_Offer pc) (s\<lparr>offering := remove1 pc (offering s)\<rparr>)"
  define s2 where "s2 = (\<lambda>offer. pc_call (Set_Local pc offer) s1)"
  have cases: "s' = refresh s1 \<or> (\<exists>a. s' = refresh (s2 a)) \<or>
      (\<exists>a (sess :: client_needed_session) err t. Client_SendJoin E (Session sess) (User sess) [''NoSubscribe'' \<mapsto> ''true''] (Some a) (s2 a) = (err, t) \<and>
        (s' = t \<or> s' = refresh t))"
    using assms unfolding Publisher_join_def Let_def s1_def [symmetric]
    by (fastforce simp: s2_def split: option.splits sum.splits prod.splits)
  have "same_pcs (s\<lparr>offering := remove1 pc (offering s)\<rparr>) s1" unfolding s1_def by (rule pc_call_plain) simp
  then have 1: "same_pcs s s1" by (rule same_pcs_trans [OF update_keeps(5)])
  have "same_pcs s1 (s2 a)" for a unfolding s2_def by (rule pc_call_plain) simp
  then have 2: "same_pcs s (s2 a)" for a by (rule same_pcs_trans [OF 1])
  show "same_pcs s s'"
    using cases 1 2 Client_SendJoin_keeps(2) same_pcs_trans refresh_keeps(2) by meson
  assume "kept s"
  then have k1: "kept s1" unfolding s1_def by (intro pc_call_plain) simp_all
  then have k2: "kept (s2 a)" for a unfolding s2_def by (intro pc_call_plain) simp_all
  show "kept s'"
    using cases
  proof (elim disjE exE conjE)
    fix a err t and sess :: client_needed_session
    assume "Client_SendJoin E (Session sess) (User sess) [''NoSubscribe'' \<mapsto> ''true''] (Some a) (s2 a) = (err, t)"
    from Client_SendJoin_keeps(1) [OF this k2] have "kept t" .
    then show "s' = t \<Longrightarrow> kept s'" "s' = refresh t \<Longrightarrow> kept s'" by simp_all
  qed (simp_all add: k1 k2)
qed

section \<open>Reconnections\<close>

lemma close_last_fields [simp]:
  "kept (close_last s) = kept s" "next_pc (close_last s) = next_pc s" "lastPeerConnection (close_last s) = lastPeerConnection s"
  "leaked (close_last s) = leaked s" "opened (pc_log (close_last s)) = opened (pc_log s)"
  "closed_pcs (pc_log (close_last s)) = closed_pcs (pc_log s) \<union> set_option (lastPeerConnection s)"
  by (auto simp: close_last_def pc_call_def kept_def split: option.split)

lemma newPeerConnection_keeps:
  assumes "newPeerConnection E s = (r, s')"
  shows "lastPeerConnection s' = lastPeerConnection s" "leaked s' = leaked s"
    "opened (pc_log s') = opened (pc_log s) \<union> set_option r" "closed_pcs (pc_log s') = closed_pcs (pc_log s)"
    "next_pc s' = next_pc s + (if r = None then 0 else 1)" "r = Some pc \<Longrightarrow> pc = next_pc s"
    "handler s' = handler s" "candidates s' = candidates s" "got s' = got s"
    "added q (pc_log s') = added q (pc_log s)" "Add_Candidate q c \<in> set (pc_log s') \<longleftrightarrow> Add_Candidate q c \<in> set (pc_log s)"
  using assms by (auto simp: newPeerConnection_def Let_def pc_call_def split: if_splits)

lemma newPeerConnection_kept:
  assumes "newPeerConnection E s = (r, s')" "kept s"
  shows "r = None \<Longrightarrow> kept s'" "r = Some pc \<Longrightarrow> kept (OnMsgRecv_handler pc s')"
proof -
  note keeps = newPeerConnection_keeps [OF assms(1)]
  show "r = None \<Longrightarrow> kept s'" using assms(2) unfolding kept_def keeps by simp
  assume r: "r = Some pc"
  have bound: "q < next_pc s" if "Add_Candidate q c \<in> set (pc_log s)" for q c
    using that assms(2) by (auto simp: kept_def)
  have "Add_Candidate pc c \<notin> set (pc_log s)" for c using bound [of pc c] keeps(6) [OF r] by auto
  then have "added pc (pc_log s') = []" unfolding keeps by (intro added_none)
  moreover have "q < next_pc s'" if "Add_Candidate q c \<in> set (pc_log s')" for q c
    using bound [of q c] that unfolding keeps by simp
  ultimately show "kept (OnMsgRecv_handler pc s')"
    using keeps(5,6) r by (auto simp: kept_def OnMsgRecv_handler_def)
qed

text \<open>
  The open peer connections are the newest and those that got no tracks; the latter are never closed.
\<close>

definition conn_inv :: "'c sfu_client \<Rightarrow> bool" where
  "conn_inv s \<longleftrightarrow> opened (pc_log s) - closed_pcs (pc_log s) \<subseteq> set (leaked s) \<union> set_option (lastPeerConnection s) \<and>
     set (leaked s) \<subseteq> opened (pc_log s) - closed_pcs (pc_log s) \<and> closed_pcs (pc_log s) \<subseteq> opened (pc_log s) \<and>
     set_option (lastPeerConnection s) \<subseteq> opened (pc_log s) - set (leaked s) \<and> (\<forall>pc \<in> opened (pc_log s). pc < next_pc s)"

lemma conn_inv_same: "same_pcs s s' \<Longrightarrow> conn_inv s \<Longrightarrow> conn_inv s'"
  by (simp add: conn_inv_def same_pcs_def)

lemma conn_inv_close_last: "conn_inv s \<Longrightarrow> conn_inv (close_last s)"
  by (auto simp: conn_inv_def)

lemma conn_inv_new:
  assumes "newPeerConnection E s = (r, s1)" "conn_inv s" "lastPeerConnection s = None \<or> set_option (lastPeerConnection s) \<subseteq> closed_pcs (pc_log s)"
  shows "r = None \<Longrightarrow> conn_inv s1"
    "r = Some pc \<Longrightarrow> conn_inv ((pc_call (Need_Track pc) (OnMsgRecv_handler pc s1))\<lparr>leaked := pc # leaked s1\<rparr>)"
    "r = Some pc \<Longrightarrow> conn_inv ((OnMsgRecv_handler pc s1)\<lparr>offering := ps, lastPeerConnection := Some pc\<rparr>)"
    "r = Some pc \<Longrightarrow> conn_inv ((pc_call (Need_Track pc) (OnMsgRecv_handler pc s1))\<lparr>offering := ps, lastPeerConnection := Some pc\<rparr>)"
proof -
  note keeps = newPeerConnection_keeps [OF assms(1)]
  show "r = None \<Longrightarrow> conn_inv s1" using assms(2) unfolding conn_inv_def keeps by simp
  assume r: "r = Some pc"
  have pc: "pc = next_pc s" "next_pc s1 = Suc pc" using keeps(5,6) r by simp_all
  have old: "q < pc" if "q \<in> opened (pc_log s)" for q using that assms(2) pc(1) by (auto simp: conn_inv_def)
  then have new: "pc \<notin> opened (pc_log s)" by blast
  then have not_closed: "pc \<notin> closed_pcs (pc_log s)" "pc \<notin> set (leaked s)" using assms(2) by (auto simp: conn_inv_def)
  have less: "q < Suc pc" if "q \<in> opened (pc_log s)" for q using old [OF that] by simp
  note facts = keeps(1-4) pc(2) r
  show "conn_inv ((pc_call (Need_Track pc) (OnMsgRecv_handler pc s1))\<lparr>leaked := pc # leaked s1\<rparr>)"
    using assms(2,3) new not_closed less by (auto simp: conn_inv_def pc_call_def OnMsgRecv_handler_def facts)
  show "conn_inv ((OnMsgRecv_handler pc s1)\<lparr>offering := ps, lastPeerConnection := Some pc\<rparr>)"
    using assms(2,3) new not_closed less by (auto simp: conn_inv_def pc_call_def OnMsgRecv_handler_def facts)
  show "conn_inv ((pc_call (Need_Track pc) (OnMsgRecv_handler pc s1))\<lparr>offering := ps, lastPeerConnection := Some pc\<rparr>)"
    using assms(2,3) new not_closed less by (auto simp: conn_inv_def pc_call_def OnMsgRecv_handler_def facts)
qed

lemma close_last_closed: "lastPeerConnection (close_last s) = None \<or>
  set_option (lastPeerConnection (close_last s)) \<subseteq> closed_pcs (pc_log (close_last s))"
  by auto

lemma Publisher_OnReconnect_keeps:
  assumes "kept s" "conn_inv s"
  shows "kept (Publisher_OnReconnect E s)" "conn_inv (Publisher_OnReconnect E s)"
proof -
  obtain r s1 where new: "newPeerConnection E (close_last s) = (r, s1)" by (cases "newPeerConnection E (close_last s)")
  have "kept (close_last s)" using assms(1) by simp
  note k = newPeerConnection_kept [OF new this]
  note c = conn_inv_new [OF new conn_inv_close_last [OF assms(2)] close_last_closed]
  show "kept (Publisher_OnReconnect E s)"
  proof (cases r)
    case None
    with k(1) show ?thesis by (simp add: Publisher_OnReconnect_def new)
  next
    case (Some pc)
    from pc_call_plain(1) [OF _ k(2) [OF Some], of "Need_Track pc"] Some show ?thesis
      by (auto simp: Publisher_OnReconnect_def new Let_def split: option.split)
  qed
  show "conn_inv (Publisher_OnReconnect E s)"
  proof (cases r)
    case None
    from conn_inv_same [OF refresh_keeps(2) c(1) [OF None]] None show ?thesis
      by (simp add: Publisher_OnReconnect_def new)
  next
    case (Some pc)
    have l: "leaked (pc_call (Need_Track pc) (OnMsgRecv_handler pc s1)) = leaked s1"
      by (simp add: pc_call_def OnMsgRecv_handler_def)
    from conn_inv_same [OF refresh_keeps(2) c(2) [OF Some]] c(4) [OF Some] Some show ?thesis
      by (auto simp: Publisher_OnReconnect_def new Let_def l split: option.split)
  qed
qed

lemma Subscriber_OnReconnect_keeps:
  assumes "kept s" "conn_inv s"
  shows "kept (Subscriber_OnReconnect E s)" "conn_inv (Subscriber_OnReconnect E s)" "leaked (Subscriber_OnReconnect E s) = leaked s"
proof -
  obtain r s1 where new: "newPeerConnection E (close_last s) = (r, s1)" by (cases "newPeerConnection E (close_last s)")
  have "kept (close_last s)" using assms(1) by simp
  note k = newPeerConnection_kept [OF new this]
  note c = conn_inv_new [OF new conn_inv_close_last [OF assms(2)] close_last_closed]
  show "kept (Subscriber_OnReconnect E s)"
    using k by (cases r) (simp_all add: Subscriber_OnReconnect_def new Let_def)
  show "conn_inv (Subscriber_OnReconnect E s)"
    using c(1,3) conn_inv_same [OF refresh_keeps(2)] by (cases r) (simp_all add: Subscriber_OnReconnect_def new Let_def)
  show "leaked (Subscriber_OnReconnect E s) = leaked s"
    using newPeerConnection_keeps(2) [OF new]
    by (cases r) (simp_all add: Subscriber_OnReconnect_def new Let_def refresh_def OnMsgRecv_handler_def)
qed

definition client_ok :: "'c sfu_client \<Rightarrow> bool" where
  "client_ok s \<longleftrightarrow> kept s \<and> conn_inv s"

lemma client_ok_same: "client_ok s \<Longrightarrow> kept s' \<Longrightarrow> same_pcs s s' \<Longrightarrow> client_ok s'"
  by (auto simp: client_ok_def intro: conn_inv_same)

lemma client_ok_leaked:
  "client_ok s \<and> leaked s = [] \<Longrightarrow> kept s' \<Longrightarrow> same_pcs s s' \<Longrightarrow> client_ok s' \<and> leaked s' = []"
  using client_ok_same [of s s'] by (simp add: same_pcs_def)

lemma client_ok_reply:
  assumes "newMsgHandler msgHandler reply s = Some s'" "client_ok s"
    and "\<And>pc err t. msgHandler pc reply s = Some (err, t) \<Longrightarrow> handler s = Some pc \<Longrightarrow> kept t \<and> same_pcs s t"
  shows "client_ok s' \<and> leaked s' = leaked s"
  using assms(1)
proof (cases rule: newMsgHandler_cases)
  case none
  with assms(2) show ?thesis by simp
next
  case (handled pc err t)
  with assms(3) have t: "kept t" "same_pcs s t" by blast+
  then have "kept s'" "same_pcs s s'" using handled(3) by auto
  with client_ok_same [OF assms(2) this] show ?thesis by (simp add: same_pcs_def)
qed

lemma publisher_ok_step:
  assumes "publisher_step E s (Some s')" "client_ok s"
  shows "client_ok s'"
  using assms(1)
proof cases
  case reconnect
  with Publisher_OnReconnect_keeps [of s E] assms(2) show ?thesis by (simp add: client_ok_def)
next
  case (join pc)
  with Publisher_join_keeps [of E pc s s'] assms(2) show ?thesis by (auto simp: client_ok_def intro: conn_inv_same)
next
  case (reply reply)
  from client_ok_reply [OF reply [symmetric] assms(2)] Publisher_msgHandler_keeps assms(2) show ?thesis
    unfolding client_ok_def by blast
next
  case (candidate c)
  from SendTrickle_keeps [of s E c] assms(2) candidate show ?thesis by (auto simp: client_ok_def intro: conn_inv_same)
next
  case (switch sess)
  with assms(2) show ?thesis by (simp add: client_ok_def conn_inv_def SwitchSession_def)
qed

lemma subscriber_ok_step:
  assumes "subscriber_step E s (Some s')" "client_ok s \<and> leaked s = []"
  shows "client_ok s' \<and> leaked s' = []"
  using assms(1)
proof cases
  case reconnect
  with Subscriber_OnReconnect_keeps [of s E] assms(2) show ?thesis by (simp add: client_ok_def)
next
  case (join pc)
  with Subscriber_join_keeps [of E pc s s'] assms(2) show ?thesis
    by (intro client_ok_leaked [OF assms(2)]) (simp_all add: client_ok_def)
next
  case (reply reply)
  from client_ok_reply [OF reply [symmetric], of] Subscriber_msgHandler_keeps assms(2) show ?thesis
    unfolding client_ok_def by metis
next
  case (candidate c)
  from SendTrickle_keeps [of s E c] assms(2) candidate show ?thesis
    by (intro client_ok_leaked [OF assms(2)]) (simp_all add: client_ok_def)
next
  case (switch sess)
  with assms(2) show ?thesis
    by (intro client_ok_leaked [OF assms(2)]) (simp_all add: client_ok_def SwitchSession_def)
qed

lemma client_ok_new [simp]: "client_ok NewSFUClient" "leaked NewSFUClient = []"
  by (simp_all add: client_ok_def kept_def conn_inv_def NewSFUClient_def)

lemma publisher_ok: "publisher_reachable E s \<Longrightarrow> client_ok s"
  by (induction rule: reachable_invariant) (auto intro: publisher_ok_step)

lemma subscriber_ok: "subscriber_reachable E s \<Longrightarrow> client_ok s \<and> leaked s = []"
  by (induction rule: reachable_invariant) (auto dest: subscriber_ok_step)

section \<open>The publisher adds candidates in order\<close>

text \<open>A remote description was set, without an error.\<close>

definition has_remote :: "'c pc_env \<Rightarrow> nat \<Rightarrow> 'c pc_io list \<Rightarrow> bool" where
  "has_remote E pc ios \<longleftrightarrow> (\<exists>n < length ios. (\<exists>ty sdp. ios ! n = Set_Remote pc ty sdp) \<and>
     set_remote_error E (take (Suc n) ios) = None)"

lemma has_remote_snoc:
  "has_remote E pc (ios @ [i]) \<longleftrightarrow> has_remote E pc ios \<or>
     (\<exists>ty sdp. i = Set_Remote pc ty sdp) \<and> set_remote_error E (ios @ [i]) = None"
  unfolding has_remote_def by (auto simp: nth_append less_Suc_eq)

lemma has_remote_append: "has_remote E pc ios \<Longrightarrow> has_remote E pc (ios @ jos)"
proof (induction jos rule: rev_induct)
  case (snoc j jos)
  then show ?case using has_remote_snoc [of E pc "ios @ jos" j] by simp
qed simp

definition added_late :: "'c pc_env \<Rightarrow> 'c pc_io list \<Rightarrow> bool" where
  "added_late E ios \<longleftrightarrow> (\<forall>pre pc c post. ios = pre @ Add_Candidate pc c # post \<longrightarrow> has_remote E pc pre)"

lemma added_late_snoc:
  "added_late E (ios @ [i]) \<longleftrightarrow> added_late E ios \<and> (\<forall>pc c. i = Add_Candidate pc c \<longrightarrow> has_remote E pc ios)"
proof
  assume late: "added_late E (ios @ [i])"
  show "added_late E ios \<and> (\<forall>pc c. i = Add_Candidate pc c \<longrightarrow> has_remote E pc ios)"
    using late unfolding added_late_def by auto
next
  assume late: "added_late E ios \<and> (\<forall>pc c. i = Add_Candidate pc c \<longrightarrow> has_remote E pc ios)"
  show "added_late E (ios @ [i])"
    unfolding added_late_def
  proof (intro allI impI)
    fix pre pc c post
    assume eq: "ios @ [i] = pre @ Add_Candidate pc c # post"
    show "has_remote E pc pre"
    proof (cases post rule: rev_cases)
      case Nil
      with eq late show ?thesis by auto
    next
      case (snoc post' j)
      with eq have "ios = pre @ Add_Candidate pc c # post'" by simp
      with late show ?thesis unfolding added_late_def by blast
    qed
  qed
qed

lemma added_late_flush:
  "added_late E ios \<Longrightarrow> has_remote E pc ios \<Longrightarrow> added_late E (ios @ map (Add_Candidate pc) cs)"
proof (induction cs rule: rev_induct)
  case (snoc c cs)
  then show ?case
    using added_late_snoc [of E "ios @ map (Add_Candidate pc) cs" "Add_Candidate pc c"] by (auto intro: has_remote_append)
qed simp

lemma has_remote_map_Add: "has_remote E q (ios @ map (Add_Candidate pc) cs) = has_remote E q ios"
proof (induction cs rule: rev_induct)
  case (snoc c cs)
  then show ?case using has_remote_snoc [of E q "ios @ map (Add_Candidate pc) cs" "Add_Candidate pc c"] by simp
qed simp

definition in_order :: "'c pc_env \<Rightarrow> 'c sfu_client \<Rightarrow> bool" where
  "in_order E s \<longleftrightarrow>
     (\<forall>pc. handler s = Some pc \<longrightarrow> added pc (pc_log s) @ candidates s = got s \<and>
        (has_remote E pc (pc_log s) \<longrightarrow> candidates s = [])) \<and>
     (\<forall>pc ty sdp. Set_Remote pc ty sdp \<in> set (pc_log s) \<longrightarrow> pc < next_pc s) \<and> added_late E (pc_log s)"

text \<open>Calls that are no candidate, no new and no remote description.\<close>

fun quiet :: "'c pc_io \<Rightarrow> bool" where
  "quiet (Set_Remote _ _ _) = False"
| "quiet (Add_Candidate _ _) = False"
| "quiet _ = True"

lemma in_order_quiet:
  assumes "in_order E s" "quiet i"
  shows "in_order E (pc_call i s)"
proof -
  have "\<nexists>q ty sdp. i = Set_Remote q ty sdp" "\<nexists>q c. i = Add_Candidate q c" "added pc [i] = []" for pc
    using assms(2) by (cases i; simp)+
  with assms(1) show ?thesis
    unfolding in_order_def by (auto simp: pc_call_def has_remote_snoc added_late_snoc) blast
qed

lemma in_order_fields [simp]:
  "in_order E (s\<lparr>offering := ps\<rparr>) = in_order E s" "in_order E (s\<lparr>session := x\<rparr>) = in_order E s"
  "in_order E (s\<lparr>lastPeerConnection := l\<rparr>) = in_order E s" "in_order E (s\<lparr>leaked := ps\<rparr>) = in_order E s"
  "in_order E (refresh s) = in_order E s"
  by (simp_all add: in_order_def refresh_def)

lemma in_order_send:
  assumes "send_request E r s = (err, s')" "in_order E s"
  shows "in_order E s'"
  using in_order_quiet [OF assms(2), of "To_SFU r"] assms(1) by (auto simp: send_request_def Let_def)

lemma in_order_negotiate:
  assumes "Publisher_negotiate E pc sdp s = (err, s')" "in_order E s" "handler s = Some pc" "kept s"
  shows "in_order E s'"
proof -
  define s1 where "s1 = pc_call (Set_Remote pc ''answer'' sdp) s"
  have log: "pc_log s1 = pc_log s @ [Set_Remote pc ''answer'' sdp]" by (simp add: s1_def pc_call_def)
  have bound: "pc < next_pc s" using assms(3,4) by (simp add: kept_def)
  have rest: "added pc (pc_log s) @ candidates s = got s" "added_late E (pc_log s)"
    "\<And>q ty sdp. Set_Remote q ty sdp \<in> set (pc_log s) \<Longrightarrow> q < next_pc s"
    using assms(2,3) by (auto simp: in_order_def)
  show ?thesis
  proof (cases "set_remote_error E (pc_log s1)")
    case None
    then have has: "has_remote E pc (pc_log s1)" by (simp add: log has_remote_snoc)
    have late: "added_late E (pc_log s1)" using rest(2) by (simp add: log added_late_snoc)
    have s': "s' = flush pc s1" using assms(1) None by (simp add: Publisher_negotiate_def s1_def Let_def)
    show ?thesis
      using rest bound assms(3) added_late_flush [OF late has, of "candidates s"] late
      unfolding s' in_order_def flush_def by (auto simp: s1_def pc_call_def)
  next
    case (Some e)
    then have "s' = s1" using assms(1) by (simp add: Publisher_negotiate_def s1_def Let_def)
    moreover have "has_remote E q (pc_log s1) = has_remote E q (pc_log s)" for q
      using Some by (auto simp: log has_remote_snoc)
    ultimately show ?thesis
      using assms(2) bound unfolding in_order_def by (auto simp: s1_def pc_call_def added_late_snoc)
  qed
qed

lemma in_order_trickle:
  assumes "in_order E s" "handler s = Some pc" "current_remote E pc (pc_log s) \<longleftrightarrow> has_remote E pc (pc_log s)"
  shows "in_order E (trickle_for own E pc c t s)"
  using assms unfolding in_order_def trickle_for_def
  by (auto simp: Let_def pc_call_def added_late_snoc has_remote_snoc)

lemma in_order_reconnect:
  assumes "in_order E s" "kept s"
  shows "in_order E (Publisher_OnReconnect E s)"
proof -
  let ?c = "close_last s"
  have "in_order E ?c" using assms(1) by (auto simp: close_last_def intro: in_order_quiet split: option.split)
  moreover have "kept ?c" using assms(2) by simp
  ultimately have c: "in_order E ?c" "kept ?c" .
  have late: "added_late E (pc_log ?c)" and bound: "\<And>q ty sdp. Set_Remote q ty sdp \<in> set (pc_log ?c) \<Longrightarrow> q < next_pc ?c"
    using c(1) by (auto simp: in_order_def)
  obtain r s1 where new: "newPeerConnection E ?c = (r, s1)" by (cases "newPeerConnection E ?c")
  show ?thesis
  proof (cases r)
    case None
    then have "s1 = pc_call Try_PC ?c" using new by (auto simp: newPeerConnection_def Let_def split: if_splits)
    with in_order_quiet [OF c(1), of Try_PC] None show ?thesis by (simp add: Publisher_OnReconnect_def new)
  next
    case (Some pc)
    let ?s1 = "pc_call (New_PC pc) (pc_call Try_PC ?c)"
    have pc: "pc = next_pc ?c" and s1: "s1 = ?s1\<lparr>next_pc := Suc pc\<rparr>"
      using new Some by (auto simp: newPeerConnection_def Let_def split: if_splits)
    have "in_order E ?s1" by (rule in_order_quiet [OF in_order_quiet [OF c(1)]]) simp_all
    moreover have "Set_Remote pc ty sdp \<notin> set (pc_log ?s1)" for ty sdp
      using bound [of pc ty sdp] pc by (auto simp: pc_call_def)
    then have "\<not> has_remote E pc (pc_log ?s1)" unfolding has_remote_def by (metis nth_mem)
    moreover have "added pc (pc_log ?s1) = []"
      using c(2) pc by (auto simp: kept_def pc_call_def intro!: added_none)
    moreover have "next_pc ?s1 = pc" using pc by (simp add: pc_call_def)
    moreover have "q < Suc pc" if "Set_Remote q ty sdp \<in> set (pc_log ?s1)" for q ty sdp
      using bound [of q ty sdp] that pc by (auto simp: pc_call_def)
    ultimately have "in_order E (OnMsgRecv_handler pc s1)"
      unfolding s1 in_order_def OnMsgRecv_handler_def by auto
    from in_order_quiet [OF this, of "Need_Track pc"] Some show ?thesis
      by (auto simp: Publisher_OnReconnect_def new Let_def split: option.split)
  qed
qed

lemma in_order_join:
  assumes "Publisher_join E pc s = Some s'" "in_order E s"
  shows "in_order E s'"
proof -
  define s1 where "s1 = pc_call (Create_Offer pc) (s\<lparr>offering := remove1 pc (offering s)\<rparr>)"
  define s2 where "s2 = (\<lambda>offer. pc_call (Set_Local pc offer) s1)"
  have 1: "in_order E s1" unfolding s1_def by (rule in_order_quiet) (simp_all add: assms(2))
  have 2: "in_order E (s2 a)" for a unfolding s2_def by (rule in_order_quiet [OF 1]) simp
  have "s' = refresh s1 \<or> (\<exists>a. s' = refresh (s2 a)) \<or>
      (\<exists>a r err t. send_request E r (s2 a) = (err, t) \<and> (s' = t \<or> s' = refresh t))"
    using assms unfolding Publisher_join_def Let_def s1_def [symmetric] Client_SendJoin_def
    by (fastforce simp: s2_def split: option.splits sum.splits prod.splits)
  with 1 2 in_order_send show ?thesis by (metis in_order_fields(5))
qed

lemma in_order_step:
  assumes "publisher_step E s (Some s')" "in_order E s" "kept s"
    and "\<And>pc ios. current_remote E pc ios \<longleftrightarrow> has_remote E pc ios"
  shows "in_order E s'"
  using assms(1)
proof cases
  case reconnect
  with in_order_reconnect [OF assms(2,3)] show ?thesis by simp
next
  case (join pc)
  with in_order_join [of E pc s s'] assms(2) show ?thesis by simp
next
  case (reply reply)
  from reply [symmetric] show ?thesis
  proof (cases rule: newMsgHandler_cases)
    case none
    with assms(2) show ?thesis by simp
  next
    case (handled pc err t)
    have "in_order E t"
      using Publisher_msgHandler_cases [OF handled(2)] in_order_negotiate [OF _ assms(2) handled(1) assms(3)]
        in_order_trickle [OF assms(2) handled(1) assms(4)] assms(2) by blast
    with handled(3) show ?thesis by auto
  qed
next
  case (candidate c)
  have "s' = s \<or> (\<exists>r err. send_request E r s = (err, s'))"
    using candidate by (cases "marshal_candidate E c") (auto simp: Client_SendTrickle_def, metis prod.collapse)
  with assms(2) in_order_send show ?thesis by blast
next
  case (switch sess)
  with assms(2) show ?thesis by (simp add: SwitchSession_def)
qed

section \<open>Properties\<close>

text \<open>
  C16. A publisher hands every candidate it receives to its peer connection, in the order in which
  they came: those it was given are those it has added followed by those it keeps; it keeps some
  only while the connection has no remote description, and it adds none before. The peer connection
  has a current remote description exactly once one was set without an error.
\<close>

theorem publisher_candidates_in_order:
  assumes "publisher_reachable E s" and "handler s = Some pc"
    and "\<And>pc ios. current_remote E pc ios \<longleftrightarrow> has_remote E pc ios"
  shows "got s = added pc (pc_log s) @ candidates s \<and> (candidates s \<noteq> [] \<longrightarrow> \<not> has_remote E pc (pc_log s)) \<and>
    (\<forall>pre c post. pc_log s = pre @ Add_Candidate pc c # post \<longrightarrow> has_remote E pc pre)"
proof -
  have "client_ok s \<and> in_order E s"
    using assms(1)
  proof (induction rule: reachable_invariant)
    case init
    show ?case by (simp, simp add: in_order_def added_late_def NewSFUClient_def)
  next
    case (step s s')
    then show ?case
      using in_order_step [of E s s', OF _ _ _ assms(3)] publisher_ok_step [of E s s'] by (auto simp: client_ok_def)
  qed
  with assms(2) show ?thesis by (auto simp: in_order_def added_late_def)
qed

text \<open>A peer connection that never fails, and has a remote description once one was set.\<close>

definition demo_pc :: "string pc_env" where
  "demo_pc = \<lparr>new_pc = (\<lambda>_. True), set_remote_error = (\<lambda>_. None),
     current_remote = (\<lambda>pc ios. \<exists>n < length ios. (case ios ! n of Set_Remote q _ _ \<Rightarrow> q = pc | _ \<Rightarrow> False)),
     create_answer = (\<lambda>_. Inr ''a''), create_offer = (\<lambda>_. Inr ''o''), set_local_error = (\<lambda>_. None),
     need_track_error = (\<lambda>ios. if Need_Track 0 \<in> set ios \<and> Need_Track 1 \<notin> set ios then Some ''no track'' else None),
     send_result = (\<lambda>_. None), marshal_candidate = Inr, unmarshal_candidate = (\<lambda>c. c), err_text = (\<lambda>_. ''error'')\<rparr>"

lemma demo_pc_current: "current_remote demo_pc pc ios \<longleftrightarrow> has_remote demo_pc pc ios"
proof -
  have "(case i of Set_Remote q _ _ \<Rightarrow> q = pc | _ \<Rightarrow> False) \<longleftrightarrow> (\<exists>ty sdp. i = Set_Remote pc ty sdp)"
    for i :: "string pc_io" by (cases i) auto
  then show ?thesis by (simp add: demo_pc_def has_remote_def)
qed

theorem publisher_candidates_in_order_witness:
  "\<exists>s. publisher_reachable demo_pc s \<and> handler s = Some 0 \<and> got s = [''c''] \<and>
     [''c''] = added 0 (pc_log s) @ candidates s"
proof -
  let ?r = "Publisher_OnReconnect demo_pc NewSFUClient"
  let ?s = "Publisher_trickle demo_pc 0 ''c'' Target_PUBLISHER ?r"
  have "publisher_step demo_pc NewSFUClient (Some ?r)" by (rule publisher_step.reconnect)
  then have 1: "publisher_reachable demo_pc ?r" by (rule reachable_first)
  have h: "handler ?r = Some 0" "got ?r = []"
    by (simp_all add: Publisher_OnReconnect_def newPeerConnection_def close_last_def NewSFUClient_def demo_pc_def
        pc_call_def OnMsgRecv_handler_def refresh_def Let_def)
  have "publisher_step demo_pc ?r (newMsgHandler (Publisher_msgHandler demo_pc) (Reply_Trickle Target_PUBLISHER ''c'') ?r)"
    by (rule publisher_step.reply)
  moreover have "newMsgHandler (Publisher_msgHandler demo_pc) (Reply_Trickle Target_PUBLISHER ''c'') ?r = Some ?s"
    by (simp add: newMsgHandler_def h Publisher_msgHandler_def) (simp add: demo_pc_def)
  ultimately have "publisher_step demo_pc ?r (Some ?s)" by simp
  with 1 have r: "publisher_reachable demo_pc ?s" by (rule reachable_step)
  have s: "handler ?s = Some 0" "got ?s = [''c'']"
    by (simp_all add: Publisher_trickle_def trickle_for_def pc_call_def h Let_def)
  from publisher_candidates_in_order [OF r s(1) demo_pc_current] r s show ?thesis by (intro exI [of _ ?s]) simp
qed

text \<open>
  A subscriber neither loses nor duplicates a candidate, whatever its peer connection answers:
  those it was given for its target are those it has added and those it keeps. Of its peer
  connections only the newest is open.
\<close>

theorem subscriber_keeps_candidates:
  assumes "subscriber_reachable E s"
  shows "(\<forall>pc. handler s = Some pc \<longrightarrow> mset (got s) = mset (added pc (pc_log s)) + mset (candidates s)) \<and>
    opened (pc_log s) - closed_pcs (pc_log s) \<subseteq> set_option (lastPeerConnection s)"
  using subscriber_ok [OF assms] by (auto simp: client_ok_def kept_def conn_inv_def)

theorem subscriber_keeps_candidates_witness:
  "\<exists>s. subscriber_reachable demo_pc s \<and> opened (pc_log s) - closed_pcs (pc_log s) \<subseteq> {0} \<and> opened (pc_log s) = {0}"
proof -
  let ?s = "Subscriber_OnReconnect demo_pc NewSFUClient"
  have "subscriber_step demo_pc NewSFUClient (Some ?s)" by (rule subscriber_step.reconnect)
  then have r: "subscriber_reachable demo_pc ?s" by (rule reachable_first)
  have "lastPeerConnection ?s = Some 0" "opened (pc_log ?s) = {0}"
    by (simp_all add: Subscriber_OnReconnect_def newPeerConnection_def close_last_def NewSFUClient_def demo_pc_def
        pc_call_def OnMsgRecv_handler_def Let_def)
  with subscriber_keeps_candidates [OF r] r show ?thesis by auto
qed

text \<open>
  The open peer connections of a publisher are the newest and those for which adding the tracks
  failed, and a connection for which it failed is never closed.
\<close>

theorem publisher_open_connections:
  assumes "publisher_reachable E s"
  shows "set (leaked s) \<subseteq> opened (pc_log s) - closed_pcs (pc_log s) \<and>
    opened (pc_log s) - closed_pcs (pc_log s) \<subseteq> set (leaked s) \<union> set_option (lastPeerConnection s)"
  using publisher_ok [OF assms] by (auto simp: client_ok_def conn_inv_def)

theorem publisher_open_connections_witness:
  "\<exists>s. publisher_reachable demo_pc s \<and> lastPeerConnection s = Some 1 \<and>
     0 \<in> opened (pc_log s) - closed_pcs (pc_log s)"
proof -
  let ?r = "Publisher_OnReconnect demo_pc NewSFUClient"
  let ?s = "Publisher_OnReconnect demo_pc ?r"
  have 1: "publisher_step demo_pc NewSFUClient (Some ?r)" by (rule publisher_step.reconnect)
  have 2: "publisher_step demo_pc ?r (Some ?s)" by (rule publisher_step.reconnect)
  from 1 have "publisher_reachable demo_pc ?r" by (rule reachable_first)
  then have r: "publisher_reachable demo_pc ?s" using 2 by (rule reachable_step)
  have "lastPeerConnection ?s = Some 1" "leaked ?s = [0]"
    by (simp_all add: Publisher_OnReconnect_def newPeerConnection_def close_last_def NewSFUClient_def demo_pc_def
        pc_call_def OnMsgRecv_handler_def refresh_def Let_def)
  with publisher_open_connections [OF r] r show ?thesis by auto
qed

end
