(* ===== verification/SFU_Config.thy ===== *)
theory SFU_Config
  imports "HOL-Library.Word" Dion_Base
begin

text \<open>
  The check of the configuration of an SFU (\<open>pkg/sfu/config.go\<close>). Reading the two halves of the file is
  viper's work and a parameter; the port range of ion-sfu is a slice of \<open>uint16\<close>, so its difference
  wraps. \<open>None\<close> is a panic, \<open>Some None\<close> success.
\<close>

type_synonym port = "16 word"

datatype load_error = Common_not_loaded | Config_not_loaded | Range_too_long | Range_too_small

definition portRangeLimit :: port where
  "portRangeLimit = 100"

definition Config_Load :: "bool \<Rightarrow> bool \<Rightarrow> port list \<Rightarrow> load_error option option" where
  "Config_Load common_loads config_loads ports =
     (if \<not> common_loads then Some (Some Common_not_loaded)
      else if \<not> config_loads then Some (Some Config_not_loaded)
      else if length ports > 2 then Some (Some Range_too_long)
      else
        (case ports of
           [] \<Rightarrow> Some None
         | [lo] \<Rightarrow> None
         | lo # hi # _ \<Rightarrow> if hi - lo < portRangeLimit then Some (Some Range_too_small) else Some None))"

lemma wrapped_difference:
  fixes lo hi :: port
  shows "\<not> hi - lo < portRangeLimit \<longleftrightarrow>
    (if lo \<le> hi then 100 \<le> unat hi - unat lo else unat lo - unat hi \<le> 65436)"
proof (cases "lo \<le> hi")
  case True
  then have "unat (hi - lo) = unat hi - unat lo" by (simp add: unat_sub)
  with True show ?thesis by (simp add: portRangeLimit_def word_less_nat_alt not_less)
next
  case False
  then have "unat hi < unat lo" by (simp add: word_le_nat_alt)
  moreover have "unat lo < 65536" using unsigned_less [of lo] by simp
  moreover from calculation have "unat (hi - lo) = 65536 + unat hi - unat lo"
    using False by (simp add: unat_sub_if_size word_le_nat_alt word_size)
  ultimately show ?thesis using False by (simp add: portRangeLimit_def word_less_nat_alt not_less) linarith
qed

text \<open>
  C29. What \<open>Load\<close> accepts when both halves of the file load: no port range, or two ports whose
  difference is large enough in \<open>uint16\<close> arithmetic. So the ends of a range in ascending order have to be a hundred
  apart, a reversed one is accepted unless its ends are more than 65436 apart, and a range of one port
  is a panic, the only one.
\<close>

theorem config_accepts_ranges:
  "(Config_Load True True ports = Some None \<longleftrightarrow> ports = [] \<or>
      (\<exists>lo hi. ports = [lo, hi] \<and> (if lo \<le> hi then 100 \<le> unat hi - unat lo else unat lo - unat hi \<le> 65436))) \<and>
   (Config_Load common_loads config_loads ports = None \<longleftrightarrow> common_loads \<and> config_loads \<and> length ports = 1)"
proof -
  consider "ports = []" | lo where "ports = [lo]" | lo hi where "ports = [lo, hi]" | lo hi x xs where "ports = lo # hi # x # xs"
    by (metis list.exhaust)
  then show ?thesis
    by cases (simp_all add: Config_Load_def wrapped_difference [symmetric])
qed

end
