(* ===== verification/Bridge.thy ===== *)
theory Bridge
  imports Dog_Table Dion_Messages
begin

text \<open>
  The processing door of \<open>pkg/sxu/bridge/bridge.go\<close>: a \<open>Bridge\<close> publishes into one session and keeps
  a watch dog per source session; and the watch dog of \<open>util/watchdog.go\<close> whose doors are bridges.
  The processor, the publisher's peer and the doors of the entrances are interfaces: whether they
  succeed is an argument (\<open>bridge_env\<close>), a function of the calls made so far.
\<close>

section \<open>State\<close>

text \<open>The calls on the publisher and the processor, and whether they succeeded.\<close>

datatype bridge_call =
    Exit_Lock string bool
  | Processor_Init bool
  | UpdateProcedure proceed_track bool
  | Exit_Remove

record bridge_env =
  exit_join :: "bridge_call list \<Rightarrow> bool"
  init_ok :: "bridge_call list \<Rightarrow> bool"
  procedure_ok :: "bridge_call list \<Rightarrow> bool"

record bridge =
  br_track :: "proceed_track option"
  entrances :: "(string, nat) gomap"
  br_dogs :: "string WatchDog list"
  br_calls :: "bridge_call list"

definition BridgeFactory_NewDoor :: bridge where
  "BridgeFactory_NewDoor = \<lparr>br_track = None, entrances = Map.empty, br_dogs = [], br_calls = []\<rparr>"

datatype bridge_error = DstSessionId_not_match | Lock_failed | Init_failed | Procedure_failed | Not_repairable

section \<open>Operations\<close>

text \<open>A missing session gets a watch dog, which starts at once.\<close>

definition create_entrance :: "bridge \<Rightarrow> string \<Rightarrow> bridge" where
  "create_entrance b sid =
     (if entrances b sid = None
      then b\<lparr>br_dogs := br_dogs b @ [Watch sid (NewWatchDog sid)],
             entrances := (entrances b)(sid \<mapsto> length (br_dogs b))\<rparr>
      else b)"

definition remove_entrance :: "string set \<Rightarrow> bridge \<Rightarrow> string \<Rightarrow> bridge" where
  "remove_entrance sidSet b sid =
     (if sid \<in> sidSet then b
      else (case entrances b sid of
              Some i \<Rightarrow> b\<lparr>br_dogs := (br_dogs b)[i := Leave (br_dogs b ! i)], entrances := (entrances b)(sid := None)\<rparr>
            | None \<Rightarrow> b))"

text \<open>
  \<open>Update\<close> has a value receiver: the track it stores is stored in a copy, the map and the processor
  are shared. The last loop visits the map in any order.
\<close>

definition Bridge_Update :: "bridge_env \<Rightarrow> string range_order \<Rightarrow> proceed_track \<Rightarrow> bridge \<Rightarrow> bridge_error option \<times> bridge" where
  "Bridge_Update E ord track b =
     (if (case br_track b of Some t \<Rightarrow> DstSessionId t \<noteq> DstSessionId track | None \<Rightarrow> False)
      then (Some DstSessionId_not_match, b)
      else
        (let ok = procedure_ok E (br_calls b);
             b1 = b\<lparr>br_calls := br_calls b @ [UpdateProcedure track ok]\<rparr> in
         if \<not> ok then (Some Procedure_failed, b1)
         else
           (let b2 = foldl create_entrance b1 (SrcSessionIdList track) in
            (None, foldl (remove_entrance (set (SrcSessionIdList track))) b2 (visit ord (dom (entrances b2)))))))"

definition Bridge_Lock :: "bridge_env \<Rightarrow> string range_order \<Rightarrow> proceed_track \<Rightarrow> bridge \<Rightarrow> bridge_error option \<times> bridge" where
  "Bridge_Lock E ord track b =
     (let ok = exit_join E (br_calls b);
          b1 = b\<lparr>br_calls := br_calls b @ [Exit_Lock (DstSessionId track) ok]\<rparr> in
      if \<not> ok then (Some Lock_failed, b1)
      else
        (let ok = init_ok E (br_calls b1);
             b2 = b1\<lparr>br_calls := br_calls b1 @ [Processor_Init ok]\<rparr> in
         if \<not> ok then (Some Init_failed, b2) else Bridge_Update E ord track b2))"

definition Bridge_Repair :: "proceed_track \<Rightarrow> bridge \<Rightarrow> bridge_error option \<times> bridge" where
  "Bridge_Repair track b = (Some Not_repairable, b)"

definition Bridge_Remove :: "string range_order \<Rightarrow> bridge \<Rightarrow> bridge" where
  "Bridge_Remove ord b =
     (let b1 = foldl (remove_entrance {}) b (visit ord (dom (entrances b))) in
      b1\<lparr>br_calls := br_calls b1 @ [Exit_Remove]\<rparr>)"

section \<open>The entrances\<close>

text \<open>
  The dog of an entrance works on its session, with which it was started: nobody sends it an update.
\<close>

definition bridge_inv :: "bridge \<Rightarrow> bool" where
  "bridge_inv b \<longleftrightarrow> dogs_inv (entrances b) (br_dogs b) \<and> finite (dom (entrances b)) \<and>
     (\<forall>sid i. entrances b sid = Some i \<longrightarrow> param (br_dogs b ! i) = sid \<and> updateCh (br_dogs b ! i) = None)"

lemma bridge_invD:
  assumes "bridge_inv b" "entrances b sid = Some i"
  shows "i < length (br_dogs b)" "watching (br_dogs b ! i)" "param (br_dogs b ! i) = sid \<and> updateCh (br_dogs b ! i) = None"
  using assms by (auto simp: bridge_inv_def dogs_inv_def)

lemma bridge_inv_new: "bridge_inv BridgeFactory_NewDoor"
  by (simp add: bridge_inv_def BridgeFactory_NewDoor_def dogs_inv_def)

lemma bridge_inv_call [simp]: "bridge_inv (b\<lparr>br_calls := cs\<rparr>) = bridge_inv b"
  by (simp add: bridge_inv_def)

lemma create_entrance_inv:
  assumes "bridge_inv b"
  shows "bridge_inv (create_entrance b sid)"
proof (cases "entrances b sid")
  case None
  then have b': "create_entrance b sid = b\<lparr>br_dogs := br_dogs b @ [Watch sid (NewWatchDog sid)],
      entrances := (entrances b)(sid \<mapsto> length (br_dogs b))\<rparr>" by (simp add: create_entrance_def)
  have "param ((br_dogs b @ [Watch sid (NewWatchDog sid)]) ! i) = k \<and>
      updateCh ((br_dogs b @ [Watch sid (NewWatchDog sid)]) ! i) = None"
    if "((entrances b)(sid \<mapsto> length (br_dogs b))) k = Some i" for k i
    using that bridge_invD [OF assms, of k i] by (auto simp: nth_append Watch_def NewWatchDog_def Let_def split: if_splits)
  with None assms show ?thesis by (simp add: b' bridge_inv_def dogs_inv_start)
qed (simp add: create_entrance_def assms)

lemma remove_entrance_inv:
  assumes "bridge_inv b"
  shows "bridge_inv (remove_entrance sids b sid)"
proof (cases "sid \<in> sids \<or> entrances b sid = None")
  case False
  then obtain i where i: "sid \<notin> sids" "entrances b sid = Some i" by auto
  then have b': "remove_entrance sids b sid =
      b\<lparr>br_dogs := (br_dogs b)[i := Leave (br_dogs b ! i)], entrances := (entrances b)(sid := None)\<rparr>"
    by (simp add: remove_entrance_def)
  have "param ((br_dogs b)[i := Leave (br_dogs b ! i)] ! j) = k \<and> updateCh ((br_dogs b)[i := Leave (br_dogs b ! i)] ! j) = None"
    if "entrances b k = Some j" "k \<noteq> sid" for k j
  proof -
    have "j \<noteq> i" using assms that i(2) unfolding bridge_inv_def dogs_inv_def by blast
    with bridge_invD(3) [OF assms that(1)] show ?thesis by simp
  qed
  then show ?thesis using assms i
    by (auto simp: b' bridge_inv_def split: if_splits intro!: dogs_inv_stop intro: finite_subset [of _ "dom (entrances b)"])
qed (auto simp: remove_entrance_def assms split: option.split)

text \<open>The dogs of the entrances run by themselves.\<close>

definition run_entrance :: "nat \<Rightarrow> string WatchDog \<Rightarrow> bridge \<Rightarrow> bridge" where
  "run_entrance i w b = b\<lparr>br_dogs := (br_dogs b)[i := w]\<rparr>"

lemma run_entrance_inv:
  assumes "bridge_inv b" "dog_runs (br_dogs b ! i) w"
  shows "bridge_inv (run_entrance i w b)"
proof -
  have "param ((br_dogs b)[i := w] ! j) = k \<and> updateCh ((br_dogs b)[i := w] ! j) = None" if "entrances b k = Some j" for k j
    using bridge_invD(1,3) [OF assms(1) that] dog_runs_param [OF assms(2)] by (cases "j = i") simp_all
  with assms(1) dog_runs_ctx [OF assms(2)] dog_runs_watching [OF assms(2)] show ?thesis by (simp add: bridge_inv_def run_entrance_def dogs_inv_update)
qed

lemma entrance_frame [simp]:
  "br_track (create_entrance b sid) = br_track b" "br_calls (create_entrance b sid) = br_calls b"
  "br_track (remove_entrance sids b sid) = br_track b" "br_calls (remove_entrance sids b sid) = br_calls b"
  "dom (entrances (create_entrance b sid)) = insert sid (dom (entrances b))"
  by (auto simp: create_entrance_def remove_entrance_def split: option.split)

lemma create_entrances:
  "br_track (foldl create_entrance b sids) = br_track b" "br_calls (foldl create_entrance b sids) = br_calls b"
  "dom (entrances (foldl create_entrance b sids)) = dom (entrances b) \<union> set sids"
  "bridge_inv b \<Longrightarrow> bridge_inv (foldl create_entrance b sids)"
  by (induction sids arbitrary: b) (auto simp: create_entrance_inv)

lemma create_entrance_old: "entrances b sid = Some i \<Longrightarrow> entrances (create_entrance b s) sid = Some i"
  by (auto simp: create_entrance_def)

lemma create_entrances_old:
  "entrances b sid = Some i \<Longrightarrow> entrances (foldl create_entrance b sids) sid = Some i"
  by (induction sids arbitrary: b) (simp_all add: create_entrance_old)

lemma remove_entrance_apply:
  "entrances (remove_entrance sids b sid) k = (if k = sid \<and> sid \<notin> sids then None else entrances b k)"
  by (auto simp: remove_entrance_def split: option.split)

lemma remove_entrances:
  "br_track (foldl (remove_entrance sids) b ks) = br_track b" "br_calls (foldl (remove_entrance sids) b ks) = br_calls b"
  "entrances (foldl (remove_entrance sids) b ks) k = (if k \<in> set ks \<and> k \<notin> sids then None else entrances b k)"
  "bridge_inv b \<Longrightarrow> bridge_inv (foldl (remove_entrance sids) b ks)"
  by (induction ks arbitrary: b) (auto simp: remove_entrance_inv remove_entrance_apply)

lemma Bridge_Update_inv:
  assumes "Bridge_Update E ord track b = (err, b')" "bridge_inv b"
  shows "bridge_inv b'" "br_track b' = br_track b" "\<exists>cs. br_calls b' = br_calls b @ cs"
  using assms by (auto simp: Bridge_Update_def Let_def create_entrances remove_entrances split: if_splits)

lemma Bridge_Lock_inv:
  assumes "Bridge_Lock E ord track b = (err, b')" "bridge_inv b"
  shows "bridge_inv b'" "br_track b' = br_track b"
    "err = None \<Longrightarrow> Exit_Lock (DstSessionId track) True \<in> set (br_calls b')"
proof -
  show "bridge_inv b'" "br_track b' = br_track b"
    using assms Bridge_Update_inv(1,2) by (auto simp: Bridge_Lock_def Let_def split: if_splits)
  show "err = None \<Longrightarrow> Exit_Lock (DstSessionId track) True \<in> set (br_calls b')"
    using assms Bridge_Update_inv(3) by (fastforce simp: Bridge_Lock_def Let_def split: if_splits)
qed

lemma Bridge_Remove_left:
  assumes "bridge_inv b"
  shows "bridge_inv (Bridge_Remove ord b)" "entrances (Bridge_Remove ord b) = Map.empty"
    "\<forall>w \<in> set (br_dogs (Bridge_Remove ord b)). ctx_done w"
proof -
  show inv: "bridge_inv (Bridge_Remove ord b)"
    using assms by (simp add: Bridge_Remove_def Let_def remove_entrances)
  show none: "entrances (Bridge_Remove ord b) = Map.empty"
    using assms by (auto simp: Bridge_Remove_def Let_def remove_entrances bridge_inv_def fun_eq_iff)
  show "\<forall>w \<in> set (br_dogs (Bridge_Remove ord b)). ctx_done w"
    using inv none by (auto simp: bridge_inv_def dogs_inv_def in_set_conv_nth)
qed

section \<open>The watch dog of a bridge\<close>

text \<open>
  The watch dog of a processed track, with the bridge behind every door it has bought. A factory
  that fails returns no door.
\<close>

record bridge_dog =
  bd_dog :: "proceed_track WatchDog"
  bd_bridges :: "door \<Rightarrow> bridge"

definition NewBridgeDog :: "proceed_track \<Rightarrow> bridge_dog" where
  "NewBridgeDog track = \<lparr>bd_dog = NewWatchDog track, bd_bridges = (\<lambda>_. BridgeFactory_NewDoor)\<rparr>"

definition bridge_buy :: "bool \<Rightarrow> bridge_dog \<Rightarrow> bridge_dog" where
  "bridge_buy ok s =
     s\<lparr>bd_dog := buy_door (if ok then Sold else Closed) (bd_dog s),
       bd_bridges := (if ok then (bd_bridges s)(next_door (bd_dog s) := BridgeFactory_NewDoor) else bd_bridges s)\<rparr>"

text \<open>A door that failed is removed at once.\<close>

definition serviced :: "string range_order \<Rightarrow> bridge_error option \<times> bridge \<Rightarrow> bridge" where
  "serviced ord res = (case res of (None, b) \<Rightarrow> b | (Some _, b) \<Rightarrow> Bridge_Remove ord b)"

definition bridge_lock :: "bridge_env \<Rightarrow> string range_order \<Rightarrow> door \<Rightarrow> bridge_dog \<Rightarrow> bridge_dog" where
  "bridge_lock E ord d s =
     (let res = Bridge_Lock E ord (param (bd_dog s)) (bd_bridges s d) in
      s\<lparr>bd_dog := lock_door (fst res = None) d (bd_dog s), bd_bridges := (bd_bridges s)(d := serviced ord res)\<rparr>)"

definition bridge_update :: "bridge_env \<Rightarrow> string range_order \<Rightarrow> door \<Rightarrow> proceed_track \<Rightarrow> bridge_dog \<Rightarrow> bridge_dog" where
  "bridge_update E ord d track s =
     (let res = Bridge_Update E ord track (bd_bridges s d) in
      s\<lparr>bd_dog := select_update (fst res = None) d track (bd_dog s),
        bd_bridges := (bd_bridges s)(d := serviced ord res)\<rparr>)"

definition bridge_repair :: "string range_order \<Rightarrow> door \<Rightarrow> bridge_dog \<Rightarrow> bridge_dog" where
  "bridge_repair ord d s =
     (let res = Bridge_Repair (param (bd_dog s)) (bd_bridges s d) in
      s\<lparr>bd_dog := select_broken (fst res = None) d (bd_dog s), bd_bridges := (bd_bridges s)(d := serviced ord res)\<rparr>)"

definition bridge_done :: "string range_order \<Rightarrow> door \<Rightarrow> bridge_dog \<Rightarrow> bridge_dog" where
  "bridge_done ord d s =
     s\<lparr>bd_dog := select_done d (bd_dog s), bd_bridges := (bd_bridges s)(d := Bridge_Remove ord (bd_bridges s d))\<rparr>"

definition bridge_entrance :: "door \<Rightarrow> nat \<Rightarrow> string WatchDog \<Rightarrow> bridge_dog \<Rightarrow> bridge_dog" where
  "bridge_entrance d i w s = s\<lparr>bd_bridges := (bd_bridges s)(d := run_entrance i w (bd_bridges s d))\<rparr>"

inductive bridge_step :: "(bridge_env \<Rightarrow> bool) \<Rightarrow> bridge_dog \<Rightarrow> bridge_dog \<Rightarrow> bool" for allowed where
  watch: "bridge_step allowed s (s\<lparr>bd_dog := Watch init (bd_dog s)\<rparr>)"
| update: "bridge_step allowed s (s\<lparr>bd_dog := WatchDog_Update p (bd_dog s)\<rparr>)"
| leave: "bridge_step allowed s (s\<lparr>bd_dog := Leave (bd_dog s)\<rparr>)"
| broken: "bridge_step allowed s (s\<lparr>bd_dog := OnBroken (bd_dog s)\<rparr>)"
| buy: "pc (bd_dog s) = Top \<Longrightarrow> door (bd_dog s) = None \<Longrightarrow> bridge_step allowed s (bridge_buy ok s)"
| lock: "pc (bd_dog s) = Top \<Longrightarrow> door (bd_dog s) = Some d \<Longrightarrow> allowed E \<Longrightarrow>
    bridge_step allowed s (bridge_lock E ord d s)"
| entrance: "i < length (br_dogs (bd_bridges s d)) \<Longrightarrow> dog_runs (br_dogs (bd_bridges s d) ! i) w \<Longrightarrow>
    bridge_step allowed s (bridge_entrance d i w s)"
| on_done: "pc (bd_dog s) = Select \<Longrightarrow> door (bd_dog s) = Some d \<Longrightarrow> ctx_done (bd_dog s) \<Longrightarrow>
    bridge_step allowed s (bridge_done ord d s)"
| on_broken: "pc (bd_dog s) = Select \<Longrightarrow> door (bd_dog s) = Some d \<Longrightarrow> brokenCh (bd_dog s) \<Longrightarrow>
    bridge_step allowed s (bridge_repair ord d s)"
| on_update: "pc (bd_dog s) = Select \<Longrightarrow> door (bd_dog s) = Some d \<Longrightarrow> updateCh (bd_dog s) = Some p \<Longrightarrow> allowed E \<Longrightarrow>
    bridge_step allowed s (bridge_update E ord d p s)"

abbreviation bridge_reachable :: "(bridge_env \<Rightarrow> bool) \<Rightarrow> proceed_track \<Rightarrow> bridge_dog \<Rightarrow> bool" where
  "bridge_reachable allowed track \<equiv> reachable (bridge_step allowed) (NewBridgeDog track)"

text \<open>
  The bridge behind the current door keeps its invariant, every other one has been removed; its
  track is never set; and it has joined when its dog waits.
\<close>

definition retired :: "bridge \<Rightarrow> bool" where
  "retired b \<longleftrightarrow> entrances b = Map.empty \<and> (\<forall>w \<in> set (br_dogs b). ctx_done w)"

definition joined :: "bridge \<Rightarrow> bool" where
  "joined b \<longleftrightarrow> (\<exists>sid. Exit_Lock sid True \<in> set (br_calls b))"

definition bridge_dog_inv :: "bridge_dog \<Rightarrow> bool" where
  "bridge_dog_inv s \<longleftrightarrow>
     (\<forall>d. bridge_inv (bd_bridges s d) \<and> br_track (bd_bridges s d) = None \<and>
        (door (bd_dog s) \<noteq> Some d \<longrightarrow> retired (bd_bridges s d))) \<and>
     (pc (bd_dog s) = Exited \<longrightarrow> door (bd_dog s) = None) \<and>
     (\<forall>d. pc (bd_dog s) = Select \<longrightarrow> door (bd_dog s) = Some d \<longrightarrow> joined (bd_bridges s d))"

lemma serviced_keeps:
  assumes "bridge_inv (snd res)" "br_track (snd res) = None"
  shows "bridge_inv (serviced ord res)" "br_track (serviced ord res) = None" "fst res \<noteq> None \<Longrightarrow> retired (serviced ord res)"
    "fst res = None \<Longrightarrow> serviced ord res = snd res"
  using assms Bridge_Remove_left [of "snd res" ord] remove_entrances(1)
  by (cases res; cases "fst res"; force simp: serviced_def retired_def Bridge_Remove_def Let_def)+

lemma Bridge_Remove_keeps:
  assumes "bridge_inv b" "br_track b = None"
  shows "bridge_inv (Bridge_Remove ord b)" "br_track (Bridge_Remove ord b) = None" "retired (Bridge_Remove ord b)"
  using Bridge_Remove_left [OF assms(1), of ord] assms(2) by (auto simp: retired_def Bridge_Remove_def Let_def remove_entrances)

text \<open>A step that services the current door.\<close>

lemma bridge_dog_inv_service:
  assumes "bridge_dog_inv s" "door (bd_dog s) = Some d"
    and "bridge_inv b" "br_track b = None" "bd_bridges s' = (bd_bridges s)(d := b)"
    and "door (bd_dog s') = Some d \<or> door (bd_dog s') = None \<and> retired b"
    and "pc (bd_dog s') = Exited \<longrightarrow> door (bd_dog s') = None"
    and "pc (bd_dog s') = Select \<longrightarrow> joined b"
  shows "bridge_dog_inv s'"
  using assms unfolding bridge_dog_inv_def by auto

lemma run_entrance_frame [simp]:
  "br_track (run_entrance i w b) = br_track b" "entrances (run_entrance i w b) = entrances b"
  "joined (run_entrance i w b) = joined b"
  by (simp_all add: run_entrance_def joined_def)

lemma run_entrance_retired:
  assumes "retired b" "i < length (br_dogs b)" "dog_runs (br_dogs b ! i) w"
  shows "retired (run_entrance i w b)"
proof -
  have "ctx_done w" using assms dog_runs_ctx by (fastforce simp: retired_def)
  with assms(1) show ?thesis by (auto simp: retired_def run_entrance_def dest: set_update_subset_insert [THEN subsetD])
qed

lemma Bridge_Lock_joined:
  "Bridge_Lock E ord t b = (None, b') \<Longrightarrow> joined b'"
proof -
  assume lock: "Bridge_Lock E ord t b = (None, b')"
  define b1 where "b1 = b\<lparr>br_calls := br_calls b @ [Exit_Lock (DstSessionId t) True, Processor_Init True]\<rparr>"
  have "Exit_Lock (DstSessionId t) True \<in> set (br_calls b1)" by (simp add: b1_def)
  moreover have "Bridge_Update E ord t b1 = (None, b')"
    using lock by (auto simp: Bridge_Lock_def Let_def b1_def split: if_splits)
  moreover from this have "\<exists>cs. br_calls b' = br_calls b1 @ cs"
    by (auto simp: Bridge_Update_def Let_def create_entrances remove_entrances split: if_splits)
  ultimately show ?thesis unfolding joined_def by auto
qed

lemma bridge_step_inv:
  assumes "bridge_step allowed s s'" "bridge_dog_inv s"
  shows "bridge_dog_inv s'"
  using assms(1)
proof cases
  case (watch init)
  with assms(2) show ?thesis by (simp add: bridge_dog_inv_def Watch_def Let_def)
next
  case (update p)
  with assms(2) show ?thesis by (simp add: bridge_dog_inv_def WatchDog_Update_def)
next
  case leave
  with assms(2) show ?thesis by (simp add: bridge_dog_inv_def Leave_def)
next
  case broken
  with assms(2) show ?thesis by (simp add: bridge_dog_inv_def OnBroken_def)
next
  case (buy ok)
  have new: "bridge_inv BridgeFactory_NewDoor" "br_track BridgeFactory_NewDoor = None" "retired BridgeFactory_NewDoor"
    by (simp_all add: bridge_inv_new) (simp_all add: BridgeFactory_NewDoor_def retired_def)
  have all: "bridge_inv (bd_bridges s d) \<and> br_track (bd_bridges s d) = None \<and> retired (bd_bridges s d)" for d
    using assms(2) buy by (simp add: bridge_dog_inv_def)
  show ?thesis
    using buy all new by (cases ok) (simp_all add: bridge_dog_inv_def bridge_buy_def buy_door_def exit_or_continue_def Let_def)
next
  case (lock d E ord)
  define res where "res = Bridge_Lock E ord (param (bd_dog s)) (bd_bridges s d)"
  have b: "bridge_inv (bd_bridges s d)" "br_track (bd_bridges s d) = None"
    using assms(2) by (simp_all add: bridge_dog_inv_def)
  have res: "bridge_inv (snd res)" "br_track (snd res) = None"
    using Bridge_Lock_inv(1,2) [of E ord "param (bd_dog s)" "bd_bridges s d" "fst res" "snd res"] b by (simp_all add: res_def)
  have join: "fst res = None \<Longrightarrow> joined (snd res)"
    using Bridge_Lock_joined [of E ord "param (bd_dog s)" "bd_bridges s d" "snd res"] by (metis prod.collapse res_def)
  have s': "s' = s\<lparr>bd_dog := lock_door (fst res = None) d (bd_dog s), bd_bridges := (bd_bridges s)(d := serviced ord res)\<rparr>"
    using lock(1) by (simp add: bridge_lock_def res_def Let_def)
  show ?thesis
    by (rule bridge_dog_inv_service [OF assms(2) lock(3) serviced_keeps(1,2) [OF res]])
      (use s' lock serviced_keeps(3,4) [OF res] join in
        \<open>auto simp: lock_door_def exit_or_continue_def Let_def\<close>)
next
  case (entrance i d w)
  have "bridge_inv (run_entrance i w (bd_bridges s d))"
    using assms(2) by (intro run_entrance_inv entrance(3)) (simp add: bridge_dog_inv_def)
  with assms(2) show ?thesis
    using run_entrance_retired [OF _ entrance(2,3)] by (simp add: entrance(1) bridge_entrance_def bridge_dog_inv_def)
next
  case (on_done d ord)
  have b: "bridge_inv (bd_bridges s d)" "br_track (bd_bridges s d) = None"
    using assms(2) by (simp_all add: bridge_dog_inv_def)
  show ?thesis
    by (rule bridge_dog_inv_service [OF assms(2) on_done(3) Bridge_Remove_keeps(1,2) [OF b]])
      (use on_done Bridge_Remove_keeps(3) [OF b] in \<open>auto simp: bridge_done_def select_done_def\<close>)
next
  case (on_broken d ord)
  have b: "bridge_inv (bd_bridges s d)" "br_track (bd_bridges s d) = None"
    using assms(2) by (simp_all add: bridge_dog_inv_def)
  show ?thesis
    by (rule bridge_dog_inv_service [OF assms(2) on_broken(3) Bridge_Remove_keeps(1,2) [OF b]])
      (use on_broken Bridge_Remove_keeps(3) [OF b] in
        \<open>auto simp: bridge_repair_def Bridge_Repair_def serviced_def select_broken_def Let_def\<close>)
next
  case (on_update d p E ord)
  define res where "res = Bridge_Update E ord p (bd_bridges s d)"
  have b: "bridge_inv (bd_bridges s d)" "br_track (bd_bridges s d) = None"
    using assms(2) by (simp_all add: bridge_dog_inv_def)
  have res: "bridge_inv (snd res)" "br_track (snd res) = None"
    using Bridge_Update_inv(1,2) [of E ord p "bd_bridges s d" "fst res" "snd res"] b by (simp_all add: res_def)
  have s': "s' = s\<lparr>bd_dog := select_update (fst res = None) d p (bd_dog s), bd_bridges := (bd_bridges s)(d := serviced ord res)\<rparr>"
    using on_update(1) by (simp add: bridge_update_def res_def Let_def)
  show ?thesis
    by (rule bridge_dog_inv_service [OF assms(2) on_update(3) serviced_keeps(1,2) [OF res]])
      (use s' on_update serviced_keeps(3) [OF res] in \<open>auto simp: select_update_def Let_def\<close>)
qed

lemma bridge_dog_inv_reachable: "bridge_reachable allowed track s \<Longrightarrow> bridge_dog_inv s"
proof (induction rule: reachable_invariant)
  case init
  have "bridge_inv BridgeFactory_NewDoor" by (rule bridge_inv_new)
  then show ?case
    by (simp add: bridge_dog_inv_def NewBridgeDog_def NewWatchDog_def retired_def) (simp add: BridgeFactory_NewDoor_def)
qed (auto intro: bridge_step_inv)

end
