(* ===== verification/Bridge_Properties.thy ===== *)
theory Bridge_Properties
  imports Bridge
begin

text \<open>
  What the watch dog of a processed track does with its bridges: the entrances follow the track, no
  entrance survives its bridge, and every successful update tears the bridge down.
\<close>

section \<open>Updates tear the bridge down\<close>

text \<open>ion-sfu rejects a second join of a peer, so the publisher of a bridge is locked once.\<close>

definition rejects_second_join :: "bridge_env \<Rightarrow> bool" where
  "rejects_second_join E \<longleftrightarrow> (\<forall>cs sid. Exit_Lock sid True \<in> set cs \<longrightarrow> \<not> exit_join E cs)"

definition torn :: "'p door_call list \<Rightarrow> bool" where
  "torn cs \<longleftrightarrow> (\<forall>xs d p ys. cs = xs @ Update_Door d p True # ys \<longrightarrow>
     ys = [] \<or> (\<exists>q zs. ys = Lock d q False # Remove d # zs))"

lemma torn_append:
  assumes "torn cs" "torn new"
    and "\<And>xs d p. cs = xs @ [Update_Door d p True] \<Longrightarrow> new = [] \<or> (\<exists>q zs. new = Lock d q False # Remove d # zs)"
  shows "torn (cs @ new)"
  unfolding torn_def
proof (intro allI impI)
  fix xs d p ys
  assume "cs @ new = xs @ Update_Door d p True # ys"
  then have "(\<exists>us. cs = xs @ us \<and> us @ new = Update_Door d p True # ys) \<or> (\<exists>us. new = us @ Update_Door d p True # ys)"
    by (auto simp: append_eq_append_conv2)
  then consider us where "cs = xs @ Update_Door d p True # us" "ys = us @ new"
    | us where "new = us @ Update_Door d p True # ys"
    by (auto simp: append_eq_Cons_conv)
  then show "ys = [] \<or> (\<exists>q zs. ys = Lock d q False # Remove d # zs)"
  proof cases
    case (1 us)
    then have "us = [] \<or> (\<exists>q zs. us = Lock d q False # Remove d # zs)" using assms(1) unfolding torn_def by blast
    with 1 assms(3) show ?thesis by auto
  next
    case 2
    with assms(2) show ?thesis unfolding torn_def by blast
  qed
qed

lemma torn_short:
  "torn []" "torn [NewDoor d]" "torn [Lock d p ok]" "torn [Lock d p False, Remove d]" "torn [Remove d]"
  "torn [Repair d p ok]" "torn [Repair d p False, Remove d]" "torn [Update_Door d p ok]" "torn [Update_Door d p False, Remove d]"
  by (auto simp: torn_def Cons_eq_append_conv)

definition rebuild_inv :: "bridge_dog \<Rightarrow> bool" where
  "rebuild_inv s \<longleftrightarrow> torn (calls (bd_dog s)) \<and>
     (\<forall>xs d p. calls (bd_dog s) = xs @ [Update_Door d p True] \<longrightarrow>
        pc (bd_dog s) = Top \<and> door (bd_dog s) = Some d \<and> joined (bd_bridges s d))"

lemma rebuild_extend:
  assumes "rebuild_inv s" "calls (bd_dog s') = calls (bd_dog s) @ new" "torn new" "new \<noteq> []"
    and "pc (bd_dog s) \<noteq> Top \<or> door (bd_dog s) = None"
    and "\<And>xs d p. new = xs @ [Update_Door d p True] \<Longrightarrow>
        pc (bd_dog s') = Top \<and> door (bd_dog s') = Some d \<and> joined (bd_bridges s' d)"
  shows "rebuild_inv s'"
  unfolding rebuild_inv_def
proof (intro conjI allI impI)
  show "torn (calls (bd_dog s'))"
    unfolding assms(2) by (rule torn_append) (use assms in \<open>auto simp: rebuild_inv_def\<close>)
  fix xs d p
  assume "calls (bd_dog s') = xs @ [Update_Door d p True]"
  then obtain us where "new = us @ [Update_Door d p True]"
    using assms(2,4) by (cases new rule: rev_cases) auto
  from assms(6) [OF this] show "pc (bd_dog s') = Top" "door (bd_dog s') = Some d" "joined (bd_bridges s' d)" by blast+
qed

lemma rebuild_same:
  assumes "rebuild_inv s" "calls (bd_dog s') = calls (bd_dog s)" "pc (bd_dog s) = Top \<Longrightarrow> pc (bd_dog s') = Top"
    "door (bd_dog s') = door (bd_dog s)" "bd_bridges s' = bd_bridges s"
  shows "rebuild_inv s'"
  using assms by (auto simp: rebuild_inv_def)

lemma joined_Lock_fails:
  assumes "joined b" "rejects_second_join E"
  shows "fst (Bridge_Lock E ord t b) = Some Lock_failed"
  using assms by (auto simp: joined_def rejects_second_join_def Bridge_Lock_def Let_def)

lemma joined_Update: "joined b \<Longrightarrow> joined (snd (Bridge_Update E ord t b))"
  by (auto simp: joined_def Bridge_Update_def Let_def create_entrances remove_entrances)

lemma rebuild_step:
  assumes "bridge_step rejects_second_join s s'" "rebuild_inv s" "bridge_dog_inv s"
  shows "rebuild_inv s'"
  using assms(1)
proof cases
  case (watch init)
  then show ?thesis by (intro rebuild_same [OF assms(2)]) (auto simp: Watch_def Let_def)
next
  case (update p)
  then show ?thesis by (intro rebuild_same [OF assms(2)]) (auto simp: WatchDog_Update_def)
next
  case leave
  then show ?thesis by (intro rebuild_same [OF assms(2)]) (auto simp: Leave_def)
next
  case broken
  then show ?thesis by (intro rebuild_same [OF assms(2)]) (auto simp: OnBroken_def)
next
  case (buy ok)
  show ?thesis
  proof (cases ok)
    case True
    with buy show ?thesis
      by (intro rebuild_extend [OF assms(2), of _ "[NewDoor (next_door (bd_dog s))]"])
        (auto simp: bridge_buy_def buy_door_def Let_def torn_short)
  next
    case False
    with buy assms(2) show ?thesis
      by (auto simp: rebuild_inv_def bridge_buy_def buy_door_def exit_or_continue_def Let_def)
  qed
next
  case (lock d E ord)
  define ok where "ok = (fst (Bridge_Lock E ord (param (bd_dog s)) (bd_bridges s d)) = None)"
  define new where "new = (if ok then [Lock d (param (bd_dog s)) True] else [Lock d (param (bd_dog s)) False, Remove d])"
  have calls: "calls (bd_dog s') = calls (bd_dog s) @ new"
    using lock by (simp add: bridge_lock_def lock_door_def exit_or_continue_def Let_def new_def ok_def)
  have "\<not> ok" if "calls (bd_dog s) = xs @ [Update_Door e p True]" for xs e p
  proof -
    have "joined (bd_bridges s d)" using assms(2) that lock(3) by (auto simp: rebuild_inv_def)
    from joined_Lock_fails [OF this lock(4)] show ?thesis by (simp add: ok_def)
  qed
  moreover have "e = d" if "calls (bd_dog s) = xs @ [Update_Door e p True]" for xs e p
    using assms(2) that lock(3) by (auto simp: rebuild_inv_def)
  ultimately have "torn (calls (bd_dog s'))"
    unfolding calls by (intro torn_append) (use assms(2) in \<open>auto simp: rebuild_inv_def new_def torn_short\<close>)
  then show ?thesis by (auto simp: rebuild_inv_def calls new_def)
next
  case (entrance i d w)
  have "joined (bd_bridges s' e) = joined (bd_bridges s e)" for e by (simp add: entrance(1) bridge_entrance_def)
  with assms(2) show ?thesis unfolding rebuild_inv_def by (simp add: entrance(1) bridge_entrance_def)
next
  case (on_done d ord)
  then show ?thesis
    by (intro rebuild_extend [OF assms(2), of _ "[Remove d]"]) (auto simp: bridge_done_def select_done_def torn_short)
next
  case (on_broken d ord)
  then show ?thesis
    by (intro rebuild_extend [OF assms(2), of _ "[Repair d (param (bd_dog s)) False, Remove d]"])
      (auto simp: bridge_repair_def Bridge_Repair_def select_broken_def Let_def torn_short)
next
  case (on_update d p E ord)
  define res where "res = Bridge_Update E ord p (bd_bridges s d)"
  define new where "new = (if fst res = None then [Update_Door d p True] else [Update_Door d p False, Remove d])"
  have j: "joined (bd_bridges s d)" using assms(3) on_update by (simp add: bridge_dog_inv_def)
  have s': "s' = s\<lparr>bd_dog := select_update (fst res = None) d p (bd_dog s), bd_bridges := (bd_bridges s)(d := serviced ord res)\<rparr>"
    using on_update(1) by (simp add: bridge_update_def res_def Let_def)
  have "joined (serviced ord res)" if "fst res = None"
    using joined_Update [OF j, of E ord p] that by (cases res) (simp add: serviced_def res_def [symmetric])
  then show ?thesis
    by (intro rebuild_extend [OF assms(2), of _ new])
      (use on_update(2,3) in \<open>auto simp: s' new_def select_update_def Let_def torn_short Cons_eq_append_conv split: if_splits\<close>)
qed

lemma rebuild_reachable:
  "bridge_reachable rejects_second_join track s \<Longrightarrow> bridge_dog_inv s \<and> rebuild_inv s"
proof (induction rule: reachable_invariant)
  case init
  have "bridge_dog_inv (NewBridgeDog track)" by (rule bridge_dog_inv_reachable [OF reachable_refl])
  then show ?case by (simp add: rebuild_inv_def NewBridgeDog_def NewWatchDog_def torn_short)
qed (auto intro: rebuild_step bridge_step_inv)

section \<open>Properties\<close>

lemma bridge_update_keys:
  assumes "Bridge_Update E ord track b = (None, b')" and "bridge_inv b"
  shows "dom (entrances b') = set (SrcSessionIdList track)"
    and "entrances b sid = Some i \<Longrightarrow> sid \<in> set (SrcSessionIdList track) \<Longrightarrow> entrances b' sid = Some i"
proof -
  let ?sids = "SrcSessionIdList track"
  define b1 where "b1 = b\<lparr>br_calls := br_calls b @ [UpdateProcedure track True]\<rparr>"
  define b2 where "b2 = foldl create_entrance b1 ?sids"
  have b': "b' = foldl (remove_entrance (set ?sids)) b2 (visit ord (dom (entrances b2)))"
    using assms(1) by (auto simp: Bridge_Update_def Let_def b1_def b2_def split: if_splits)
  have dom: "dom (entrances b2) = dom (entrances b) \<union> set ?sids" by (simp add: b2_def b1_def create_entrances)
  have fin: "finite (dom (entrances b2))" using assms(2) by (simp add: dom bridge_inv_def)
  then have entry: "entrances b' k = (if k \<in> dom (entrances b2) \<and> k \<notin> set ?sids then None else entrances b2 k)" for k
    by (simp add: b' remove_entrances)
  have "k \<in> dom (entrances b') \<longleftrightarrow> k \<in> set ?sids" for k
  proof (cases "k \<in> set ?sids")
    case True
    moreover from this have "k \<in> dom (entrances b2)" using dom by blast
    ultimately show ?thesis unfolding domIff entry by simp
  next
    case False
    then show ?thesis unfolding domIff entry by simp
  qed
  then show "dom (entrances b') = set ?sids" by blast
  show "entrances b' sid = Some i" if "entrances b sid = Some i" "sid \<in> set ?sids"
  proof -
    have "entrances b1 sid = Some i" using that(1) by (simp add: b1_def)
    from create_entrances_old [OF this, of ?sids] that(2) show ?thesis by (simp add: entry b2_def)
  qed
qed

text \<open>
  C20. Take any bridge that the watch dog of a processed track has made, whatever has happened, the
  watch dogs of its entrances included. A successful update leaves it with one entrance for exactly
  the listed sessions; the entrance's watch dog was started, has not ended, was not told to leave, and
  what it locks its doors with is its session. Every other watch dog the bridge ever started has
  been told to leave, and the entrances of sessions that stay listed keep their dogs.
\<close>

theorem bridge_update_entrances:
  assumes "bridge_reachable allowed track0 s" and "Bridge_Update E ord track (bd_bridges s d) = (None, b')"
  shows "dom (entrances b') = set (SrcSessionIdList track) \<and>
    (\<forall>sid i. entrances b' sid = Some i \<longrightarrow> i < length (br_dogs b') \<and>
       (pc (br_dogs b' ! i) = Top \<or> pc (br_dogs b' ! i) = Select) \<and> \<not> ctx_done (br_dogs b' ! i) \<and>
       param (br_dogs b' ! i) = sid \<and> updateCh (br_dogs b' ! i) = None) \<and>
    (\<forall>i < length (br_dogs b'). (\<forall>sid. entrances b' sid \<noteq> Some i) \<longrightarrow> ctx_done (br_dogs b' ! i)) \<and>
    (\<forall>sid i. entrances (bd_bridges s d) sid = Some i \<and> sid \<in> set (SrcSessionIdList track) \<longrightarrow> entrances b' sid = Some i)"
proof -
  have inv: "bridge_inv (bd_bridges s d)" using bridge_dog_inv_reachable [OF assms(1)] by (simp add: bridge_dog_inv_def)
  from Bridge_Update_inv(1) [OF assms(2) inv] have inv': "bridge_inv b'" .
  note watched = bridge_invD [OF inv', unfolded watching_def]
  have "ctx_done (br_dogs b' ! i)" if "i < length (br_dogs b')" "\<forall>sid. entrances b' sid \<noteq> Some i" for i
    using inv' that unfolding bridge_inv_def dogs_inv_def by blast
  with watched bridge_update_keys [OF assms(2) inv] show ?thesis by blast
qed

definition demo_bridge_env :: bridge_env where
  "demo_bridge_env = \<lparr>exit_join = (\<lambda>cs. \<not> list_ex (\<lambda>c. case c of Exit_Lock _ ok \<Rightarrow> ok | _ \<Rightarrow> False) cs),
     init_ok = (\<lambda>_. True), procedure_ok = (\<lambda>_. True)\<rparr>"

definition demo_track :: "string list \<Rightarrow> proceed_track" where
  "demo_track sids = \<lparr>DstSessionId = ''d'', Procedure = None, SrcSessionIdList = sids\<rparr>"

lemma demo_bridge_env_rejects: "rejects_second_join demo_bridge_env"
proof -
  have "list_ex (\<lambda>c. case c of Exit_Lock _ ok \<Rightarrow> ok | _ \<Rightarrow> False) cs" if "Exit_Lock sid True \<in> set cs" for sid cs
    using that by (force simp: list_ex_iff)
  then show ?thesis by (auto simp: rejects_second_join_def demo_bridge_env_def)
qed

theorem bridge_update_entrances_witness:
  "\<exists>b'. Bridge_Update demo_bridge_env ascending (demo_track [''s'', ''t'']) BridgeFactory_NewDoor = (None, b') \<and>
     dom (entrances b') = {''s'', ''t''} \<and>
     (\<exists>i. entrances b' ''t'' = Some i \<and> pc (br_dogs b' ! i) \<noteq> NotStarted \<and> param (br_dogs b' ! i) = ''t'')"
proof -
  obtain b' where b': "Bridge_Update demo_bridge_env ascending (demo_track [''s'', ''t'']) BridgeFactory_NewDoor = (None, b')"
    by (simp add: Bridge_Update_def demo_bridge_env_def BridgeFactory_NewDoor_def Let_def)
  have new: "bd_bridges (NewBridgeDog (demo_track [''s''])) 0 = BridgeFactory_NewDoor" by (simp add: NewBridgeDog_def)
  note update = bridge_update_entrances [OF reachable_refl, of demo_bridge_env ascending "demo_track [''s'', ''t'']"
      "demo_track [''s'']" 0 b', unfolded new, OF b']
  then have dom: "dom (entrances b') = {''s'', ''t''}" by (simp add: demo_track_def)
  then obtain i where "entrances b' ''t'' = Some i" by blast
  with update dom b' show ?thesis by (metis pc.distinct(1,3))
qed

lemma demo_bridge_run:
  obtains s where "bridge_reachable rejects_second_join (demo_track [''s'']) s" "door (bd_dog s) = None" "pc (bd_dog s) = Top"
    "calls (bd_dog s) = [NewDoor 0, Lock 0 (demo_track [''s'']) True, Update_Door 0 (demo_track [''t'']) True,
       Lock 0 (demo_track [''t'']) False, Remove 0]"
    "length (br_dogs (bd_bridges s 0)) = 2"
proof -
  let ?step = "bridge_step rejects_second_join"
  define a where "a = (NewBridgeDog (demo_track [''s'']))\<lparr>bd_dog := Watch (demo_track [''s'']) (bd_dog (NewBridgeDog (demo_track [''s''])))\<rparr>"
  define b where "b = bridge_buy True a"
  define c where "c = bridge_lock demo_bridge_env ascending 0 b"
  define d where "d = c\<lparr>bd_dog := WatchDog_Update (demo_track [''t'']) (bd_dog c)\<rparr>"
  define e where "e = bridge_update demo_bridge_env ascending 0 (demo_track [''t'']) d"
  define f where "f = bridge_lock demo_bridge_env ascending 0 e"
  note ops = NewBridgeDog_def NewWatchDog_def Watch_def bridge_buy_def buy_door_def bridge_lock_def lock_door_def
    Bridge_Lock_def Bridge_Update_def serviced_def demo_bridge_env_def BridgeFactory_NewDoor_def demo_track_def
    create_entrance_def remove_entrance_def WatchDog_Update_def bridge_update_def select_update_def Let_def
  have av: "pc (bd_dog a) = Top" "door (bd_dog a) = None" by (simp_all add: a_def ops)
  have bv: "pc (bd_dog b) = Top" "door (bd_dog b) = Some 0" by (simp_all add: b_def a_def ops)
  have cv: "pc (bd_dog c) = Select" "door (bd_dog c) = Some 0" by (simp_all add: c_def b_def a_def ops)
  have dv: "pc (bd_dog d) = Select" "door (bd_dog d) = Some 0" "updateCh (bd_dog d) = Some (demo_track [''t''])"
    by (simp_all add: d_def cv WatchDog_Update_def)
  have ev: "pc (bd_dog e) = Top" "door (bd_dog e) = Some 0" by (simp_all add: e_def d_def c_def b_def a_def ops)
  have "?step (NewBridgeDog (demo_track [''s''])) a" unfolding a_def by (rule bridge_step.watch)
  then have "bridge_reachable rejects_second_join (demo_track [''s'']) a" by (rule reachable_first)
  moreover have "?step a b" unfolding b_def using av by (rule bridge_step.buy)
  ultimately have "bridge_reachable rejects_second_join (demo_track [''s'']) b" by (rule reachable_step)
  moreover have "?step b c" unfolding c_def using bv demo_bridge_env_rejects by (rule bridge_step.lock)
  ultimately have "bridge_reachable rejects_second_join (demo_track [''s'']) c" by (rule reachable_step)
  moreover have "?step c d" unfolding d_def by (rule bridge_step.update)
  ultimately have "bridge_reachable rejects_second_join (demo_track [''s'']) d" by (rule reachable_step)
  moreover have "?step d e" unfolding e_def using dv demo_bridge_env_rejects by (rule bridge_step.on_update)
  ultimately have "bridge_reachable rejects_second_join (demo_track [''s'']) e" by (rule reachable_step)
  moreover have "?step e f" unfolding f_def using ev demo_bridge_env_rejects by (rule bridge_step.lock)
  ultimately have r: "bridge_reachable rejects_second_join (demo_track [''s'']) f" by (rule reachable_step)
  show ?thesis
    by (rule that [OF r]; simp add: f_def e_def d_def c_def b_def a_def ops Bridge_Remove_def exit_or_continue_def)
qed

text \<open>
  No entrance survives its bridge: at every moment all watch dogs of every bridge but the one
  behind the current door have been told to leave, and once the watch dog of the track has ended,
  those of all its bridges.
\<close>

theorem bridge_dog_cleans_up:
  assumes "bridge_reachable allowed track s"
  shows "(\<forall>d. door (bd_dog s) \<noteq> Some d \<longrightarrow> (\<forall>w \<in> set (br_dogs (bd_bridges s d)). ctx_done w)) \<and>
    (pc (bd_dog s) = Exited \<longrightarrow> (\<forall>d. \<forall>w \<in> set (br_dogs (bd_bridges s d)). ctx_done w))"
  using bridge_dog_inv_reachable [OF assms] by (auto simp: bridge_dog_inv_def retired_def)

theorem bridge_dog_cleans_up_witness:
  "\<exists>s. bridge_reachable rejects_second_join (demo_track [''s'']) s \<and> length (br_dogs (bd_bridges s 0)) = 2 \<and>
     ctx_done (br_dogs (bd_bridges s 0) ! 0) \<and> ctx_done (br_dogs (bd_bridges s 0) ! 1)"
proof -
  obtain s where s: "bridge_reachable rejects_second_join (demo_track [''s'']) s" "door (bd_dog s) = None"
      "length (br_dogs (bd_bridges s 0)) = 2"
    using demo_bridge_run by metis
  have "ctx_done (br_dogs (bd_bridges s 0) ! i)" if "i < 2" for i
    using bridge_dog_cleans_up [OF s(1)] that s(2,3) by (metis nth_mem option.distinct(1))
  with s(1,3) show ?thesis by fastforce
qed

text \<open>
  Every successful update tears the bridge down. ion-sfu rejects a second join of a peer, and the
  watch dog locks the door again after an update; so the lock fails, the bridge is removed with all
  its entrances, and another one is bought.
\<close>

theorem bridge_update_rebuilds:
  assumes "bridge_reachable rejects_second_join track s"
    and "calls (bd_dog s) = xs @ Update_Door d p True # ys"
  shows "ys = [] \<or> (\<exists>q zs. ys = Lock d q False # Remove d # zs)"
  using rebuild_reachable [OF assms(1)] assms(2) unfolding rebuild_inv_def torn_def by blast

theorem bridge_update_rebuilds_witness:
  "\<exists>s zs. bridge_reachable rejects_second_join (demo_track [''s'']) s \<and>
     calls (bd_dog s) = [NewDoor 0, Lock 0 (demo_track [''s'']) True, Update_Door 0 (demo_track [''t'']) True,
       Lock 0 (demo_track [''t'']) False, Remove 0] @ zs"
proof -
  obtain s where s: "bridge_reachable rejects_second_join (demo_track [''s'']) s"
      "calls (bd_dog s) = [NewDoor 0, Lock 0 (demo_track [''s'']) True, Update_Door 0 (demo_track [''t'']) True,
       Lock 0 (demo_track [''t'']) False, Remove 0]"
    using demo_bridge_run by metis
  then have "calls (bd_dog s) = [NewDoor 0, Lock 0 (demo_track [''s'']) True] @ Update_Door 0 (demo_track [''t'']) True #
      [Lock 0 (demo_track [''t'']) False, Remove 0]"
    by simp
  from bridge_update_rebuilds [OF s(1) this] s show ?thesis by auto
qed

end
