(* ===== verification/Bridge_Peer.thy ===== *)
theory Bridge_Peer
  imports RTC_Messages
begin

text \<open>
  The doors inside a bridge (\<open>common.go\<close>, \<open>bridgepub.go\<close>, \<open>bridgesub.go\<close>, \<open>entrance.go\<close>,
  \<open>engine.go\<close> of \<open>pkg/sxu/bridge\<close>): a \<open>BridgePeer\<close> connects a local PeerConnection with a peer of the
  SFU in the same process. The PeerConnection and the SFU peer are interfaces: every call on them is
  recorded, and whether it succeeds is a function of the calls made so far (\<open>bp_env\<close>).

  The callback for the candidates of the SFU runs in another goroutine than the door's own work, and
  the two share the stored candidates without a lock. So both are lists of statements here, and a
  step executes one statement of one of them. A read or a write of the stored candidates is one
  statement; the SFU calls the callback for one candidate after the other.
\<close>

section \<open>State\<close>

datatype 'c bp_op =
    AddICECandidate 'c
  | CreateOffer
  | CreateAnswer
  | SetLocalDescription
  | SetRemoteDescription
  | PC_AddTrack
  | PC_RemoveTrack
  | PC_Close
  | Peer_Join string bool bool bool
  | Peer_Answer
  | Peer_SetRemoteDescription
  | Peer_Trickle 'c int
  | Peer_Close
  | AddInTrack string

type_synonym 'c bp_log = "('c bp_op \<times> bool) list"

text \<open>\<open>has_remote\<close> says whether \<open>CurrentRemoteDescription\<close> is set.\<close>

record 'c bp_env =
  succeeds :: "'c bp_log \<Rightarrow> 'c bp_op \<Rightarrow> bool"
  has_remote :: "'c bp_log \<Rightarrow> bool"

text \<open>
  \<open>listening\<close> is the target of the installed \<open>OnIceCandidate\<close> callback, \<open>pcCand\<close> the variable it
  captures, \<open>breaks\<close> counts the calls of \<open>OnBroken\<close>, \<open>answering\<close> the goroutines that still have to hand
  an answer to the SFU peer, \<open>road_sid\<close> the session whose tracks go to the processor. \<open>reported\<close>, all the
  candidates that the SFU has reported for the target, is a history variable.
\<close>

record 'c BridgePeer =
  listening :: "int option"
  pcCand :: "'c list"
  answering :: nat
  road_sid :: "string option"
  breaks :: nat
  reported :: "'c list"
  bp_calls :: "'c bp_log"

definition NewBridgePeer :: "'c BridgePeer" where
  "NewBridgePeer = \<lparr>listening = None, pcCand = [], answering = 0, road_sid = None, breaks = 0, reported = [], bp_calls = []\<rparr>"

definition call_op :: "'c bp_env \<Rightarrow> 'c bp_op \<Rightarrow> 'c BridgePeer \<Rightarrow> bool \<times> 'c BridgePeer" where
  "call_op E x b = (let ok = succeeds E (bp_calls b) x in (ok, b\<lparr>bp_calls := bp_calls b @ [(x, ok)]\<rparr>))"

definition break :: "'c BridgePeer \<Rightarrow> 'c BridgePeer" where
  "break b = b\<lparr>breaks := Suc (breaks b)\<rparr>"

section \<open>Statements\<close>

text \<open>
  \<open>Try\<close> is a call whose error leaves the function, through \<open>OnBroken\<close> or as its result. Of the others,
  \<open>Check_Remote\<close> is the \<open>if\<close> of the callback, \<open>Take_Stored\<close> is \<open>tpcCand := pcCand\<close>, \<open>Clear_Stored\<close> sets
  \<open>pcCand\<close> to the empty list, \<open>Append_New\<close> appends to the local list, \<open>Store_Taken\<close> assigns it to
  \<open>pcCand\<close>, \<open>Add_Taken\<close> is one round of the loop over it, and \<open>Go_Answer\<close> starts the last goroutine of
  an offer.
\<close>

datatype on_error = Calls_OnBroken | Returns_Error

datatype 'c statement =
    Try "'c bp_op" on_error
  | Check_Remote 'c
  | Take_Stored
  | Clear_Stored
  | Append_New 'c
  | Store_Taken
  | Add_Taken
  | Go_Answer

text \<open>A goroutine: the statements it still has to execute, and \<open>tpcCand\<close>.\<close>

record 'c routine =
  code :: "'c statement list"
  tpcCand :: "'c list"

definition start :: "'c statement list \<Rightarrow> 'c routine" where
  "start xs = \<lparr>code = xs, tpcCand = []\<rparr>"

section \<open>Candidates\<close>

definition addCandidate :: "'c statement list" where
  "addCandidate = [Take_Stored, Clear_Stored, Add_Taken]"

text \<open>The branches of the callback: append to the stored candidates, or take them and add them all.\<close>

definition store_candidate :: "'c \<Rightarrow> 'c statement list" where
  "store_candidate c = [Take_Stored, Append_New c, Store_Taken]"

definition flush_candidates :: "'c \<Rightarrow> 'c statement list" where
  "flush_candidates c = [Take_Stored, Clear_Stored, Append_New c, Add_Taken]"

text \<open>One statement. The loop is left at its first error, and what follows the loop goes on.\<close>

definition exec :: "'c bp_env \<Rightarrow> 'c routine \<Rightarrow> 'c BridgePeer \<Rightarrow> 'c routine \<times> 'c BridgePeer" where
  "exec E r b =
     (case code r of
        [] \<Rightarrow> (r, b)
      | s # rest \<Rightarrow>
          (case s of
             Try x e \<Rightarrow>
               (case call_op E x b of
                  (True, b1) \<Rightarrow> (r\<lparr>code := rest\<rparr>, b1)
                | (False, b1) \<Rightarrow> (r\<lparr>code := []\<rparr>, if e = Calls_OnBroken then break b1 else b1))
           | Check_Remote c \<Rightarrow>
               (r\<lparr>code := (if has_remote E (bp_calls b) then flush_candidates c else store_candidate c) @ rest\<rparr>, b)
           | Take_Stored \<Rightarrow> (r\<lparr>code := rest, tpcCand := pcCand b\<rparr>, b)
           | Clear_Stored \<Rightarrow> (r\<lparr>code := rest\<rparr>, b\<lparr>pcCand := []\<rparr>)
           | Append_New c \<Rightarrow> (r\<lparr>code := rest, tpcCand := tpcCand r @ [c]\<rparr>, b)
           | Store_Taken \<Rightarrow> (r\<lparr>code := rest\<rparr>, b\<lparr>pcCand := tpcCand r\<rparr>)
           | Add_Taken \<Rightarrow>
               (case tpcCand r of
                  [] \<Rightarrow> (r\<lparr>code := rest\<rparr>, b)
                | c # cs \<Rightarrow>
                    (case call_op E (AddICECandidate c) b of
                       (True, b1) \<Rightarrow> (r\<lparr>tpcCand := cs\<rparr>, b1)
                     | (False, b1) \<Rightarrow> (r\<lparr>code := rest, tpcCand := []\<rparr>, break b1)))
           | Go_Answer \<Rightarrow> (r\<lparr>code := rest\<rparr>, b\<lparr>answering := Suc (answering b)\<rparr>)))"

definition pc_OnICECandidate :: "'c bp_env \<Rightarrow> target \<Rightarrow> 'c option \<Rightarrow> 'c BridgePeer \<Rightarrow> 'c BridgePeer" where
  "pc_OnICECandidate E tgt candidate b =
     (case candidate of
        None \<Rightarrow> b
      | Some c \<Rightarrow> (case call_op E (Peer_Trickle c (sint tgt)) b of (True, b1) \<Rightarrow> b1 | (False, b1) \<Rightarrow> break b1))"

definition setOnIceCandidate :: "target \<Rightarrow> 'c BridgePeer \<Rightarrow> 'c BridgePeer" where
  "setOnIceCandidate tgt b = b\<lparr>listening := Some (sint tgt), pcCand := []\<rparr>"

definition BridgePeer_Remove :: "'c bp_env \<Rightarrow> 'c BridgePeer \<Rightarrow> 'c BridgePeer" where
  "BridgePeer_Remove E b = snd (call_op E PC_Close (snd (call_op E Peer_Close b)))"

section \<open>Publisher\<close>

text \<open>What \<open>Lock\<close> does after it has set the callbacks, and the callback for a negotiation.\<close>

definition Publisher_Lock :: "string \<Rightarrow> 'c statement list" where
  "Publisher_Lock sid = Try (Peer_Join sid False True False) Returns_Error # addCandidate"

definition Publisher_onNegotiationNeeded :: "'c statement list" where
  "Publisher_onNegotiationNeeded =
     map (\<lambda>x. Try x Calls_OnBroken) [CreateOffer, SetLocalDescription, Peer_Answer, SetRemoteDescription]"

definition Publisher_AddTrack :: "'c bp_env \<Rightarrow> 'c BridgePeer \<Rightarrow> bool \<times> 'c BridgePeer" where
  "Publisher_AddTrack E b = call_op E PC_AddTrack b"

definition Publisher_RemoveTrack :: "'c bp_env \<Rightarrow> 'c BridgePeer \<Rightarrow> bool \<times> 'c BridgePeer" where
  "Publisher_RemoveTrack E b = call_op E PC_RemoveTrack b"

definition Publisher_Repair :: "string \<Rightarrow> 'c BridgePeer \<Rightarrow> string option \<times> 'c BridgePeer" where
  "Publisher_Repair sid b = (Some ''Publisher cannot be repaired '', b)"

definition Publisher_Update :: "string \<Rightarrow> 'c BridgePeer \<Rightarrow> string option \<times> 'c BridgePeer" where
  "Publisher_Update sid b = (Some ''Publisher cannot be updated '', b)"

section \<open>Subscriber and entrance\<close>

definition Subscriber_Lock :: "string \<Rightarrow> 'c statement list" where
  "Subscriber_Lock sid = [Try (Peer_Join sid False False False) Returns_Error]"

text \<open>The handler of an offer. Its last call runs in a goroutine of its own (\<open>Subscriber_answer\<close>).\<close>

definition Subscriber_OnOffer :: "'c statement list" where
  "Subscriber_OnOffer =
     Try SetRemoteDescription Calls_OnBroken # addCandidate @
     [Try CreateAnswer Calls_OnBroken, Try SetLocalDescription Calls_OnBroken, Go_Answer]"

definition Subscriber_answer :: "'c bp_env \<Rightarrow> 'c BridgePeer \<Rightarrow> 'c BridgePeer" where
  "Subscriber_answer E b =
     (case call_op E Peer_SetRemoteDescription (b\<lparr>answering := answering b - 1\<rparr>) of
        (True, b1) \<Rightarrow> b1
      | (False, b1) \<Rightarrow> break b1)"

definition Subscriber_Repair :: "string \<Rightarrow> 'c BridgePeer \<Rightarrow> string option \<times> 'c BridgePeer" where
  "Subscriber_Repair sid b = (Some ''Subscriber cannot be repaired '', b)"

definition Subscriber_Update :: "string \<Rightarrow> 'c BridgePeer \<Rightarrow> string option \<times> 'c BridgePeer" where
  "Subscriber_Update sid b = (Some ''Subscriber cannot be updated '', b)"

definition Entrance_OnTrack :: "'c bp_env \<Rightarrow> 'c BridgePeer \<Rightarrow> 'c BridgePeer" where
  "Entrance_OnTrack E b =
     (case road_sid b of
        None \<Rightarrow> b
      | Some sid \<Rightarrow> (case call_op E (AddInTrack sid) b of (True, b1) \<Rightarrow> b1 | (False, b1) \<Rightarrow> break b1))"

definition Entrance_Repair :: "string \<Rightarrow> 'c BridgePeer \<Rightarrow> string option \<times> 'c BridgePeer" where
  "Entrance_Repair sid b = (Some ''Entrance cannot be repaired '', b)"

definition Entrance_Update :: "string \<Rightarrow> 'c BridgePeer \<Rightarrow> string option \<times> 'c BridgePeer" where
  "Entrance_Update sid b = (Some ''Entrance cannot be updated '', b)"

definition Entrance_Remove :: "'c bp_env \<Rightarrow> 'c BridgePeer \<Rightarrow> 'c BridgePeer" where
  "Entrance_Remove E b = BridgePeer_Remove E b"

section \<open>Doors and their goroutines\<close>

text \<open>
  A door with the goroutine that does its work (\<open>Lock\<close>, a negotiation or an offer) and the one that
  calls it back with candidates. \<open>overlapped\<close> is a history variable: it says whether one of them ever
  touched the stored candidates while the other was between its \<open>Take_Stored\<close> and the end of its
  loop or its store.
\<close>

record 'c door_run =
  bp :: "'c BridgePeer"
  work :: "'c routine"
  callback :: "'c routine"
  overlapped :: bool

definition new_run :: "'c door_run" where
  "new_run = \<lparr>bp = NewBridgePeer, work = start [], callback = start [], overlapped = False\<rparr>"

fun on_store :: "'c statement \<Rightarrow> bool" where
  "on_store (Try x e) = False"
| "on_store (Check_Remote c) = False"
| "on_store Go_Answer = False"
| "on_store _ = True"

definition busy :: "'c routine \<Rightarrow> bool" where
  "busy r \<longleftrightarrow> (case code r of [] \<Rightarrow> False | s # rest \<Rightarrow> on_store s \<and> s \<noteq> Take_Stored)"

definition touches :: "'c routine \<Rightarrow> bool" where
  "touches r \<longleftrightarrow> (case code r of [] \<Rightarrow> False | s # rest \<Rightarrow> on_store s)"

definition run_work :: "'c bp_env \<Rightarrow> 'c door_run \<Rightarrow> 'c door_run" where
  "run_work E s =
     (case exec E (work s) (bp s) of
        (r, b) \<Rightarrow> s\<lparr>bp := b, work := r, overlapped := overlapped s \<or> touches (work s) \<and> busy (callback s)\<rparr>)"

definition run_callback :: "'c bp_env \<Rightarrow> 'c door_run \<Rightarrow> 'c door_run" where
  "run_callback E s =
     (case exec E (callback s) (bp s) of
        (r, b) \<Rightarrow> s\<lparr>bp := b, callback := r, overlapped := overlapped s \<or> touches (callback s) \<and> busy (work s)\<rparr>)"

definition peer_OnIceCandidate :: "'c \<Rightarrow> int \<Rightarrow> 'c door_run \<Rightarrow> 'c door_run" where
  "peer_OnIceCandidate c t s =
     (if listening (bp s) \<noteq> Some t then s
      else s\<lparr>bp := (bp s)\<lparr>reported := reported (bp s) @ [c]\<rparr>, callback := start [Check_Remote c]\<rparr>)"

text \<open>
  What happens to a door after \<open>NewDoor\<close>: it is locked once, then it negotiates or gets offers, and its
  callbacks are called at any time; it can be removed at any time. A second \<open>Lock\<close> of the publisher,
  whose join ion-sfu rejects, belongs to \<open>Bridge\<close>.
\<close>

datatype 'c door_event =
    Locks string
  | Negotiates
  | Works
  | Reports 'c int
  | Calls_Back
  | Gathers "'c option"
  | Answers
  | Gets_Track
  | Drops_Track
  | Is_Removed

definition publisher_event :: "'c bp_env \<Rightarrow> 'c door_event \<Rightarrow> 'c door_run \<Rightarrow> 'c door_run option" where
  "publisher_event E e s =
     (case e of
        Locks sid \<Rightarrow>
          (if listening (bp s) = None \<and> code (work s) = [] \<and> code (callback s) = []
           then Some (s\<lparr>bp := setOnIceCandidate Target_PUBLISHER (bp s), work := start (Publisher_Lock sid)\<rparr>) else None)
      | Negotiates \<Rightarrow>
          (if listening (bp s) \<noteq> None \<and> code (work s) = []
           then Some (s\<lparr>work := start Publisher_onNegotiationNeeded\<rparr>) else None)
      | Works \<Rightarrow> Some (run_work E s)
      | Reports c t \<Rightarrow> (if code (callback s) = [] then Some (peer_OnIceCandidate c t s) else None)
      | Calls_Back \<Rightarrow> Some (run_callback E s)
      | Gathers c \<Rightarrow>
          (if listening (bp s) \<noteq> None then Some (s\<lparr>bp := pc_OnICECandidate E Target_PUBLISHER c (bp s)\<rparr>) else None)
      | Answers \<Rightarrow> None
      | Gets_Track \<Rightarrow> Some (s\<lparr>bp := snd (Publisher_AddTrack E (bp s))\<rparr>)
      | Drops_Track \<Rightarrow> Some (s\<lparr>bp := snd (Publisher_RemoveTrack E (bp s))\<rparr>)
      | Is_Removed \<Rightarrow> Some (s\<lparr>bp := BridgePeer_Remove E (bp s)\<rparr>))"

text \<open>An entrance passes its session on to its processor with every track.\<close>

definition Entrance_Lock :: "string \<Rightarrow> 'c door_run \<Rightarrow> 'c door_run" where
  "Entrance_Lock sid s =
     s\<lparr>bp := setOnIceCandidate Target_SUBSCRIBER ((bp s)\<lparr>road_sid := Some sid\<rparr>), work := start (Subscriber_Lock sid)\<rparr>"

definition entrance_event :: "'c bp_env \<Rightarrow> 'c door_event \<Rightarrow> 'c door_run \<Rightarrow> 'c door_run option" where
  "entrance_event E e s =
     (case e of
        Locks sid \<Rightarrow>
          (if listening (bp s) = None \<and> code (work s) = [] \<and> code (callback s) = [] then Some (Entrance_Lock sid s) else None)
      | Negotiates \<Rightarrow>
          (if listening (bp s) \<noteq> None \<and> code (work s) = [] then Some (s\<lparr>work := start Subscriber_OnOffer\<rparr>) else None)
      | Works \<Rightarrow> Some (run_work E s)
      | Reports c t \<Rightarrow> (if code (callback s) = [] then Some (peer_OnIceCandidate c t s) else None)
      | Calls_Back \<Rightarrow> Some (run_callback E s)
      | Gathers c \<Rightarrow>
          (if listening (bp s) \<noteq> None then Some (s\<lparr>bp := pc_OnICECandidate E Target_SUBSCRIBER c (bp s)\<rparr>) else None)
      | Answers \<Rightarrow> (if answering (bp s) > 0 then Some (s\<lparr>bp := Subscriber_answer E (bp s)\<rparr>) else None)
      | Gets_Track \<Rightarrow> Some (s\<lparr>bp := Entrance_OnTrack E (bp s)\<rparr>)
      | Drops_Track \<Rightarrow> None
      | Is_Removed \<Rightarrow> Some (s\<lparr>bp := Entrance_Remove E (bp s)\<rparr>))"

definition publisher_door :: "'c bp_env \<Rightarrow> 'c door_run \<Rightarrow> 'c door_run \<Rightarrow> bool" where
  "publisher_door E s s' \<longleftrightarrow> (\<exists>e. publisher_event E e s = Some s')"

definition entrance_door :: "'c bp_env \<Rightarrow> 'c door_run \<Rightarrow> 'c door_run \<Rightarrow> bool" where
  "entrance_door E s s' \<longleftrightarrow> (\<exists>e. entrance_event E e s = Some s')"

text \<open>A sequence of events.\<close>

fun happens :: "('e \<Rightarrow> 's \<Rightarrow> 's option) \<Rightarrow> 'e list \<Rightarrow> 's \<Rightarrow> 's option" where
  "happens event [] s = Some s"
| "happens event (e # es) s = (case event e s of None \<Rightarrow> None | Some s' \<Rightarrow> happens event es s')"

lemma happens_reachable:
  assumes "happens event es s = Some s'" "reachable (\<lambda>x y. \<exists>e. event e x = Some y) s0 s"
  shows "reachable (\<lambda>x y. \<exists>e. event e x = Some y) s0 s'"
  using assms
proof (induction es arbitrary: s)
  case (Cons e es)
  then obtain t where t: "event e s = Some t" "happens event es t = Some s'" by (auto split: option.splits)
  have "reachable (\<lambda>x y. \<exists>e. event e x = Some y) s0 t"
    by (rule reachable_step [OF Cons.prems(2)]) (use t(1) in blast)
  with Cons.IH t(2) show ?case by blast
qed simp

section \<open>Media engines\<close>

text \<open>
  The media engine of a subscriber's PeerConnection: the default codecs, the codecs of ion-sfu and
  the header extensions, registered in this order; the first error ends it. Whether a registration
  succeeds is \<open>reg\<close>, a function of those before it.
\<close>

datatype codec_type = RTPCodecTypeAudio | RTPCodecTypeVideo

record codec =
  MimeType :: string
  ClockRate :: nat
  Channels :: nat
  SDPFmtpLine :: string
  RTCPFeedback :: "(string \<times> string) list"
  PayloadType :: nat

datatype registration =
    RegisterDefaultCodecs
  | RegisterCodec codec codec_type
  | RegisterHeaderExtension string codec_type

definition videoRTCPFeedback :: "(string \<times> string) list" where
  "videoRTCPFeedback = [(''goog-remb'', []), (''ccm'', ''fir''), (''nack'', []), (''nack'', ''pli'')]"

definition video_codec :: "string \<Rightarrow> string \<Rightarrow> nat \<Rightarrow> codec" where
  "video_codec mime fmtp payload =
     \<lparr>MimeType = mime, ClockRate = 90000, Channels = 0, SDPFmtpLine = fmtp, RTCPFeedback = videoRTCPFeedback,
      PayloadType = payload\<rparr>"

definition opus_codec :: codec where
  "opus_codec = \<lparr>MimeType = ''audio/opus'', ClockRate = 48000, Channels = 2, SDPFmtpLine = ''minptime=10;useinbandfec=1'',
     RTCPFeedback = [], PayloadType = 111\<rparr>"

definition video_codecs :: "codec list" where
  "video_codecs =
     [video_codec ''video/VP8'' [] 96,
      video_codec ''video/VP9'' ''profile-id=0'' 98,
      video_codec ''video/VP9'' ''profile-id=1'' 100,
      video_codec ''video/H264'' ''level-asymmetry-allowed=1;packetization-mode=1;profile-level-id=42001f'' 102,
      video_codec ''video/H264'' ''level-asymmetry-allowed=1;packetization-mode=0;profile-level-id=42001f'' 127,
      video_codec ''video/H264'' ''level-asymmetry-allowed=1;packetization-mode=1;profile-level-id=42e01f'' 125,
      video_codec ''video/H264'' ''level-asymmetry-allowed=1;packetization-mode=0;profile-level-id=42e01f'' 108,
      video_codec ''video/H264'' ''level-asymmetry-allowed=1;packetization-mode=1;profile-level-id=640032'' 123]"

text \<open>The URIs of the extensions that \<open>pion/sdp\<close> names are parameters.\<close>

record sdp_uris =
  SDESMidURI :: string
  SDESRTPStreamIDURI :: string
  TransportCCURI :: string
  AudioLevelURI :: string

definition publisher_registrations :: "sdp_uris \<Rightarrow> registration list" where
  "publisher_registrations U =
     [RegisterDefaultCodecs, RegisterCodec opus_codec RTPCodecTypeAudio] @
     map (\<lambda>c. RegisterCodec c RTPCodecTypeVideo) video_codecs @
     map (\<lambda>uri. RegisterHeaderExtension uri RTPCodecTypeVideo)
       [SDESMidURI U, SDESRTPStreamIDURI U, TransportCCURI U, ''urn:ietf:params:rtp-hdrext:framemarking''] @
     map (\<lambda>uri. RegisterHeaderExtension uri RTPCodecTypeAudio) [SDESMidURI U, SDESRTPStreamIDURI U, AudioLevelURI U]"

fun register_all :: "(registration list \<Rightarrow> registration \<Rightarrow> bool) \<Rightarrow> registration list \<Rightarrow> registration list
    \<Rightarrow> registration list option" where
  "register_all reg me [] = Some me"
| "register_all reg me (r # rs) = (if reg me r then register_all reg (me @ [r]) rs else None)"

definition getPublisherMediaEngine :: "(registration list \<Rightarrow> registration \<Rightarrow> bool) \<Rightarrow> sdp_uris \<Rightarrow> registration list option" where
  "getPublisherMediaEngine reg U = register_all reg [] (publisher_registrations U)"

definition getSubscriberMediaEngine :: "(registration list \<Rightarrow> registration \<Rightarrow> bool) \<Rightarrow> registration list option" where
  "getSubscriberMediaEngine reg = register_all reg [] [RegisterDefaultCodecs]"

text \<open>
  The factories: a new door needs a media engine and a PeerConnection over it (\<open>conn\<close>). The
  publisher of a bridge uses the engine named after the SFU's subscriber, and the other way round.
\<close>

definition PublisherFactory_NewDoor :: "(registration list \<Rightarrow> registration \<Rightarrow> bool) \<Rightarrow> (registration list \<Rightarrow> bool)
    \<Rightarrow> 'c BridgePeer option" where
  "PublisherFactory_NewDoor reg conn =
     (case getSubscriberMediaEngine reg of
        None \<Rightarrow> None
      | Some me \<Rightarrow> if conn me then Some NewBridgePeer else None)"

definition SubscriberFactory_NewDoor :: "(registration list \<Rightarrow> registration \<Rightarrow> bool) \<Rightarrow> sdp_uris
    \<Rightarrow> (registration list \<Rightarrow> bool) \<Rightarrow> 'c BridgePeer option" where
  "SubscriberFactory_NewDoor reg U conn =
     (case getPublisherMediaEngine reg U of
        None \<Rightarrow> None
      | Some me \<Rightarrow> if conn me then Some NewBridgePeer else None)"

definition EntranceFactory_NewDoor :: "(registration list \<Rightarrow> registration \<Rightarrow> bool) \<Rightarrow> sdp_uris
    \<Rightarrow> (registration list \<Rightarrow> bool) \<Rightarrow> 'c BridgePeer option" where
  "EntranceFactory_NewDoor reg U conn =
     (case SubscriberFactory_NewDoor reg U conn of None \<Rightarrow> None | Some sub \<Rightarrow> Some sub)"

text \<open>The two tables of codecs do not use a payload type twice.\<close>

lemma payload_types_distinct: "distinct (map PayloadType (opus_codec # video_codecs))"
  by (simp add: opus_codec_def video_codecs_def video_codec_def)

end
