(* ===== verification/Bridge_Peer_Properties.thy ===== *)
theory Bridge_Peer_Properties
  imports Bridge_Peer
begin

text \<open>
  What the doors inside a bridge do with ICE candidates: order and completeness as long as the two
  goroutines do not overlap, what an overlap loses, and which the publisher strands.
\<close>

section \<open>Where the candidates are\<close>

text \<open>The candidates that were given to the PeerConnection, the failed ones too.\<close>

definition added :: "'c BridgePeer \<Rightarrow> 'c list" where
  "added b = concat (map (\<lambda>x. case fst x of AddICECandidate c \<Rightarrow> [c] | _ \<Rightarrow> []) (bp_calls b))"

text \<open>Those a goroutine has taken out of the store, and the new one that is not yet in it.\<close>

definition in_hand :: "'c routine \<Rightarrow> 'c list" where
  "in_hand r =
     (case code r of
        Add_Taken # rest \<Rightarrow> tpcCand r
      | Append_New c # Add_Taken # rest \<Rightarrow> tpcCand r @ [c]
      | _ \<Rightarrow> [])"

text \<open>The codes of the callback, with the candidate that is not yet stored or taken.\<close>

inductive calling :: "'c BridgePeer \<Rightarrow> 'c routine \<Rightarrow> 'c list \<Rightarrow> bool" for b where
  rest: "code r = [] \<Longrightarrow> calling b r []"
| check: "code r = [Check_Remote c] \<Longrightarrow> calling b r [c]"
| store: "code r = store_candidate c \<Longrightarrow> calling b r [c]"
| append: "code r = [Append_New c, Store_Taken] \<Longrightarrow> tpcCand r = pcCand b \<Longrightarrow> calling b r [c]"
| assign: "code r = [Store_Taken] \<Longrightarrow> tpcCand r = pcCand b @ [c] \<Longrightarrow> calling b r [c]"
| flush: "code r = flush_candidates c \<Longrightarrow> calling b r [c]"
| clear: "code r = [Clear_Stored, Append_New c, Add_Taken] \<Longrightarrow> tpcCand r = pcCand b \<Longrightarrow> calling b r [c]"
| cleared: "code r = [Append_New c, Add_Taken] \<Longrightarrow> pcCand b = [] \<Longrightarrow> calling b r []"
| adding: "code r = [Add_Taken] \<Longrightarrow> pcCand b = [] \<Longrightarrow> calling b r []"

text \<open>The codes of the other goroutine: whenever it takes the store, it clears it and adds what it took.\<close>

definition fresh :: "'c statement list \<Rightarrow> bool" where
  "fresh xs \<longleftrightarrow> (case xs of [] \<Rightarrow> True | x # rest \<Rightarrow> \<not> on_store x \<or> x = Take_Stored)"

fun working :: "'c statement list \<Rightarrow> bool" where
  "working [] = True"
| "working (Try x e # xs) = ((\<forall>c. x \<noteq> AddICECandidate c) \<and> fresh xs \<and> working xs)"
| "working (Go_Answer # xs) = (fresh xs \<and> working xs)"
| "working (Take_Stored # xs) = (take 2 xs = [Clear_Stored, Add_Taken] \<and> working xs)"
| "working (Clear_Stored # xs) = (take 1 xs = [Add_Taken] \<and> working xs)"
| "working (Add_Taken # xs) = (fresh xs \<and> working xs)"
| "working (Check_Remote c # xs) = False"
| "working (Append_New c # xs) = False"
| "working (Store_Taken # xs) = False"

definition work_ok :: "'c BridgePeer \<Rightarrow> 'c routine \<Rightarrow> bool" where
  "work_ok b r \<longleftrightarrow> working (code r) \<and> (\<forall>xs. code r = Clear_Stored # xs \<longrightarrow> tpcCand r = pcCand b)"

text \<open>In order: added, taken by one of the goroutines, stored, and the newest in the callback's hand.\<close>

definition in_order :: "'c door_run \<Rightarrow> bool" where
  "in_order s \<longleftrightarrow> (\<exists>new. calling (bp s) (callback s) new \<and> work_ok (bp s) (work s) \<and>
     \<not> (busy (work s) \<and> busy (callback s)) \<and> 
     (listening (bp s) = None \<longrightarrow> pcCand (bp s) = [] \<and> code (callback s) = [] \<and> code (work s) = []) \<and>
     reported (bp s) = added (bp s) @ in_hand (work s) @ in_hand (callback s) @ pcCand (bp s) @ new)"

definition candidates_inv :: "'c door_run \<Rightarrow> bool" where
  "candidates_inv s \<longleftrightarrow> (\<not> overlapped s \<and> breaks (bp s) = 0 \<longrightarrow> in_order s)"

inductive_cases calling_elim: "calling b r new"

lemma added_snoc:
  "added (b\<lparr>bp_calls := bp_calls b @ [(x, ok)]\<rparr>) = added b @ (case x of AddICECandidate c \<Rightarrow> [c] | _ \<Rightarrow> [])"
  by (simp add: added_def)

lemma added_frame [simp]:
  "added (b\<lparr>pcCand := cs\<rparr>) = added b" "added (b\<lparr>answering := n\<rparr>) = added b" "added (b\<lparr>breaks := n\<rparr>) = added b"
  "added (b\<lparr>listening := l\<rparr>) = added b" "added (b\<lparr>reported := rs\<rparr>) = added b" "added (b\<lparr>road_sid := sid\<rparr>) = added b"
  by (simp_all add: added_def)

section \<open>Every statement keeps the order\<close>

lemma calling_cong: "calling b r new \<Longrightarrow> pcCand b' = pcCand b \<Longrightarrow> calling b' r new"
  by (induction rule: calling.induct) (auto intro: calling.intros)

lemma calling_idle: "calling b r new \<Longrightarrow> \<not> busy r \<Longrightarrow> calling b' r new"
  by (induction rule: calling.induct) (auto intro: calling.intros simp: busy_def)

lemma not_busy_hand: "\<not> busy r \<Longrightarrow> in_hand r = []"
  by (auto simp: busy_def in_hand_def split: list.split statement.split)

lemma work_ok_idle: "work_ok b r \<Longrightarrow> \<not> busy r \<Longrightarrow> work_ok b' r"
  by (auto simp: work_ok_def busy_def split: list.splits)

lemma work_ok_cong: "work_ok b r \<Longrightarrow> pcCand b' = pcCand b \<Longrightarrow> work_ok b' r"
  by (simp add: work_ok_def)

lemma fresh_ok: "fresh xs \<Longrightarrow> working xs \<Longrightarrow> code r = xs \<Longrightarrow> work_ok b r \<and> \<not> busy r"
  by (cases xs) (auto simp: fresh_def work_ok_def busy_def)

text \<open>What a call other than that of a candidate changes.\<close>

definition extends :: "'c BridgePeer \<Rightarrow> 'c BridgePeer \<Rightarrow> bool" where
  "extends b b' \<longleftrightarrow> added b' = added b \<and> pcCand b' = pcCand b \<and> reported b' = reported b \<and> breaks b \<le> breaks b' \<and>
     listening b' = listening b"

lemma extends_refl [simp]: "extends b b" by (simp add: extends_def)

lemma extends_trans: "extends b b1 \<Longrightarrow> extends b1 b2 \<Longrightarrow> extends b b2" by (auto simp: extends_def)

lemma extends_break [simp]: "extends b (break b)" by (simp add: extends_def break_def)

lemma call_op_extends: "call_op E x b = (ok, b') \<Longrightarrow> \<forall>c. x \<noteq> AddICECandidate c \<Longrightarrow> extends b b'"
  by (cases x) (auto simp: call_op_def extends_def added_snoc Let_def)

lemma call_op_snd: "\<forall>c. x \<noteq> AddICECandidate c \<Longrightarrow> extends b (snd (call_op E x b))"
  using call_op_extends [of E x b] by (metis prod.collapse)

lemma in_order_extends:
  assumes "in_order s" "extends (bp s) b"
  shows "in_order (s\<lparr>bp := b\<rparr>)"
  using assms by (auto simp: in_order_def extends_def intro: calling_cong work_ok_cong)

lemma candidates_inv_extends:
  assumes "candidates_inv s" "extends (bp s) b"
  shows "candidates_inv (s\<lparr>bp := b\<rparr>)"
  using assms in_order_extends [OF _ assms(2)] by (auto simp: candidates_inv_def extends_def)

lemma exec_breaks: "exec E r b = (r', b') \<Longrightarrow> breaks b \<le> breaks b'"
  by (auto simp: exec_def call_op_def break_def Let_def split: list.splits statement.splits if_splits prod.splits bool.splits)

lemma in_orderI:
  assumes "calling (bp s) (callback s) new" "work_ok (bp s) (work s)" "\<not> (busy (work s) \<and> busy (callback s))"
    "listening (bp s) = None \<longrightarrow> pcCand (bp s) = [] \<and> code (callback s) = [] \<and> code (work s) = []"
    "reported (bp s) = added (bp s) @ in_hand (work s) @ in_hand (callback s) @ pcCand (bp s) @ new"
  shows "in_order s"
  unfolding in_order_def by (intro exI [of _ new] conjI assms)

lemma exec_simps:
  "code r = [] \<Longrightarrow> exec E r b = (r, b)"
  "code r = Check_Remote c # xs \<Longrightarrow>
     exec E r b = (r\<lparr>code := (if has_remote E (bp_calls b) then flush_candidates c else store_candidate c) @ xs\<rparr>, b)"
  "code r = Take_Stored # xs \<Longrightarrow> exec E r b = (r\<lparr>code := xs, tpcCand := pcCand b\<rparr>, b)"
  "code r = Clear_Stored # xs \<Longrightarrow> exec E r b = (r\<lparr>code := xs\<rparr>, b\<lparr>pcCand := []\<rparr>)"
  "code r = Append_New c # xs \<Longrightarrow> exec E r b = (r\<lparr>code := xs, tpcCand := tpcCand r @ [c]\<rparr>, b)"
  "code r = Store_Taken # xs \<Longrightarrow> exec E r b = (r\<lparr>code := xs\<rparr>, b\<lparr>pcCand := tpcCand r\<rparr>)"
  "code r = Go_Answer # xs \<Longrightarrow> exec E r b = (r\<lparr>code := xs\<rparr>, b\<lparr>answering := Suc (answering b)\<rparr>)"
  "code r = Add_Taken # xs \<Longrightarrow> tpcCand r = [] \<Longrightarrow> exec E r b = (r\<lparr>code := xs\<rparr>, b)"
  by (simp_all add: exec_def)

text \<open>A round of the loop that does not break the door.\<close>

lemma exec_add:
  assumes "code r = Add_Taken # xs" "tpcCand r = c # cs" "exec E r b = (r', b')" "breaks b' = 0"
  shows "r' = r\<lparr>tpcCand := cs\<rparr>" "b' = b\<lparr>bp_calls := bp_calls b @ [(AddICECandidate c, True)]\<rparr>"
  using assms by (auto simp: exec_def call_op_def break_def Let_def split: bool.splits)

lemma callback_touching:
  assumes "calling b r new" "touches r" "exec E r b = (r', b')" "breaks b' = 0"
  shows "\<exists>new'. calling b' r' new' \<and> added b' @ in_hand r' @ pcCand b' @ new' = added b @ in_hand r @ pcCand b @ new \<and>
    reported b' = reported b \<and> listening b' = listening b"
  using assms(1)
proof cases
  case rest
  then show ?thesis using assms(2) by (simp add: touches_def)
next
  case (check c)
  then show ?thesis using assms(2) by (simp add: touches_def)
next
  case (store c)
  then have "r' = r\<lparr>code := [Append_New c, Store_Taken], tpcCand := pcCand b\<rparr>" "b' = b"
    using assms(3) by (auto simp: exec_simps store_candidate_def)
  then show ?thesis using store calling.append [of r' c b']
    by (intro exI [of _ "[c]"]) (simp add: in_hand_def store_candidate_def)
next
  case (append c)
  then have "r' = r\<lparr>code := [Store_Taken], tpcCand := tpcCand r @ [c]\<rparr>" "b' = b"
    using assms(3) by (auto simp: exec_simps)
  then show ?thesis using append calling.assign [of r' b' c] by (intro exI [of _ "[c]"]) (simp add: in_hand_def)
next
  case (assign c)
  then have "r' = r\<lparr>code := []\<rparr>" "b' = b\<lparr>pcCand := tpcCand r\<rparr>"
    using assms(3) by (auto simp: exec_simps)
  then show ?thesis using assign calling.rest [of r' b'] by (intro exI [of _ "[]"]) (simp add: in_hand_def)
next
  case (flush c)
  then have "r' = r\<lparr>code := [Clear_Stored, Append_New c, Add_Taken], tpcCand := pcCand b\<rparr>" "b' = b"
    using assms(3) by (auto simp: exec_simps flush_candidates_def)
  then show ?thesis using flush calling.clear [of r' c b']
    by (intro exI [of _ "[c]"]) (simp add: in_hand_def flush_candidates_def)
next
  case (clear c)
  then have "r' = r\<lparr>code := [Append_New c, Add_Taken]\<rparr>" "b' = b\<lparr>pcCand := []\<rparr>"
    using assms(3) by (auto simp: exec_simps)
  then show ?thesis using clear calling.cleared [of r' c b'] by (intro exI [of _ "[]"]) (simp add: in_hand_def)
next
  case (cleared c)
  then have "r' = r\<lparr>code := [Add_Taken], tpcCand := tpcCand r @ [c]\<rparr>" "b' = b"
    using assms(3) by (auto simp: exec_simps)
  then show ?thesis using cleared calling.adding [of r' b'] by (intro exI [of _ "[]"]) (simp add: in_hand_def)
next
  case adding
  show ?thesis
  proof (cases "tpcCand r")
    case Nil
    with adding assms(3) have "r' = r\<lparr>code := []\<rparr>" "b' = b" by (auto simp: exec_simps)
    then show ?thesis using adding Nil calling.rest [of r' b'] by (intro exI [of _ "[]"]) (simp add: in_hand_def)
  next
    case (Cons c cs)
    note e = exec_add [OF adding(2) Cons assms(3,4)]
    have "calling b' r' []" by (rule calling.adding) (use e adding in simp_all)
    then show ?thesis using adding Cons by (intro exI [of _ "[]"]) (simp add: e in_hand_def added_snoc)
  qed
qed

lemma callback_other:
  assumes "calling b r new" "\<not> touches r" "exec E r b = (r', b')"
  shows "b' = b \<and> calling b r' new \<and> in_hand r' = in_hand r \<and> \<not> busy r'"
  using assms(1)
proof cases
  case rest
  then show ?thesis using assms(1,3) by (auto simp: exec_simps busy_def)
next
  case (check c)
  then have "r' = r\<lparr>code := (if has_remote E (bp_calls b) then flush_candidates c else store_candidate c)\<rparr>" "b' = b"
    using assms(3) by (auto simp: exec_simps)
  then show ?thesis
    using check calling.flush [of r' c b] calling.store [of r' c b]
    by (simp add: in_hand_def busy_def flush_candidates_def store_candidate_def)
qed (use assms(2) in \<open>simp_all add: touches_def store_candidate_def flush_candidates_def\<close>)

lemma run_callback_inv:
  assumes "candidates_inv s"
  shows "candidates_inv (run_callback E s)"
proof -
  obtain r' b' where e: "exec E (callback s) (bp s) = (r', b')" by fastforce
  let ?s = "s\<lparr>bp := b', callback := r', overlapped := overlapped s \<or> touches (callback s) \<and> busy (work s)\<rparr>"
  have s': "run_callback E s = ?s" by (simp add: run_callback_def e)
  have "in_order ?s" if "\<not> overlapped ?s" "breaks (bp ?s) = 0"
  proof -
    have "in_order s" using assms that exec_breaks [OF e] by (simp add: candidates_inv_def)
    then obtain new where o: "calling (bp s) (callback s) new" "work_ok (bp s) (work s)" "\<not> (busy (work s) \<and> busy (callback s))"
        "listening (bp s) = None \<longrightarrow> pcCand (bp s) = [] \<and> code (callback s) = [] \<and> code (work s) = []"
        "reported (bp s) = added (bp s) @ in_hand (work s) @ in_hand (callback s) @ pcCand (bp s) @ new"
      by (auto simp: in_order_def)
    show ?thesis
    proof (cases "touches (callback s)")
      case True
      then have w: "\<not> busy (work s)" using that(1) by simp
      have l: "listening (bp s) \<noteq> None" using o(4) True by (auto simp: touches_def)
      from callback_touching [OF o(1) True e] that(2) obtain new' where "calling b' r' new'"
          "added b' @ in_hand r' @ pcCand b' @ new' = added (bp s) @ in_hand (callback s) @ pcCand (bp s) @ new"
          "reported b' = reported (bp s)" "listening b' = listening (bp s)" by auto
      with o w l show ?thesis
        by (auto simp: in_order_def not_busy_hand [OF w] intro: work_ok_idle)
    next
      case False
      note other = callback_other [OF o(1) this e]
      have idle: "listening (bp s) = None \<longrightarrow> code r' = []"
      proof
        assume "listening (bp s) = None"
        then have "code (callback s) = []" using o(4) by blast
        with e show "code r' = []" by (simp add: exec_simps(1))
      qed
      have "calling (bp ?s) (callback ?s) new" using other by simp
      moreover have "work_ok (bp ?s) (work ?s)" using other o(2) by simp
      moreover have "\<not> (busy (work ?s) \<and> busy (callback ?s))" using other by simp
      moreover have "listening (bp ?s) = None \<longrightarrow> pcCand (bp ?s) = [] \<and> code (callback ?s) = [] \<and> code (work ?s) = []"
        using o(4) other idle by simp
      moreover have "reported (bp ?s) = added (bp ?s) @ in_hand (work ?s) @ in_hand (callback ?s) @ pcCand (bp ?s) @ new"
        using o(5) other by simp
      ultimately show ?thesis by (rule in_orderI)
    qed
  qed
  then show ?thesis unfolding s' candidates_inv_def by blast
qed

lemma work_touching:
  assumes "work_ok b r" "touches r" "exec E r b = (r', b')" "breaks b' = 0"
  shows "work_ok b' r' \<and> added b' @ in_hand r' @ pcCand b' = added b @ in_hand r @ pcCand b \<and>
    reported b' = reported b \<and> listening b' = listening b"
proof -
  obtain x xs where code: "code r = x # xs" "on_store x" using assms(2) by (auto simp: touches_def split: list.splits)
  have w: "working (x # xs)" using assms(1) code(1) by (simp add: work_ok_def)
  show ?thesis
  proof (cases x)
    case Take_Stored
    then obtain ys where xs: "xs = Clear_Stored # Add_Taken # ys" using w by (cases xs; cases "tl xs") auto
    have "r' = r\<lparr>code := xs, tpcCand := pcCand b\<rparr>" "b' = b" using assms(3) code Take_Stored by (auto simp: exec_simps)
    with w code xs Take_Stored show ?thesis by (simp add: work_ok_def in_hand_def)
  next
    case Clear_Stored
    then obtain ys where xs: "xs = Add_Taken # ys" using w by (cases xs) auto
    have "tpcCand r = pcCand b" using assms(1) code Clear_Stored by (simp add: work_ok_def)
    moreover have "r' = r\<lparr>code := xs\<rparr>" "b' = b\<lparr>pcCand := []\<rparr>" using assms(3) code Clear_Stored by (auto simp: exec_simps)
    ultimately show ?thesis using w code xs Clear_Stored by (simp add: work_ok_def in_hand_def)
  next
    case Add_Taken
    then have next_code: "fresh xs" "working xs" using w by simp_all
    show ?thesis
    proof (cases "tpcCand r")
      case Nil
      then have e: "r' = r\<lparr>code := xs\<rparr>" "b' = b" using assms(3) code Add_Taken by (auto simp: exec_simps)
      have "work_ok b' r' \<and> \<not> busy r'" by (rule fresh_ok [OF next_code]) (simp add: e)
      with not_busy_hand [of r'] Nil code Add_Taken show ?thesis by (simp add: e in_hand_def)
    next
      case (Cons c cs)
      from code(1) Add_Taken have "code r = Add_Taken # xs" by simp
      note e = exec_add [OF this Cons assms(3,4)]
      show ?thesis using w code Add_Taken Cons by (simp add: e work_ok_def in_hand_def added_snoc)
    qed
  qed (use w code(2) in simp_all)
qed

lemma work_other:
  assumes "work_ok b r" "\<not> touches r" "exec E r b = (r', b')" "breaks b' = 0"
  shows "extends b b' \<and> work_ok b' r' \<and> in_hand r' = [] \<and> in_hand r = [] \<and> \<not> busy r'"
proof (cases "code r")
  case Nil
  then show ?thesis using assms by (auto simp: exec_simps in_hand_def busy_def)
next
  case (Cons x xs)
  then have x: "\<not> on_store x" "working (x # xs)" using assms(1,2) by (simp_all add: touches_def work_ok_def)
  then have hand: "in_hand r = []" using Cons by (cases x) (simp_all add: in_hand_def)
  from x have next_code: "fresh xs" "working xs" by (cases x; simp)+
  have "work_ok b' r' \<and> \<not> busy r' \<and> extends b b'"
  proof (cases x)
    case (Try y e)
    obtain ok b1 where c: "call_op E y b = (ok, b1)" by fastforce
    have y: "extends b b1" by (rule call_op_extends [OF c]) (use x(2) Try in simp)
    show ?thesis
    proof (cases ok)
      case True
      then have r': "r' = r\<lparr>code := xs\<rparr>" "b' = b1" using assms(3) Cons Try c by (simp_all add: exec_def)
      have "work_ok b' r' \<and> \<not> busy r'" by (rule fresh_ok [OF next_code]) (simp add: r')
      with y r' show ?thesis by simp
    next
      case False
      then have r': "r' = r\<lparr>code := []\<rparr>" "b' = (if e = Calls_OnBroken then break b1 else b1)"
        using assms(3) Cons Try c by (auto simp: exec_def)
      then have "b' = b1" using assms(4) by (auto simp: break_def split: if_splits)
      with y r' show ?thesis by (simp add: work_ok_def busy_def)
    qed
  next
    case Go_Answer
    then have r': "r' = r\<lparr>code := xs\<rparr>" "b' = b\<lparr>answering := Suc (answering b)\<rparr>"
      using assms(3) Cons by (auto simp: exec_simps)
    have "work_ok b' r' \<and> \<not> busy r'" by (rule fresh_ok [OF next_code]) (simp add: r')
    then show ?thesis by (simp add: r' extends_def)
  qed (use x in simp_all)
  with hand not_busy_hand [of r'] show ?thesis by simp
qed

lemma run_work_inv:
  assumes "candidates_inv s"
  shows "candidates_inv (run_work E s)"
proof -
  obtain r' b' where e: "exec E (work s) (bp s) = (r', b')" by fastforce
  let ?s = "s\<lparr>bp := b', work := r', overlapped := overlapped s \<or> touches (work s) \<and> busy (callback s)\<rparr>"
  have s': "run_work E s = ?s" by (simp add: run_work_def e)
  have "in_order ?s" if "\<not> overlapped ?s" "breaks (bp ?s) = 0"
  proof -
    have "in_order s" using assms that exec_breaks [OF e] by (simp add: candidates_inv_def)
    then obtain new where o: "calling (bp s) (callback s) new" "work_ok (bp s) (work s)" "\<not> (busy (work s) \<and> busy (callback s))"
        "listening (bp s) = None \<longrightarrow> pcCand (bp s) = [] \<and> code (callback s) = [] \<and> code (work s) = []"
        "reported (bp s) = added (bp s) @ in_hand (work s) @ in_hand (callback s) @ pcCand (bp s) @ new"
      by (auto simp: in_order_def)
    have b': "breaks b' = 0" using that(2) by simp
    show ?thesis
    proof (cases "touches (work s)")
      case True
      then have c: "\<not> busy (callback s)" using that(1) by simp
      have l: "listening (bp s) \<noteq> None" using o(4) True by (auto simp: touches_def)
      note w = work_touching [OF o(2) True e b']
      have "calling b' (callback s) new" by (rule calling_idle [OF o(1) c])
      moreover have "reported b' = added b' @ in_hand r' @ pcCand b' @ new"
        using o(5) w by (simp add: not_busy_hand [OF c])
      ultimately show ?thesis using w c l by (intro in_orderI [of _ new]) (simp_all add: not_busy_hand [OF c] del: not_None_eq)
    next
      case False
      note w = work_other [OF o(2) False e b']
      have idle: "listening (bp s) = None \<longrightarrow> code r' = []"
      proof
        assume "listening (bp s) = None"
        then have "code (work s) = []" using o(4) by blast
        with e show "code r' = []" by (simp add: exec_simps(1))
      qed
      have "calling (bp ?s) (callback ?s) new" using calling_cong [OF o(1)] w by (simp add: extends_def)
      moreover have "work_ok (bp ?s) (work ?s)" using w by simp
      moreover have "\<not> (busy (work ?s) \<and> busy (callback ?s))" using w by simp
      moreover have "listening (bp ?s) = None \<longrightarrow> pcCand (bp ?s) = [] \<and> code (callback ?s) = [] \<and> code (work ?s) = []"
        using o(4) w idle by (simp add: extends_def)
      moreover have "reported (bp ?s) = added (bp ?s) @ in_hand (work ?s) @ in_hand (callback ?s) @ pcCand (bp ?s) @ new"
        using o(5) w by (simp add: extends_def)
      ultimately show ?thesis by (rule in_orderI)
    qed
  qed
  then show ?thesis unfolding s' candidates_inv_def by blast
qed

lemma pc_OnICECandidate_extends: "extends b (pc_OnICECandidate E tgt c b)"
proof (cases c)
  case (Some d)
  obtain ok b1 where "call_op E (Peer_Trickle d (sint tgt)) b = (ok, b1)" by fastforce
  moreover from call_op_extends [OF this] have "extends b b1" by simp
  ultimately show ?thesis using extends_trans [OF _ extends_break] by (cases ok) (auto simp: pc_OnICECandidate_def Some)
qed (simp add: pc_OnICECandidate_def)

lemma Entrance_OnTrack_extends: "extends b (Entrance_OnTrack E b)"
proof (cases "road_sid b")
  case (Some sid)
  obtain ok b1 where "call_op E (AddInTrack sid) b = (ok, b1)" by fastforce
  moreover from call_op_extends [OF this] have "extends b b1" by simp
  ultimately show ?thesis using extends_trans [OF _ extends_break] by (cases ok) (auto simp: Entrance_OnTrack_def Some)
qed (simp add: Entrance_OnTrack_def)

lemma Subscriber_answer_extends: "extends b (Subscriber_answer E b)"
proof -
  let ?b = "b\<lparr>answering := answering b - 1\<rparr>"
  obtain ok b1 where c: "call_op E Peer_SetRemoteDescription ?b = (ok, b1)" by fastforce
  from call_op_extends [OF c] have "extends b b1" by (simp add: extends_def)
  then show ?thesis using c extends_trans [OF _ extends_break] by (cases ok) (auto simp: Subscriber_answer_def)
qed

lemma BridgePeer_Remove_extends: "extends b (BridgePeer_Remove E b)"
  unfolding BridgePeer_Remove_def
  by (rule extends_trans [OF call_op_snd [of Peer_Close b E] call_op_snd]) simp_all

lemma peer_OnIceCandidate_inv:
  assumes "candidates_inv s" "code (callback s) = []"
  shows "candidates_inv (peer_OnIceCandidate c t s)"
proof -
  let ?s = "s\<lparr>bp := (bp s)\<lparr>reported := reported (bp s) @ [c]\<rparr>, callback := start [Check_Remote c]\<rparr>"
  have "in_order ?s" if "in_order s" "listening (bp s) = Some t"
  proof -
    from that(1) obtain new where o: "calling (bp s) (callback s) new" "work_ok (bp s) (work s)"
        "reported (bp s) = added (bp s) @ in_hand (work s) @ in_hand (callback s) @ pcCand (bp s) @ new"
      by (auto simp: in_order_def)
    have "new = [] \<and> in_hand (callback s) = []"
      using o(1) assms(2) by cases (simp_all add: in_hand_def store_candidate_def flush_candidates_def)
    moreover have "calling (bp ?s) (callback ?s) [c]" by (rule calling.check) (simp add: start_def)
    ultimately show ?thesis
      using o(2,3) that(2) by (intro in_orderI [of _ "[c]"]) (simp_all add: work_ok_def busy_def start_def in_hand_def)
  qed
  with assms(1) show ?thesis by (auto simp: peer_OnIceCandidate_def candidates_inv_def)
qed

text \<open>The goroutine of the door starts on something new, after a \<open>Lock\<close> or later.\<close>

lemma start_work_inv:
  assumes "candidates_inv s" "code (work s) = []" "working xs" "fresh xs"
    and "extends (bp s) b \<and> listening (bp s) \<noteq> None \<or>
      listening (bp s) = None \<and> b = (bp s)\<lparr>listening := Some l, pcCand := [], road_sid := sid\<rparr>"
  shows "candidates_inv (s\<lparr>bp := b, work := start xs\<rparr>)"
proof -
  let ?s = "s\<lparr>bp := b, work := start xs\<rparr>"
  have w: "work_ok b (start xs) \<and> \<not> busy (start xs)" by (rule fresh_ok [OF assms(4,3)]) (simp add: start_def)
  have "in_order ?s" if "in_order s"
  proof -
    from that obtain new where o: "calling (bp s) (callback s) new"
        "listening (bp s) = None \<longrightarrow> pcCand (bp s) = [] \<and> code (callback s) = [] \<and> code (work s) = []"
        "reported (bp s) = added (bp s) @ in_hand (work s) @ in_hand (callback s) @ pcCand (bp s) @ new"
      by (auto simp: in_order_def)
    have hand: "in_hand (work s) = []" by (simp add: in_hand_def assms(2))
    have same: "pcCand b = pcCand (bp s)" "added b = added (bp s)" "reported b = reported (bp s)" "listening b \<noteq> None"
      using assms(5) o(2) by (auto simp: extends_def)
    have "calling (bp ?s) (callback ?s) new" using calling_cong [OF o(1)] same by simp
    with o(3) w same hand show ?thesis
      by (intro in_orderI [of _ new]) (simp_all add: not_busy_hand del: not_None_eq)
  qed
  moreover have "breaks (bp s) = 0" if "breaks b = 0" using assms(5) that by (auto simp: extends_def)
  ultimately show ?thesis using assms(1) by (simp add: candidates_inv_def)
qed

lemma programs:
  "working (Publisher_Lock sid)" "working Publisher_onNegotiationNeeded" "working (Subscriber_Lock sid)" "working Subscriber_OnOffer"
  "fresh (Publisher_Lock sid)" "fresh Publisher_onNegotiationNeeded" "fresh (Subscriber_Lock sid)" "fresh Subscriber_OnOffer"
  by (simp_all add: Publisher_Lock_def addCandidate_def Publisher_onNegotiationNeeded_def Subscriber_Lock_def
      Subscriber_OnOffer_def fresh_def)

lemma publisher_event_inv:
  assumes "publisher_event E e s = Some s'" "candidates_inv s"
  shows "candidates_inv s'"
proof (cases e)
  case (Locks sid)
  have "setOnIceCandidate Target_PUBLISHER (bp s) =
      (bp s)\<lparr>listening := Some (sint Target_PUBLISHER), pcCand := [], road_sid := road_sid (bp s)\<rparr>"
    by (simp add: setOnIceCandidate_def)
  then have "candidates_inv (s\<lparr>bp := setOnIceCandidate Target_PUBLISHER (bp s), work := start (Publisher_Lock sid)\<rparr>)"
    if "listening (bp s) = None" "code (work s) = []"
    by (intro start_work_inv [OF assms(2) that(2) programs(1,5)]) (use that in blast)
  then show ?thesis using assms(1) Locks by (auto simp: publisher_event_def split: if_splits)
next
  case Negotiates
  then have "listening (bp s) \<noteq> None" "code (work s) = []" "s' = s\<lparr>bp := bp s, work := start Publisher_onNegotiationNeeded\<rparr>"
    using assms(1) by (auto simp: publisher_event_def split: if_splits)
  then show ?thesis by (simp only:) (intro start_work_inv [OF assms(2) _ programs(2,6)], auto)
next
  case Works
  then show ?thesis using assms run_work_inv by (auto simp: publisher_event_def)
next
  case (Reports c t)
  then show ?thesis using assms peer_OnIceCandidate_inv by (auto simp: publisher_event_def split: if_splits)
next
  case Calls_Back
  then show ?thesis using assms run_callback_inv by (auto simp: publisher_event_def)
qed (use assms(1) in \<open>auto simp: publisher_event_def Publisher_AddTrack_def Publisher_RemoveTrack_def split: if_splits
    intro!: candidates_inv_extends [OF assms(2)] pc_OnICECandidate_extends BridgePeer_Remove_extends call_op_snd\<close>)

lemma entrance_event_inv:
  assumes "entrance_event E e s = Some s'" "candidates_inv s"
  shows "candidates_inv s'"
proof (cases e)
  case (Locks sid)
  have "setOnIceCandidate Target_SUBSCRIBER ((bp s)\<lparr>road_sid := Some sid\<rparr>) =
      (bp s)\<lparr>listening := Some (sint Target_SUBSCRIBER), pcCand := [], road_sid := Some sid\<rparr>"
    by (simp add: setOnIceCandidate_def)
  then have "candidates_inv (Entrance_Lock sid s)" if "listening (bp s) = None" "code (work s) = []"
    unfolding Entrance_Lock_def by (intro start_work_inv [OF assms(2) that(2) programs(3,7)]) (use that in blast)
  then show ?thesis using assms(1) Locks by (auto simp: entrance_event_def split: if_splits)
next
  case Negotiates
  then have "listening (bp s) \<noteq> None" "code (work s) = []" "s' = s\<lparr>bp := bp s, work := start Subscriber_OnOffer\<rparr>"
    using assms(1) by (auto simp: entrance_event_def split: if_splits)
  then show ?thesis by (simp only:) (intro start_work_inv [OF assms(2) _ programs(4,8)], auto)
next
  case Works
  then show ?thesis using assms run_work_inv by (auto simp: entrance_event_def)
next
  case (Reports c t)
  then show ?thesis using assms peer_OnIceCandidate_inv by (auto simp: entrance_event_def split: if_splits)
next
  case Calls_Back
  then show ?thesis using assms run_callback_inv by (auto simp: entrance_event_def)
qed (use assms(1) in \<open>auto simp: entrance_event_def Entrance_Remove_def split: if_splits
    intro!: candidates_inv_extends [OF assms(2)] pc_OnICECandidate_extends BridgePeer_Remove_extends
      Subscriber_answer_extends Entrance_OnTrack_extends\<close>)

lemma new_run_inv: "candidates_inv new_run"
  unfolding candidates_inv_def
  by (intro impI in_orderI [of _ "[]"] calling.rest)
    (simp_all add: new_run_def NewBridgePeer_def start_def work_ok_def busy_def added_def in_hand_def)

lemma publisher_door_reachable: "reachable (publisher_door E) new_run s \<Longrightarrow> candidates_inv s"
  by (induction rule: reachable_invariant) (auto simp: new_run_inv publisher_door_def intro: publisher_event_inv)

lemma entrance_door_reachable: "reachable (entrance_door E) new_run s \<Longrightarrow> candidates_inv s"
  by (induction rule: reachable_invariant) (auto simp: new_run_inv entrance_door_def intro: entrance_event_inv)

section \<open>No candidate is invented\<close>

text \<open>Whatever the interleaving: only reported candidates are anywhere.\<close>

definition mentions :: "'c routine \<Rightarrow> 'c set" where
  "mentions r = set (tpcCand r) \<union> {c. Check_Remote c \<in> set (code r) \<or> Append_New c \<in> set (code r) \<or>
     (\<exists>e. Try (AddICECandidate c) e \<in> set (code r))}"

definition all_known :: "'c door_run \<Rightarrow> bool" where
  "all_known s \<longleftrightarrow> set (added (bp s)) \<union> set (pcCand (bp s)) \<union> mentions (work s) \<union> mentions (callback s) \<subseteq> set (reported (bp s))"

lemma added_call_op: "call_op E x b = (ok, b') \<Longrightarrow>
    added b' = added b @ (case x of AddICECandidate c \<Rightarrow> [c] | _ \<Rightarrow> []) \<and> pcCand b' = pcCand b \<and> reported b' = reported b"
  by (auto simp: call_op_def added_snoc Let_def)

lemma exec_known:
  assumes "exec E r b = (r', b')"
  shows "set (added b') \<union> set (pcCand b') \<union> mentions r' \<subseteq> set (added b) \<union> set (pcCand b) \<union> mentions r \<and> reported b' = reported b"
proof (cases "code r")
  case Nil
  then show ?thesis using assms by (simp add: exec_simps)
next
  case (Cons x xs)
  show ?thesis
  proof (cases x)
    case (Try y e)
    obtain ok b1 where c: "call_op E y b = (ok, b1)" by fastforce
    then have r': "code r' = (if ok then xs else [])" "tpcCand r' = tpcCand r" "b' = b1 \<or> b' = break b1"
      using assms Cons Try by (auto simp: exec_def split: bool.splits)
    have b': "added b' = added b1" "pcCand b' = pcCand b1" "reported b' = reported b1"
      using r'(3) by (auto simp: break_def)
    have new: "set (case y of AddICECandidate c \<Rightarrow> [c] | _ \<Rightarrow> []) \<subseteq> mentions r"
      using Cons Try by (cases y) (auto simp: mentions_def)
    have "mentions r' \<subseteq> mentions r" using r'(1,2) Cons by (cases ok) (auto simp: mentions_def)
    with new added_call_op [OF c] show ?thesis by (auto simp: b')
  next
    case Add_Taken
    show ?thesis
    proof (cases "tpcCand r")
      case Nil
      then show ?thesis using assms Cons Add_Taken by (auto simp: exec_simps mentions_def)
    next
      case (Cons c cs)
      obtain ok b1 where a: "call_op E (AddICECandidate c) b = (ok, b1)" by fastforce
      then have "r' = (if ok then r\<lparr>tpcCand := cs\<rparr> else r\<lparr>code := xs, tpcCand := []\<rparr>)" "b' = (if ok then b1 else break b1)"
        using assms Cons \<open>code r = x # xs\<close> Add_Taken by (auto simp: exec_def split: bool.splits)
      with added_call_op [OF a] Cons \<open>code r = x # xs\<close> show ?thesis by (cases ok) (auto simp: mentions_def break_def)
    qed
  qed (use assms Cons in \<open>auto simp: exec_simps mentions_def flush_candidates_def store_candidate_def split: if_splits\<close>)
qed

lemma all_known_extends: "all_known s \<Longrightarrow> extends (bp s) b \<Longrightarrow> all_known (s\<lparr>bp := b\<rparr>)"
  by (simp add: all_known_def extends_def)

lemma mentions_start [simp]:
  "mentions (start (Publisher_Lock sid)) = {}" "mentions (start Publisher_onNegotiationNeeded) = {}"
  "mentions (start (Subscriber_Lock sid)) = {}" "mentions (start Subscriber_OnOffer) = {}" "mentions (start []) = {}"
  "mentions (start [Check_Remote c]) = {c}"
  by (auto simp: mentions_def start_def Publisher_Lock_def addCandidate_def Publisher_onNegotiationNeeded_def
      Subscriber_Lock_def Subscriber_OnOffer_def)

lemma run_known: "all_known s \<Longrightarrow> all_known (run_work E s) \<and> all_known (run_callback E s)"
proof -
  assume k: "all_known s"
  obtain r b where w: "exec E (work s) (bp s) = (r, b)" by fastforce
  obtain r' b' where c: "exec E (callback s) (bp s) = (r', b')" by fastforce
  from k exec_known [OF w] exec_known [OF c] show ?thesis
    by (simp add: all_known_def run_work_def run_callback_def w c) blast
qed

lemma entrance_event_known:
  assumes "entrance_event E e s = Some s'" "all_known s"
  shows "all_known s'"
proof (cases e)
  case (Locks sid)
  then show ?thesis using assms
    by (auto simp: entrance_event_def Entrance_Lock_def setOnIceCandidate_def all_known_def split: if_splits)
next
  case Negotiates
  then show ?thesis using assms by (auto simp: entrance_event_def all_known_def split: if_splits)
next
  case (Reports c t)
  then show ?thesis using assms
    by (auto simp: entrance_event_def peer_OnIceCandidate_def all_known_def split: if_splits)
qed (use assms run_known in \<open>auto simp: entrance_event_def Entrance_Remove_def split: if_splits
    intro!: all_known_extends pc_OnICECandidate_extends BridgePeer_Remove_extends
      Subscriber_answer_extends Entrance_OnTrack_extends\<close>)

lemma entrance_door_known: "reachable (entrance_door E) new_run s \<Longrightarrow> all_known s"
proof (induction rule: reachable_invariant)
  case init
  show ?case by (simp add: all_known_def new_run_def NewBridgePeer_def added_def)
next
  case (step s s')
  from step(2) obtain e where "entrance_event E e s = Some s'" by (auto simp: entrance_door_def)
  from entrance_event_known [OF this step(3)] show ?case .
qed

section \<open>Properties\<close>

text \<open>A door whose PeerConnection has a remote description once a negotiation has set it.\<close>

definition demo_bp_env :: "'c bp_op \<Rightarrow> 'c bp_env" where
  "demo_bp_env x = \<lparr>succeeds = (\<lambda>_ _. True), has_remote = (\<lambda>cs. list_ex (\<lambda>y. fst y = x) cs)\<rparr>"

lemma entrance_happens:
  "happens (entrance_event E) es new_run = Some s \<Longrightarrow> reachable (entrance_door E) new_run s"
  using happens_reachable [of "entrance_event E" es new_run s new_run] by (simp add: entrance_door_def [abs_def])

lemma publisher_happens:
  "happens (publisher_event E) es new_run = Some s \<Longrightarrow> reachable (publisher_door E) new_run s"
  using happens_reachable [of "publisher_event E" es new_run s new_run] by (simp add: publisher_door_def [abs_def])

lemmas door_defs = entrance_event_def publisher_event_def Entrance_Lock_def new_run_def NewBridgePeer_def start_def
  setOnIceCandidate_def run_work_def run_callback_def exec_def call_op_def peer_OnIceCandidate_def Subscriber_Lock_def
  Subscriber_OnOffer_def addCandidate_def store_candidate_def flush_candidates_def Publisher_Lock_def
  Publisher_onNegotiationNeeded_def touches_def busy_def demo_bp_env_def Target_SUBSCRIBER_def Target_PUBLISHER_def

text \<open>
  The offer's goroutine reads the empty store, the callback stores its candidate, and the offer's
  goroutine clears the store.
\<close>

definition losing_events :: "string door_event list" where
  "losing_events = [Locks ''s'', Works, Negotiates, Works, Works, Reports ''a'' 1, Calls_Back, Calls_Back, Calls_Back,
     Calls_Back, Works, Works, Works, Works, Works]"

lemma losing_run:
  obtains s where "happens (entrance_event (demo_bp_env SetLocalDescription)) losing_events new_run = Some s"
    "code (work s) = []" "code (callback s) = []" "overlapped s" "breaks (bp s) = 0" "reported (bp s) = [''a'']"
    "added (bp s) = []" "pcCand (bp s) = []"
  unfolding losing_events_def by (simp add: door_defs added_def)

text \<open>
  C21. The handler of offers and the callback for candidates share the store of an entrance without a
  lock. However they interleave, only candidates that the SFU reported for the subscriber are held or
  given to the PeerConnection. As long as neither has touched the store while the other was working
  on it and the door was not reported broken, the candidates that were given, those in a goroutine's
  hand, those held and at most one newest are, in this order, all the reported ones; when both are at
  rest, those given and those held. An overlap can lose a candidate: no call fails, both goroutines
  come to rest, and the candidate is neither held nor given.
\<close>

theorem entrance_candidates_in_order:
  assumes "reachable (entrance_door E) new_run s"
  shows "set (added (bp s)) \<union> set (pcCand (bp s)) \<subseteq> set (reported (bp s)) \<and>
    (\<not> overlapped s \<and> breaks (bp s) = 0 \<longrightarrow>
      (\<exists>new. length new \<le> 1 \<and>
        reported (bp s) = added (bp s) @ in_hand (work s) @ in_hand (callback s) @ pcCand (bp s) @ new) \<and>
      (code (work s) = [] \<and> code (callback s) = [] \<longrightarrow> reported (bp s) = added (bp s) @ pcCand (bp s))) \<and>
    (\<exists>t. reachable (entrance_door (demo_bp_env SetLocalDescription)) new_run t \<and> overlapped t \<and>
      code (work t) = [] \<and> code (callback t) = [] \<and> breaks (bp t) = 0 \<and> reported (bp t) = [''a''] \<and>
      added (bp t) = [] \<and> pcCand (bp t) = [])"
proof (intro conjI impI)
  show "set (added (bp s)) \<union> set (pcCand (bp s)) \<subseteq> set (reported (bp s))"
    using entrance_door_known [OF assms] by (simp add: all_known_def)
  show "\<exists>t. reachable (entrance_door (demo_bp_env SetLocalDescription)) new_run t \<and> overlapped t \<and>
      code (work t) = [] \<and> code (callback t) = [] \<and> breaks (bp t) = 0 \<and> reported (bp t) = [''a''] \<and>
      added (bp t) = [] \<and> pcCand (bp t) = []"
    by (rule losing_run) (use entrance_happens in blast)
next
  assume "\<not> overlapped s \<and> breaks (bp s) = 0"
  with entrance_door_reachable [OF assms] have "in_order s" by (simp add: candidates_inv_def)
  then obtain new where o: "calling (bp s) (callback s) new"
      "reported (bp s) = added (bp s) @ in_hand (work s) @ in_hand (callback s) @ pcCand (bp s) @ new"
    by (auto simp: in_order_def)
  have "length new \<le> 1" using o(1) by cases simp_all
  with o(2) show "\<exists>new. length new \<le> 1 \<and>
      reported (bp s) = added (bp s) @ in_hand (work s) @ in_hand (callback s) @ pcCand (bp s) @ new" by blast
  assume "code (work s) = [] \<and> code (callback s) = []"
  with o show "reported (bp s) = added (bp s) @ pcCand (bp s)"
    by (auto simp: in_hand_def store_candidate_def flush_candidates_def elim: calling.cases)
qed

text \<open>A candidate is reported before the offer, another one after its answer was set.\<close>

definition orderly_events :: "string door_event list" where
  "orderly_events = [Locks ''s'', Works, Reports ''a'' 1, Calls_Back, Calls_Back, Calls_Back, Calls_Back, Negotiates, Works,
     Works, Works, Works, Works, Works, Works, Works, Reports ''b'' 1, Calls_Back, Calls_Back, Calls_Back]"

theorem entrance_candidates_in_order_witness:
  "\<exists>s. reachable (entrance_door (demo_bp_env SetLocalDescription)) new_run s \<and> added (bp s) = [''a''] \<and>
     reported (bp s) = [''a'', ''b''] \<and> in_hand (callback s) = [''b''] \<and> \<not> overlapped s"
proof -
  obtain s where s: "happens (entrance_event (demo_bp_env SetLocalDescription)) orderly_events new_run = Some s"
      "reported (bp s) = [''a'', ''b'']" "breaks (bp s) = 0" "\<not> overlapped s" "pcCand (bp s) = []" "in_hand (work s) = []"
      "added (bp s) = [''a'']"
    unfolding orderly_events_def by (simp add: door_defs added_def in_hand_def)
  note r = entrance_happens [OF s(1)]
  from entrance_candidates_in_order [OF r] s obtain new where new: "length new \<le> 1" "[''b''] = in_hand (callback s) @ new"
    by auto
  have "in_hand (callback s) \<noteq> []"
    using s(1) unfolding orderly_events_def by (auto simp: door_defs in_hand_def)
  with new have "in_hand (callback s) = [''b'']" by (cases "in_hand (callback s)") auto
  with r s show ?thesis by blast
qed

text \<open>
  A negotiation of the bridge's publisher strands the candidates that the SFU reports before its
  answer is set: everything succeeds, the remote description is set, both goroutines are at rest, and
  the candidate is held and not given; only another candidate would empty the store.
\<close>

definition stranding_events :: "string door_event list" where
  "stranding_events = [Locks ''s'', Works, Works, Works, Works, Negotiates, Works, Works, Works, Reports ''a'' 0,
     Calls_Back, Calls_Back, Calls_Back, Calls_Back, Works]"

theorem publisher_strands_candidates:
  "\<exists>s. reachable (publisher_door (demo_bp_env SetRemoteDescription)) new_run s \<and> \<not> overlapped s \<and> breaks (bp s) = 0 \<and>
     code (work s) = [] \<and> code (callback s) = [] \<and> has_remote (demo_bp_env SetRemoteDescription) (bp_calls (bp s)) \<and>
     pcCand (bp s) = [''a''] \<and> added (bp s) = []"
proof -
  obtain s where "happens (publisher_event (demo_bp_env SetRemoteDescription)) stranding_events new_run = Some s"
      "\<not> overlapped s \<and> breaks (bp s) = 0 \<and> code (work s) = [] \<and> code (callback s) = [] \<and>
       has_remote (demo_bp_env SetRemoteDescription) (bp_calls (bp s)) \<and> pcCand (bp s) = [''a''] \<and> added (bp s) = []"
    unfolding stranding_events_def by (simp add: door_defs added_def)
  with publisher_happens show ?thesis by blast
qed

end
