(* ===== verification/Room_Client.thy ===== *)
theory Room_Client
  imports Dion_Messages
begin

text \<open>
  The client of a room, \<open>pkg/sxu/room/client.go\<close>: the loop \<open>keepAlive\<close>, which starts one goroutine per
  round that sends a health call, and \<open>reconnect\<close>, which the loop and the goroutines call through a
  \<open>SingleWaitExec\<close> (\<open>util/lock.go\<close>). Every statement that another goroutine can see is a step. The
  timers may fire at any moment; what the factory returns and what the room answers is free.
\<close>

section \<open>State\<close>

text \<open>The threads that can be in \<open>reconnect\<close>, and where.\<close>

datatype rc_thread = Loop | Round nat

datatype rc_reconnect =
    R_Out
  | R_Enter
  | R_Close nat
  | R_New nat
  | R_Set nat nat
  | R_Cancel nat
  | R_Wait nat

datatype rc_loop = L_Stopped | L_Head | L_Select nat | L_Timer nat | L_Reconnect

datatype rc_goroutine = G_Begin | G_Call nat | G_Health nat client_needed_session | G_Reconnect | G_End

datatype rc_call =
    NewConn nat
  | CloseConn nat
  | ClientHealth nat client_needed_session bool
  | TimedOut nat

text \<open>
  A round is its goroutine and whether its context has been cancelled. \<open>keeps\<close> counts the goroutines
  of \<open>keepAliveExec.Do\<close> that have not looked at the token yet; the token is there when the loop has
  stopped. Connections are numbered in the order of their making, and so are the contexts of the
  \<open>SingleWaitExec\<close>, of which the last is the current one.
\<close>

record room_client =
  rc_closed :: bool
  rc_session :: "client_needed_session option"
  rc_connected :: bool
  manualReconnect :: bool
  rc_conn :: "nat option"
  next_conn :: nat
  keeps :: nat
  loop :: rc_loop
  rounds :: "(rc_goroutine \<times> bool) list"
  rec_at :: "rc_thread \<Rightarrow> rc_reconnect"
  execs :: nat
  execs_done :: "nat set"
  rc_calls :: "rc_call list"

definition NewRoomClient :: room_client where
  "NewRoomClient = \<lparr>rc_closed = False, rc_session = None, rc_connected = False, manualReconnect = False, rc_conn = None,
     next_conn = 0, keeps = 0, loop = L_Stopped, rounds = [], rec_at = (\<lambda>_. R_Out), execs = 0, execs_done = {},
     rc_calls = []\<rparr>"

section \<open>Operations\<close>

definition UpdateSession :: "client_needed_session \<Rightarrow> room_client \<Rightarrow> room_client" where
  "UpdateSession session c = c\<lparr>rc_session := Some session\<rparr>"

definition RefreshConn :: "room_client \<Rightarrow> room_client" where
  "RefreshConn c = c\<lparr>manualReconnect := True\<rparr>"

definition RoomClient_Close :: "room_client \<Rightarrow> room_client" where
  "RoomClient_Close c = c\<lparr>rc_closed := True\<rparr>"

definition RoomClient_Connect :: "room_client \<Rightarrow> room_client" where
  "RoomClient_Connect c = c\<lparr>keeps := Suc (keeps c)\<rparr>"

subsection \<open>reconnect\<close>

definition exec_over :: "room_client \<Rightarrow> nat \<Rightarrow> bool" where
  "exec_over c e \<longleftrightarrow> e \<in> execs_done c \<or> rc_closed c"

definition at :: "rc_thread \<Rightarrow> rc_reconnect \<Rightarrow> room_client \<Rightarrow> room_client" where
  "at t r c = c\<lparr>rec_at := (rec_at c)(t := r)\<rparr>"

text \<open>\<open>SingleWaitExec.Do\<close>: run when the last run is over, else wait for it.\<close>

definition reconnect_enter :: "rc_thread \<Rightarrow> room_client \<Rightarrow> room_client" where
  "reconnect_enter t c =
     (if execs c = 0 \<or> exec_over c (execs c - 1)
      then at t (R_Close (execs c)) (c\<lparr>execs := Suc (execs c)\<rparr>)
      else at t (R_Wait (execs c - 1)) c)"

definition reconnect_close :: "rc_thread \<Rightarrow> nat \<Rightarrow> room_client \<Rightarrow> room_client" where
  "reconnect_close t e c =
     at t (R_New e) (case rc_conn c of None \<Rightarrow> c | Some i \<Rightarrow> c\<lparr>rc_calls := rc_calls c @ [CloseConn i]\<rparr>)"

text \<open>\<open>found\<close>: whether the factory returns a connection.\<close>

definition reconnect_new :: "bool \<Rightarrow> rc_thread \<Rightarrow> nat \<Rightarrow> room_client \<Rightarrow> room_client" where
  "reconnect_new found t e c =
     (if found
      then at t (R_Set e (next_conn c)) (c\<lparr>next_conn := Suc (next_conn c), rc_calls := rc_calls c @ [NewConn (next_conn c)]\<rparr>)
      else at t (R_Cancel e) c)"

definition reconnect_set :: "rc_thread \<Rightarrow> nat \<Rightarrow> nat \<Rightarrow> room_client \<Rightarrow> room_client" where
  "reconnect_set t e i c =
     at t (R_Cancel e) (c\<lparr>rc_conn := Some i, keeps := Suc (keeps c), rc_connected := True\<rparr>)"

text \<open>After \<open>reconnect\<close> the loop goes on and a goroutine is at its end.\<close>

definition reconnect_return :: "rc_thread \<Rightarrow> room_client \<Rightarrow> room_client" where
  "reconnect_return t c =
     (let c1 = at t R_Out c in
      case t of
        Loop \<Rightarrow> c1\<lparr>loop := L_Head\<rparr>
      | Round r \<Rightarrow> c1\<lparr>rounds := (rounds c1)[r := (G_End, snd (rounds c1 ! r))]\<rparr>)"

definition reconnect_cancel :: "rc_thread \<Rightarrow> nat \<Rightarrow> room_client \<Rightarrow> room_client" where
  "reconnect_cancel t e c = reconnect_return t (c\<lparr>execs_done := insert e (execs_done c)\<rparr>)"

subsection \<open>doWithClient\<close>

definition set_round :: "nat \<Rightarrow> rc_goroutine \<Rightarrow> bool \<Rightarrow> room_client \<Rightarrow> room_client" where
  "set_round r g cancelled c = c\<lparr>rounds := (rounds c)[r := (g, cancelled)]\<rparr>"

definition round_reconnect :: "nat \<Rightarrow> bool \<Rightarrow> room_client \<Rightarrow> room_client" where
  "round_reconnect r cancelled c = at (Round r) R_Enter (set_round r G_Reconnect cancelled c)"

definition round_begin :: "nat \<Rightarrow> room_client \<Rightarrow> room_client" where
  "round_begin r c =
     (if rc_closed c then set_round r G_End (snd (rounds c ! r)) c
      else (case rc_conn c of
              None \<Rightarrow> round_reconnect r (snd (rounds c ! r)) c
            | Some i \<Rightarrow> set_round r (G_Call i) (snd (rounds c ! r)) c))"

text \<open>The operation cancels the context of the round when it returns, with or without an error.\<close>

definition round_call :: "nat \<Rightarrow> nat \<Rightarrow> room_client \<Rightarrow> room_client" where
  "round_call r i c =
     (case rc_session c of
        None \<Rightarrow> set_round r G_End True c
      | Some session \<Rightarrow> set_round r (G_Health i session) (snd (rounds c ! r)) c)"

definition round_health :: "bool \<Rightarrow> nat \<Rightarrow> nat \<Rightarrow> client_needed_session \<Rightarrow> room_client \<Rightarrow> room_client" where
  "round_health ok r i session c =
     (let c1 = c\<lparr>rc_calls := rc_calls c @ [ClientHealth i session ok]\<rparr> in
      if ok \<or> rc_closed c then set_round r G_End True c1 else round_reconnect r True c1)"

subsection \<open>keepAlive\<close>

definition keep_start :: "room_client \<Rightarrow> room_client" where
  "keep_start c =
     (let c1 = c\<lparr>keeps := keeps c - 1\<rparr> in
      if loop c = L_Stopped then c1\<lparr>loop := L_Head\<rparr> else c1)"

definition loop_reconnect :: "room_client \<Rightarrow> room_client" where
  "loop_reconnect c = at Loop R_Enter (c\<lparr>loop := L_Reconnect\<rparr>)"

definition loop_round :: "room_client \<Rightarrow> room_client" where
  "loop_round c = c\<lparr>rounds := rounds c @ [(G_Begin, False)], loop := L_Select (length (rounds c))\<rparr>"

definition loop_timeout :: "nat \<Rightarrow> room_client \<Rightarrow> room_client" where
  "loop_timeout r c = loop_reconnect (c\<lparr>rc_calls := rc_calls c @ [TimedOut r]\<rparr>)"

section \<open>Steps\<close>

text \<open>\<open>refresh\<close>: whether \<open>RefreshConn\<close> may be called.\<close>

inductive room_client_step :: "bool \<Rightarrow> room_client \<Rightarrow> room_client \<Rightarrow> bool" for refresh where
  update_session: "room_client_step refresh c (UpdateSession session c)"
| refresh_conn: "refresh \<Longrightarrow> room_client_step refresh c (RefreshConn c)"
| close: "room_client_step refresh c (RoomClient_Close c)"
| connect: "room_client_step refresh c (RoomClient_Connect c)"
| keep: "keeps c > 0 \<Longrightarrow> room_client_step refresh c (keep_start c)"
| stop: "loop c = L_Head \<Longrightarrow> rc_closed c \<Longrightarrow> room_client_step refresh c (c\<lparr>loop := L_Stopped\<rparr>)"
| manual: "loop c = L_Head \<Longrightarrow> manualReconnect c \<Longrightarrow>
    room_client_step refresh c (loop_reconnect (c\<lparr>manualReconnect := False\<rparr>))"
| new_round: "loop c = L_Head \<Longrightarrow> \<not> rc_closed c \<Longrightarrow> \<not> manualReconnect c \<Longrightarrow> room_client_step refresh c (loop_round c)"
| round_done: "loop c = L_Select r \<Longrightarrow> snd (rounds c ! r) \<Longrightarrow> room_client_step refresh c (c\<lparr>loop := L_Timer r\<rparr>)"
| timeout: "loop c = L_Select r \<Longrightarrow> room_client_step refresh c (loop_timeout r c)"
| timer: "loop c = L_Timer r \<Longrightarrow> room_client_step refresh c (c\<lparr>loop := L_Head\<rparr>)"
| g_begin: "r < length (rounds c) \<Longrightarrow> fst (rounds c ! r) = G_Begin \<Longrightarrow> room_client_step refresh c (round_begin r c)"
| g_call: "r < length (rounds c) \<Longrightarrow> fst (rounds c ! r) = G_Call i \<Longrightarrow> room_client_step refresh c (round_call r i c)"
| g_health: "r < length (rounds c) \<Longrightarrow> fst (rounds c ! r) = G_Health i session \<Longrightarrow>
    room_client_step refresh c (round_health ok r i session c)"
| r_enter: "rec_at c t = R_Enter \<Longrightarrow> room_client_step refresh c (reconnect_enter t c)"
| r_close: "rec_at c t = R_Close e \<Longrightarrow> room_client_step refresh c (reconnect_close t e c)"
| r_new: "rec_at c t = R_New e \<Longrightarrow> room_client_step refresh c (reconnect_new found t e c)"
| r_set: "rec_at c t = R_Set e i \<Longrightarrow> room_client_step refresh c (reconnect_set t e i c)"
| r_cancel: "rec_at c t = R_Cancel e \<Longrightarrow> room_client_step refresh c (reconnect_cancel t e c)"
| r_wait: "rec_at c t = R_Wait e \<Longrightarrow> exec_over c e \<Longrightarrow> room_client_step refresh c (reconnect_return t c)"

abbreviation room_client_reachable :: "bool \<Rightarrow> room_client \<Rightarrow> bool" where
  "room_client_reachable refresh \<equiv> reachable (room_client_step refresh) NewRoomClient"

section \<open>One reconnection at a time, no connection lost\<close>

text \<open>The execution a thread is running.\<close>

definition running :: "room_client \<Rightarrow> rc_thread \<Rightarrow> nat option" where
  "running c t = (case rec_at c t of R_Close e \<Rightarrow> Some e | R_New e \<Rightarrow> Some e | R_Set e i \<Rightarrow> Some e | R_Cancel e \<Rightarrow> Some e | _ \<Rightarrow> None)"

definition kept :: "room_client \<Rightarrow> nat \<Rightarrow> bool" where
  "kept c i \<longleftrightarrow> rc_conn c = Some i \<or> CloseConn i \<in> set (rc_calls c) \<or> (\<exists>t e. rec_at c t = R_Set e i)"

definition conn_ok :: "room_client \<Rightarrow> bool" where
  "conn_ok c \<longleftrightarrow>
     (\<forall>e \<in> execs_done c. e < execs c) \<and>
     (\<forall>t e. running c t = Some e \<longrightarrow> Suc e = execs c \<and> e \<notin> execs_done c) \<and>
     (\<forall>t u. running c t \<noteq> None \<longrightarrow> running c u \<noteq> None \<longrightarrow> t = u) \<and>
     (\<forall>t e. rec_at c t = R_New e \<or> (\<exists>i. rec_at c t = R_Set e i) \<longrightarrow>
        (\<forall>i. rc_conn c = Some i \<longrightarrow> CloseConn i \<in> set (rc_calls c))) \<and>
     (\<forall>i < next_conn c. kept c i)"

definition conn_inv :: "room_client \<Rightarrow> bool" where
  "conn_inv c \<longleftrightarrow> (\<not> rc_closed c \<longrightarrow> conn_ok c)"

lemma running_iff:
  "running c t = Some e \<longleftrightarrow> rec_at c t = R_Close e \<or> rec_at c t = R_New e \<or> (\<exists>i. rec_at c t = R_Set e i) \<or> rec_at c t = R_Cancel e"
  by (cases "rec_at c t") (auto simp: running_def)

lemma conn_inv_closed: "rc_closed c \<Longrightarrow> conn_inv c"
  by (simp add: conn_inv_def)

text \<open>A step that does not run inside \<open>reconnect\<close>.\<close>

lemma conn_inv_quiet:
  assumes "conn_inv c" "rc_closed c \<Longrightarrow> rc_closed c'" "execs c' = execs c" "execs_done c' = execs_done c"
    and "rc_conn c' = rc_conn c" "next_conn c' = next_conn c" "set (rc_calls c) \<subseteq> set (rc_calls c')"
    and "\<And>t. rec_at c' t = rec_at c t \<or> running c t = None \<and> running c' t = None"
  shows "conn_inv c'"
proof (cases "rc_closed c'")
  case True
  then show ?thesis by (rule conn_inv_closed)
next
  case False
  have run: "running c' t = running c t" for t using assms(8) [of t] by (auto simp: running_def)
  have new: "rec_at c' t = R_New e \<longleftrightarrow> rec_at c t = R_New e" and set: "rec_at c' t = R_Set e i \<longleftrightarrow> rec_at c t = R_Set e i" for t e i
    using assms(8) [of t] by (auto simp: running_def)
  have "kept c i \<Longrightarrow> kept c' i" for i using assms(5,7) by (auto simp: kept_def set)
  moreover have "conn_ok c" using assms(1,2) False by (auto simp: conn_inv_def)
  ultimately have "conn_ok c'" using assms(7) unfolding conn_ok_def run new set assms(3-6) by blast
  then show ?thesis by (simp add: conn_inv_def)
qed

text \<open>A step of the thread that reconnects: no other thread does.\<close>

lemma conn_inv_own:
  assumes "conn_inv c" "running c t = Some e" "\<And>u. u \<noteq> t \<Longrightarrow> rec_at c' u = rec_at c u" "running c' t = Some e"
    and "rc_closed c' = rc_closed c" "execs c' = execs c" "execs_done c' = execs_done c"
    and "\<And>e i. \<not> rc_closed c \<Longrightarrow> rec_at c' t = R_New e \<or> rec_at c' t = R_Set e j \<Longrightarrow> rc_conn c' = Some i \<Longrightarrow> CloseConn i \<in> set (rc_calls c')"
    and "\<And>i. i < next_conn c' \<Longrightarrow> (\<And>i. i < next_conn c \<Longrightarrow> kept c i) \<Longrightarrow> kept c' i"
    and "\<And>e i. rec_at c' t = R_Set e i \<Longrightarrow> i = j"
  shows "conn_inv c'"
proof (cases "rc_closed c")
  case True
  with assms(5) show ?thesis by (intro conn_inv_closed) simp
next
  case False
  then have ok: "conn_ok c" using assms(1) by (simp add: conn_inv_def)
  then have one: "running c u \<noteq> None \<Longrightarrow> u = t" for u using assms(2) unfolding conn_ok_def by blast
  have run: "running c' u = running c u" for u
    using assms(2,4) assms(3) [of u] by (cases "u = t") (auto simp: running_def)
  have new: "rec_at c' u = R_New d \<or> (\<exists>i. rec_at c' u = R_Set d i) \<Longrightarrow> u = t" for u d
  proof -
    assume "rec_at c' u = R_New d \<or> (\<exists>i. rec_at c' u = R_Set d i)"
    then have "running c' u = Some d" by (auto simp: running_iff)
    with run [of u] have "running c u = Some d" by simp
    then have "running c u \<noteq> None" by simp
    then show "u = t" by (rule one)
  qed
  have "\<forall>u e. rec_at c' u = R_New e \<or> (\<exists>i. rec_at c' u = R_Set e i) \<longrightarrow>
      (\<forall>i. rc_conn c' = Some i \<longrightarrow> CloseConn i \<in> set (rc_calls c'))"
    using new assms(8,10) False by blast
  moreover have "\<forall>i < next_conn c'. kept c' i" using assms(9) ok unfolding conn_ok_def by blast
  ultimately have "conn_ok c'" using ok unfolding conn_ok_def run assms(6,7) by blast
  then show ?thesis by (simp add: conn_inv_def)
qed

lemma reconnect_enter_inv:
  assumes "conn_inv c" "rec_at c t = R_Enter"
  shows "conn_inv (reconnect_enter t c)"
proof (cases "rc_closed c")
  case True
  then show ?thesis by (intro conn_inv_closed) (simp add: reconnect_enter_def at_def)
next
  case opn: False
  then have ok: "conn_ok c" using assms(1) by (simp add: conn_inv_def)
  show ?thesis
  proof (cases "execs c = 0 \<or> exec_over c (execs c - 1)")
    case False
    then show ?thesis
      by (intro conn_inv_quiet [OF assms(1)]) (auto simp: reconnect_enter_def at_def running_def assms(2))
  next
    case True
    let ?c = "at t (R_Close (execs c)) (c\<lparr>execs := Suc (execs c)\<rparr>)"
    have idle: "running c u = None" for u
    proof (rule ccontr)
      assume "running c u \<noteq> None"
      then obtain e where "Suc e = execs c" "e \<notin> execs_done c" using ok unfolding conn_ok_def by auto
      moreover from this have "execs c - 1 = e" by simp
      ultimately show False using True opn by (auto simp: exec_over_def)
    qed
    then have run: "running ?c u = (if u = t then Some (execs c) else None)" for u
      by (auto simp: running_def at_def)
    have rec: "rec_at ?c u = (if u = t then R_Close (execs c) else rec_at c u)" for u by (simp add: at_def)
    have none: "rec_at c u \<noteq> R_New e" "rec_at c u \<noteq> R_Set e i" for u e i
      using idle [of u] by (auto simp: running_def)
    have "kept c i \<Longrightarrow> kept ?c i" for i by (auto simp: kept_def none) (simp_all add: at_def)
    moreover have "\<forall>e \<in> execs_done ?c. e < execs ?c" "execs c \<notin> execs_done ?c" "next_conn ?c = next_conn c" "execs ?c = Suc (execs c)"
      using ok unfolding conn_ok_def by (auto simp: at_def)
    ultimately have "conn_ok ?c" using ok unfolding conn_ok_def run rec by (simp add: none)
    then have "conn_inv ?c" by (simp add: conn_inv_def)
    with True show ?thesis by (simp add: reconnect_enter_def)
  qed
qed

lemma kept_own:
  assumes "kept c i" "\<And>e. rec_at c t \<noteq> R_Set e i" "rc_conn c' = rc_conn c" "set (rc_calls c) \<subseteq> set (rc_calls c')"
    and "\<And>u. u \<noteq> t \<Longrightarrow> rec_at c' u = rec_at c u"
  shows "kept c' i"
  using assms unfolding kept_def by (metis subsetD)

lemma reconnect_close_inv:
  assumes "conn_inv c" "rec_at c t = R_Close e"
  shows "conn_inv (reconnect_close t e c)"
proof (rule conn_inv_own [OF assms(1), of t e _ 0])
  fix i
  assume "\<And>i. i < next_conn c \<Longrightarrow> kept c i" "i < next_conn (reconnect_close t e c)"
  then have "kept c i" by (simp add: reconnect_close_def at_def split: option.splits)
  then show "kept (reconnect_close t e c) i"
    by (rule kept_own [of c i t]) (use assms(2) in \<open>auto simp: reconnect_close_def at_def split: option.split\<close>)
qed (use assms(2) in \<open>auto simp: reconnect_close_def at_def running_def split: option.splits\<close>)

lemma reconnect_new_inv:
  assumes "conn_inv c" "rec_at c t = R_New e"
  shows "conn_inv (reconnect_new found t e c)"
proof (rule conn_inv_own [OF assms(1), of t e _ "next_conn c"])
  fix i
  assume i: "\<And>i. i < next_conn c \<Longrightarrow> kept c i" "i < next_conn (reconnect_new found t e c)"
  show "kept (reconnect_new found t e c) i"
  proof (cases "i < next_conn c")
    case True
    from i(1) [OF this] show ?thesis
      by (rule kept_own [of c i t]) (use assms(2) in \<open>auto simp: reconnect_new_def at_def\<close>)
  next
    case False
    with i(2) have "found" "i = next_conn c" by (auto simp: reconnect_new_def at_def split: if_splits)
    then have "rec_at (reconnect_new found t e c) t = R_Set e i" by (simp add: reconnect_new_def at_def)
    then show ?thesis unfolding kept_def by blast
  qed
next
  fix d i
  assume "\<not> rc_closed c" "rc_conn (reconnect_new found t e c) = Some i"
  moreover from this(1) have "\<forall>i. rc_conn c = Some i \<longrightarrow> CloseConn i \<in> set (rc_calls c)"
    using assms unfolding conn_inv_def conn_ok_def by blast
  ultimately show "CloseConn i \<in> set (rc_calls (reconnect_new found t e c))"
    by (auto simp: reconnect_new_def at_def split: if_splits)
qed (use assms(2) in \<open>auto simp: reconnect_new_def at_def running_def split: if_splits\<close>)

lemma reconnect_set_inv:
  assumes "conn_inv c" "rec_at c t = R_Set e j"
  shows "conn_inv (reconnect_set t e j c)"
proof (cases "rc_closed c")
  case True
  then show ?thesis by (intro conn_inv_closed) (simp add: reconnect_set_def at_def)
next
  case False
  then have ok: "conn_ok c" using assms(1) by (simp add: conn_inv_def)
  show ?thesis
  proof (rule conn_inv_own [OF assms(1), of t e _ 0])
    fix i
    assume "\<And>i. i < next_conn c \<Longrightarrow> kept c i" "i < next_conn (reconnect_set t e j c)"
    then have "kept c i" by (simp add: reconnect_set_def at_def)
    then consider "rc_conn c = Some i" | "CloseConn i \<in> set (rc_calls c)" | u d where "rec_at c u = R_Set d i"
      unfolding kept_def by blast
    then show "kept (reconnect_set t e j c) i"
    proof cases
      case 1
      with ok assms(2) have "CloseConn i \<in> set (rc_calls c)" unfolding conn_ok_def by blast
      then show ?thesis by (simp add: kept_def reconnect_set_def at_def)
    next
      case 2
      then show ?thesis by (simp add: kept_def reconnect_set_def at_def)
    next
      case (3 u d)
      then have "running c u \<noteq> None" "running c t \<noteq> None" using assms(2) by (simp_all add: running_def)
      with ok have "u = t" unfolding conn_ok_def by blast
      with 3 assms(2) show ?thesis by (simp add: kept_def reconnect_set_def at_def)
    qed
  qed (use assms(2) in \<open>auto simp: reconnect_set_def at_def running_def\<close>)
qed

lemma reconnect_return_frame [simp]:
  "rec_at (reconnect_return t c) u = (if u = t then R_Out else rec_at c u)"
  "rc_closed (reconnect_return t c) = rc_closed c" "execs (reconnect_return t c) = execs c"
  "execs_done (reconnect_return t c) = execs_done c" "rc_conn (reconnect_return t c) = rc_conn c"
  "next_conn (reconnect_return t c) = next_conn c" "rc_calls (reconnect_return t c) = rc_calls c"
  "rc_session (reconnect_return t c) = rc_session c" "manualReconnect (reconnect_return t c) = manualReconnect c"
  by (cases t; simp add: reconnect_return_def at_def Let_def)+

lemma reconnect_cancel_inv:
  assumes "conn_inv c" "rec_at c t = R_Cancel e"
  shows "conn_inv (reconnect_cancel t e c)"
proof (cases "rc_closed c")
  case True
  then show ?thesis by (intro conn_inv_closed) (simp add: reconnect_cancel_def)
next
  case False
  then have ok: "conn_ok c" using assms(1) by (simp add: conn_inv_def)
  let ?c = "reconnect_cancel t e c"
  have t: "running c t = Some e" using assms(2) by (simp add: running_def)
  then have none: "running c u = None" if "u \<noteq> t" for u
    using ok that unfolding conn_ok_def by (metis option.distinct(1))
  have run: "running ?c u = None" for u
    using none [of u] by (auto simp: running_def reconnect_cancel_def)
  have quiet: "rec_at ?c u \<noteq> R_New d" "rec_at ?c u \<noteq> R_Set d i" for u d i
    using run [of u] by (auto simp: running_def)
  have "kept c i \<Longrightarrow> kept ?c i" for i
    by (rule kept_own [of c i t]) (use assms(2) in \<open>auto simp: reconnect_cancel_def\<close>)
  moreover have "e < execs c" using ok t unfolding conn_ok_def by (metis lessI)
  ultimately have "conn_ok ?c"
    using ok unfolding conn_ok_def run by (auto simp: quiet) (auto simp: reconnect_cancel_def)
  then show ?thesis by (simp add: conn_inv_def)
qed

text \<open>The threads inside \<open>reconnect\<close> are where they called it.\<close>

definition thread_inv :: "room_client \<Rightarrow> bool" where
  "thread_inv c \<longleftrightarrow> (loop c \<noteq> L_Reconnect \<longrightarrow> rec_at c Loop = R_Out) \<and>
     (\<forall>r. rec_at c (Round r) \<noteq> R_Out \<longrightarrow> r < length (rounds c) \<and> fst (rounds c ! r) = G_Reconnect)"

lemma thread_inv_inside:
  assumes "thread_inv c" "rec_at c t \<noteq> R_Out" "loop c' = loop c" "rounds c' = rounds c" "\<And>u. u \<noteq> t \<Longrightarrow> rec_at c' u = rec_at c u"
  shows "thread_inv c'"
proof -
  have "rec_at c' u \<noteq> R_Out \<Longrightarrow> rec_at c u \<noteq> R_Out" for u using assms(2,5) by (cases "u = t") auto
  with assms(1,3,4) show ?thesis unfolding thread_inv_def by metis
qed

lemma thread_inv_return: "thread_inv c \<Longrightarrow> thread_inv (reconnect_return t c)"
  by (cases t) (auto simp: thread_inv_def reconnect_return_def at_def Let_def nth_list_update)

lemma thread_inv_set_round:
  "thread_inv c \<Longrightarrow> fst (rounds c ! r) \<noteq> G_Reconnect \<Longrightarrow> thread_inv (set_round r g b c)"
  unfolding thread_inv_def set_round_def by simp (metis nth_list_update_neq)

lemma thread_inv_round_reconnect:
  "thread_inv c \<Longrightarrow> r < length (rounds c) \<Longrightarrow> thread_inv (round_reconnect r b c)"
  by (auto simp: thread_inv_def round_reconnect_def at_def set_round_def nth_list_update)

lemma room_client_step_threads:
  assumes "room_client_step refresh c c'" "thread_inv c"
  shows "thread_inv c'"
  using assms(1)
proof cases
  case (r_enter t)
  then show ?thesis by (intro thread_inv_inside [OF assms(2), of t]) (auto simp: reconnect_enter_def at_def)
next
  case (r_close t e)
  then show ?thesis
    by (intro thread_inv_inside [OF assms(2), of t]) (auto simp: reconnect_close_def at_def split: option.split)
next
  case (r_new t e found)
  then show ?thesis by (intro thread_inv_inside [OF assms(2), of t]) (auto simp: reconnect_new_def at_def)
next
  case (r_set t e i)
  then show ?thesis by (intro thread_inv_inside [OF assms(2), of t]) (auto simp: reconnect_set_def at_def)
next
  case (r_cancel t e)
  have "thread_inv (c\<lparr>execs_done := insert e (execs_done c)\<rparr>)" using assms(2) by (simp add: thread_inv_def)
  with r_cancel show ?thesis by (simp add: reconnect_cancel_def thread_inv_return)
next
  case (r_wait t e)
  with assms(2) show ?thesis by (simp add: thread_inv_return)
next
  case (g_begin r)
  with assms(2) show ?thesis
    by (auto simp: round_begin_def thread_inv_set_round thread_inv_round_reconnect split: option.split)
next
  case (g_call r i)
  with assms(2) show ?thesis by (auto simp: round_call_def thread_inv_set_round split: option.split)
next
  case (g_health r i session ok)
  have "thread_inv (c\<lparr>rc_calls := rc_calls c @ [ClientHealth i session ok]\<rparr>)" using assms(2) by (simp add: thread_inv_def)
  with g_health show ?thesis
    by (auto simp: round_health_def Let_def thread_inv_set_round thread_inv_round_reconnect)
next
  case new_round
  with assms(2) show ?thesis by (auto simp: thread_inv_def loop_round_def nth_append)
qed (use assms(2) in \<open>auto simp: thread_inv_def UpdateSession_def RefreshConn_def RoomClient_Close_def RoomClient_Connect_def
    keep_start_def loop_reconnect_def loop_timeout_def at_def Let_def\<close>)

text \<open>The other steps do not run inside \<open>reconnect\<close>.\<close>

lemma room_client_step_conn:
  assumes "room_client_step refresh c c'" "conn_inv c" "thread_inv c"
  shows "conn_inv c'"
  using assms(1)
proof cases
  case (r_enter t)
  with assms(2) show ?thesis by (simp add: reconnect_enter_inv)
next
  case (r_close t e)
  with assms(2) show ?thesis by (simp add: reconnect_close_inv)
next
  case (r_new t e found)
  with assms(2) show ?thesis by (simp add: reconnect_new_inv)
next
  case (r_set t e i)
  with assms(2) show ?thesis by (simp add: reconnect_set_inv)
next
  case (r_cancel t e)
  with assms(2) show ?thesis by (simp add: reconnect_cancel_inv)
next
  case (r_wait t e)
  then show ?thesis by (intro conn_inv_quiet [OF assms(2)]) (auto simp: running_def)
next
  case close
  then show ?thesis by (simp add: conn_inv_def RoomClient_Close_def)
next
  case manual
  with assms(3) have "rec_at c Loop = R_Out" by (simp add: thread_inv_def)
  with manual show ?thesis
    by (intro conn_inv_quiet [OF assms(2)]) (auto simp: loop_reconnect_def at_def running_def)
next
  case (timeout r)
  with assms(3) have "rec_at c Loop = R_Out" by (simp add: thread_inv_def)
  with timeout show ?thesis
    by (intro conn_inv_quiet [OF assms(2)]) (auto simp: loop_timeout_def loop_reconnect_def at_def running_def)
next
  case (g_begin r)
  with assms(3) have "rec_at c (Round r) = R_Out" by (auto simp: thread_inv_def)
  with g_begin show ?thesis
    by (intro conn_inv_quiet [OF assms(2)])
      (auto simp: round_begin_def round_reconnect_def set_round_def at_def running_def split: option.splits)
next
  case (g_call r i)
  then show ?thesis
    by (intro conn_inv_quiet [OF assms(2)]) (auto simp: round_call_def set_round_def split: option.splits)
next
  case (g_health r i session ok)
  with assms(3) have "rec_at c (Round r) = R_Out" by (auto simp: thread_inv_def)
  with g_health show ?thesis
    by (intro conn_inv_quiet [OF assms(2)])
      (auto simp: round_health_def round_reconnect_def set_round_def at_def running_def Let_def)
qed (intro conn_inv_quiet [OF assms(2)]; auto simp: UpdateSession_def RefreshConn_def RoomClient_Connect_def keep_start_def
    loop_round_def Let_def; fail)+

lemma room_client_inv: "room_client_reachable refresh c \<Longrightarrow> thread_inv c \<and> conn_inv c"
proof (induction rule: reachable_invariant)
  case init
  show ?case by (simp add: NewRoomClient_def thread_inv_def conn_inv_def conn_ok_def running_def)
qed (auto intro: room_client_step_threads room_client_step_conn)

section \<open>The first round\<close>

text \<open>
  The goroutine of the first round finds no connection and makes one, but does not cancel the context
  of the round. \<open>round_starved\<close> is what holds until the timer of the round has fired.
\<close>

definition round_starved :: "room_client \<Rightarrow> bool" where
  "round_starved c \<longleftrightarrow>
     (\<forall>i session ok. ClientHealth i session ok \<notin> set (rc_calls c)) \<and>
     (rounds c = [] \<and> (loop c = L_Stopped \<or> loop c = L_Head) \<and> rc_conn c = None \<or>
      (\<exists>g. rounds c = [(g, False)] \<and> loop c = L_Select 0 \<and> (g = G_Begin \<and> rc_conn c = None \<or> g = G_Reconnect \<or> g = G_End)))"

definition first_inv :: "room_client \<Rightarrow> bool" where
  "first_inv c \<longleftrightarrow> \<not> manualReconnect c \<and> (TimedOut 0 \<notin> set (rc_calls c) \<longrightarrow> round_starved c)"

lemma first_inv_timed_out:
  "first_inv c \<Longrightarrow> TimedOut 0 \<in> set (rc_calls c') \<Longrightarrow> \<not> manualReconnect c' \<Longrightarrow> first_inv c'"
  by (simp add: first_inv_def)

lemma starved_inside:
  assumes "round_starved c" "rounds c = [(G_Reconnect, False)]" "rounds c' = rounds c \<or> rounds c' = [(G_End, False)]"
    "loop c' = loop c" "set (rc_calls c') \<subseteq> set (rc_calls c) \<union> range NewConn \<union> range CloseConn"
  shows "round_starved c'"
  using assms by (auto simp: round_starved_def)

lemma starved_thread:
  assumes "round_starved c" "thread_inv c" "rec_at c t \<noteq> R_Out"
  shows "t = Round 0 \<and> rounds c = [(G_Reconnect, False)]"
  using assms by (cases t) (auto simp: round_starved_def thread_inv_def)

lemma reconnect_manual [simp]:
  "manualReconnect (at t r c) = manualReconnect c" "manualReconnect (set_round r' g b c) = manualReconnect c"
  "rounds (at t r c) = rounds c" "loop (at t r c) = loop c" "rc_calls (at t r c) = rc_calls c" "rc_conn (at t r c) = rc_conn c"
  by (simp_all add: at_def set_round_def)

text \<open>What a statement of \<open>reconnect\<close> changes.\<close>

definition inside :: "rc_thread \<Rightarrow> room_client \<Rightarrow> room_client \<Rightarrow> bool" where
  "inside t c c' \<longleftrightarrow> manualReconnect c' = manualReconnect c \<and> set (rc_calls c) \<subseteq> set (rc_calls c') \<and>
     set (rc_calls c') \<subseteq> set (rc_calls c) \<union> range NewConn \<union> range CloseConn \<and>
     (t = Round 0 \<longrightarrow> loop c' = loop c \<and> (rounds c' = rounds c \<or> rounds c' = (rounds c)[0 := (G_End, snd (rounds c ! 0))]))"

lemma inside_return: "inside t c (reconnect_return t c)"
  by (cases t) (auto simp: inside_def reconnect_return_def Let_def)

lemma inside_ops:
  "inside t c (reconnect_enter t c)" "inside t c (reconnect_close t e c)" "inside t c (reconnect_new found t e c)"
  "inside t c (reconnect_set t e i c)" "inside t c (reconnect_cancel t e c)"
proof -
  show "inside t c (reconnect_enter t c)" by (auto simp: inside_def reconnect_enter_def)
  show "inside t c (reconnect_close t e c)" by (cases "rc_conn c") (auto simp: inside_def reconnect_close_def)
  show "inside t c (reconnect_new found t e c)" by (auto simp: inside_def reconnect_new_def)
  show "inside t c (reconnect_set t e i c)" by (auto simp: inside_def reconnect_set_def)
  show "inside t c (reconnect_cancel t e c)"
    using inside_return [of t "c\<lparr>execs_done := insert e (execs_done c)\<rparr>"] by (simp add: inside_def reconnect_cancel_def)
qed

lemma reconnect_steps:
  assumes "inside t c c'" "rec_at c t \<noteq> R_Out" "first_inv c" "thread_inv c"
  shows "first_inv c'"
proof (cases "TimedOut 0 \<in> set (rc_calls c)")
  case True
  with assms(1,3) show ?thesis by (auto simp: first_inv_def inside_def)
next
  case False
  then have st: "round_starved c" using assms(3) by (simp add: first_inv_def)
  from starved_thread [OF st assms(4,2)] have t: "t = Round 0" "rounds c = [(G_Reconnect, False)]" by simp_all
  have "round_starved c'" by (rule starved_inside [OF st t(2)]) (use assms(1) t in \<open>auto simp: inside_def\<close>)
  with assms(1,3) show ?thesis by (simp add: first_inv_def inside_def)
qed

lemma room_client_step_first:
  assumes "room_client_step False c c'" "first_inv c" "thread_inv c"
  shows "first_inv c'"
proof -
  have keep: ?thesis if "manualReconnect c' = manualReconnect c" "set (rc_calls c) \<subseteq> set (rc_calls c')"
      "round_starved c \<Longrightarrow> round_starved c' \<or> TimedOut 0 \<in> set (rc_calls c')"
    using that assms(2) by (auto simp: first_inv_def)
  show ?thesis
    using assms(1)
  proof cases
    case (r_enter t)
    show ?thesis unfolding r_enter(1) by (rule reconnect_steps [OF inside_ops(1) _ assms(2,3)]) (simp add: r_enter(2))
  next
    case (r_close t e)
    show ?thesis unfolding r_close(1) by (rule reconnect_steps [OF inside_ops(2) _ assms(2,3)]) (simp add: r_close(2))
  next
    case (r_new t e found)
    show ?thesis unfolding r_new(1) by (rule reconnect_steps [OF inside_ops(3) _ assms(2,3)]) (simp add: r_new(2))
  next
    case (r_set t e i)
    show ?thesis unfolding r_set(1) by (rule reconnect_steps [OF inside_ops(4) _ assms(2,3)]) (simp add: r_set(2))
  next
    case (r_cancel t e)
    show ?thesis unfolding r_cancel(1) by (rule reconnect_steps [OF inside_ops(5) _ assms(2,3)]) (simp add: r_cancel(2))
  next
    case (r_wait t e)
    show ?thesis unfolding r_wait(1) by (rule reconnect_steps [OF inside_return _ assms(2,3)]) (simp add: r_wait(2))
  next
    case manual
    with assms(2) show ?thesis by (simp add: first_inv_def)
  next
    case (g_begin r)
    then show ?thesis
      by (intro keep) (auto simp: round_begin_def round_reconnect_def round_starved_def set_round_def split: option.splits)
  next
    case (g_call r i)
    then show ?thesis by (intro keep) (auto simp: round_call_def round_starved_def set_round_def split: option.splits)
  next
    case (g_health r i session ok)
    then show ?thesis
      by (intro keep) (auto simp: round_health_def round_reconnect_def round_starved_def set_round_def Let_def)
  next
    case (timeout r)
    then show ?thesis by (intro keep) (auto simp: loop_timeout_def loop_reconnect_def round_starved_def)
  qed (intro keep; auto simp: UpdateSession_def RoomClient_Close_def RoomClient_Connect_def keep_start_def loop_round_def
      round_starved_def Let_def; fail)+
qed

lemma first_reachable: "room_client_reachable False c \<Longrightarrow> thread_inv c \<and> first_inv c"
proof (induction rule: reachable_invariant)
  case init
  show ?case by (simp add: NewRoomClient_def thread_inv_def first_inv_def round_starved_def)
qed (auto intro: room_client_step_threads room_client_step_first)

section \<open>Properties\<close>

definition demo_room_session :: client_needed_session where
  "demo_room_session = \<lparr>Session = ''s'', User = ''u''\<rparr>"

text \<open>A client that connects, times out, reconnects and sends its first health call.\<close>

definition demo_connected :: room_client where
  "demo_connected = NewRoomClient\<lparr>rc_session := Some demo_room_session, rc_connected := True, rc_conn := Some 0, next_conn := 1,
      keeps := 1, loop := L_Select 0, rounds := [(G_End, False)], execs := 1, execs_done := {0}, rc_calls := [NewConn 0]\<rparr>"

lemma demo_room_client_connects: "room_client_reachable False demo_connected"
proof -
  let ?step = "room_client_step False"
  define c1 where "c1 = UpdateSession demo_room_session NewRoomClient"
  define c2 where "c2 = RoomClient_Connect c1"
  define c3 where "c3 = keep_start c2"
  define c4 where "c4 = loop_round c3"
  define c5 where "c5 = round_begin 0 c4"
  define d1 where "d1 = reconnect_enter (Round 0) c5"
  define d2 where "d2 = reconnect_close (Round 0) 0 d1"
  define d3 where "d3 = reconnect_new True (Round 0) 0 d2"
  define d4 where "d4 = reconnect_set (Round 0) 0 0 d3"
  define d5 where "d5 = reconnect_cancel (Round 0) 0 d4"
  note ops = NewRoomClient_def UpdateSession_def RoomClient_Connect_def keep_start_def loop_round_def round_begin_def
    round_reconnect_def set_round_def reconnect_enter_def reconnect_close_def reconnect_new_def reconnect_set_def
    reconnect_cancel_def reconnect_return_def loop_timeout_def loop_reconnect_def round_call_def round_health_def at_def
    exec_over_def Let_def
  have v3: "c3 = NewRoomClient\<lparr>rc_session := Some demo_room_session, loop := L_Head\<rparr>"
    by (simp add: c3_def c2_def c1_def ops)
  have v5: "c5 = NewRoomClient\<lparr>rc_session := Some demo_room_session, loop := L_Select 0, rounds := [(G_Reconnect, False)],
      rec_at := (\<lambda>_. R_Out)(Round 0 := R_Enter)\<rparr>"
    by (simp add: c5_def c4_def v3 ops)
  have vd1: "d1 = NewRoomClient\<lparr>rc_session := Some demo_room_session, loop := L_Select 0, rounds := [(G_Reconnect, False)],
      rec_at := (\<lambda>_. R_Out)(Round 0 := R_Close 0), execs := 1\<rparr>"
    by (simp add: d1_def v5 ops)
  have vd5: "d5 = demo_connected"
    by (simp add: d5_def d4_def d3_def d2_def vd1 demo_connected_def ops fun_eq_iff)
  have "room_client_reachable False c1"
    unfolding c1_def by (rule reachable_first) (rule room_client_step.update_session)
  moreover have "?step c1 c2" unfolding c2_def by (rule room_client_step.connect)
  ultimately have "room_client_reachable False c2" by (rule reachable_step)
  moreover have "?step c2 c3" unfolding c3_def by (rule room_client_step.keep) (simp add: c2_def ops)
  ultimately have "room_client_reachable False c3" by (rule reachable_step)
  moreover have "?step c3 c4" unfolding c4_def by (rule room_client_step.new_round) (simp_all add: v3 ops)
  ultimately have "room_client_reachable False c4" by (rule reachable_step)
  moreover have "?step c4 c5" unfolding c5_def by (rule room_client_step.g_begin) (simp_all add: c4_def v3 ops)
  ultimately have "room_client_reachable False c5" by (rule reachable_step)
  moreover have "?step c5 d1" unfolding d1_def by (rule room_client_step.r_enter) (simp add: v5)
  ultimately have "room_client_reachable False d1" by (rule reachable_step)
  moreover have "?step d1 d2" unfolding d2_def by (rule room_client_step.r_close) (simp add: vd1)
  ultimately have "room_client_reachable False d2" by (rule reachable_step)
  moreover have "?step d2 d3" unfolding d3_def by (rule room_client_step.r_new) (simp add: d2_def vd1 ops)
  ultimately have "room_client_reachable False d3" by (rule reachable_step)
  moreover have "?step d3 d4" unfolding d4_def by (rule room_client_step.r_set) (simp add: d3_def d2_def vd1 ops)
  ultimately have "room_client_reachable False d4" by (rule reachable_step)
  moreover have "?step d4 d5" unfolding d5_def by (rule room_client_step.r_cancel) (simp add: d4_def ops)
  ultimately show ?thesis unfolding vd5 [symmetric] by (rule reachable_step)
qed

lemma demo_room_client_run:
  obtains c where "room_client_reachable False c" "length (rounds c) = 2" "\<not> rc_closed c" "next_conn c = 2" "rc_conn c = Some 1"
    "rec_at c = (\<lambda>_. R_Out)"
    "rc_calls c = [NewConn 0, TimedOut 0, CloseConn 0, NewConn 1, ClientHealth 1 demo_room_session True]"
proof -
  let ?step = "room_client_step False"
  define e0 where "e0 = loop_timeout 0 demo_connected"
  define e1 where "e1 = reconnect_enter Loop e0"
  define e2 where "e2 = reconnect_close Loop 1 e1"
  define e3 where "e3 = reconnect_new True Loop 1 e2"
  define e4 where "e4 = reconnect_set Loop 1 1 e3"
  define e5 where "e5 = reconnect_cancel Loop 1 e4"
  define f1 where "f1 = loop_round e5"
  define f2 where "f2 = round_begin 1 f1"
  define f3 where "f3 = round_call 1 1 f2"
  define f4 where "f4 = round_health True 1 1 demo_room_session f3"
  note ops = NewRoomClient_def UpdateSession_def RoomClient_Connect_def keep_start_def loop_round_def round_begin_def
    round_reconnect_def set_round_def reconnect_enter_def reconnect_close_def reconnect_new_def reconnect_set_def
    reconnect_cancel_def reconnect_return_def loop_timeout_def loop_reconnect_def round_call_def round_health_def at_def
    exec_over_def Let_def
  have ve1: "e1 = demo_connected\<lparr>loop := L_Reconnect, rec_at := (\<lambda>_. R_Out)(Loop := R_Close 1), execs := 2,
      rc_calls := [NewConn 0, TimedOut 0]\<rparr>"
    by (simp add: e1_def e0_def demo_connected_def ops numeral_2_eq_2)
  have ve5: "e5 = demo_connected\<lparr>rc_conn := Some 1, next_conn := 2, keeps := 2, loop := L_Head, execs := 2, execs_done := {1, 0},
      rc_calls := [NewConn 0, TimedOut 0, CloseConn 0, NewConn 1]\<rparr>"
    by (simp add: e5_def e4_def e3_def e2_def ve1 demo_connected_def ops fun_eq_iff numeral_2_eq_2)
  have vf2: "f2 = e5\<lparr>rounds := [(G_End, False), (G_Call 1, False)], loop := L_Select 1\<rparr>"
    by (simp add: f2_def f1_def ve5 demo_connected_def ops)
  have vf3: "f3 = e5\<lparr>rounds := [(G_End, False), (G_Health 1 demo_room_session, False)], loop := L_Select 1\<rparr>"
    by (simp add: f3_def vf2 ve5 demo_connected_def ops)
  have "?step demo_connected e0" unfolding e0_def by (rule room_client_step.timeout) (simp add: demo_connected_def)
  with demo_room_client_connects have "room_client_reachable False e0" by (rule reachable_step)
  moreover have "?step e0 e1" unfolding e1_def by (rule room_client_step.r_enter) (simp add: e0_def ops)
  ultimately have "room_client_reachable False e1" by (rule reachable_step)
  moreover have "?step e1 e2" unfolding e2_def by (rule room_client_step.r_close) (simp add: ve1)
  ultimately have "room_client_reachable False e2" by (rule reachable_step)
  moreover have "?step e2 e3" unfolding e3_def by (rule room_client_step.r_new) (simp add: e2_def ops)
  ultimately have "room_client_reachable False e3" by (rule reachable_step)
  moreover have "?step e3 e4"
    unfolding e4_def by (rule room_client_step.r_set) (simp add: e3_def e2_def ve1 demo_connected_def ops)
  ultimately have "room_client_reachable False e4" by (rule reachable_step)
  moreover have "?step e4 e5" unfolding e5_def by (rule room_client_step.r_cancel) (simp add: e4_def ops)
  ultimately have "room_client_reachable False e5" by (rule reachable_step)
  moreover have "?step e5 f1" unfolding f1_def by (rule room_client_step.new_round) (simp_all add: ve5 demo_connected_def ops)
  ultimately have "room_client_reachable False f1" by (rule reachable_step)
  moreover have "?step f1 f2" unfolding f2_def by (rule room_client_step.g_begin) (simp_all add: f1_def ve5 demo_connected_def ops)
  ultimately have "room_client_reachable False f2" by (rule reachable_step)
  moreover have "?step f2 f3" unfolding f3_def by (rule room_client_step.g_call) (simp_all add: vf2)
  ultimately have "room_client_reachable False f3" by (rule reachable_step)
  moreover have "?step f3 f4" unfolding f4_def by (rule room_client_step.g_health) (simp_all add: vf3)
  ultimately have r: "room_client_reachable False f4" by (rule reachable_step)
  show ?thesis by (rule that [OF r]) (simp_all add: f4_def vf3 ve5 demo_connected_def ops)
qed

text \<open>
  C19. A room client loses no connection while it is open: whatever its loop, its health goroutines
  and their reconnections do, every connection the factory ever made is the current one, has been
  closed, or is about to be installed; and no two threads reconnect at the same time.
\<close>

theorem room_client_keeps_connections:
  assumes "room_client_reachable refresh c" and "\<not> rc_closed c"
  shows "(\<forall>i < next_conn c. rc_conn c = Some i \<or> CloseConn i \<in> set (rc_calls c) \<or> (\<exists>t e. rec_at c t = R_Set e i)) \<and>
    (\<forall>t u. running c t \<noteq> None \<longrightarrow> running c u \<noteq> None \<longrightarrow> t = u)"
  using room_client_inv [OF assms(1)] assms(2) by (simp add: conn_inv_def conn_ok_def kept_def)

theorem room_client_keeps_connections_witness:
  "\<exists>c. room_client_reachable False c \<and> next_conn c = 2 \<and> rc_conn c = Some 1 \<and> CloseConn 0 \<in> set (rc_calls c)"
proof -
  obtain c where c: "room_client_reachable False c" "\<not> rc_closed c" "next_conn c = 2" "rc_conn c = Some 1" "rec_at c = (\<lambda>_. R_Out)"
    using demo_room_client_run by metis
  from room_client_keeps_connections [OF c(1,2)] c(3) have "rc_conn c = Some 0 \<or> CloseConn 0 \<in> set (rc_calls c) \<or> (\<exists>t e. rec_at c t = R_Set e 0)"
    by simp
  with c show ?thesis by (intro exI [of _ c]) simp
qed

text \<open>
  The first round of a room client always starves: the goroutine that makes the connection does not
  cancel the context of its round, so unless the connection is refreshed by hand the room gets no
  health call, and no second round begins, before the timer of the first round has fired and the loop
  reconnects.
\<close>

theorem room_client_first_round:
  assumes "room_client_reachable False c"
    and "length (rounds c) > 1 \<or> ClientHealth i session ok \<in> set (rc_calls c)"
  shows "TimedOut 0 \<in> set (rc_calls c)"
  using first_reachable [OF assms(1)] assms(2) by (auto simp: first_inv_def round_starved_def)

theorem room_client_first_round_witness:
  "\<exists>c. room_client_reachable False c \<and> ClientHealth 1 demo_room_session True \<in> set (rc_calls c) \<and> TimedOut 0 \<in> set (rc_calls c)"
proof -
  obtain c where c: "room_client_reachable False c" "ClientHealth 1 demo_room_session True \<in> set (rc_calls c)"
    by (rule demo_room_client_run) simp
  from room_client_first_round [OF c(1)] c show ?thesis by blast
qed

end
