(* ===== verification/Node_Assembly.thy ===== *)
theory Node_Assembly
  imports ISLB_Node Syncer ISGLB_Service
begin

text \<open>
  How the nodes are put together, started and closed: \<open>Node.Start\<close> and \<open>Close\<close> of \<open>pkg/islb/node.go\<close>,
  the ISGLB (\<open>pkg/isglb/isglb.go\<close>), the ISLB (\<open>pkg/islb/islb.go\<close>), the SFU (\<open>pkg/sfu/sfu.go\<close>) and the
  SXU (\<open>pkg/sxu/sxu.go\<close>) with the tool box it gives its syncer (\<open>pkg/sxu/interfaces.go\<close>). Every call of
  NATS, of nats-discovery, of nats-grpc and of ion-sfu is an entry of a log; whether a call succeeds is
  an argument (\<open>node_env\<close>), a function of the calls made before. A call that fails gives a nil pointer.
\<close>

section \<open>The node\<close>

datatype node_io =
    Nats_Connect string
  | Nats_Close
  | Ndc_New
  | Ndc_Close
  | Nrpc_New string
  | Nrpc_Stop
  | Registry_New
  | Registry_Listen
  | Registry_Close
  | Ion_SFU_New
  | Register_RTC
  | Register_ISGLB
  | Register_Reflection
  | Go_KeepAlive discovery_node
  | Go_Watch

record node_env =
  nats_ok :: "node_io list \<Rightarrow> bool"
  ndc_ok :: "node_io list \<Rightarrow> bool"
  registry_ok :: "node_io list \<Rightarrow> bool"
  listen_ok :: "node_io list \<Rightarrow> bool"
  NGRPC :: string

text \<open>Of the three pointers of a node it matters whether they are nil.\<close>

record node_life =
  NL_NID :: string
  has_nc :: bool
  has_ndc :: bool
  has_nrpc :: bool
  node_log :: "node_io list"

definition new_node_life :: "string \<Rightarrow> node_life" where
  "new_node_life nid = \<lparr>NL_NID = nid, has_nc = False, has_ndc = False, has_nrpc = False, node_log = []\<rparr>"

definition io :: "node_io \<Rightarrow> node_life \<Rightarrow> node_life" where
  "io i n = n\<lparr>node_log := node_log n @ [i]\<rparr>"

definition Node_Close :: "node_life \<Rightarrow> node_life" where
  "Node_Close n =
     (let n1 = (if has_nrpc n then io Nrpc_Stop n else n);
          n2 = (if has_nc n1 then io Nats_Close n1 else n1) in
      if has_ndc n2 then io Ndc_Close n2 else n2)"

text \<open>The result is False when an error is returned.\<close>

definition Node_Start :: "node_env \<Rightarrow> string \<Rightarrow> node_life \<Rightarrow> bool \<times> node_life" where
  "Node_Start E natURL n =
     (let n1 = (io (Nats_Connect natURL) n)\<lparr>has_nc := nats_ok E (node_log n)\<rparr> in
      if \<not> nats_ok E (node_log n) then (False, Node_Close n1)
      else
        (let n2 = (io Ndc_New n1)\<lparr>has_ndc := ndc_ok E (node_log n1)\<rparr> in
         if \<not> ndc_ok E (node_log n1) then (False, Node_Close n2)
         else (True, (io (Nrpc_New (NL_NID n2)) n2)\<lparr>has_nrpc := True\<rparr>)))"

section \<open>Configurations and announcements\<close>

record common_conf =
  Global_Dc :: string
  Log_Level :: string
  Nats_URL :: string

definition ServiceISGLB :: string where "ServiceISGLB = ''isglb''"

text \<open>The record every node keeps alive at the discovery, and the two goroutines that follow.\<close>

definition announcement :: "node_env \<Rightarrow> common_conf \<Rightarrow> string \<Rightarrow> (string, iface) gomap \<Rightarrow> node_life \<Rightarrow> discovery_node" where
  "announcement E conf service extra n =
     \<lparr>DC = Global_Dc conf, DN_Service = service, NID = NL_NID n,
      RPC = \<lparr>Protocol = NGRPC E, RPC_Addr = Nats_URL conf, Params = Map.empty\<rparr>, ExtraInfo = extra\<rparr>"

definition announce :: "node_env \<Rightarrow> common_conf \<Rightarrow> string \<Rightarrow> (string, iface) gomap \<Rightarrow> node_life \<Rightarrow> node_life" where
  "announce E conf service extra n =
     io Go_Watch (io (Go_KeepAlive (announcement E conf service extra n)) (io Register_Reflection n))"

section \<open>ISGLB, SFU and ISLB\<close>

record 'a isglb_node =
  lb_node :: node_life
  lb_service :: "'a isglb_state option"
  algC :: 'a

definition ISGLB_NewWithID :: "string \<Rightarrow> 'a \<Rightarrow> 'a isglb_node" where
  "ISGLB_NewWithID ID algConstructor = \<lparr>lb_node = new_node_life ID, lb_service = None, algC = algConstructor\<rparr>"

definition ISGLB_New :: "string \<Rightarrow> 'a \<Rightarrow> 'a isglb_node" where
  "ISGLB_New rnd algConstructor = ISGLB_NewWithID (''isglb-'' @ rnd) algConstructor"

definition ISGLB_Close :: "'a isglb_node \<Rightarrow> 'a isglb_node" where
  "ISGLB_Close s = s\<lparr>lb_node := Node_Close (lb_node s)\<rparr>"

definition ISGLB_StartGRPC :: "'a isglb_node \<Rightarrow> bool \<times> 'a isglb_node" where
  "ISGLB_StartGRPC s = (True, s\<lparr>lb_service := Some (isglb_init (algC s)), lb_node := io Register_ISGLB (lb_node s)\<rparr>)"

definition ISGLB_Start :: "node_env \<Rightarrow> common_conf \<Rightarrow> 'a isglb_node \<Rightarrow> bool \<times> 'a isglb_node" where
  "ISGLB_Start E conf s =
     (case Node_Start E (Nats_URL conf) (lb_node s) of
        (False, n) \<Rightarrow> (False, ISGLB_Close (s\<lparr>lb_node := n\<rparr>))
      | (True, n) \<Rightarrow> (True, s\<lparr>lb_service := Some (isglb_init (algC s)),
            lb_node := announce E conf ServiceISGLB Map.empty (io Register_ISGLB n)\<rparr>))"

text \<open>The service of an SFU is given to \<open>Start\<close>; it is not looked at.\<close>

record 's sfu_node =
  sf_node :: node_life
  sf_service :: "'s option"

definition NewSFU :: "string \<Rightarrow> 's sfu_node" where
  "NewSFU ID = \<lparr>sf_node = new_node_life ID, sf_service = None\<rparr>"

definition SFU_Close :: "'s sfu_node \<Rightarrow> 's sfu_node" where
  "SFU_Close s = s\<lparr>sf_node := Node_Close (sf_node s)\<rparr>"

definition SFU_Start :: "node_env \<Rightarrow> common_conf \<Rightarrow> 's \<Rightarrow> 's sfu_node \<Rightarrow> bool \<times> 's sfu_node" where
  "SFU_Start E conf ss s =
     (case Node_Start E (Nats_URL conf) (sf_node s) of
        (False, n) \<Rightarrow> (False, SFU_Close (s\<lparr>sf_node := n\<rparr>))
      | (True, n) \<Rightarrow> (True, s\<lparr>sf_service := Some ss,
            sf_node := announce E conf ServiceSXU Map.empty (io Register_RTC n)\<rparr>))"

text \<open>\<open>NewRegistry\<close> with its two errors; a registry that cannot listen is closed again.\<close>

definition start_registry :: "node_env \<Rightarrow> string \<Rightarrow> node_life \<Rightarrow> Registry option \<times> node_life" where
  "start_registry E datacenter n =
     (let n1 = io Registry_New n in
      if \<not> registry_ok E (node_log n) then (None, n1)
      else
        (let n2 = io Registry_Listen n1 in
         if \<not> listen_ok E (node_log n1) then (None, io Registry_Close n2)
         else (Some (NewRegistry datacenter), n2)))"

text \<open>The service \<open>islb\<close> is a constant of ion (\<open>proto.ServiceISLB\<close>), an argument here.\<close>

record islb_node =
  il_node :: node_life
  il_registry :: "Registry option"

definition NewISLB :: "string \<Rightarrow> islb_node" where
  "NewISLB rnd = \<lparr>il_node = new_node_life (''islb-'' @ rnd), il_registry = None\<rparr>"

definition ISLB_Close :: "islb_node \<Rightarrow> islb_node" where
  "ISLB_Close i =
     (let i1 = i\<lparr>il_node := Node_Close (il_node i)\<rparr> in
      if il_registry i1 \<noteq> None then i1\<lparr>il_node := io Registry_Close (il_node i1)\<rparr> else i1)"

definition ISLB_Start :: "node_env \<Rightarrow> string \<Rightarrow> common_conf \<Rightarrow> islb_node \<Rightarrow> bool \<times> islb_node" where
  "ISLB_Start E ServiceISLB conf i =
     (case Node_Start E (Nats_URL conf) (il_node i) of
        (False, n) \<Rightarrow> (False, ISLB_Close (i\<lparr>il_node := n\<rparr>))
      | (True, n) \<Rightarrow>
          (case start_registry E (Global_Dc conf) n of
             (None, n1) \<Rightarrow> (False, i\<lparr>il_node := n1, il_registry := None\<rparr>)
           | (Some r, n1) \<Rightarrow> (True, i\<lparr>il_registry := Some r, il_node := announce E conf ServiceISLB Map.empty n1\<rparr>)))"

section \<open>The tool box of an SXU\<close>

text \<open>
  The implementations of the five interfaces; those from outside are told apart by a number. A
  forward router carries the builder of its interceptors.
\<close>

datatype track_forwarder = Forward_Router "nat option" | Stupid_TrackForwarder | Own_TrackForwarder nat
datatype track_processor = Proceed_Router nat | Stupid_TrackProcesser | Own_TrackProcessor nat
datatype transmission_reporter = Interceptor_Reporter nat | Stupid_TransmissionReporter | Own_TransmissionReporter nat
datatype computation_reporter = Processor_Reporter nat | Stupid_ComputationReporter | Own_ComputationReporter nat
datatype session_tracker = SFU_Service_Tracker | Stupid_SessionTracker | Own_SessionTracker nat

record tool_box =
  TrackForwarder :: "track_forwarder option"
  TrackProcessor :: "track_processor option"
  TransmissionReporter :: "transmission_reporter option"
  ComputationReporter :: "computation_reporter option"
  SessionTracker :: "session_tracker option"

definition empty_box :: tool_box where
  "empty_box = \<lparr>TrackForwarder = None, TrackProcessor = None, TransmissionReporter = None,
     ComputationReporter = None, SessionTracker = None\<rparr>"

text \<open>
  An option changes the tool box and, through the SXU it may hold, \<open>TrackSession\<close> of its SFU service
  (\<open>None\<close> is the nil pointer); it may panic.
\<close>

type_synonym with_option = "bool option \<Rightarrow> tool_box \<Rightarrow> (bool option \<times> tool_box) option"

definition WithSessionTracker :: with_option where
  "WithSessionTracker svc box =
     (case svc of None \<Rightarrow> None | Some _ \<Rightarrow> Some (Some True, box\<lparr>SessionTracker := Some SFU_Service_Tracker\<rparr>))"

definition WithProcessorReporter :: "nat option \<Rightarrow> with_option" where
  "WithProcessorReporter pro svc box =
     (case pro of
        None \<Rightarrow> Some (svc, box)
      | Some p \<Rightarrow> Some (svc, box\<lparr>TrackProcessor := Some (Proceed_Router p), ComputationReporter := Some (Processor_Reporter p)\<rparr>))"

definition WithTransmissionReporter :: "nat \<Rightarrow> with_option" where
  "WithTransmissionReporter r svc box = Some (svc, box\<lparr>TransmissionReporter := Some (Interceptor_Reporter r)\<rparr>)"

text \<open>
  The options of the forward router: each is called with the router by value, so what an option
  assigns, it assigns to a copy. A router is the builder in its factory.
\<close>

type_synonym forward_router_option = "nat option \<Rightarrow> nat option"

definition WithPubIRFBuilderFactory :: "nat \<Rightarrow> forward_router_option" where
  "WithPubIRFBuilderFactory irfbf r = Some irfbf"

fun call_options :: "forward_router_option list \<Rightarrow> nat option \<Rightarrow> nat option" where
  "call_options [] r = r"
| "call_options (w # ws) r = (let copy = w r in call_options ws r)"

definition WithTrackForwarder :: "forward_router_option list \<Rightarrow> with_option" where
  "WithTrackForwarder ws svc box = Some (svc, box\<lparr>TrackForwarder := Some (Forward_Router (call_options ws None))\<rparr>)"

fun apply_options :: "with_option list \<Rightarrow> with_option" where
  "apply_options [] svc box = Some (svc, box)"
| "apply_options (w # ws) svc box =
     (case w svc box of None \<Rightarrow> None | Some (svc', box') \<Rightarrow> apply_options ws svc' box')"

definition unless_set :: "(tool_box \<Rightarrow> 'c option) \<Rightarrow> with_option \<Rightarrow> with_option" where
  "unless_set field w svc box = (case field box of None \<Rightarrow> w svc box | Some _ \<Rightarrow> Some (svc, box))"

definition DefaultToolBoxBuilder_Build :: "with_option list \<Rightarrow> bool option \<Rightarrow> (bool option \<times> tool_box) option" where
  "DefaultToolBoxBuilder_Build ws svc =
     apply_options (ws @
       [unless_set TrackForwarder (WithTrackForwarder []),
        unless_set TrackProcessor (\<lambda>svc t. Some (svc, t\<lparr>TrackProcessor := Some Stupid_TrackProcesser\<rparr>)),
        unless_set SessionTracker WithSessionTracker,
        unless_set TransmissionReporter (\<lambda>svc t. Some (svc, t\<lparr>TransmissionReporter := Some Stupid_TransmissionReporter\<rparr>)),
        unless_set ComputationReporter (\<lambda>svc t. Some (svc, t\<lparr>ComputationReporter := Some Stupid_ComputationReporter\<rparr>))])
       svc empty_box"

text \<open>What the constructor of the syncer puts for what is missing.\<close>

definition orElse :: "'c option \<Rightarrow> 'c \<Rightarrow> 'c option" where
  "orElse x d = (case x of None \<Rightarrow> Some d | Some y \<Rightarrow> Some y)"

definition syncer_box :: "tool_box \<Rightarrow> tool_box" where
  "syncer_box t = \<lparr>TrackForwarder = orElse (TrackForwarder t) Stupid_TrackForwarder,
     TrackProcessor = orElse (TrackProcessor t) Stupid_TrackProcesser,
     TransmissionReporter = orElse (TransmissionReporter t) Stupid_TransmissionReporter,
     ComputationReporter = orElse (ComputationReporter t) Stupid_ComputationReporter,
     SessionTracker = orElse (SessionTracker t) Stupid_SessionTracker\<rparr>"

section \<open>The SXU\<close>

type_synonym tool_box_builder = "bool option \<Rightarrow> (bool option \<times> tool_box) option"

record sxu_node =
  sx_node :: node_life
  sx_extra :: "(string, iface) gomap"
  sx_conf :: common_conf
  sx_service :: "bool option"
  sx_toolbox :: tool_box_builder
  sx_syncer :: "(ISGLBSyncer \<times> tool_box) option"

definition SXU_NewWithID :: "string \<Rightarrow> tool_box_builder option \<Rightarrow> sxu_node" where
  "SXU_NewWithID ID toolbox = \<lparr>sx_node = new_node_life ID, sx_extra = Map.empty,
     sx_conf = \<lparr>Global_Dc = [], Log_Level = [], Nats_URL = []\<rparr>, sx_service = None,
     sx_toolbox = (case toolbox of Some b \<Rightarrow> b | None \<Rightarrow> DefaultToolBoxBuilder_Build []), sx_syncer = None\<rparr>"

definition SXU_New :: "string \<Rightarrow> tool_box_builder option \<Rightarrow> sxu_node" where
  "SXU_New rnd toolbox = SXU_NewWithID (''sxu-'' @ rnd) toolbox"

text \<open>\<open>Close\<close> calls \<open>Stop\<close> on the syncer first, also on a nil one, which panics.\<close>

definition SXU_Close :: "sxu_node \<Rightarrow> sxu_node option" where
  "SXU_Close s =
     (case sx_syncer s of
        None \<Rightarrow> None
      | Some (y, t) \<Rightarrow>
          (case Stop y of
             None \<Rightarrow> None
           | Some y' \<Rightarrow> Some (s\<lparr>sx_syncer := Some (y', t), sx_node := Node_Close (sx_node s)\<rparr>)))"

text \<open>The tool box is built when the SFU service is there; then the syncer starts.\<close>

definition SXU_start_syncer :: "string \<Rightarrow> sxu_node \<Rightarrow> sxu_node option" where
  "SXU_start_syncer datacenter s =
     (case sx_toolbox s (sx_service s) of
        None \<Rightarrow> None
      | Some (svc, t) \<Rightarrow>
          Some (s\<lparr>sx_service := svc,
            sx_syncer := Some (NewSFUStatusSyncer \<lparr>Dc = datacenter, Nid = NL_NID (sx_node s), Service = ServiceSXU, Rpc = None\<rparr>,
              syncer_box t)\<rparr>))"

definition SXU_StartGRPC :: "sxu_node \<Rightarrow> (bool \<times> sxu_node) option" where
  "SXU_StartGRPC s =
     map_option (Pair True)
       (SXU_start_syncer (Global_Dc (sx_conf s))
          (s\<lparr>sx_service := Some False, sx_node := io Register_RTC (io Ion_SFU_New (sx_node s))\<rparr>))"

definition SXU_Start :: "node_env \<Rightarrow> common_conf \<Rightarrow> sxu_node \<Rightarrow> (bool \<times> sxu_node) option" where
  "SXU_Start E conf s =
     (case Node_Start E (Nats_URL conf) (io Ion_SFU_New (sx_node s)) of
        (False, n) \<Rightarrow> map_option (Pair False) (SXU_Close (s\<lparr>sx_node := n\<rparr>))
      | (True, n) \<Rightarrow>
          map_option (Pair True)
            (SXU_start_syncer (Global_Dc conf)
               (s\<lparr>sx_service := Some False, sx_node := announce E conf ServiceSXU (sx_extra s) (io Register_RTC n)\<rparr>)))"

section \<open>Properties\<close>

lemma apply_options_append:
  "apply_options (ws @ ws') svc box =
     (case apply_options ws svc box of None \<Rightarrow> None | Some (svc', box') \<Rightarrow> apply_options ws' svc' box')"
  by (induction ws arbitrary: svc box) (auto split: option.split)

lemma call_options_ignored [simp]: "call_options ws r = r"
  by (induction ws arbitrary: r) (simp_all add: Let_def)

text \<open>What \<open>Build\<close> makes of the tool box the options leave.\<close>

definition full_box :: "tool_box \<Rightarrow> tool_box" where
  "full_box box1 = \<lparr>TrackForwarder = orElse (TrackForwarder box1) (Forward_Router None),
     TrackProcessor = orElse (TrackProcessor box1) Stupid_TrackProcesser,
     TransmissionReporter = orElse (TransmissionReporter box1) Stupid_TransmissionReporter,
     ComputationReporter = orElse (ComputationReporter box1) Stupid_ComputationReporter,
     SessionTracker = orElse (SessionTracker box1) SFU_Service_Tracker\<rparr>"

lemma Build_full:
  "DefaultToolBoxBuilder_Build ws svc =
     (case apply_options ws svc empty_box of
        None \<Rightarrow> None
      | Some (svc1, box1) \<Rightarrow>
          if SessionTracker box1 = None then (if svc1 = None then None else Some (Some True, full_box box1))
          else Some (svc1, full_box box1))"
proof (cases "apply_options ws svc empty_box")
  case None
  then show ?thesis by (simp add: DefaultToolBoxBuilder_Build_def apply_options_append)
next
  case (Some r)
  obtain svc1 box1 where r: "r = (svc1, box1)" by (cases r)
  show ?thesis
    by (cases "TrackForwarder box1"; cases "TrackProcessor box1"; cases "SessionTracker box1"; cases svc1;
        cases "TransmissionReporter box1"; cases "ComputationReporter box1")
      (simp_all add: DefaultToolBoxBuilder_Build_def apply_options_append Some r unless_set_def WithTrackForwarder_def
        WithSessionTracker_def full_box_def orElse_def)
qed

lemma orElse_simps [simp]:
  "orElse x d \<noteq> None" "orElse (orElse x d) e = orElse x d" "orElse None d = Some d" "orElse (Some y) d = Some y"
  by (cases x; simp add: orElse_def)+

lemma full_box_parts:
  "TrackForwarder (full_box box1) \<noteq> None \<and> TrackProcessor (full_box box1) \<noteq> None \<and>
   TransmissionReporter (full_box box1) \<noteq> None \<and> ComputationReporter (full_box box1) \<noteq> None \<and>
   SessionTracker (full_box box1) \<noteq> None"
  by (simp add: full_box_def)

lemma full_box_syncer: "syncer_box (full_box box1) = full_box box1"
  by (simp add: syncer_box_def full_box_def)

text \<open>
  C40. Whatever the options do, the tool box that is built has all five parts: each part the options set
  is kept, each other one is the default, and the syncer replaces none. Building panics only in an
  option, or when no option gives a session tracker and the SXU has no SFU service yet; the default
  session tracker turns the tracking of sessions on. The builder of interceptors that is given as an
  option of the default forwarder never reaches it.
\<close>

theorem tool_box_complete:
  "(case DefaultToolBoxBuilder_Build ws svc of
      None \<Rightarrow> (case apply_options ws svc empty_box of
          None \<Rightarrow> True | Some (svc1, box1) \<Rightarrow> svc1 = None \<and> SessionTracker box1 = None)
    | Some (svc', box) \<Rightarrow> TrackForwarder box \<noteq> None \<and> TrackProcessor box \<noteq> None \<and> TransmissionReporter box \<noteq> None \<and>
        ComputationReporter box \<noteq> None \<and> SessionTracker box \<noteq> None \<and> syncer_box box = box \<and>
        (\<exists>svc1 box1. apply_options ws svc empty_box = Some (svc1, box1) \<and>
           TrackForwarder box = orElse (TrackForwarder box1) (Forward_Router None) \<and>
           TrackProcessor box = orElse (TrackProcessor box1) Stupid_TrackProcesser \<and>
           TransmissionReporter box = orElse (TransmissionReporter box1) Stupid_TransmissionReporter \<and>
           ComputationReporter box = orElse (ComputationReporter box1) Stupid_ComputationReporter \<and>
           SessionTracker box = orElse (SessionTracker box1) SFU_Service_Tracker \<and>
           svc' = (if SessionTracker box1 = None then Some True else svc1))) \<and>
   (\<forall>irfbf svc2 box2. WithTrackForwarder [WithPubIRFBuilderFactory irfbf] svc2 box2 =
      Some (svc2, box2\<lparr>TrackForwarder := Some (Forward_Router None)\<rparr>))"
proof (rule conjI)
  show "case DefaultToolBoxBuilder_Build ws svc of
      None \<Rightarrow> (case apply_options ws svc empty_box of
          None \<Rightarrow> True | Some (svc1, box1) \<Rightarrow> svc1 = None \<and> SessionTracker box1 = None)
    | Some (svc', box) \<Rightarrow> TrackForwarder box \<noteq> None \<and> TrackProcessor box \<noteq> None \<and> TransmissionReporter box \<noteq> None \<and>
        ComputationReporter box \<noteq> None \<and> SessionTracker box \<noteq> None \<and> syncer_box box = box \<and>
        (\<exists>svc1 box1. apply_options ws svc empty_box = Some (svc1, box1) \<and>
           TrackForwarder box = orElse (TrackForwarder box1) (Forward_Router None) \<and>
           TrackProcessor box = orElse (TrackProcessor box1) Stupid_TrackProcesser \<and>
           TransmissionReporter box = orElse (TransmissionReporter box1) Stupid_TransmissionReporter \<and>
           ComputationReporter box = orElse (ComputationReporter box1) Stupid_ComputationReporter \<and>
           SessionTracker box = orElse (SessionTracker box1) SFU_Service_Tracker \<and>
           svc' = (if SessionTracker box1 = None then Some True else svc1))"
  proof (cases "apply_options ws svc empty_box")
    case None
    then show ?thesis by (simp add: Build_full)
  next
    case (Some r)
    obtain svc1 box1 where r: "r = (svc1, box1)" by (cases r)
    note parts = full_box_parts [of box1] full_box_syncer [of box1]
    show ?thesis
      by (cases "SessionTracker box1 = None"; cases svc1) (simp_all add: Build_full Some r parts del: not_None_eq, simp_all add: full_box_def del: not_None_eq)
  qed
qed (simp add: WithTrackForwarder_def)

theorem tool_box_complete_witness:
  "\<exists>box. DefaultToolBoxBuilder_Build [WithTrackForwarder [WithPubIRFBuilderFactory 7], WithTransmissionReporter 7] (Some False) =
      Some (Some True, box) \<and> TrackForwarder box = Some (Forward_Router None) \<and>
      TransmissionReporter box = Some (Interceptor_Reporter 7) \<and> syncer_box box = box"
proof -
  let ?ws = "[WithTrackForwarder [WithPubIRFBuilderFactory 7], WithTransmissionReporter 7]"
  obtain box where box: "DefaultToolBoxBuilder_Build ?ws (Some False) = Some (Some True, box)"
    "TransmissionReporter box = Some (Interceptor_Reporter 7)" "TrackForwarder box = Some (Forward_Router None)"
    by (simp add: DefaultToolBoxBuilder_Build_def unless_set_def WithTrackForwarder_def WithTransmissionReporter_def
        WithSessionTracker_def empty_box_def)
  from conjunct1 [OF tool_box_complete, of ?ws "Some False"] box show ?thesis by simp
qed

text \<open>What a node has connected to and not closed.\<close>

definition left_open :: "node_life \<Rightarrow> bool" where
  "left_open n \<longleftrightarrow> has_nc n \<and> Nats_Close \<notin> set (node_log n) \<or> has_ndc n \<and> Ndc_Close \<notin> set (node_log n) \<or>
     has_nrpc n \<and> Nrpc_Stop \<notin> set (node_log n)"

lemma io_simps [simp]:
  "NL_NID (io i n) = NL_NID n" "has_nc (io i n) = has_nc n" "has_ndc (io i n) = has_ndc n" "has_nrpc (io i n) = has_nrpc n"
  "node_log (io i n) = node_log n @ [i]"
  by (simp_all add: io_def)

lemma Node_Close_closes: "\<not> left_open (Node_Close n)"
  by (simp add: left_open_def Node_Close_def Let_def)

lemma Node_Start_NID: "Node_Start E url n = (ok, n') \<Longrightarrow> NL_NID n' = NL_NID n"
  by (auto simp: Node_Start_def Node_Close_def Let_def split: if_splits)

lemma Node_Start_open:
  "Node_Start E url n = (True, n') \<Longrightarrow> has_nc n' \<and> has_ndc n' \<and> has_nrpc n' \<and>
    node_log n' = node_log n @ [Nats_Connect url, Ndc_New, Nrpc_New (NL_NID n)]"
  by (auto simp: Node_Start_def Let_def split: if_splits)

lemma ISLB_failed_open:
  assumes "ISLB_Start E islb conf i = (False, i')" "node_log (il_node i) = []" "il_registry i = None"
  shows "left_open (il_node i') \<longleftrightarrow> fst (Node_Start E (Nats_URL conf) (il_node i))"
proof (cases "Node_Start E (Nats_URL conf) (il_node i)")
  case (Pair ok n)
  show ?thesis
  proof (cases ok)
    case True
    from Pair True have "Node_Start E (Nats_URL conf) (il_node i) = (True, n)" by simp
    note o = Node_Start_open [OF this]
    have "il_node i' = snd (start_registry E (Global_Dc conf) n)"
      using assms(1) by (auto simp: ISLB_Start_def Pair True split: prod.splits option.splits)
    then show ?thesis using o assms(2) by (auto simp: start_registry_def Pair True Let_def left_open_def)
  next
    case False
    then have "il_node i' = Node_Close n" using assms(1,3) by (auto simp: ISLB_Start_def Pair Let_def ISLB_Close_def)
    then show ?thesis by (simp add: Node_Close_closes Pair False)
  qed
qed

text \<open>
  When the start of an ISGLB or of an SFU fails, nothing it had opened is left open. An ISLB whose
  registry cannot be made returns its error with all three connections open.
\<close>

theorem failed_start_closes:
  "(\<forall>s'. ISGLB_Start E conf s = (False, s') \<longrightarrow> \<not> left_open (lb_node s')) \<and>
   (\<forall>t'. SFU_Start E conf ss t = (False, t') \<longrightarrow> \<not> left_open (sf_node t')) \<and>
   (\<forall>i'. ISLB_Start E islb conf (NewISLB rnd) = (False, i') \<longrightarrow>
      (left_open (il_node i') \<longleftrightarrow> fst (Node_Start E (Nats_URL conf) (il_node (NewISLB rnd)))))"
proof -
  have "\<not> left_open (lb_node s')" if "ISGLB_Start E conf s = (False, s')" for s'
    using that by (auto simp: ISGLB_Start_def ISGLB_Close_def Node_Close_closes split: prod.splits bool.splits)
  moreover have "\<not> left_open (sf_node t')" if "SFU_Start E conf ss t = (False, t')" for t'
    using that by (auto simp: SFU_Start_def SFU_Close_def Node_Close_closes split: prod.splits bool.splits)
  moreover have "left_open (il_node i') \<longleftrightarrow> fst (Node_Start E (Nats_URL conf) (il_node (NewISLB rnd)))"
    if "ISLB_Start E islb conf (NewISLB rnd) = (False, i')" for i'
    using that by (rule ISLB_failed_open) (simp_all add: NewISLB_def new_node_life_def)
  ultimately show ?thesis by blast
qed

definition demo_node_env :: "bool \<Rightarrow> bool \<Rightarrow> node_env" where
  "demo_node_env up reg = \<lparr>nats_ok = (\<lambda>_. up), ndc_ok = (\<lambda>_. True), registry_ok = (\<lambda>_. True), listen_ok = (\<lambda>_. reg), NGRPC = ''nrpc''\<rparr>"

definition demo_conf :: common_conf where
  "demo_conf = \<lparr>Global_Dc = ''dc1'', Log_Level = ''info'', Nats_URL = ''nats''\<rparr>"

theorem failed_start_closes_witness:
  "(\<exists>s'. ISGLB_Start (demo_node_env False True) demo_conf (ISGLB_New ''a'' ()) = (False, s') \<and> \<not> left_open (lb_node s')) \<and>
   (\<exists>i'. ISLB_Start (demo_node_env True False) ''islb'' demo_conf (NewISLB ''a'') = (False, i') \<and> left_open (il_node i'))"
proof -
  obtain s' where s': "ISGLB_Start (demo_node_env False True) demo_conf (ISGLB_New ''a'' ()) = (False, s')"
    by (simp add: ISGLB_Start_def Node_Start_def demo_node_env_def Let_def)
  obtain i' where i': "ISLB_Start (demo_node_env True False) ''islb'' demo_conf (NewISLB ''a'') = (False, i')"
    by (simp add: ISLB_Start_def Node_Start_def start_registry_def demo_node_env_def Let_def)
  have "fst (Node_Start (demo_node_env True False) (Nats_URL demo_conf) (il_node (NewISLB ''a'')))"
    by (simp add: Node_Start_def demo_node_env_def Let_def)
  with failed_start_closes [of "demo_node_env True False" demo_conf "ISGLB_New ''a'' ()" "()" "NewSFU ''s''" "''islb''" "''a''"] i'
  have "left_open (il_node i')" by blast
  moreover have "\<not> left_open (lb_node s')"
    using failed_start_closes [of "demo_node_env False True" demo_conf "ISGLB_New ''a'' ()" "()" "NewSFU ''s''" "''islb''" "''a''"] s'
    by blast
  ultimately show ?thesis using s' i' by blast
qed

lemma sxu_starts_with_id:
  "(case SXU_Start E conf (SXU_NewWithID ID None) of
      None \<Rightarrow> \<not> fst (Node_Start E (Nats_URL conf) (io Ion_SFU_New (new_node_life ID)))
    | Some (ok, s) \<Rightarrow> ok \<and> fst (Node_Start E (Nats_URL conf) (io Ion_SFU_New (new_node_life ID))) \<and>
        sx_service s = Some True \<and>
        (\<exists>desc box. sx_syncer s = Some (NewSFUStatusSyncer desc, box) \<and> SessionTracker box = Some SFU_Service_Tracker \<and>
           Nid desc = ID \<and> Service desc = ServiceSXU \<and>
           (\<exists>d. Go_KeepAlive d \<in> set (node_log (sx_node s)) \<and> NID d = Nid desc \<and> DC d = Dc desc \<and>
              DN_Service d = Service desc)))"
proof (cases "Node_Start E (Nats_URL conf) (io Ion_SFU_New (new_node_life ID))")
  case (Pair ok n)
  have nid: "NL_NID n = ID" using Node_Start_NID [OF Pair] by (simp add: new_node_life_def)
  define svc where "svc = Some True"
  define box where "box = full_box empty_box"
  have b: "DefaultToolBoxBuilder_Build [] (Some False) = Some (svc, box)"
    by (simp add: Build_full svc_def box_def empty_box_def)
  have sv: "svc = Some True" "SessionTracker box = Some SFU_Service_Tracker" "syncer_box box = box"
    by (simp_all add: svc_def box_def full_box_syncer, simp add: full_box_def empty_box_def)
  show ?thesis
  proof (cases ok)
    case True
    let ?desc = "\<lparr>Dc = Global_Dc conf, Nid = NL_NID n, Service = ServiceSXU, Rpc = None\<rparr>"
    let ?m = "io Register_RTC n"
    obtain t where t: "SXU_Start E conf (SXU_NewWithID ID None) = Some (True, t)" "sx_service t = Some True"
      "sx_syncer t = Some (NewSFUStatusSyncer ?desc, box)" "sx_node t = announce E conf ServiceSXU Map.empty ?m"
      using True sv by (simp add: SXU_Start_def SXU_NewWithID_def Pair SXU_start_syncer_def b announce_def)
    have "Go_KeepAlive (announcement E conf ServiceSXU Map.empty (io Register_Reflection ?m)) \<in> set (node_log (sx_node t))
      \<or> Go_KeepAlive (announcement E conf ServiceSXU Map.empty ?m) \<in> set (node_log (sx_node t))"
      by (simp add: t(4) announce_def)
    then have "\<exists>d. Go_KeepAlive d \<in> set (node_log (sx_node t)) \<and> NID d = Nid ?desc \<and> DC d = Dc ?desc \<and> DN_Service d = Service ?desc"
      by (elim disjE) (rule exI, erule conjI, simp add: announcement_def)+
    then have "\<exists>desc box. sx_syncer t = Some (NewSFUStatusSyncer desc, box) \<and> SessionTracker box = Some SFU_Service_Tracker \<and>
        Nid desc = ID \<and> Service desc = ServiceSXU \<and>
        (\<exists>d. Go_KeepAlive d \<in> set (node_log (sx_node t)) \<and> NID d = Nid desc \<and> DC d = Dc desc \<and> DN_Service d = Service desc)"
      by (intro exI [of _ ?desc] exI [of _ box] conjI t(3) sv(2)) (simp_all add: nid)
    then show ?thesis by (simp add: t(1,2) Pair True)
  next
    case False
    then show ?thesis by (simp add: SXU_Start_def SXU_NewWithID_def Pair SXU_Close_def)
  qed
qed

text \<open>
  C32. A new SXU with the default tool box: when NATS or the discovery cannot be reached, \<open>Start\<close> does not
  return its error but panics, as it closes a syncer that is not there. Otherwise it returns no error;
  the SFU service tracks sessions, and the syncer describes the node that is announced.
\<close>

theorem sxu_starts_or_panics:
  "(case SXU_Start E conf (SXU_New rnd None) of
      None \<Rightarrow> \<not> fst (Node_Start E (Nats_URL conf) (io Ion_SFU_New (new_node_life (''sxu-'' @ rnd))))
    | Some (ok, s) \<Rightarrow> ok \<and> fst (Node_Start E (Nats_URL conf) (io Ion_SFU_New (new_node_life (''sxu-'' @ rnd)))) \<and>
        sx_service s = Some True \<and>
        (\<exists>desc box. sx_syncer s = Some (NewSFUStatusSyncer desc, box) \<and> SessionTracker box = Some SFU_Service_Tracker \<and>
           Nid desc = ''sxu-'' @ rnd \<and> Service desc = ServiceSXU \<and>
           (\<exists>d. Go_KeepAlive d \<in> set (node_log (sx_node s)) \<and> NID d = Nid desc \<and> DC d = Dc desc \<and>
              DN_Service d = Service desc)))"
  unfolding SXU_New_def by (rule sxu_starts_with_id)

theorem sxu_starts_or_panics_witness:
  "SXU_Start (demo_node_env False True) demo_conf (SXU_New ''a'' None) = None \<and>
   (\<exists>s. SXU_Start (demo_node_env True True) demo_conf (SXU_New ''a'' None) = Some (True, s) \<and> sx_service s = Some True)"
proof -
  have up: "fst (Node_Start (demo_node_env up True) url n) = up" for up url n
    by (simp add: Node_Start_def demo_node_env_def Let_def)
  from sxu_starts_or_panics [of "demo_node_env False True" demo_conf "''a''"]
  have "SXU_Start (demo_node_env False True) demo_conf (SXU_New ''a'' None) = None"
    by (simp add: up split: option.splits)
  moreover from sxu_starts_or_panics [of "demo_node_env True True" demo_conf "''a''"]
  have "\<exists>s. SXU_Start (demo_node_env True True) demo_conf (SXU_New ''a'' None) = Some (True, s) \<and> sx_service s = Some True"
    by (auto simp: up split: option.splits)
  ultimately show ?thesis by simp
qed

end
