(* ===== verification/Quality_Reports.thy ===== *)
theory Quality_Reports
  imports Stream_Client "HOL-Library.Multiset"
begin

text \<open>
  The way of the quality reports of an SXU: from the interceptors of its connections through a
  goroutine that tags them (\<open>pkg/sxu/transmissionreporter.go\<close>) to a gatherer
  (\<open>algorithms/stats.go\<close>), from there and from the computation reporter to the two channels of the
  quality reporter (\<open>pkg/sxu/syncer/reporter.go\<close>), and through \<open>reportFetcher\<close>
  (\<open>pkg/sxu/syncer/syncer.go\<close>) to the ISGLB. What an interceptor measures, what a gatherer makes of
  its reports and when is open: both may put any report, at any time, into the channel they have.
\<close>

section \<open>The channels\<close>

definition report_cap :: nat where "report_cap = 16"

text \<open>
  The channels of the quality reporter hold one report each. A reporter has the sending end of one
  of them, or a nil channel, on which a send blocks for ever.
\<close>

datatype report_channel = Transmission_Channel | Computation_Channel

record qualityReporter =
  tCh :: "transmission_report option"
  cCh :: "computation_report option"

record 'a session_report =
  SID :: string
  UID :: string
  Atom :: 'a

text \<open>An \<open>InterceptorReporter\<close>; the gatherer builder and the interceptor factory are open.\<close>

record interceptor_reporter =
  ir_local :: node
  ir_ch :: "report_channel option"

definition NewInterceptorReporter :: "node \<Rightarrow> interceptor_reporter" where
  "NewInterceptorReporter n = \<lparr>ir_local = n, ir_ch = None\<rparr>"

text \<open>
  \<open>Bind\<close> has a value receiver: it is called with a copy of the reporter, assigns the channel to the
  field of the copy, and the caller keeps the reporter it had.
\<close>

definition InterceptorReporter_Bind :: "report_channel \<Rightarrow> interceptor_reporter \<Rightarrow> interceptor_reporter" where
  "InterceptorReporter_Bind reports caller_t = (let t = caller_t; t = t\<lparr>ir_ch := Some reports\<rparr> in caller_t)"

text \<open>
  The transmission reporters of a tool box: one from outside keeps the channel it is bound to, the
  stupid one only warns, once (\<open>sync.Once\<close>).
\<close>

datatype transmission_source =
    From_Interceptors interceptor_reporter
  | From_Outside "report_channel option"
  | From_Nowhere bool

definition Transmission_Bind :: "report_channel \<Rightarrow> transmission_source \<Rightarrow> transmission_source" where
  "Transmission_Bind reports t =
     (case t of
        From_Interceptors r \<Rightarrow> From_Interceptors (InterceptorReporter_Bind reports r)
      | From_Outside _ \<Rightarrow> From_Outside (Some reports)
      | From_Nowhere warned \<Rightarrow> From_Nowhere True)"

datatype computation_source =
    Processors "report_channel option"
  | No_Processors bool

definition Computation_Bind :: "report_channel \<Rightarrow> computation_source \<Rightarrow> computation_source" where
  "Computation_Bind reports c =
     (case c of Processors _ \<Rightarrow> Processors (Some reports) | No_Processors warned \<Rightarrow> No_Processors True)"

section \<open>Connections and gatherers\<close>

text \<open>
  A connection whose interceptors report: its channel, and the goroutine that takes a report from
  it and passes it on with the ids of the session and the user. \<open>tap_put\<close> are all the reports the
  interceptors have put into the channel.
\<close>

record 'a tap =
  tap_sid :: string
  tap_uid :: string
  tap_builder :: nat
  tap_ch :: "'a list"
  tap_closed :: bool
  tap_held :: "'a option"
  tap_returned :: bool
  tap_put :: "'a list"

text \<open>A gatherer, made for a remote node; \<open>gathered\<close> are the reports it has taken.\<close>

record 'a gatherer =
  ga_src :: node
  ga_dst :: node
  ga_ch :: "'a session_report list"
  ga_out :: "report_channel option"
  gathered :: "'a session_report list"

record ('a, 'm) reports =
  t_source :: transmission_source
  c_source :: computation_source
  quality :: qualityReporter
  gatherers :: "'a gatherer list"
  taps :: "'a tap list"
  fetched :: "quality_report list"
  sending :: "quality_report list"
  attempted :: "quality_report list"
  r_client :: "'m ISGLBClient"
  t_sent :: "transmission_report list"
  c_sent :: "computation_report list"

definition newQualityReporter :: "transmission_source \<Rightarrow> computation_source \<Rightarrow> 'm ISGLBClient \<Rightarrow> ('a, 'm) reports" where
  "newQualityReporter t c client =
     \<lparr>t_source = Transmission_Bind Transmission_Channel t, c_source = Computation_Bind Computation_Channel c,
      quality = \<lparr>tCh = None, cCh = None\<rparr>, gatherers = [], taps = [], fetched = [], sending = [], attempted = [],
      r_client = client, t_sent = [], c_sent = []\<rparr>"

section \<open>Operations\<close>

text \<open>\<open>NewBuilder\<close> starts a gatherer with the channel the reporter has then.\<close>

definition NewBuilder :: "interceptor_reporter \<Rightarrow> node \<Rightarrow> 'a gatherer" where
  "NewBuilder t remote = \<lparr>ga_src = remote, ga_dst = ir_local t, ga_ch = [], ga_out = ir_ch t, gathered = []\<rparr>"

definition Build :: "nat \<Rightarrow> string \<Rightarrow> string \<Rightarrow> 'a tap" where
  "Build builder sid usr = \<lparr>tap_sid = sid, tap_uid = usr, tap_builder = builder, tap_ch = [], tap_closed = False,
     tap_held = None, tap_returned = False, tap_put = []\<rparr>"

definition at_tap :: "nat \<Rightarrow> ('a tap \<Rightarrow> 'a tap) \<Rightarrow> ('a, 'm) reports \<Rightarrow> ('a, 'm) reports" where
  "at_tap i f s = s\<lparr>taps := (taps s)[i := f (taps s ! i)]\<rparr>"

definition at_gatherer :: "nat \<Rightarrow> ('a gatherer \<Rightarrow> 'a gatherer) \<Rightarrow> ('a, 'm) reports \<Rightarrow> ('a, 'm) reports" where
  "at_gatherer b f s = s\<lparr>gatherers := (gatherers s)[b := f (gatherers s ! b)]\<rparr>"

text \<open>An interceptor puts a report; the channel has room for 16.\<close>

definition tap_report :: "'a \<Rightarrow> 'a tap \<Rightarrow> 'a tap" where
  "tap_report a t = t\<lparr>tap_ch := tap_ch t @ [a], tap_put := tap_put t @ [a]\<rparr>"

text \<open>The goroutine of a connection: it returns when the channel is closed and empty.\<close>

definition tag_recv :: "'a tap \<Rightarrow> 'a tap" where
  "tag_recv t =
     (case tap_ch t of
        [] \<Rightarrow> (if tap_closed t then t\<lparr>tap_returned := True\<rparr> else t)
      | a # as \<Rightarrow> t\<lparr>tap_ch := as, tap_held := Some a\<rparr>)"

definition tag_send :: "nat \<Rightarrow> ('a, 'm) reports \<Rightarrow> ('a, 'm) reports" where
  "tag_send i s =
     (let t = taps s ! i in
      case tap_held t of
        None \<Rightarrow> s
      | Some ar \<Rightarrow>
          at_gatherer (tap_builder t)
            (\<lambda>g. g\<lparr>ga_ch := ga_ch g @ [\<lparr>SID = tap_sid t, UID = tap_uid t, Atom = ar\<rparr>]\<rparr>)
            (at_tap i (\<lambda>t. t\<lparr>tap_held := None\<rparr>) s))"

definition gather :: "'a gatherer \<Rightarrow> 'a gatherer" where
  "gather g = (case ga_ch g of [] \<Rightarrow> g | r # rs \<Rightarrow> g\<lparr>ga_ch := rs, gathered := gathered g @ [r]\<rparr>)"

text \<open>A send into the channel of the quality reporter, when it has room.\<close>

definition put_transmission :: "transmission_report \<Rightarrow> ('a, 'm) reports \<Rightarrow> ('a, 'm) reports" where
  "put_transmission tr s = s\<lparr>quality := (quality s)\<lparr>tCh := Some tr\<rparr>, t_sent := t_sent s @ [tr]\<rparr>"

definition put_computation :: "computation_report \<Rightarrow> ('a, 'm) reports \<Rightarrow> ('a, 'm) reports" where
  "put_computation cr s = s\<lparr>quality := (quality s)\<lparr>cCh := Some cr\<rparr>, c_sent := c_sent s @ [cr]\<rparr>"

text \<open>
  \<open>FetchReport\<close> waits for one of the channels; when both have a report, \<open>first\<close> chooses. \<open>None\<close>
  means that it waits.
\<close>

definition FetchReport :: "bool \<Rightarrow> timestamp \<Rightarrow> qualityReporter \<Rightarrow> (quality_report \<times> qualityReporter) option" where
  "FetchReport first now q =
     (case (tCh q, cCh q) of
        (None, None) \<Rightarrow> None
      | (Some tr, None) \<Rightarrow> Some (\<lparr>Timestamp = Some now, Report = Some (Transmission tr)\<rparr>, q\<lparr>tCh := None\<rparr>)
      | (None, Some cr) \<Rightarrow> Some (\<lparr>Timestamp = Some now, Report = Some (Computation cr)\<rparr>, q\<lparr>cCh := None\<rparr>)
      | (Some tr, Some cr) \<Rightarrow>
          Some (if first then (\<lparr>Timestamp = Some now, Report = Some (Transmission tr)\<rparr>, q\<lparr>tCh := None\<rparr>)
                else (\<lparr>Timestamp = Some now, Report = Some (Computation cr)\<rparr>, q\<lparr>cCh := None\<rparr>)))"

text \<open>A round of \<open>reportFetcher\<close>, which starts a goroutine for every report, and such a goroutine.\<close>

definition reportFetcher :: "bool \<Rightarrow> timestamp \<Rightarrow> ('a, 'm) reports \<Rightarrow> ('a, 'm) reports" where
  "reportFetcher first now s =
     (case FetchReport first now (quality s) of
        None \<Rightarrow> s
      | Some (report, q) \<Rightarrow> s\<lparr>quality := q, fetched := fetched s @ [report], sending := sending s @ [report]\<rparr>)"

definition send_report :: "nat \<Rightarrow> world \<Rightarrow> ('a, 'm) reports \<Rightarrow> ('a, 'm) reports" where
  "send_report i w s =
     (let report = sending s ! i in
      s\<lparr>sending := take i (sending s) @ drop (Suc i) (sending s), attempted := attempted s @ [report],
        r_client := snd (SendQualityReport report w (r_client s))\<rparr>)"

section \<open>Steps\<close>

inductive report_step :: "('a, 'm) reports \<Rightarrow> ('a, 'm) reports \<Rightarrow> bool" where
  builder: "t_source s = From_Interceptors r \<Longrightarrow> report_step s (s\<lparr>gatherers := gatherers s @ [NewBuilder r remote]\<rparr>)"
| build: "b < length (gatherers s) \<Longrightarrow> report_step s (s\<lparr>taps := taps s @ [Build b sid usr]\<rparr>)"
| put: "i < length (taps s) \<Longrightarrow> \<not> tap_closed (taps s ! i) \<Longrightarrow> length (tap_ch (taps s ! i)) < report_cap \<Longrightarrow>
    report_step s (at_tap i (tap_report a) s)"
| close: "i < length (taps s) \<Longrightarrow> report_step s (at_tap i (\<lambda>t. t\<lparr>tap_closed := True\<rparr>) s)"
| recv: "i < length (taps s) \<Longrightarrow> tap_held (taps s ! i) = None \<Longrightarrow> \<not> tap_returned (taps s ! i) \<Longrightarrow>
    report_step s (at_tap i tag_recv s)"
| tag: "i < length (taps s) \<Longrightarrow> length (ga_ch (gatherers s ! tap_builder (taps s ! i))) < report_cap \<Longrightarrow>
    report_step s (tag_send i s)"
| gather: "b < length (gatherers s) \<Longrightarrow> report_step s (at_gatherer b gather s)"
| emit: "b < length (gatherers s) \<Longrightarrow> ga_out (gatherers s ! b) = Some Transmission_Channel \<Longrightarrow>
    tCh (quality s) = None \<Longrightarrow> report_step s (put_transmission tr s)"
| outside: "t_source s = From_Outside (Some Transmission_Channel) \<Longrightarrow> tCh (quality s) = None \<Longrightarrow>
    report_step s (put_transmission tr s)"
| compute: "c_source s = Processors (Some Computation_Channel) \<Longrightarrow> cCh (quality s) = None \<Longrightarrow>
    report_step s (put_computation cr s)"
| fetch: "report_step s (reportFetcher first now s)"
| send: "i < length (sending s) \<Longrightarrow> report_step s (send_report i w s)"

abbreviation reports_reachable :: "transmission_source \<Rightarrow> computation_source \<Rightarrow> 'm ISGLBClient \<Rightarrow> ('a, 'm) reports \<Rightarrow> bool" where
  "reports_reachable t c client \<equiv> reachable report_step (newQualityReporter t c client)"

section \<open>Invariants\<close>

definition seen :: "'a gatherer \<Rightarrow> 'a session_report list" where
  "seen g = gathered g @ ga_ch g"

definition pending :: "'a tap \<Rightarrow> 'a list" where
  "pending t = (case tap_held t of None \<Rightarrow> [] | Some a \<Rightarrow> [a]) @ tap_ch t"

definition tap_key :: "'a tap \<Rightarrow> nat \<times> string \<times> string" where
  "tap_key t = (tap_builder t, tap_sid t, tap_uid t)"

text \<open>The reports of a user of a session among those of a gatherer.\<close>

definition reports_of :: "string \<Rightarrow> string \<Rightarrow> 'a session_report list \<Rightarrow> 'a list" where
  "reports_of sid usr rs = map Atom (filter (\<lambda>r. SID r = sid \<and> UID r = usr) rs)"

text \<open>No other connection has the gatherer, the session and the user of this one.\<close>

definition sole :: "'a tap list \<Rightarrow> nat \<Rightarrow> bool" where
  "sole ts i \<longleftrightarrow> (\<forall>j < length ts. j \<noteq> i \<longrightarrow> tap_key (ts ! j) \<noteq> tap_key (ts ! i))"

definition in_order :: "'a gatherer list \<Rightarrow> 'a tap \<Rightarrow> bool" where
  "in_order gs t \<longleftrightarrow> reports_of (tap_sid t) (tap_uid t) (seen (gs ! tap_builder t)) @ pending t = tap_put t"

definition flow_inv :: "'a gatherer list \<Rightarrow> 'a tap list \<Rightarrow> bool" where
  "flow_inv gs ts \<longleftrightarrow> (\<forall>t \<in> set ts. tap_builder t < length gs) \<and>
     (\<forall>b < length gs. \<forall>r \<in> set (seen (gs ! b)). \<exists>t \<in> set ts. tap_key t = (b, SID r, UID r)) \<and>
     (\<forall>i < length ts. sole ts i \<longrightarrow> in_order gs (ts ! i))"

lemma reports_of_append [simp]: "reports_of sid usr (rs @ rs') = reports_of sid usr rs @ reports_of sid usr rs'"
  by (simp add: reports_of_def)

lemma tap_key_update:
  assumes "tap_key (f (ts ! i)) = tap_key (ts ! i)"
  shows "map tap_key (ts[i := f (ts ! i)]) = map tap_key ts"
proof (cases "i < length ts")
  case True
  then show ?thesis using assms by (metis list_update_id map_update nth_map)
qed (simp add: list_update_beyond not_less)

lemma ex_key: "map f xs = map f ys \<Longrightarrow> (\<exists>x \<in> set xs. f x = k) = (\<exists>y \<in> set ys. f y = k)"
proof -
  assume "map f xs = map f ys"
  then have "f ` set xs = f ` set ys" by (metis set_map)
  then show ?thesis by (auto simp: set_eq_iff image_iff) (metis+)
qed

lemma sole_keys: "map tap_key ts = map tap_key ts' \<Longrightarrow> sole ts i = sole ts' i \<or> length ts \<le> i"
proof -
  assume k: "map tap_key ts = map tap_key ts'"
  then have l: "length ts = length ts'" by (metis length_map)
  have n: "tap_key (ts ! j) = tap_key (ts' ! j)" if "j < length ts" for j
    using k that l by (metis nth_map)
  show ?thesis unfolding sole_def l [symmetric] using n by (cases "i < length ts") auto
qed

text \<open>A change of a connection that keeps its key and lets its pending reports grow with what was put.\<close>

lemma flow_inv_tap:
  assumes "flow_inv gs ts" "i < length ts" "tap_key (f (ts ! i)) = tap_key (ts ! i)"
    and "\<exists>new. pending (f (ts ! i)) = pending (ts ! i) @ new \<and> tap_put (f (ts ! i)) = tap_put (ts ! i) @ new"
  shows "flow_inv gs (ts[i := f (ts ! i)])"
proof -
  note keys = tap_key_update [of f ts i, OF assms(3)]
  have "(\<exists>t \<in> set (ts[i := f (ts ! i)]). tap_key t = k) = (\<exists>t \<in> set ts. tap_key t = k)" for k
    by (rule ex_key [OF keys])
  moreover have "tap_builder t < length gs" if "t \<in> set (ts[i := f (ts ! i)])" for t
  proof -
    have "tap_key t \<in> set (map tap_key ts)" using that by (metis image_eqI keys set_map)
    then obtain u where "u \<in> set ts" "tap_key t = tap_key u" by auto
    then show ?thesis using assms(1) by (auto simp: flow_inv_def tap_key_def)
  qed
  moreover have "in_order gs (ts[i := f (ts ! i)] ! j)" if j: "j < length ts" "sole (ts[i := f (ts ! i)]) j" for j
  proof -
    have "sole ts j" using sole_keys [OF keys, of j] j by simp
    then have o: "in_order gs (ts ! j)" using assms(1) j(1) by (simp add: flow_inv_def)
    show ?thesis
    proof (cases "j = i")
      case True
      obtain new where "pending (f (ts ! i)) = pending (ts ! i) @ new" "tap_put (f (ts ! i)) = tap_put (ts ! i) @ new"
        using assms(4) by blast
      then show ?thesis using o assms(2,3) by (simp add: True in_order_def tap_key_def)
    next
      case False
      then show ?thesis using o by simp
    qed
  qed
  ultimately show ?thesis using assms(1) by (simp add: flow_inv_def)
qed

lemma flow_inv_gather:
  assumes "flow_inv gs ts" shows "flow_inv (gs[b := gather (gs ! b)]) ts"
proof -
  have s: "seen (gs[b := gather (gs ! b)] ! c) = seen (gs ! c)" for c
    by (cases "b < length gs"; cases "c = b") (auto simp: gather_def seen_def list_update_beyond not_less split: list.split)
  show ?thesis using assms by (simp add: flow_inv_def in_order_def s)
qed

lemma flow_inv_builder:
  assumes "flow_inv gs ts" shows "flow_inv (gs @ [NewBuilder r remote]) ts"
proof -
  have s: "seen ((gs @ [NewBuilder r remote]) ! b) = (if b < length gs then seen (gs ! b) else [])" if "b < Suc (length gs)" for b
    using that by (auto simp: nth_append seen_def NewBuilder_def)
  have b: "tap_builder t < length gs" if "t \<in> set ts" for t using assms that by (simp add: flow_inv_def)
  then have io: "in_order (gs @ [NewBuilder r remote]) t = in_order gs t" if "t \<in> set ts" for t
    using that by (simp add: in_order_def nth_append)
  show ?thesis using assms b io by (fastforce simp: flow_inv_def s less_Suc_eq_le)
qed

lemma flow_inv_build:
  assumes "flow_inv gs ts" "b < length gs" shows "flow_inv gs (ts @ [Build b sid usr])"
proof -
  let ?n = "Build b sid usr"
  have sole: "sole ts i" if "sole (ts @ [?n]) i" "i < length ts" for i
    using that unfolding sole_def by (metis length_append_singleton less_SucI nth_append)
  have "in_order gs ?n" if s: "sole (ts @ [?n]) (length ts)"
  proof -
    have "tap_key t \<noteq> (b, sid, usr)" if "t \<in> set ts" for t
    proof -
      from that obtain j where j: "j < length ts" "ts ! j = t" by (metis in_set_conv_nth)
      with s have "tap_key ((ts @ [?n]) ! j) \<noteq> tap_key ((ts @ [?n]) ! length ts)"
        unfolding sole_def by (metis length_append_singleton less_SucI nat_neq_iff)
      then show ?thesis using j by (simp add: nth_append tap_key_def Build_def)
    qed
    then have "\<not> (SID r = sid \<and> UID r = usr)" if "r \<in> set (seen (gs ! b))" for r
      using assms that unfolding flow_inv_def by metis
    then have "filter (\<lambda>r. SID r = sid \<and> UID r = usr) (seen (gs ! b)) = []" by (simp add: filter_empty_conv)
    then show ?thesis by (simp add: in_order_def reports_of_def Build_def pending_def)
  qed
  then have "in_order gs ((ts @ [?n]) ! i)" if "sole (ts @ [?n]) i" "i < Suc (length ts)" for i
    using assms(1) that sole [of i] by (auto simp: flow_inv_def nth_append less_Suc_eq)
  then show ?thesis using assms by (auto simp: flow_inv_def Build_def)
qed

lemma flow_inv_tag:
  assumes "flow_inv gs ts" "i < length ts" "tap_held (ts ! i) = Some a"
  shows "flow_inv (gs[tap_builder (ts ! i) := (let g = gs ! tap_builder (ts ! i) in
      g\<lparr>ga_ch := ga_ch g @ [\<lparr>SID = tap_sid (ts ! i), UID = tap_uid (ts ! i), Atom = a\<rparr>]\<rparr>)])
    (ts[i := (ts ! i)\<lparr>tap_held := None\<rparr>])"
proof -
  let ?t = "ts ! i" and ?b = "tap_builder (ts ! i)"
  let ?r = "\<lparr>SID = tap_sid ?t, UID = tap_uid ?t, Atom = a\<rparr>"
  let ?gs = "gs[?b := (let g = gs ! ?b in g\<lparr>ga_ch := ga_ch g @ [?r]\<rparr>)]" and ?ts = "ts[i := ?t\<lparr>tap_held := None\<rparr>]"
  have b: "?b < length gs" using assms(1,2) by (simp add: flow_inv_def)
  have k: "map tap_key ?ts = map tap_key ts" by (rule tap_key_update) (simp add: tap_key_def)
  have s: "seen (?gs ! c) = seen (gs ! c) @ (if c = ?b then [?r] else [])" for c
    using b by (auto simp: seen_def Let_def)
  have ex: "(\<exists>t \<in> set ?ts. tap_key t = x) = (\<exists>t \<in> set ts. tap_key t = x)" for x
    by (rule ex_key [OF k])
  have "tap_builder t < length gs" if "t \<in> set ?ts" for t
  proof -
    from that have "t = ?t\<lparr>tap_held := None\<rparr> \<or> t \<in> set ts" using set_update_subset_insert by fast
    then show ?thesis using assms(1) b by (auto simp: flow_inv_def)
  qed
  moreover have "\<exists>t \<in> set ts. tap_key t = (c, SID r, UID r)" if "c < length gs" "r \<in> set (seen (?gs ! c))" for c r
  proof (cases "r \<in> set (seen (gs ! c))")
    case True
    then show ?thesis using assms(1) that(1) by (simp add: flow_inv_def)
  next
    case False
    then have "c = ?b" "r = ?r" using that(2) by (auto simp: s split: if_splits)
    then show ?thesis using assms(2) by (auto simp: tap_key_def intro: bexI [of _ ?t])
  qed
  moreover have "in_order ?gs (?ts ! j)" if j: "j < length ts" "sole ?ts j" for j
  proof -
    have sole: "sole ts j" using sole_keys [OF k, of j] j by simp
    then have o: "in_order gs (ts ! j)" using assms(1) j(1) by (simp add: flow_inv_def)
    show ?thesis
    proof (cases "j = i")
      case True
      then show ?thesis using o assms(2,3) s [of ?b] by (simp add: in_order_def pending_def reports_of_def)
    next
      case False
      then have "tap_key (ts ! j) \<noteq> tap_key ?t" using sole assms(2) by (auto simp: sole_def)
      then have "reports_of (tap_sid (ts ! j)) (tap_uid (ts ! j)) (seen (?gs ! tap_builder (ts ! j))) =
          reports_of (tap_sid (ts ! j)) (tap_uid (ts ! j)) (seen (gs ! tap_builder (ts ! j)))"
        unfolding s by (auto simp: tap_key_def reports_of_def)
      then show ?thesis using o False by (simp add: in_order_def)
    qed
  qed
  ultimately show ?thesis unfolding flow_inv_def ex by simp
qed

definition quiet :: "('a, 'm) reports \<Rightarrow> ('a, 'm) reports \<Rightarrow> bool" where
  "quiet s s' \<longleftrightarrow> gatherers s' = gatherers s \<and> taps s' = taps s"

lemma quiet_ops [simp]:
  "quiet s (put_transmission tr s)" "quiet s (put_computation cr s)" "quiet s (reportFetcher first now s)"
  "quiet s (send_report i w s)"
  by (auto simp: quiet_def put_transmission_def put_computation_def reportFetcher_def send_report_def Let_def split: option.split)

lemma at_fields [simp]:
  "taps (at_tap i f s) = (taps s)[i := f (taps s ! i)]" "gatherers (at_tap i f s) = gatherers s"
  "gatherers (at_gatherer b g s) = (gatherers s)[b := g (gatherers s ! b)]" "taps (at_gatherer b g s) = taps s"
  by (simp_all add: at_tap_def at_gatherer_def)

lemma flow_inv_step:
  assumes "report_step s s'" "flow_inv (gatherers s) (taps s)"
  shows "flow_inv (gatherers s') (taps s')"
  using assms
proof cases
  case (tag i)
  then show ?thesis using assms(2) flow_inv_tag [OF assms(2), of i]
    by (cases "tap_held (taps s ! i)") (simp_all add: tag_send_def Let_def)
next
  case (put i a)
  then show ?thesis using assms(2) by (auto intro!: flow_inv_tap simp: tap_report_def tap_key_def pending_def)
next
  case (close i)
  then show ?thesis using assms(2) flow_inv_tap [OF assms(2), of i "\<lambda>t. t\<lparr>tap_closed := True\<rparr>"]
    by (simp add: tap_key_def pending_def)
next
  case (recv i)
  then show ?thesis using assms(2)
    by (auto intro!: flow_inv_tap simp: tag_recv_def tap_key_def pending_def split: list.split)
qed (use assms(2) in \<open>simp_all add: quiet_ops [unfolded quiet_def] flow_inv_gather flow_inv_builder flow_inv_build\<close>)

lemma reports_flow: "reports_reachable t c client s \<Longrightarrow> flow_inv (gatherers s) (taps s)"
proof (induction rule: reachable_invariant)
  case init
  show ?case by (simp add: newQualityReporter_def flow_inv_def)
next
  case (step s s')
  from flow_inv_step [OF step(2,3)] show ?case .
qed

text \<open>The channels of the quality reporter, and the reports that go through them.\<close>

definition transmissions :: "quality_report list \<Rightarrow> transmission_report list" where
  "transmissions rs = concat (map (\<lambda>r. case Report r of Some (Transmission tr) \<Rightarrow> [tr] | _ \<Rightarrow> []) rs)"

definition computations :: "quality_report list \<Rightarrow> computation_report list" where
  "computations rs = concat (map (\<lambda>r. case Report r of Some (Computation cr) \<Rightarrow> [cr] | _ \<Rightarrow> []) rs)"

definition in_channel :: "'x option \<Rightarrow> 'x list" where
  "in_channel c = (case c of None \<Rightarrow> [] | Some x \<Rightarrow> [x])"

definition fetch_inv :: "('a, 'm) reports \<Rightarrow> bool" where
  "fetch_inv s \<longleftrightarrow> transmissions (fetched s) @ in_channel (tCh (quality s)) = t_sent s \<and>
     computations (fetched s) @ in_channel (cCh (quality s)) = c_sent s \<and>
     mset (fetched s) = mset (sending s) + mset (attempted s)"

lemma report_lists [simp]:
  "transmissions [] = []" "computations [] = []" "in_channel None = []" "in_channel (Some x) = [x]"
  "transmissions (rs @ rs') = transmissions rs @ transmissions rs'"
  "computations (rs @ rs') = computations rs @ computations rs'"
  "transmissions [r] = (case Report r of Some (Transmission tr) \<Rightarrow> [tr] | _ \<Rightarrow> [])"
  "computations [r] = (case Report r of Some (Computation cr) \<Rightarrow> [cr] | _ \<Rightarrow> [])"
  by (simp_all add: transmissions_def computations_def in_channel_def)

lemma mset_without: "i < length xs \<Longrightarrow> mset (take i xs @ drop (Suc i) xs) + {#xs ! i#} = mset xs"
  by (metis add_mset_add_single id_take_nth_drop mset.simps(2) mset_append union_mset_add_mset_right)

lemma FetchReport_cases:
  assumes "FetchReport first now q = Some (report, q')"
  obtains tr where "tCh q = Some tr" "Report report = Some (Transmission tr)" "q' = q\<lparr>tCh := None\<rparr>"
  | cr where "cCh q = Some cr" "Report report = Some (Computation cr)" "q' = q\<lparr>cCh := None\<rparr>"
  using assms by (cases "tCh q"; cases "cCh q"; cases first) (auto simp: FetchReport_def)

lemma fetch_inv_fetch: "fetch_inv s \<Longrightarrow> fetch_inv (reportFetcher first now s)"
  by (cases "FetchReport first now (quality s)")
    (auto simp: reportFetcher_def fetch_inv_def elim!: FetchReport_cases)

lemma fetch_inv_send: "fetch_inv s \<Longrightarrow> i < length (sending s) \<Longrightarrow> fetch_inv (send_report i w s)"
  using mset_without [of i "sending s"] by (simp add: fetch_inv_def send_report_def Let_def union_ac)

lemma fetch_inv_put:
  "fetch_inv s \<Longrightarrow> tCh (quality s) = None \<Longrightarrow> fetch_inv (put_transmission tr s)"
  "fetch_inv s \<Longrightarrow> cCh (quality s) = None \<Longrightarrow> fetch_inv (put_computation cr s)"
  by (simp_all add: fetch_inv_def put_transmission_def put_computation_def)

lemma fetch_inv_at [simp]: "fetch_inv (at_tap i f s) = fetch_inv s" "fetch_inv (at_gatherer b g s) = fetch_inv s"
  by (simp_all add: fetch_inv_def at_tap_def at_gatherer_def)

lemma fetch_inv_tag [simp]: "fetch_inv (tag_send i s) = fetch_inv s"
  by (simp add: tag_send_def Let_def split: option.split)

lemma fetch_inv_step: "report_step s s' \<Longrightarrow> fetch_inv s \<Longrightarrow> fetch_inv s'"
  by (induction rule: report_step.induct) (simp_all add: fetch_inv_fetch fetch_inv_send fetch_inv_put fetch_inv_at, simp_all add: fetch_inv_def)

lemma reports_fetch: "reports_reachable t c client s \<Longrightarrow> fetch_inv s"
proof (induction rule: reachable_invariant)
  case init
  show ?case by (simp add: newQualityReporter_def fetch_inv_def)
next
  case (step s s')
  from fetch_inv_step [OF step(2,3)] show ?case .
qed

text \<open>Nothing that an unbound interceptor reporter starts has a channel.\<close>

definition unbound :: "node \<Rightarrow> ('a, 'm) reports \<Rightarrow> bool" where
  "unbound n s \<longleftrightarrow> t_source s = From_Interceptors (NewInterceptorReporter n) \<and>
     (\<forall>g \<in> set (gatherers s). ga_out g = None) \<and> t_sent s = []"

lemma gather_out [simp]: "ga_out (gather g) = ga_out g"
  by (simp add: gather_def split: list.split)

lemma unbound_at_gatherer:
  assumes "unbound n s" "\<And>g. ga_out (f g) = ga_out g" shows "unbound n (at_gatherer b f s)"
proof (cases "b < length (gatherers s)")
  case True
  then show ?thesis using assms
    by (auto simp: unbound_def at_gatherer_def dest!: subsetD [OF set_update_subset_insert])
qed (use assms in \<open>simp add: unbound_def at_gatherer_def list_update_beyond\<close>)

lemma unbound_at_tap [simp]: "unbound n (at_tap i f s) = unbound n s"
  by (simp add: unbound_def at_tap_def)

lemma unbound_step: "report_step s s' \<Longrightarrow> unbound n s \<Longrightarrow> unbound n s'"
proof (induction rule: report_step.induct)
  case (tag i s)
  then show ?case by (simp add: tag_send_def Let_def unbound_at_gatherer split: option.split)
next
  case (gather b s)
  then show ?case by (simp add: unbound_at_gatherer)
next
  case (emit b s tr)
  then show ?case by (auto simp: unbound_def dest!: nth_mem)
next
  case (builder s r remote)
  then show ?case by (auto simp: unbound_def NewBuilder_def NewInterceptorReporter_def)
qed (auto simp: unbound_def put_computation_def reportFetcher_def send_report_def Let_def at_tap_def split: option.split)

section \<open>Properties\<close>

text \<open>
  C33. An interceptor reporter that is bound to the quality reporter stays unbound: whatever the
  interceptors measure and the gatherers make of it, no transmission report is ever sent, fetched or
  handed to the ISGLB client, and every report that is fetched comes from the computation reporter.
\<close>

theorem interceptor_reports_lost:
  fixes s :: "('a, 'm) reports"
  assumes "reports_reachable (From_Interceptors (NewInterceptorReporter n)) c client s"
  shows "t_sent s = [] \<and> transmissions (fetched s) = [] \<and> tCh (quality s) = None \<and>
    (\<forall>g \<in> set (gatherers s). ga_out g = None) \<and> computations (fetched s) @ in_channel (cCh (quality s)) = c_sent s"
proof -
  from assms have "unbound n s"
  proof (induction rule: reachable_invariant)
    case init
    show ?case by (simp add: newQualityReporter_def unbound_def Transmission_Bind_def InterceptorReporter_Bind_def Let_def)
  next
    case (step s s')
    from unbound_step [OF step(2,3)] show ?case .
  qed
  then show ?thesis using reports_fetch [OF assms]
    by (cases "tCh (quality s)") (auto simp: unbound_def fetch_inv_def)
qed

definition demo_reports_node :: node where
  "demo_reports_node = \<lparr>Dc = ''dc1'', Nid = ''a'', Service = ''rtc'', Rpc = None\<rparr>"

definition demo_reports_client :: "sfu_status ISGLBClient" where
  "demo_reports_client = \<lparr>base = NewClient, top_done = False, statuses_sent = []\<rparr>"

theorem interceptor_reports_lost_witness:
  "\<exists>s :: (nat, sfu_status) reports.
     reports_reachable (From_Interceptors (NewInterceptorReporter demo_reports_node)) (No_Processors False) demo_reports_client s \<and>
     length (gatherers s) = 1 \<and> t_sent s = [] \<and> tCh (quality s) = None"
proof -
  let ?t = "From_Interceptors (NewInterceptorReporter demo_reports_node)"
  let ?s0 = "newQualityReporter ?t (No_Processors False) demo_reports_client :: (nat, sfu_status) reports"
  let ?s1 = "?s0\<lparr>gatherers := gatherers ?s0 @ [NewBuilder (NewInterceptorReporter demo_reports_node) demo_reports_node]\<rparr>"
  have "t_source ?s0 = ?t"
    by (simp add: newQualityReporter_def Transmission_Bind_def InterceptorReporter_Bind_def Let_def)
  then have r: "reports_reachable ?t (No_Processors False) demo_reports_client ?s1"
    by (intro reachable_first builder)
  moreover have "length (gatherers ?s1) = 1" by (simp add: newQualityReporter_def)
  ultimately show ?thesis using interceptor_reports_lost [OF r] by blast
qed

text \<open>
  C34. The reports of a connection reach its gatherer tagged with its session and its user, complete and in
  order: what the gatherer has taken of them, what waits in its channel, what the goroutine holds and
  what waits in the channel of the connection are together what the interceptors have put, as long as
  no other connection reports to the gatherer for the same session and user.
\<close>

theorem reports_reach_gatherer:
  fixes s :: "('a, 'm) reports"
  assumes "reports_reachable t c client s" "i < length (taps s)" "sole (taps s) i"
  shows "let tap = taps s ! i; g = gatherers s ! tap_builder tap in
    tap_builder tap < length (gatherers s) \<and>
    reports_of (tap_sid tap) (tap_uid tap) (gathered g @ ga_ch g) @ in_channel (tap_held tap) @ tap_ch tap = tap_put tap"
  using reports_flow [OF assms(1)] assms(2,3)
  by (auto simp: flow_inv_def in_order_def seen_def pending_def in_channel_def Let_def)

theorem reports_reach_gatherer_witness:
  "\<exists>s :: (nat, sfu_status) reports.
     reports_reachable (From_Interceptors (NewInterceptorReporter demo_reports_node)) (No_Processors False) demo_reports_client s \<and>
     sole (taps s) 0 \<and> tap_put (taps s ! 0) = [7] \<and>
     reports_of ''room'' ''user'' (gathered (gatherers s ! 0) @ ga_ch (gatherers s ! 0)) @ in_channel (tap_held (taps s ! 0)) @
       tap_ch (taps s ! 0) = [7]"
proof -
  let ?t = "From_Interceptors (NewInterceptorReporter demo_reports_node)"
  let ?s0 = "newQualityReporter ?t (No_Processors False) demo_reports_client :: (nat, sfu_status) reports"
  let ?s1 = "?s0\<lparr>gatherers := gatherers ?s0 @ [NewBuilder (NewInterceptorReporter demo_reports_node) demo_reports_node]\<rparr>"
  let ?s2 = "?s1\<lparr>taps := taps ?s1 @ [Build 0 ''room'' ''user'']\<rparr>"
  let ?s3 = "at_tap 0 (tap_report 7) ?s2"
  have g: "gatherers ?s0 = []" "taps ?s0 = []" "t_source ?s0 = ?t"
    by (simp_all add: newQualityReporter_def Transmission_Bind_def InterceptorReporter_Bind_def Let_def)
  have "reports_reachable ?t (No_Processors False) demo_reports_client ?s1"
    by (intro reachable_first builder g(3))
  moreover have "report_step ?s1 ?s2" by (rule build) (simp add: g)
  moreover have "report_step ?s2 ?s3" by (rule put) (simp_all add: g Build_def report_cap_def)
  ultimately have r: "reports_reachable ?t (No_Processors False) demo_reports_client ?s3"
    by (blast intro: reachable_step)
  have s: "0 < length (taps ?s3)" "sole (taps ?s3) 0" "tap_put (taps ?s3 ! 0) = [7]" "tap_sid (taps ?s3 ! 0) = ''room''"
    "tap_uid (taps ?s3 ! 0) = ''user''" "tap_builder (taps ?s3 ! 0) = 0"
    by (simp_all add: g sole_def tap_report_def Build_def)
  note reached = reports_reach_gatherer [OF r s(1,2), unfolded Let_def s(3-6)]
  show ?thesis by (rule exI [of _ ?s3]) (intro conjI r s(2,3) conjunct2 [OF reached])
qed

text \<open>
  Whatever reporters the tool box has: the reports that were fetched are, kind by kind, those that were
  put into the two channels, in order and without loss, up to the one still in the channel. Each is
  handed to the ISGLB client at most once, but in no fixed order, as each has a goroutine of its own.
\<close>

theorem reports_fetched_once:
  fixes s :: "('a, 'm) reports"
  assumes "reports_reachable t c client s"
  shows "transmissions (fetched s) @ in_channel (tCh (quality s)) = t_sent s \<and>
    computations (fetched s) @ in_channel (cCh (quality s)) = c_sent s \<and>
    mset (fetched s) = mset (sending s) + mset (attempted s)"
  using reports_fetch [OF assms] by (simp add: fetch_inv_def)

theorem reports_fetched_once_witness:
  "\<exists>s :: (nat, sfu_status) reports. reports_reachable (From_Outside None) (No_Processors False) demo_reports_client s \<and>
     t_sent s = [\<lparr>TR_Src = None, TR_Dst = None, TR_Report = None\<rparr>] \<and> length (fetched s) = 1 \<and>
     transmissions (fetched s) @ in_channel (tCh (quality s)) = t_sent s"
proof -
  let ?tr = "\<lparr>TR_Src = None, TR_Dst = None, TR_Report = None\<rparr>"
  let ?s0 = "newQualityReporter (From_Outside None) (No_Processors False) demo_reports_client :: (nat, sfu_status) reports"
  let ?s1 = "put_transmission ?tr ?s0"
  let ?s2 = "reportFetcher True \<lparr>Seconds = 0, Nanos = 0\<rparr> ?s1"
  have "reports_reachable (From_Outside None) (No_Processors False) demo_reports_client ?s1"
    by (intro reachable_first outside) (simp_all add: newQualityReporter_def Transmission_Bind_def)
  then have r: "reports_reachable (From_Outside None) (No_Processors False) demo_reports_client ?s2"
    by (rule reachable_step) (rule fetch)
  have "t_sent ?s2 = [?tr]" "length (fetched ?s2) = 1"
    by (simp_all add: newQualityReporter_def put_transmission_def reportFetcher_def FetchReport_def)
  with r reports_fetched_once [OF r] show ?thesis by blast
qed

end
