(* ===== verification/Random_Algorithm.thy ===== *)
theory Random_Algorithm
  imports Algorithms Node_Assembly "HOL-Library.State_Monad" "HOL-Library.Stream"
begin

text \<open>
  The random algorithm of \<open>algorithms/impl/random\<close>, the load generator of the tests: the generators
  of tracks and reports (\<open>string.go\<close>, \<open>RandTrack.go\<close>, \<open>Random.go\<close>) as state monads over the stream
  of numbers that \<open>math/rand\<close> draws, and \<open>UpdateSFUStatus\<close> over a heap of statuses, since it keeps
  the statuses it is given, returns them, and changes them in place. Both generators of numbers of
  the code draw from the one stream; a number is reduced to the range that is asked for.
\<close>

section \<open>Numbers, strings and nodes\<close>

type_synonym 'x rand = "(nat stream, 'x) state"

definition Intn :: "nat \<Rightarrow> nat rand" where
  "Intn n = do { d \<leftarrow> State_Monad.get; _ \<leftarrow> State_Monad.set (stl d); State_Monad.return (shd d mod n) }"

definition RandBool :: "bool rand" where
  "RandBool = do { i \<leftarrow> Intn 2; State_Monad.return (i = 0) }"

definition letterRunes :: string where
  "letterRunes = ''abcdefghijklmnopqrstuvwxyzABCDEFGHIJKLMNOPQRSTUVWXYZ1234567890''"

primrec RandomString :: "nat \<Rightarrow> string rand" where
  "RandomString 0 = State_Monad.return []"
| "RandomString (Suc n) = do { i \<leftarrow> Intn (length letterRunes); b \<leftarrow> RandomString n; State_Monad.return (letterRunes ! i # b) }"


section \<open>Tracks\<close>



text \<open>Some tracks of a list are changed, and perhaps one is added.\<close>

primrec rand_change_all :: "('t \<Rightarrow> 't rand) \<Rightarrow> 't rand \<Rightarrow> 't list \<Rightarrow> 't list rand" where
  "rand_change_all change new [] = do {
     b \<leftarrow> RandBool;
     (if b then do { t \<leftarrow> new; State_Monad.return [t] } else State_Monad.return []) }"
| "rand_change_all change new (track # tracks) = do {
     b \<leftarrow> RandBool;
     track \<leftarrow> (if b then change track else State_Monad.return track);
     tracks \<leftarrow> rand_change_all change new tracks;
     State_Monad.return (track # tracks) }"


text \<open>\<open>pack\<close> is \<open>anypb.New\<close> of a track with the given \<open>DstSessionId\<close>; its error is ignored.\<close>

definition RandProcedure :: "(string \<Rightarrow> any_msg option) \<Rightarrow> any_msg option rand" where
  "RandProcedure pack = do { s \<leftarrow> RandomString 2; State_Monad.return (pack (''Procedure-'' @ s)) }"

definition RandProceedTrack :: "(string \<Rightarrow> any_msg option) \<Rightarrow> proceed_track rand" where
  "RandProceedTrack pack = do {
     p \<leftarrow> RandProcedure pack; dst \<leftarrow> RandomString 4;
     State_Monad.return \<lparr>DstSessionId = dst, Procedure = p, SrcSessionIdList = []\<rparr> }"

definition RandChangeProceedTrack :: "(string \<Rightarrow> any_msg option) \<Rightarrow> proceed_track \<Rightarrow> proceed_track rand" where
  "RandChangeProceedTrack pack track = do {
     b \<leftarrow> RandBool;
     track \<leftarrow> (if b then do { dst \<leftarrow> RandomString 4; State_Monad.return (track\<lparr>DstSessionId := dst\<rparr>) }
              else State_Monad.return track);
     b \<leftarrow> RandBool;
     track \<leftarrow> (if b then do { p \<leftarrow> RandProcedure pack; State_Monad.return (track\<lparr>Procedure := p\<rparr>) }
              else State_Monad.return track);
     b \<leftarrow> (if length (SrcSessionIdList track) > 0 then RandBool else State_Monad.return False);
     track \<leftarrow> (if b then do {
                  i \<leftarrow> Intn (length (SrcSessionIdList track)); s \<leftarrow> RandomString 4;
                  State_Monad.return (track\<lparr>SrcSessionIdList := (SrcSessionIdList track)[i := s]\<rparr>) }
              else State_Monad.return track);
     b \<leftarrow> RandBool;
     (if b then do { s \<leftarrow> RandomString 4; State_Monad.return (track\<lparr>SrcSessionIdList := SrcSessionIdList track @ [s]\<rparr>) }
      else State_Monad.return track) }"

definition RandChangeProceedTracks :: "(string \<Rightarrow> any_msg option) \<Rightarrow> proceed_track list \<Rightarrow> proceed_track list rand" where
  "RandChangeProceedTracks pack = rand_change_all (RandChangeProceedTrack pack) (RandProceedTrack pack)"

text \<open>
  \<open>RandTracks\<close> has a value receiver: the tracks it returns may have one more than the caller keeps,
  while those the caller has are changed in place.
\<close>

definition RandTracks :: "(string \<Rightarrow> any_msg option) \<Rightarrow> proceed_track list \<Rightarrow> (proceed_track list \<times> proceed_track list) rand" where
  "RandTracks pack r = do {
     tracks \<leftarrow> RandChangeProceedTracks pack r;
     State_Monad.return (tracks, take (length r) tracks) }"

section \<open>The algorithm\<close>

text \<open>
  A status is known by its address. The service gives the algorithm copies of the statuses it has and
  copies what it gets back, so two statuses share no part, and a status with all its tracks is the
  value at its address. \<open>r_nodes\<close> is the field \<open>nodes\<close>, from ids to addresses.
\<close>

record random_state =
  draws :: "nat stream"
  heap :: "nat \<Rightarrow> sfu_status"
  next_addr :: nat
  r_nodes :: "(string, nat) gomap"



















section \<open>Reports\<close>

text \<open>
  The reports that were made are known by their position in \<open>made\<close>; the ones that are kept can be
  returned again, and changed. \<open>stamp\<close> is \<open>anypb.New\<close> of a time with the given seconds. The two
  report types have the same code, so one model serves both.
\<close>

record rand_reports =
  made :: "any_msg option list"
  kept_reports :: "nat list"

definition Int63 :: "nat rand" where
  "Int63 = Intn (2 ^ 63)"

definition RandReport :: "(nat \<Rightarrow> any_msg option) \<Rightarrow> rand_reports \<Rightarrow> (nat \<times> rand_reports) rand" where
  "RandReport stamp r = do {
     t \<leftarrow> Int63;
     r \<leftarrow> State_Monad.return (r\<lparr>made := made r @ [stamp t]\<rparr>);
     b \<leftarrow> RandBool;
     x \<leftarrow> (if b \<and> length (kept_reports r) > 0
          then do { i \<leftarrow> Intn (length (kept_reports r)); State_Monad.return (kept_reports r ! i, r) }
          else do { b \<leftarrow> RandBool;
                    State_Monad.return (length (made r) - 1,
                      if b then r\<lparr>kept_reports := kept_reports r @ [length (made r) - 1]\<rparr> else r) });
     b \<leftarrow> RandBool;
     (if b then do { t \<leftarrow> Int63; State_Monad.return (fst x, (snd x)\<lparr>made := (made (snd x))[fst x := stamp t]\<rparr>) }
      else State_Monad.return x) }"

definition RandComputationReport :: "(nat \<Rightarrow> any_msg option) \<Rightarrow> rand_reports \<Rightarrow> (nat \<times> rand_reports) rand" where
  "RandComputationReport stamp r = RandReport stamp r"

primrec rand_reports_loop :: "(nat \<Rightarrow> any_msg option) \<Rightarrow> nat \<Rightarrow> rand_reports \<times> rand_reports
    \<Rightarrow> ((bool \<times> nat) list \<times> rand_reports \<times> rand_reports) rand" where
  "rand_reports_loop stamp 0 r = State_Monad.return ([], r)"
| "rand_reports_loop stamp (Suc n) r = do {
     b \<leftarrow> RandBool;
     x \<leftarrow> (if b then do { (i, t) \<leftarrow> RandReport stamp (fst r); State_Monad.return (i, t, snd r) }
          else do { (i, c) \<leftarrow> RandComputationReport stamp (snd r); State_Monad.return (i, fst r, c) });
     (rs, r) \<leftarrow> rand_reports_loop stamp n (snd x);
     State_Monad.return ((b, fst x) # rs, r) }"

definition RandReports :: "(nat \<Rightarrow> any_msg option) \<Rightarrow> rand_reports \<times> rand_reports
    \<Rightarrow> ((bool \<times> nat) list \<times> rand_reports \<times> rand_reports) rand" where
  "RandReports stamp r = do { n \<leftarrow> Intn 16; rand_reports_loop stamp n r }"

section \<open>RandomClientFactory\<close>

text \<open>
  The neighbours are visited in some order, and a number decides whether a neighbour is taken,
  whatever its service is; a client that cannot be made is returned as nil.
\<close>

primrec random_client :: "string range_order \<Rightarrow> discovery_node list option \<Rightarrow> string \<Rightarrow> string list \<Rightarrow> Node
    \<Rightarrow> (nrpc_client option \<times> Node) rand" where
  "random_client ord discovered ID [] n = State_Monad.return (None, n)"
| "random_client ord discovered ID (nid # nids) n = do {
     b \<leftarrow> RandBool;
     (if b
      then State_Monad.return
             (case NewNatsRPCClient ord discovered ID ServiceSXU (NID (the (neighborNodes n nid))) n of
                (Inl err, n1) \<Rightarrow> (None, n1)
              | (Inr cli, n1) \<Rightarrow> (Some cli, n1))
      else random_client ord discovered ID nids n) }"

definition RandomClientFactory_NewClient :: "string range_order \<Rightarrow> string range_order \<Rightarrow> discovery_node list option \<Rightarrow> string \<Rightarrow> Node
    \<Rightarrow> (nrpc_client option \<times> Node) rand" where
  "RandomClientFactory_NewClient ord ord' discovered ID n =
     random_client ord' discovered ID (visit ord (dom (GetNeighborNodes n))) n"

section \<open>The generators\<close>

lemma run_Intn: "run_state (Intn n) d = (shd d mod n, stl d)"
  by (simp add: Intn_def)

lemma RandomString_shape:
  "run_state (RandomString n) d = (s, d') \<Longrightarrow> length s = n \<and> set s \<subseteq> set letterRunes"
proof (induction n arbitrary: d s d')
  case (Suc n)
  obtain b d1 where b: "run_state (RandomString n) (stl d) = (b, d1)" by fastforce
  have s: "s = letterRunes ! (shd d mod length letterRunes) # b" using Suc.prems by (simp add: run_Intn b)
  have "length letterRunes = 62" by (simp add: letterRunes_def)
  then have "shd d mod length letterRunes < length letterRunes" by simp
  then show ?case using Suc.IH [OF b] by (simp add: s)
qed simp



section \<open>What the algorithm keeps\<close>


definition without_rpc :: "node \<Rightarrow> node" where
  "without_rpc n = n\<lparr>Rpc := None\<rparr>"

text \<open>
  What may have happened to a status: its tracks have changed and none has gone, or only the RPC
  address of its node has changed.
\<close>

definition altered :: "bool \<Rightarrow> sfu_status \<Rightarrow> sfu_status \<Rightarrow> bool" where
  "altered RandomTrack x y \<longleftrightarrow> Clients y = Clients x \<and>
     (if RandomTrack
      then SFU y = SFU x \<and> length (ForwardTracks x) \<le> length (ForwardTracks y) \<and> length (ProceedTracks x) \<le> length (ProceedTracks y)
      else ForwardTracks y = ForwardTracks x \<and> ProceedTracks y = ProceedTracks x \<and>
        map_option without_rpc (SFU y) = map_option without_rpc (SFU x))"

lemma altered_refl [simp]: "altered tr x x"
  by (simp add: altered_def)




text \<open>From one state to a later one of the same call.\<close>

definition later :: "bool \<Rightarrow> random_state \<Rightarrow> random_state \<Rightarrow> bool" where
  "later tr s s' \<longleftrightarrow> next_addr s \<le> next_addr s' \<and> (\<forall>a < next_addr s. altered tr (heap s a) (heap s' a))"

lemma later_refl [simp]: "later tr s s"
  by (simp add: later_def)






















section \<open>A call of the algorithm\<close>



lemma map_nth_eq: "map f xs = ys \<Longrightarrow> x \<in> set xs \<Longrightarrow> f x \<in> set ys"
  by auto






section \<open>Properties\<close>




text \<open>The reports of the generator.\<close>

definition reports_inv :: "rand_reports \<Rightarrow> bool" where
  "reports_inv r \<longleftrightarrow> (\<forall>i \<in> set (kept_reports r). i < length (made r))"

lemma RandReport_valid:
  assumes "run_state (RandReport stamp r) d = ((i, r'), d')" "reports_inv r"
  shows "reports_inv r' \<and> i < length (made r') \<and> length (made r') = Suc (length (made r)) \<and>
    length (kept_reports r') \<le> Suc (length (kept_reports r))"
proof -
  have k: "kept_reports r ! (m mod length (kept_reports r)) < length (made r)" if "kept_reports r \<noteq> []" for m
    using that assms(2) by (simp add: reports_inv_def)
  show ?thesis using assms k
    by (auto simp: RandReport_def Int63_def RandBool_def run_Intn reports_inv_def less_Suc_eq split: if_splits prod.splits)
qed

lemma rand_reports_loop_valid:
  "run_state (rand_reports_loop stamp n (t, c)) d = ((rs, t', c'), d') \<Longrightarrow> reports_inv t \<Longrightarrow> reports_inv c \<Longrightarrow>
   length rs = n \<and> reports_inv t' \<and> reports_inv c' \<and> length (made t) \<le> length (made t') \<and> length (made c) \<le> length (made c') \<and>
   length (made t') + length (made c') = length (made t) + length (made c) + n \<and>
   (\<forall>x \<in> set rs. snd x < length (made (if fst x then t' else c')))"
proof (induction n arbitrary: t c d rs t' c' d')
  case (Suc n)
  obtain b d1 where b: "run_state RandBool d = (b, d1)" by fastforce
  show ?case
  proof (cases b)
    case True
    obtain i t1 d2 where r: "run_state (RandReport stamp t) d1 = ((i, t1), d2)" by (metis surj_pair)
    obtain rest t2 c2 d3 where l: "run_state (rand_reports_loop stamp n (t1, c)) d2 = ((rest, t2, c2), d3)" by (metis surj_pair)
    have e: "rs = (True, i) # rest" "t' = t2" "c' = c2" using Suc.prems(1) by (auto simp: b True r l)
    note v = RandReport_valid [OF r Suc.prems(2)]
    with Suc.IH [OF l _ Suc.prems(3)] show ?thesis by (auto simp: e)
  next
    case False
    obtain i c1 d2 where r: "run_state (RandReport stamp c) d1 = ((i, c1), d2)" by (metis surj_pair)
    obtain rest t2 c2 d3 where l: "run_state (rand_reports_loop stamp n (t, c1)) d2 = ((rest, t2, c2), d3)" by (metis surj_pair)
    have e: "rs = (False, i) # rest" "t' = t2" "c' = c2" using Suc.prems(1) by (auto simp: b False RandComputationReport_def r l)
    note v = RandReport_valid [OF r Suc.prems(3)]
    with Suc.IH [OF l Suc.prems(2)] show ?thesis by (auto simp: e)
  qed
qed simp

text \<open>
  The generator of reports returns at most 15, each one it has made, makes one for each it returns, and
  never indexes the reports it keeps out of range.
\<close>

theorem random_reports_valid:
  assumes "run_state (RandReports stamp (t, c)) d = ((rs, t', c'), d')" "reports_inv t" "reports_inv c"
  shows "length rs \<le> 15 \<and> reports_inv t' \<and> reports_inv c' \<and>
    length (made t') + length (made c') = length (made t) + length (made c) + length rs \<and>
    (\<forall>x \<in> set rs. snd x < length (made (if fst x then t' else c')))"
proof -
  obtain n d1 where n: "run_state (Intn 16) d = (n, d1)" by fastforce
  then have "n \<le> 15" by (auto simp: run_Intn)
  moreover have "run_state (rand_reports_loop stamp n (t, c)) d1 = ((rs, t', c'), d')"
    using assms(1) by (simp add: RandReports_def n)
  ultimately show ?thesis using rand_reports_loop_valid assms(2,3) by blast
qed

theorem random_reports_valid_witness:
  "\<exists>rs t' c' d'. run_state (RandReports (\<lambda>_. None) (\<lparr>made = [], kept_reports = []\<rparr>, \<lparr>made = [], kept_reports = []\<rparr>)) (sconst 2) =
     ((rs, t', c'), d') \<and> length rs \<le> 15 \<and> reports_inv t'"
proof -
  let ?r = "\<lparr>made = [], kept_reports = []\<rparr> :: rand_reports"
  obtain rs t' c' d' where r: "run_state (RandReports (\<lambda>_. None) (?r, ?r)) (sconst 2) = ((rs, t', c'), d')"
    by (metis surj_pair)
  have "reports_inv ?r" by (simp add: reports_inv_def)
  from random_reports_valid [OF r this this] r show ?thesis by blast
qed

end
