(* ===== verification/FFmpeg_Processor.thy ===== *)
theory FFmpeg_Processor
  imports Dion_Base
begin

text \<open>
  The processor that sends a track through ffmpeg (\<open>algorithms/impl/ffmpeg/ffmpegpro.go\<close>) and the
  helpers that run ffmpeg and play what it puts out (\<open>util/std.go\<close>). Operating system, ffmpeg and pion
  are open: each call may succeed or fail, and ffmpeg may exit by itself. The goroutines of a track that
  is processed are program counters of two step relations: what a goroutine can do without waiting, and
  what waits for the outside, as a read of the output of an ffmpeg that runs or of the remote track. The
  packets and frames that pass change nothing of its state.
\<close>

section \<open>Running ffmpeg\<close>

text \<open>What the calls of \<open>GetStdPipes\<close> return.\<close>

record pipe_answers =
  stdin_ok :: bool
  stdout_ok :: bool
  stderr_ok :: bool
  start_ok :: bool

datatype pipe_error = No_Stdin | No_Stdout | No_Stderr | No_Start

datatype process = Not_Started | Alive | Dead

definition GetStdPipes :: "pipe_answers \<Rightarrow> pipe_error option \<times> process" where
  "GetStdPipes w =
     (if \<not> stdin_ok w then (Some No_Stdin, Not_Started)
      else if \<not> stdout_ok w then (Some No_Stdout, Not_Started)
      else if \<not> stderr_ok w then (Some No_Stderr, Not_Started)
      else if \<not> start_ok w then (Some No_Start, Not_Started)
      else (None, Alive))"

definition sample_options :: "string \<Rightarrow> string \<Rightarrow> string \<Rightarrow> string list" where
  "sample_options testsrc fltr bandwidth =
     [''-f'', ''lavfi'', ''-i'', ''testsrc='' @ testsrc, ''-vf'', fltr, ''-vcodec'', ''libvpx'', ''-b:v'', bandwidth,
      ''-f'', ''ivf'', ''pipe:1'']"

text \<open>
  \<open>MakeIVFTrackFromStdout\<close>: the header of the video may be bad, or the track not be made; otherwise a
  goroutine plays the frames until there are no more, one is bad, or one cannot be written.
\<close>

datatype frame_read = Frame_Read | End_Of_Frames | Bad_Frame

datatype player = Not_Playing | Playing | Played

definition MakeIVFTrackFromStdout :: "bool \<Rightarrow> bool \<Rightarrow> bool \<times> player" where
  "MakeIVFTrackFromStdout header_ok track_ok =
     (if \<not> header_ok then (False, Not_Playing) else if \<not> track_ok then (False, Not_Playing) else (True, Playing))"

definition play_frame :: "frame_read \<Rightarrow> bool \<Rightarrow> player" where
  "play_frame frame write_ok =
     (case frame of End_Of_Frames \<Rightarrow> Played | Bad_Frame \<Rightarrow> Played | Frame_Read \<Rightarrow> if \<not> write_ok then Played else Playing)"

text \<open>
  \<open>MakeSampleIVFTrack\<close>, which plays a test video: the process, whether there is a track, and its player.
\<close>

definition MakeSampleIVFTrack :: "pipe_answers \<Rightarrow> bool \<Rightarrow> bool \<Rightarrow> bool \<times> process \<times> player" where
  "MakeSampleIVFTrack w header_ok track_ok =
     (case GetStdPipes w of
        (Some _, p) \<Rightarrow> (False, p, Not_Playing)
      | (None, p) \<Rightarrow> (case MakeIVFTrackFromStdout header_ok track_ok of (ok, pl) \<Rightarrow> (ok, p, pl)))"

section \<open>The processor\<close>

record ffmpeg_factory =
  ff_path :: string
  ff_Filter :: string
  ff_Bandwidth :: string

definition NewSimpleFFmpegIVFProcessorFactory :: "string \<Rightarrow> ffmpeg_factory" where
  "NewSimpleFFmpegIVFProcessorFactory path =
     \<lparr>ff_path = path, ff_Filter = ''drawbox=x=0:y=0:w=50:h=50:c=blue'', ff_Bandwidth = ''3M''\<rparr>"

text \<open>\<open>fp_init\<close> tells whether the three callbacks are set.\<close>

record ffmpeg_processor =
  fp_path :: string
  fp_Filter :: string
  fp_Bandwidth :: string
  fp_init :: bool

definition NewProcessor :: "ffmpeg_factory \<Rightarrow> ffmpeg_processor" where
  "NewProcessor s = \<lparr>fp_path = ff_path s, fp_Filter = ''drawbox=x=0:y=0:w=50:h=50:c=blue'', fp_Bandwidth = ''3M'', fp_init = False\<rparr>"

definition Processor_Init :: "ffmpeg_processor \<Rightarrow> ffmpeg_processor" where
  "Processor_Init t = t\<lparr>fp_init := True\<rparr>"

definition UpdateProcedure :: "'p \<Rightarrow> ffmpeg_processor \<Rightarrow> ffmpeg_processor" where
  "UpdateProcedure procedure t = t"

definition processor_options :: "ffmpeg_processor \<Rightarrow> string list" where
  "processor_options t =
     [''-f'', ''ivf'', ''-i'', ''pipe:0'', ''-vf'', fp_Filter t, ''-vcodec'', ''libvpx'', ''-b:v'', fp_Bandwidth t, ''-f'', ''ivf'', ''pipe:1'']"

section \<open>A processed track\<close>

text \<open>
  The goroutine that makes the track and adds it, and the one that reads the remote track, writes to
  ffmpeg and, when that fails, kills ffmpeg and waits for the sender in order to remove the track.
\<close>

datatype adder_pc = A_Make | A_Add | A_Done

datatype writer_pc = W_Not_Started | W_Loop | W_Kill | W_Wait | W_Remove | W_Done

text \<open>\<open>senderCh\<close> holds one sender; \<open>added\<close> and \<open>removed\<close> count the calls of \<open>addTrack\<close> that succeed and of \<open>removeTrack\<close>.\<close>

record processed =
  proc :: process
  adder :: adder_pc
  playing :: player
  writer :: writer_pc
  senderCh :: bool
  sender_closed :: bool
  added :: nat
  removed :: nat

definition not_processed :: processed where
  "not_processed = \<lparr>proc = Not_Started, adder = A_Done, playing = Not_Playing, writer = W_Not_Started,
     senderCh = False, sender_closed = False, added = 0, removed = 0\<rparr>"

text \<open>\<open>AddInTrack\<close>: its result is True when it returns an error. \<open>header_written\<close> tells whether the writer can be made.\<close>

definition WriteIVFRemoteToStdin :: "bool \<Rightarrow> processed \<Rightarrow> bool \<times> processed" where
  "WriteIVFRemoteToStdin header_written s = (if \<not> header_written then (True, s) else (False, s\<lparr>writer := W_Loop\<rparr>))"

definition AddInTrack :: "pipe_answers \<Rightarrow> bool \<Rightarrow> bool \<times> processed" where
  "AddInTrack w header_written =
     (case GetStdPipes w of
        (Some _, p) \<Rightarrow> (True, not_processed\<lparr>proc := p\<rparr>)
      | (None, p) \<Rightarrow> WriteIVFRemoteToStdin header_written (not_processed\<lparr>proc := p, adder := A_Make\<rparr>))"

definition make_track :: "bool \<Rightarrow> bool \<Rightarrow> processed \<Rightarrow> processed" where
  "make_track header_ok track_ok s =
     (case MakeIVFTrackFromStdout header_ok track_ok of
        (True, p) \<Rightarrow> s\<lparr>playing := p, adder := A_Add\<rparr>
      | (False, _) \<Rightarrow> s\<lparr>sender_closed := True, adder := A_Done\<rparr>)"

definition add_track :: "bool \<Rightarrow> processed \<Rightarrow> processed" where
  "add_track ok s =
     (if \<not> ok then s\<lparr>sender_closed := True, adder := A_Done\<rparr>
      else s\<lparr>added := added s + 1, senderCh := True, adder := A_Done\<rparr>)"

text \<open>A round of the reading goroutine, which goes on as long as packets are read and written.\<close>

definition read_write :: "bool \<Rightarrow> bool \<Rightarrow> processed \<Rightarrow> processed" where
  "read_write read_ok write_ok s =
     (if \<not> read_ok then s\<lparr>writer := W_Kill\<rparr> else if \<not> write_ok then s\<lparr>writer := W_Kill\<rparr> else s)"

text \<open>\<open>Process.Kill\<close> ends an ffmpeg that runs; it only returns an error for one that has ended.\<close>

definition kill :: "processed \<Rightarrow> processed" where
  "kill s = s\<lparr>proc := Dead, writer := W_Wait\<rparr>"

definition OnBroken_recv :: "processed \<Rightarrow> processed" where
  "OnBroken_recv s = (if senderCh s then s\<lparr>senderCh := False, writer := W_Remove\<rparr> else s\<lparr>writer := W_Done\<rparr>)"

definition OnBroken_remove :: "processed \<Rightarrow> processed" where
  "OnBroken_remove s = s\<lparr>removed := removed s + 1, writer := W_Done\<rparr>"

text \<open>
  A step of a goroutine that waits for nothing outside. The output of an ffmpeg that has ended can be
  read to its end: a header comes or not, and after the last frames there are no more.
\<close>

inductive goroutine_step :: "processed \<Rightarrow> processed \<Rightarrow> bool" where
  make: "adder s = A_Make \<Longrightarrow> proc s = Dead \<Longrightarrow> goroutine_step s (make_track header_ok track_ok s)"
| add: "adder s = A_Add \<Longrightarrow> goroutine_step s (add_track ok s)"
| play: "playing s = Playing \<Longrightarrow> proc s = Dead \<Longrightarrow> play_frame frame write_ok = Played \<Longrightarrow>
    goroutine_step s (s\<lparr>playing := Played\<rparr>)"
| kill: "writer s = W_Kill \<Longrightarrow> goroutine_step s (kill s)"
| recv: "writer s = W_Wait \<Longrightarrow> senderCh s \<or> sender_closed s \<Longrightarrow> goroutine_step s (OnBroken_recv s)"
| remove: "writer s = W_Remove \<Longrightarrow> goroutine_step s (OnBroken_remove s)"

text \<open>What comes from outside: output of ffmpeg, the end of the remote track or of the pipe, the end of ffmpeg.\<close>

inductive outside_step :: "processed \<Rightarrow> processed \<Rightarrow> bool" where
  header: "adder s = A_Make \<Longrightarrow> proc s = Alive \<Longrightarrow> outside_step s (make_track header_ok track_ok s)"
| frame: "playing s = Playing \<Longrightarrow> proc s = Alive \<Longrightarrow> play_frame frame write_ok = Played \<Longrightarrow>
    outside_step s (s\<lparr>playing := Played\<rparr>)"
| broken: "writer s = W_Loop \<Longrightarrow> \<not> (read_ok \<and> write_ok) \<Longrightarrow> outside_step s (read_write read_ok write_ok s)"
| exits: "proc s = Alive \<Longrightarrow> outside_step s (s\<lparr>proc := Dead\<rparr>)"

definition ffmpeg_step :: "processed \<Rightarrow> processed \<Rightarrow> bool" where
  "ffmpeg_step s s' \<longleftrightarrow> goroutine_step s s' \<or> outside_step s s'"

lemma ffmpeg_step_cases [consumes 1, case_names make add play broken kill recv remove exits]:
  assumes "ffmpeg_step s s'"
  obtains header_ok track_ok where "s' = make_track header_ok track_ok s" "adder s = A_Make"
    | ok where "s' = add_track ok s" "adder s = A_Add"
    | "s' = s\<lparr>playing := Played\<rparr>" "playing s = Playing"
    | read_ok write_ok where "s' = read_write read_ok write_ok s" "writer s = W_Loop" "\<not> (read_ok \<and> write_ok)"
    | "s' = kill s" "writer s = W_Kill"
    | "s' = OnBroken_recv s" "writer s = W_Wait" "senderCh s \<or> sender_closed s"
    | "s' = OnBroken_remove s" "writer s = W_Remove"
    | "s' = s\<lparr>proc := Dead\<rparr>" "proc s = Alive"
  using assms by (auto simp: ffmpeg_step_def goroutine_step.simps outside_step.simps)

abbreviation ffmpeg_reachable :: "pipe_answers \<Rightarrow> bool \<Rightarrow> processed \<Rightarrow> bool" where
  "ffmpeg_reachable w header_written \<equiv> reachable ffmpeg_step (snd (AddInTrack w header_written))"

section \<open>Invariant\<close>

definition ffmpeg_inv :: "processed \<Rightarrow> bool" where
  "ffmpeg_inv s \<longleftrightarrow> removed s \<le> added s \<and> added s \<le> 1 \<and>
     (adder s \<noteq> A_Done \<longrightarrow> added s = 0 \<and> \<not> sender_closed s \<and> proc s \<noteq> Not_Started) \<and>
     (sender_closed s \<longrightarrow> added s = 0) \<and>
     (adder s = A_Done \<longrightarrow> proc s \<noteq> Not_Started \<longrightarrow> \<not> sender_closed s \<longrightarrow> added s = 1) \<and>
     (senderCh s \<longleftrightarrow> added s = 1 \<and> writer s \<in> {W_Not_Started, W_Loop, W_Kill, W_Wait}) \<and>
     (writer s = W_Remove \<longrightarrow> added s = 1) \<and> (removed s = 1 \<longleftrightarrow> added s = 1 \<and> writer s = W_Done) \<and>
     (writer s = W_Done \<longrightarrow> sender_closed s \<or> added s = 1) \<and>
     (writer s \<noteq> W_Not_Started \<longrightarrow> proc s \<noteq> Not_Started) \<and>
     (writer s \<in> {W_Wait, W_Remove, W_Done} \<longrightarrow> proc s = Dead) \<and>
     (adder s = A_Add \<longrightarrow> playing s \<noteq> Not_Playing)"

lemma ffmpeg_inv_start: "ffmpeg_inv (snd (AddInTrack w header_written))"
  by (auto simp: AddInTrack_def GetStdPipes_def WriteIVFRemoteToStdin_def not_processed_def ffmpeg_inv_def)

lemma ffmpeg_inv_step:
  assumes "ffmpeg_step s s'" "ffmpeg_inv s"
  shows "ffmpeg_inv s'"
  using assms(1)
proof (cases rule: ffmpeg_step_cases)
  case (make header_ok track_ok)
  then show ?thesis using assms(2)
    by (cases header_ok; cases track_ok; cases "writer s")
      (simp_all add: make_track_def MakeIVFTrackFromStdout_def ffmpeg_inv_def)
next
  case (add ok)
  then show ?thesis using assms(2) by (cases ok; cases "writer s") (simp_all add: add_track_def ffmpeg_inv_def)
next
  case play
  then show ?thesis using assms(2) by (simp add: ffmpeg_inv_def)
next
  case (broken read_ok write_ok)
  then have "s' = s\<lparr>writer := W_Kill\<rparr>" by (auto simp: read_write_def)
  then show ?thesis using assms(2) broken by (simp add: ffmpeg_inv_def)
next
  case kill
  then show ?thesis using assms(2) by (simp add: kill_def ffmpeg_inv_def)
next
  case recv
  then show ?thesis using assms(2)
    by (cases "senderCh s"; cases "adder s"; clarsimp simp: OnBroken_recv_def ffmpeg_inv_def)
next
  case remove
  then show ?thesis using assms(2)
    by (cases "adder s"; cases "removed s"; clarsimp simp: OnBroken_remove_def ffmpeg_inv_def)
next
  case exits
  then show ?thesis using assms(2) by (cases "writer s"; cases "adder s"; clarsimp simp: ffmpeg_inv_def)
qed

lemma ffmpeg_inv_reachable: "ffmpeg_reachable w header_written s \<Longrightarrow> ffmpeg_inv s"
proof (induction rule: reachable_invariant)
  case (step s s')
  from ffmpeg_inv_step [OF step(2,3)] show ?case .
qed (rule ffmpeg_inv_start)

text \<open>What is still to be done; every step does some of it.\<close>

definition ffmpeg_work :: "processed \<Rightarrow> nat" where
  "ffmpeg_work s = (case adder s of A_Make \<Rightarrow> 4 | A_Add \<Rightarrow> 2 | A_Done \<Rightarrow> 0) + (if playing s = Playing then 1 else 0) +
     (case writer s of W_Loop \<Rightarrow> 4 | W_Kill \<Rightarrow> 3 | W_Wait \<Rightarrow> 2 | W_Remove \<Rightarrow> 1 | _ \<Rightarrow> 0) + (if proc s = Alive then 1 else 0)"

lemma ffmpeg_work_step:
  assumes "ffmpeg_step s s'"
  shows "ffmpeg_work s' < ffmpeg_work s"
  using assms
proof (cases rule: ffmpeg_step_cases)
  case (make header_ok track_ok)
  then show ?thesis
    by (cases header_ok; cases track_ok) (simp_all add: make_track_def MakeIVFTrackFromStdout_def ffmpeg_work_def)
next
  case (add ok)
  then show ?thesis by (cases ok) (simp_all add: add_track_def ffmpeg_work_def)
next
  case (broken read_ok write_ok)
  then show ?thesis by (auto simp: read_write_def ffmpeg_work_def)
next
  case recv
  then show ?thesis by (cases "senderCh s") (simp_all add: OnBroken_recv_def ffmpeg_work_def)
qed (simp_all add: kill_def OnBroken_remove_def ffmpeg_work_def)

text \<open>Once the reading goroutine has left its loop, only the goroutines themselves have something to do.\<close>

lemma ffmpeg_at_rest:
  assumes "\<And>s'. \<not> goroutine_step s s'" "ffmpeg_inv s" "writer s \<noteq> W_Not_Started" "writer s \<noteq> W_Loop"
  shows "proc s = Dead \<and> adder s = A_Done \<and> playing s \<noteq> Playing \<and> writer s = W_Done"
proof -
  have "writer s \<noteq> W_Kill" "writer s \<noteq> W_Remove" using assms(1) goroutine_step.kill goroutine_step.remove by blast+
  then have w: "writer s = W_Wait \<or> writer s = W_Done" using assms(3,4) by (cases "writer s") auto
  then have dead: "proc s = Dead" using assms(2) by (auto simp: ffmpeg_inv_def)
  have a: "adder s = A_Done"
    using assms(1) dead goroutine_step.make goroutine_step.add by (metis adder_pc.exhaust)
  have "playing s \<noteq> Playing"
    using assms(1) dead goroutine_step.play [of s End_Of_Frames True] by (auto simp: play_frame_def)
  moreover have "writer s \<noteq> W_Wait"
  proof
    assume w: "writer s = W_Wait"
    then have "senderCh s \<or> sender_closed s" using assms(2) a by (auto simp: ffmpeg_inv_def)
    with w assms(1) goroutine_step.recv show False by blast
  qed
  ultimately show ?thesis using a w dead by blast
qed

section \<open>Properties\<close>

text \<open>Runs of the goroutines of a track, with their length.\<close>

inductive ffmpeg_run :: "processed \<Rightarrow> nat \<Rightarrow> processed \<Rightarrow> bool" where
  rest: "ffmpeg_run s 0 s"
| more: "ffmpeg_step s s' \<Longrightarrow> ffmpeg_run s' n t \<Longrightarrow> ffmpeg_run s (Suc n) t"

lemma ffmpeg_run_work: "ffmpeg_run s n t \<Longrightarrow> n + ffmpeg_work t \<le> ffmpeg_work s"
  by (induction rule: ffmpeg_run.induct) (auto dest!: ffmpeg_work_step)

lemma ffmpeg_run_reachable: "ffmpeg_run s n t \<Longrightarrow> reachable ffmpeg_step s0 s \<Longrightarrow> reachable ffmpeg_step s0 t"
  by (induction rule: ffmpeg_run.induct) (blast intro: reachable_step)+

lemma ffmpeg_start_work: "ffmpeg_work (snd (AddInTrack w header_written)) \<le> 9"
  by (simp add: AddInTrack_def GetStdPipes_def WriteIVFRemoteToStdin_def not_processed_def ffmpeg_work_def)

lemma writer_started:
  assumes "ffmpeg_reachable w header_written s" "\<not> fst (AddInTrack w header_written)"
  shows "writer s \<noteq> W_Not_Started"
  using assms(1)
proof (induction rule: reachable_invariant)
  case init
  show ?case using assms(2)
    by (auto simp: AddInTrack_def GetStdPipes_def WriteIVFRemoteToStdin_def not_processed_def split: if_splits)
next
  case (step s s')
  from step(2,3) show ?case
    by (cases rule: ffmpeg_step_cases) (auto simp: make_track_def MakeIVFTrackFromStdout_def add_track_def read_write_def kill_def
        OnBroken_recv_def OnBroken_remove_def)
qed

text \<open>
  C36. Apart from the packets and frames that pass, at most nine things happen to a track that is processed,
  in whatever order. Once its reading goroutine has left its loop, because the remote track has ended or
  ffmpeg takes no more, the goroutines of the track wait for nothing outside any more: when none of them
  can go on, ffmpeg has ended, as the reading goroutine kills it, nothing plays, both goroutines have
  returned, and the output track has been removed if it was added, and once.
\<close>

theorem ffmpeg_comes_to_rest:
  assumes "ffmpeg_run (snd (AddInTrack w header_written)) n s"
  shows "n \<le> 9 \<and>
    (\<not> fst (AddInTrack w header_written) \<and> writer s \<noteq> W_Loop \<and> (\<nexists>s'. goroutine_step s s') \<longrightarrow>
      proc s = Dead \<and> playing s \<noteq> Playing \<and> adder s = A_Done \<and> writer s = W_Done \<and> removed s = added s \<and> added s \<le> 1)"
proof (intro conjI impI)
  show "n \<le> 9" using ffmpeg_run_work [OF assms] ffmpeg_start_work [of w header_written] by simp
  have r: "ffmpeg_reachable w header_written s" by (rule ffmpeg_run_reachable [OF assms reachable_refl])
  note inv = ffmpeg_inv_reachable [OF r]
  assume a: "\<not> fst (AddInTrack w header_written) \<and> writer s \<noteq> W_Loop \<and> (\<nexists>s'. goroutine_step s s')"
  then have "writer s \<noteq> W_Not_Started" using writer_started [OF r] by blast
  from ffmpeg_at_rest [OF _ inv this] a
  have rest: "proc s = Dead \<and> adder s = A_Done \<and> playing s \<noteq> Playing \<and> writer s = W_Done" by blast
  then show "proc s = Dead" "playing s \<noteq> Playing" "adder s = A_Done" "writer s = W_Done" by simp_all
  then show "removed s = added s" "added s \<le> 1" using inv by (auto simp: ffmpeg_inv_def)
qed

definition demo_pipes :: pipe_answers where
  "demo_pipes = \<lparr>stdin_ok = True, stdout_ok = True, stderr_ok = True, start_ok = True\<rparr>"

definition demo_processed :: "process \<Rightarrow> adder_pc \<Rightarrow> player \<Rightarrow> writer_pc \<Rightarrow> bool \<Rightarrow> nat \<Rightarrow> nat \<Rightarrow> processed" where
  "demo_processed p a pl wr ch ad re =
     \<lparr>proc = p, adder = a, playing = pl, writer = wr, senderCh = ch, sender_closed = False, added = ad, removed = re\<rparr>"

theorem ffmpeg_comes_to_rest_witness:
  "\<exists>s. ffmpeg_run (snd (AddInTrack demo_pipes True)) 7 s \<and> (\<nexists>s'. goroutine_step s s') \<and> proc s = Dead \<and>
     added s = 1 \<and> removed s = 1"
proof -
  let ?s0 = "snd (AddInTrack demo_pipes True)"
  have s0: "?s0 = demo_processed Alive A_Make Not_Playing W_Loop False 0 0"
    by (simp add: demo_processed_def AddInTrack_def GetStdPipes_def WriteIVFRemoteToStdin_def not_processed_def demo_pipes_def)
  have st1: "ffmpeg_step ?s0 (demo_processed Alive A_Add Playing W_Loop False 0 0)"
    using outside_step.header [of ?s0 True True]
    by (simp add: s0 demo_processed_def make_track_def MakeIVFTrackFromStdout_def ffmpeg_step_def)
  have st2: "ffmpeg_step (demo_processed Alive A_Add Playing W_Loop False 0 0) (demo_processed Alive A_Done Playing W_Loop True 1 0)"
    using goroutine_step.add [of "demo_processed Alive A_Add Playing W_Loop False 0 0" True]
    by (simp add: demo_processed_def add_track_def ffmpeg_step_def)
  have st3: "ffmpeg_step (demo_processed Alive A_Done Playing W_Loop True 1 0) (demo_processed Alive A_Done Playing W_Kill True 1 0)"
    using outside_step.broken [of "demo_processed Alive A_Done Playing W_Loop True 1 0" False False]
    by (simp add: demo_processed_def read_write_def ffmpeg_step_def)
  have st4: "ffmpeg_step (demo_processed Alive A_Done Playing W_Kill True 1 0) (demo_processed Dead A_Done Playing W_Wait True 1 0)"
    using goroutine_step.kill [of "demo_processed Alive A_Done Playing W_Kill True 1 0"]
    by (simp add: demo_processed_def kill_def ffmpeg_step_def)
  have st5: "ffmpeg_step (demo_processed Dead A_Done Playing W_Wait True 1 0) (demo_processed Dead A_Done Playing W_Remove False 1 0)"
    using goroutine_step.recv [of "demo_processed Dead A_Done Playing W_Wait True 1 0"]
    by (simp add: demo_processed_def OnBroken_recv_def ffmpeg_step_def)
  have st6: "ffmpeg_step (demo_processed Dead A_Done Playing W_Remove False 1 0) (demo_processed Dead A_Done Playing W_Done False 1 1)"
    using goroutine_step.remove [of "demo_processed Dead A_Done Playing W_Remove False 1 0"]
    by (simp add: demo_processed_def OnBroken_remove_def ffmpeg_step_def)
  have st7: "ffmpeg_step (demo_processed Dead A_Done Playing W_Done False 1 1) (demo_processed Dead A_Done Played W_Done False 1 1)"
    using goroutine_step.play [of "demo_processed Dead A_Done Playing W_Done False 1 1" End_Of_Frames True]
    by (simp add: demo_processed_def play_frame_def ffmpeg_step_def)
  have "ffmpeg_run ?s0 7 (demo_processed Dead A_Done Played W_Done False 1 1)"
    using more [OF st1 more [OF st2 more [OF st3 more [OF st4 more [OF st5 more [OF st6 more [OF st7 rest]]]]]]]
    by (simp add: numeral_eq_Suc)
  moreover have "\<nexists>s'. goroutine_step (demo_processed Dead A_Done Played W_Done False 1 1) s'"
    by (auto simp: demo_processed_def elim: goroutine_step.cases)
  moreover have "\<not> fst (AddInTrack demo_pipes True)"
    by (simp add: AddInTrack_def GetStdPipes_def WriteIVFRemoteToStdin_def demo_pipes_def)
  moreover have "writer (demo_processed Dead A_Done Played W_Done False 1 1) \<noteq> W_Loop"
    "added (demo_processed Dead A_Done Played W_Done False 1 1) = 1" by (simp_all add: demo_processed_def)
  moreover note ffmpeg_comes_to_rest [OF calculation(1)]
  ultimately show ?thesis by metis
qed

text \<open>
  C37. When \<open>AddInTrack\<close> returns an error, ffmpeg was not started or it was and nobody kills it: then its
  output may still be added as a track, which nobody removes.
\<close>

theorem ffmpeg_error_leaks:
  assumes "fst (AddInTrack w header_written)"
  shows "(\<forall>s. ffmpeg_reachable w header_written s \<longrightarrow> removed s = 0 \<and> writer s = W_Not_Started) \<and>
    (fst (GetStdPipes w) = None \<longrightarrow>
      (\<exists>s. ffmpeg_reachable w header_written s \<and> proc s = Alive \<and> added s = 1 \<and> playing s = Playing)) \<and>
    (fst (GetStdPipes w) \<noteq> None \<longrightarrow> (\<forall>s. ffmpeg_reachable w header_written s \<longrightarrow> proc s = Not_Started \<and> added s = 0))"
proof (intro conjI allI impI)
  let ?s0 = "snd (AddInTrack w header_written)"
  have init: "writer ?s0 = W_Not_Started" "removed ?s0 = 0"
    using assms by (auto simp: AddInTrack_def GetStdPipes_def WriteIVFRemoteToStdin_def not_processed_def split: if_splits)
  fix s assume "ffmpeg_reachable w header_written s"
  then have "removed s = 0 \<and> writer s = W_Not_Started"
  proof (induction rule: reachable_invariant)
    case (step s s')
    from step(2,3) show ?case
      by (cases rule: ffmpeg_step_cases) (auto simp: make_track_def MakeIVFTrackFromStdout_def add_track_def)
  qed (simp add: init)
  then show "removed s = 0" "writer s = W_Not_Started" by simp_all
next
  let ?s0 = "snd (AddInTrack w header_written)"
  assume p: "fst (GetStdPipes w) = None"
  then have s0: "?s0 = not_processed\<lparr>proc := Alive, adder := A_Make\<rparr>"
    using assms by (auto simp: AddInTrack_def GetStdPipes_def WriteIVFRemoteToStdin_def split: if_splits)
  let ?s1 = "make_track True True ?s0"
  let ?s2 = "add_track True ?s1"
  have "outside_step ?s0 ?s1" by (rule outside_step.header) (simp_all add: s0)
  then have "ffmpeg_step ?s0 ?s1" by (simp add: ffmpeg_step_def)
  then have "ffmpeg_reachable w header_written ?s1" by (rule reachable_first)
  moreover have "goroutine_step ?s1 ?s2"
    by (rule goroutine_step.add) (simp add: s0 make_track_def MakeIVFTrackFromStdout_def)
  then have "ffmpeg_step ?s1 ?s2" by (simp add: ffmpeg_step_def)
  ultimately have "ffmpeg_reachable w header_written ?s2" by (rule reachable_step)
  moreover have "proc ?s2 = Alive" "added ?s2 = 1" "playing ?s2 = Playing"
    by (simp_all add: s0 make_track_def MakeIVFTrackFromStdout_def add_track_def not_processed_def)
  ultimately show "\<exists>s. ffmpeg_reachable w header_written s \<and> proc s = Alive \<and> added s = 1 \<and> playing s = Playing" by blast
next
  let ?s0 = "snd (AddInTrack w header_written)"
  assume p: "fst (GetStdPipes w) \<noteq> None"
  then have s0: "?s0 = not_processed" by (auto simp: AddInTrack_def GetStdPipes_def not_processed_def split: if_splits)
  fix s assume "ffmpeg_reachable w header_written s"
  then have "s = not_processed"
  proof (induction rule: reachable_invariant)
    case (step s s')
    from step(2,3) show ?case by (cases rule: ffmpeg_step_cases) (simp_all add: not_processed_def)
  qed (rule s0)
  then show "proc s = Not_Started" "added s = 0" by (simp_all add: not_processed_def)
qed

theorem ffmpeg_error_leaks_witness:
  "fst (AddInTrack demo_pipes False) \<and>
   (\<exists>s. ffmpeg_reachable demo_pipes False s \<and> proc s = Alive \<and> added s = 1 \<and> playing s = Playing)"
proof -
  have e: "fst (AddInTrack demo_pipes False)" "fst (GetStdPipes demo_pipes) = None"
    by (simp_all add: AddInTrack_def GetStdPipes_def WriteIVFRemoteToStdin_def demo_pipes_def)
  from ffmpeg_error_leaks [OF e(1)] e show ?thesis by simp
qed

end
