(* ===== verification/Stupid_SFU.thy ===== *)
theory Stupid_SFU
  imports Node_Assembly FFmpeg_Processor
begin

text \<open>
  The SFU that publishes a test video (\<open>pkg/stupid/sfu.go\<close>, \<open>ffmpegpub.go\<close>): its node, as in
  \<open>Node_Assembly\<close>, and the door that its watch dog opens, a publisher with a track that ffmpeg makes
  (\<open>FFmpeg_Processor\<close>). Publishers are pion's; whether the calls succeed is open.
\<close>

section \<open>The test video\<close>

record testsrc_publisher =
  tp_path :: string
  tp_Filter :: string
  tp_Bandwidth :: string
  tp_Testsrc :: string

definition default_filter :: string where "default_filter = ''drawbox=x=0:y=0:w=50:h=50:c=blue''"

definition NewSimpleFFmpegTestsrcPublisher :: "string \<Rightarrow> testsrc_publisher" where
  "NewSimpleFFmpegTestsrcPublisher path =
     \<lparr>tp_path = path, tp_Filter = default_filter, tp_Bandwidth = ''3M'', tp_Testsrc = ''size=1280x720:rate=30''\<rparr>"

text \<open>What the calls of one attempt to make a door return.\<close>

record door_answers =
  publisher_ok :: bool
  pipes :: pipe_answers
  header_ok :: bool
  track_ok :: bool
  add_ok :: bool

text \<open>
  What an attempt leaves behind: a publisher that is open, the process, its player, and the goroutine
  that reads the RTCP packets of the track.
\<close>

record test_door =
  td_publisher :: bool
  td_process :: process
  td_player :: player
  td_rtcp :: bool

definition makeTrack :: "door_answers \<Rightarrow> test_door \<Rightarrow> bool \<times> test_door" where
  "makeTrack a d =
     (case MakeSampleIVFTrack (pipes a) (header_ok a) (track_ok a) of
        (False, p, pl) \<Rightarrow> (False, d\<lparr>td_process := p, td_player := pl\<rparr>)
      | (True, p, pl) \<Rightarrow>
          (if \<not> add_ok a then (False, d\<lparr>td_process := p, td_player := pl\<rparr>)
           else (True, d\<lparr>td_process := p, td_player := pl, td_rtcp := True\<rparr>)))"

definition NewDoor_Testsrc :: "door_answers \<Rightarrow> bool \<times> test_door" where
  "NewDoor_Testsrc a =
     (let d = \<lparr>td_publisher = False, td_process = Not_Started, td_player = Not_Playing, td_rtcp = False\<rparr> in
      if \<not> publisher_ok a then (False, d) else makeTrack a (d\<lparr>td_publisher := True\<rparr>))"

text \<open>The watch dog asks for a door until it is given one; the list is what the attempts leave behind.\<close>

fun buy_test_door :: "door_answers list \<Rightarrow> test_door list" where
  "buy_test_door [] = []"
| "buy_test_door (a # as) =
     (case NewDoor_Testsrc a of (True, d) \<Rightarrow> [d] | (False, d) \<Rightarrow> d # buy_test_door as)"

section \<open>The node\<close>

text \<open>\<open>st_watching\<close> is the publisher and the session its watch dog watches.\<close>

record stupid_node =
  st_node :: node_life
  st_service :: bool
  st_path :: string
  st_Filter :: string
  st_Bandwidth :: string
  st_Testsrc :: string
  st_watching :: "(testsrc_publisher \<times> string) option"

definition Stupid_NewWithID :: "string \<Rightarrow> string \<Rightarrow> stupid_node" where
  "Stupid_NewWithID nid path = \<lparr>st_node = new_node_life nid, st_service = False, st_path = path, st_Filter = default_filter,
     st_Bandwidth = ''3M'', st_Testsrc = ''size=1280x720:rate=30'', st_watching = None\<rparr>"

definition Stupid_New :: "string \<Rightarrow> stupid_node" where
  "Stupid_New path = \<lparr>st_node = new_node_life ServiceNameStupid, st_service = False, st_path = path, st_Filter = default_filter,
     st_Bandwidth = ''3M'', st_Testsrc = ''size=1280x720:rate=30'', st_watching = None\<rparr>"

definition Stupid_Close :: "stupid_node \<Rightarrow> stupid_node" where
  "Stupid_Close s = s\<lparr>st_node := Node_Close (st_node s)\<rparr>"

text \<open>The publisher is made with the settings of the node, and a watch dog holds it open for the session.\<close>

definition watch_stupid :: "stupid_node \<Rightarrow> stupid_node" where
  "watch_stupid s =
     (let pub = NewSimpleFFmpegTestsrcPublisher (st_path s);
          pub = pub\<lparr>tp_Testsrc := st_Testsrc s, tp_Filter := st_Filter s, tp_Bandwidth := st_Bandwidth s\<rparr> in
      s\<lparr>st_watching := Some (pub, ServiceSessionStupid), st_service := True, st_node := io Ion_SFU_New (st_node s)\<rparr>)"

definition Stupid_StartGRPC :: "stupid_node \<Rightarrow> bool \<times> stupid_node" where
  "Stupid_StartGRPC s = (let s1 = watch_stupid s in (True, s1\<lparr>st_node := io Register_RTC (st_node s1)\<rparr>))"

definition Stupid_Start :: "node_env \<Rightarrow> common_conf \<Rightarrow> stupid_node \<Rightarrow> bool \<times> stupid_node" where
  "Stupid_Start E conf s =
     (case Node_Start E (Nats_URL conf) (st_node s) of
        (False, n) \<Rightarrow> (False, Stupid_Close (s\<lparr>st_node := n\<rparr>))
      | (True, n) \<Rightarrow>
          (let s1 = watch_stupid (s\<lparr>st_node := n\<rparr>) in
           (True, s1\<lparr>st_node := announce E conf ServiceStupid Map.empty (io Register_RTC (st_node s1))\<rparr>)))"

section \<open>Properties\<close>

lemma Stupid_Start_cases:
  "Stupid_Start E conf s = (ok, s') \<Longrightarrow>
   (case Node_Start E (Nats_URL conf) (st_node s) of
      (False, n) \<Rightarrow> \<not> ok \<and> st_node s' = Node_Close n \<and> st_watching s' = st_watching s
    | (True, n) \<Rightarrow> ok \<and> st_node s' = announce E conf ServiceStupid Map.empty (io Register_RTC (io Ion_SFU_New n)) \<and>
        st_watching s' = Some (\<lparr>tp_path = st_path s, tp_Filter = st_Filter s, tp_Bandwidth = st_Bandwidth s,
          tp_Testsrc = st_Testsrc s\<rparr>, ServiceSessionStupid))"
  by (auto simp: Stupid_Start_def Stupid_Close_def watch_stupid_def NewSimpleFFmpegTestsrcPublisher_def Let_def
      split: prod.splits bool.splits)

text \<open>
  C38. The stupid algorithm and the stupid SFU fit: the track that the algorithm adds to every status names
  the node that a started stupid SFU announces, under the service it announces, and the session its
  watch dog publishes. A start that fails publishes nothing and leaves nothing open.
\<close>

theorem stupid_track_is_published:
  assumes "Stupid_Start E conf (Stupid_New path) = (ok, s)"
  shows "(ok \<longrightarrow> (\<exists>d src pub. Go_KeepAlive d \<in> set (node_log (st_node s)) \<and> Src stupid_track = Some src \<and>
        NID d = Nid src \<and> DN_Service d = Service src \<and> st_watching s = Some (pub, RemoteSessionId stupid_track) \<and>
        tp_path pub = path)) \<and>
    (\<not> ok \<longrightarrow> st_watching s = None \<and> \<not> left_open (st_node s))"
proof (cases "Node_Start E (Nats_URL conf) (st_node (Stupid_New path))")
  case (Pair up n)
  note c = Stupid_Start_cases [OF assms, unfolded Pair prod.case]
  show ?thesis
  proof (cases up)
    case True
    have nid: "NL_NID n = ServiceNameStupid"
      using Node_Start_NID [OF Pair] by (simp add: Stupid_New_def new_node_life_def)
    let ?d = "announcement E conf ServiceStupid Map.empty (io Register_Reflection (io Register_RTC (io Ion_SFU_New n)))"
    let ?e = "announcement E conf ServiceStupid Map.empty (io Register_RTC (io Ion_SFU_New n))"
    have "Go_KeepAlive ?e \<in> set (node_log (st_node s)) \<or> Go_KeepAlive ?d \<in> set (node_log (st_node s))"
      using c by (simp add: True announce_def)
    moreover have "NID ?d = ServiceNameStupid" "DN_Service ?d = ServiceStupid" "NID ?e = ServiceNameStupid" "DN_Service ?e = ServiceStupid"
      by (simp_all add: announcement_def nid)
    ultimately obtain d where d: "Go_KeepAlive d \<in> set (node_log (st_node s))" "NID d = ServiceNameStupid" "DN_Service d = ServiceStupid"
      by blast
    have src: "Src stupid_track = Some \<lparr>Dc = '''', Nid = ServiceNameStupid, Service = ServiceStupid, Rpc = None\<rparr>"
      "RemoteSessionId stupid_track = ServiceSessionStupid" by (simp_all add: stupid_track_def)
    show ?thesis using c d by (simp add: True src Stupid_New_def) (metis (full_types))
  next
    case False
    then show ?thesis using c by (simp add: Node_Close_closes Stupid_New_def)
  qed
qed

theorem stupid_track_is_published_witness:
  "(\<exists>s. Stupid_Start (demo_node_env True True) demo_conf (Stupid_New ''ffmpeg'') = (True, s) \<and>
      (\<exists>pub. st_watching s = Some (pub, RemoteSessionId stupid_track))) \<and>
   (\<exists>s. Stupid_Start (demo_node_env False True) demo_conf (Stupid_New ''ffmpeg'') = (False, s) \<and> \<not> left_open (st_node s))"
proof -
  obtain s where s: "Stupid_Start (demo_node_env True True) demo_conf (Stupid_New ''ffmpeg'') = (True, s)"
    by (simp add: Stupid_Start_def Node_Start_def demo_node_env_def Let_def)
  obtain t where t: "Stupid_Start (demo_node_env False True) demo_conf (Stupid_New ''ffmpeg'') = (False, t)"
    by (simp add: Stupid_Start_def Node_Start_def demo_node_env_def Let_def)
  from stupid_track_is_published [OF s] stupid_track_is_published [OF t] s t show ?thesis by auto
qed

text \<open>
  Every attempt to make a door that fails after the publisher was made leaves that publisher open, and
  ffmpeg running once it was started; the watch dog tries again, so they add up.
\<close>

theorem stupid_doors_leak:
  assumes "\<forall>a \<in> set as. \<not> fst (NewDoor_Testsrc a)"
  shows "length (filter td_publisher (buy_test_door as)) = length (filter publisher_ok as) \<and>
    length (filter (\<lambda>d. td_process d = Alive) (buy_test_door as)) =
      length (filter (\<lambda>a. publisher_ok a \<and> fst (GetStdPipes (pipes a)) = None) as)"
  using assms
proof (induction as)
  case (Cons a as)
  then obtain d where d: "NewDoor_Testsrc a = (False, d)" by (cases "NewDoor_Testsrc a") auto
  have "td_publisher d = publisher_ok a" "td_process d = Alive \<longleftrightarrow> publisher_ok a \<and> fst (GetStdPipes (pipes a)) = None"
    using d by (auto simp: NewDoor_Testsrc_def makeTrack_def MakeSampleIVFTrack_def GetStdPipes_def Let_def
        split: if_splits prod.splits bool.splits)
  with Cons show ?case by (simp add: d)
qed simp

theorem stupid_doors_leak_witness:
  "\<exists>as. length as = 2 \<and> (\<forall>a \<in> set as. \<not> fst (NewDoor_Testsrc a)) \<and> length (filter td_publisher (buy_test_door as)) = 2"
proof -
  let ?a = "\<lparr>publisher_ok = True, pipes = demo_pipes, header_ok = False, track_ok = True, add_ok = True\<rparr>"
  have a: "\<forall>a \<in> set [?a, ?a]. \<not> fst (NewDoor_Testsrc a)"
    by (simp add: NewDoor_Testsrc_def makeTrack_def MakeSampleIVFTrack_def MakeIVFTrackFromStdout_def GetStdPipes_def demo_pipes_def)
  from stupid_doors_leak [OF a] a show ?thesis by (intro exI [of _ "[?a, ?a]"]) simp
qed

end
