(* ===== verification/SFU_Switch.thy ===== *)
theory SFU_Switch
  imports Node_Assembly Stream_Client
begin

text \<open>
  How a client gets a stream and changes the node behind it: the stream factories of
  \<open>pkg/sfu/client.go\<close> and \<open>pkg/isglb/client.go\<close> on the nodes of \<open>ISLB_Node\<close>, and \<open>Switch\<close> and
  \<open>Reconnect\<close> of \<open>util/client.go\<close> among any number of goroutines, every atomic access a step of its
  own. What the discovery and a call of nRPC answer is open.
\<close>

section \<open>Stream factories\<close>

text \<open>The node to connect to and its parameters.\<close>

type_synonym factory_param = "string \<times> (string, iface) gomap"

definition NewClientStreamFactory :: factory_param where
  "NewClientStreamFactory = (''*'', Map.empty)"

text \<open>
  What one attempt is answered: the order in which the neighbours are visited, the nodes the discovery
  knows for the parameters, the identifier of the new client, and whether the stream is opened.
\<close>

record dial =
  d_ord :: "string range_order"
  d_found :: "discovery_node list option"
  d_ID :: string
  d_signal :: bool

text \<open>The result is the peer of the stream. The metadata of the factories is set by nobody.\<close>

definition open_stream :: "string \<Rightarrow> dial \<Rightarrow> factory_param \<Rightarrow> Node \<Rightarrow> string option \<times> Node" where
  "open_stream service d p n =
     (case NewNatsRPCClient (d_ord d) (d_found d) (d_ID d) service (fst p) n of
        (Inl err, n1) \<Rightarrow> (None, n1)
      | (Inr conn, n1) \<Rightarrow> (if d_signal d then Some (cl_peer conn) else None, n1))"

definition NewClientStream :: "dial \<Rightarrow> factory_param \<Rightarrow> Node \<Rightarrow> string option \<times> Node" where
  "NewClientStream d p n = open_stream ServiceSXU d p n"

definition ISGLB_NewClientStream :: "dial \<Rightarrow> factory_param \<Rightarrow> Node \<Rightarrow> string option \<times> Node" where
  "ISGLB_NewClientStream d p n = open_stream ServiceISGLB d p n"

text \<open>The client of an ISGLB: its factory, and the stream client with the callback that passes a status on.\<close>

definition ISGLB_NewClient :: "string \<Rightarrow> (string, iface) gomap \<Rightarrow> factory_param \<times> 'm Client" where
  "ISGLB_NewClient peerNID parameters = ((peerNID, parameters), OnMsgRecv NewClient)"

definition pass_status :: "(sfu_status \<Rightarrow> 's \<Rightarrow> 's) option \<Rightarrow> sfu_status \<Rightarrow> 's \<Rightarrow> 's" where
  "pass_status callback status s = (case callback of Some f \<Rightarrow> f status s | None \<Rightarrow> s)"

lemma NewNatsRPCClient_frame:
  "NewNatsRPCClient ord disc ID service peer n = (r, n') \<Longrightarrow> neighborNodes n' = neighborNodes n"
  by (auto simp: NewNatsRPCClient_def NewNatsRPCClientWithID_def Let_def
      dest!: pick_neighbor_frame pick_discovered_frame split: prod.splits option.splits sum.splits if_splits)

lemma open_stream_frame: "open_stream service d p n = (r, n') \<Longrightarrow> neighborNodes n' = neighborNodes n"
  by (auto simp: open_stream_def dest!: NewNatsRPCClient_frame split: prod.splits sum.splits)

lemma open_stream_peer:
  assumes "open_stream service d p n = (Some peer, n')" "finite (dom (neighborNodes n))" "fst p \<noteq> ''*''"
  shows "peer = fst p"
proof -
  obtain cli m where n: "NewNatsRPCClient (d_ord d) (d_found d) (d_ID d) service (fst p) n = (Inr cli, m)" "peer = cl_peer cli"
    using assms(1) by (auto simp: open_stream_def split: prod.splits sum.splits if_splits)
  then obtain ID where "NewNatsRPCClientWithID (d_ord d) (d_found d) (d_ID d) service (fst p) n = (Inr (cli, ID), m)"
    by (auto simp: NewNatsRPCClient_def split: prod.splits sum.splits)
  from NewNatsRPCClientWithID_Inr(3) [OF this assms(2,3)] n(2) show ?thesis by simp
qed

section \<open>State\<close>

text \<open>
  Why a goroutine calls \<open>reconnect\<close>: for an operation that failed, or as the first or second call of
  \<open>Reconnect\<close>, which has read the counter \<open>before\<close>. The number is the position of its call of
  \<open>Reconnect\<close> or \<open>Switch\<close> in the list of all of them.
\<close>

datatype rc_call = C_Plain | C_First "32 word" nat | C_Again nat

text \<open>Where the body of \<open>reconnect\<close> is; \<open>R_Dial\<close> knows the position of the parameters it has loaded.\<close>

datatype rc_phase = R_Disconnect | R_Count | R_Load | R_Dial nat | R_Stored | R_Finish

datatype rc_pc =
    T_Idle "nat option"
  | T_Before nat
  | T_Enter rc_call
  | T_Wait nat rc_call
  | T_Body nat rc_phase rc_call
  | T_After "32 word" nat

text \<open>
  \<open>rc_calls\<close> are the parameters that the calls of \<open>Switch\<close> and \<open>Reconnect\<close> leave behind, the current
  ones at the end; \<open>rc_stream\<close> is the current stream with the position of the parameters it was made
  for and its peer. \<open>rc_exec\<close>, \<open>rc_next\<close> and \<open>rc_cancelled\<close> are the \<open>SingleWaitExec\<close> of \<open>Exec_Locks\<close>.
\<close>

record reconnecting =
  rc_node :: Node
  rc_calls :: "factory_param list"
  rc_connected :: bool
  rc_stream :: "(nat \<times> string) option"
  rc_times :: "32 word"
  rc_exec :: "nat option"
  rc_next :: nat
  rc_cancelled :: "nat set"
  rc_closed :: bool
  rc_pc :: "nat \<Rightarrow> rc_pc"

definition NewSFUConnection :: "Node \<Rightarrow> reconnecting" where
  "NewSFUConnection n = \<lparr>rc_node = n, rc_calls = [NewClientStreamFactory], rc_connected = False, rc_stream = None,
     rc_times = 0, rc_exec = None, rc_next = 0, rc_cancelled = {}, rc_closed = False, rc_pc = (\<lambda>_. T_Idle None)\<rparr>"

definition exec_done :: "reconnecting \<Rightarrow> nat \<Rightarrow> bool" where
  "exec_done s c \<longleftrightarrow> rc_closed s \<or> c \<in> rc_cancelled s"

definition go_on :: "nat \<Rightarrow> rc_pc \<Rightarrow> reconnecting \<Rightarrow> reconnecting" where
  "go_on t pc s = s\<lparr>rc_pc := (rc_pc s)(t := pc)\<rparr>"

section \<open>Operations\<close>

text \<open>The parameters are stored; then \<open>Reconnect\<close> begins.\<close>

definition Switch_store :: "nat \<Rightarrow> string \<Rightarrow> (string, iface) gomap \<Rightarrow> reconnecting \<Rightarrow> reconnecting" where
  "Switch_store t peerNID parameters s =
     go_on t (T_Before (length (rc_calls s))) (s\<lparr>rc_calls := rc_calls s @ [(peerNID, parameters)]\<rparr>)"

definition Reconnect_begin :: "nat \<Rightarrow> reconnecting \<Rightarrow> reconnecting" where
  "Reconnect_begin t s =
     go_on t (T_Before (length (rc_calls s))) (s\<lparr>rc_calls := rc_calls s @ [last (rc_calls s)]\<rparr>)"

definition Reconnect_before :: "nat \<Rightarrow> nat \<Rightarrow> reconnecting \<Rightarrow> reconnecting" where
  "Reconnect_before t k s = go_on t (T_Enter (C_First (rc_times s) k)) s"

definition Reconnect_after :: "nat \<Rightarrow> 32 word \<Rightarrow> nat \<Rightarrow> reconnecting \<Rightarrow> reconnecting" where
  "Reconnect_after t before k s =
     (let after = rc_times s in
      if before \<ge> after then go_on t (T_Enter (C_Again k)) s else go_on t (T_Idle (Some k)) s)"

text \<open>\<open>reconnectExec.Do\<close>: run the body, or wait for the one that runs.\<close>

definition exec_enter :: "nat \<Rightarrow> rc_call \<Rightarrow> reconnecting \<Rightarrow> reconnecting" where
  "exec_enter t call s =
     (let run = go_on t (T_Body (rc_next s) R_Disconnect call) (s\<lparr>rc_exec := Some (rc_next s), rc_next := rc_next s + 1\<rparr>) in
      case rc_exec s of
        None \<Rightarrow> run
      | Some c \<Rightarrow> if exec_done s c then run else go_on t (T_Wait c call) s)"

definition exec_return :: "nat \<Rightarrow> rc_call \<Rightarrow> reconnecting \<Rightarrow> reconnecting" where
  "exec_return t call s =
     (case call of
        C_Plain \<Rightarrow> go_on t (T_Idle None) s
      | C_First before k \<Rightarrow> go_on t (T_After before k) s
      | C_Again k \<Rightarrow> go_on t (T_Idle (Some k)) s)"

text \<open>The statements of the body of \<open>reconnect\<close>.\<close>

definition body_step :: "nat \<Rightarrow> nat \<Rightarrow> rc_phase \<Rightarrow> rc_call \<Rightarrow> dial \<Rightarrow> reconnecting \<Rightarrow> reconnecting" where
  "body_step t c ph call d s =
     (case ph of
        R_Disconnect \<Rightarrow> go_on t (T_Body c R_Count call) (s\<lparr>rc_connected := False\<rparr>)
      | R_Count \<Rightarrow> go_on t (T_Body c R_Load call) (s\<lparr>rc_times := rc_times s + 1\<rparr>)
      | R_Load \<Rightarrow> go_on t (T_Body c (R_Dial (length (rc_calls s) - 1)) call) s
      | R_Dial k \<Rightarrow>
          (case NewClientStream d (rc_calls s ! k) (rc_node s) of
             (None, n) \<Rightarrow> go_on t (T_Body c R_Finish call) (s\<lparr>rc_node := n\<rparr>)
           | (Some peer, n) \<Rightarrow> go_on t (T_Body c R_Stored call) (s\<lparr>rc_node := n, rc_stream := Some (k, peer)\<rparr>))
      | R_Stored \<Rightarrow> go_on t (T_Body c R_Finish call) (s\<lparr>rc_connected := True\<rparr>)
      | R_Finish \<Rightarrow> exec_return t call (s\<lparr>rc_cancelled := insert c (rc_cancelled s)\<rparr>))"

text \<open>\<open>plain\<close> is a call of \<open>DoWithClient\<close> whose operation failed.\<close>

inductive reconnect_step :: "reconnecting \<Rightarrow> reconnecting \<Rightarrow> bool" where
  switch: "rc_pc s t = T_Idle r \<Longrightarrow> reconnect_step s (Switch_store t peerNID parameters s)"
| again: "rc_pc s t = T_Idle r \<Longrightarrow> reconnect_step s (Reconnect_begin t s)"
| plain: "rc_pc s t = T_Idle r \<Longrightarrow> reconnect_step s (go_on t (T_Enter C_Plain) s)"
| before: "rc_pc s t = T_Before k \<Longrightarrow> reconnect_step s (Reconnect_before t k s)"
| enter: "rc_pc s t = T_Enter call \<Longrightarrow> reconnect_step s (exec_enter t call s)"
| wake: "rc_pc s t = T_Wait c call \<Longrightarrow> exec_done s c \<Longrightarrow> reconnect_step s (exec_return t call s)"
| body: "rc_pc s t = T_Body c ph call \<Longrightarrow> reconnect_step s (body_step t c ph call d s)"
| after: "rc_pc s t = T_After b k \<Longrightarrow> reconnect_step s (Reconnect_after t b k s)"
| close: "reconnect_step s (s\<lparr>rc_closed := True\<rparr>)"

abbreviation reconnecting_reachable :: "Node \<Rightarrow> reconnecting \<Rightarrow> bool" where
  "reconnecting_reachable n \<equiv> reachable reconnect_step (NewSFUConnection n)"

section \<open>One body at a time\<close>

lemma go_on_simps [simp]:
  "rc_pc (go_on t pc s) = (rc_pc s)(t := pc)" "rc_node (go_on t pc s) = rc_node s" "rc_calls (go_on t pc s) = rc_calls s"
  "rc_connected (go_on t pc s) = rc_connected s" "rc_stream (go_on t pc s) = rc_stream s" "rc_times (go_on t pc s) = rc_times s"
  "rc_exec (go_on t pc s) = rc_exec s" "rc_next (go_on t pc s) = rc_next s" "rc_cancelled (go_on t pc s) = rc_cancelled s"
  "rc_closed (go_on t pc s) = rc_closed s"
  by (simp_all add: go_on_def)

text \<open>The goroutine that runs a body owns the live context, and the client is not connected while it works.\<close>

fun at_work :: "rc_phase \<Rightarrow> bool" where
  "at_work R_Disconnect = False"
| "at_work R_Finish = False"
| "at_work _ = True"

definition body_inv :: "reconnecting \<Rightarrow> bool" where
  "body_inv s \<longleftrightarrow>
     (\<forall>c \<in> rc_cancelled s. c < rc_next s) \<and> (\<forall>c. rc_exec s = Some c \<longrightarrow> c < rc_next s) \<and>
     (\<forall>t c ph call. rc_pc s t = T_Body c ph call \<longrightarrow> rc_exec s = Some c \<and> c \<notin> rc_cancelled s \<and>
        (at_work ph \<longrightarrow> \<not> rc_connected s)) \<and>
     (\<forall>t u c d ph qh call call'. rc_pc s t = T_Body c ph call \<longrightarrow> rc_pc s u = T_Body d qh call' \<longrightarrow> t = u)"


lemma body_invD:
  assumes "body_inv s"
  shows "\<And>c. c \<in> rc_cancelled s \<Longrightarrow> c < rc_next s" "\<And>c. rc_exec s = Some c \<Longrightarrow> c < rc_next s"
    "\<And>t c ph call. rc_pc s t = T_Body c ph call \<Longrightarrow> rc_exec s = Some c"
    "\<And>t c ph call. rc_pc s t = T_Body c ph call \<Longrightarrow> c \<notin> rc_cancelled s"
    "\<And>t c ph call. rc_pc s t = T_Body c ph call \<Longrightarrow> at_work ph \<Longrightarrow> \<not> rc_connected s"
    "\<And>t u c d ph qh call call'. rc_pc s t = T_Body c ph call \<Longrightarrow> rc_pc s u = T_Body d qh call' \<Longrightarrow> t = u"
  using assms unfolding body_inv_def by blast+

text \<open>A goroutine moves outside a body.\<close>

lemma body_inv_move:
  assumes "body_inv s" "rc_exec s' = rc_exec s" "rc_next s' = rc_next s" "rc_cancelled s' = rc_cancelled s"
    "rc_connected s' = rc_connected s" "rc_pc s' = (rc_pc s)(t := pc)" "\<And>c ph call. pc \<noteq> T_Body c ph call"
  shows "body_inv s'"
  using assms unfolding body_inv_def by (simp add: fun_upd_def)

text \<open>The one who runs the body takes its next statement.\<close>

lemma body_inv_work:
  assumes "body_inv s" "rc_exec s' = rc_exec s" "rc_next s' = rc_next s" "rc_cancelled s' = rc_cancelled s"
    "rc_pc s t = T_Body c ph call" "rc_pc s' = (rc_pc s)(t := T_Body c qh call)" "at_work qh \<longrightarrow> \<not> rc_connected s'"
  shows "body_inv s'"
proof -
  note inv = body_invD [OF assms(1)]
  have one: "u = t" if "rc_pc s u = T_Body d rh call'" for u d rh call'
    by (rule inv(6) [OF that assms(5)])
  have now: "u = t \<and> d = c \<and> rh = qh" if "rc_pc s' u = T_Body d rh call'" for u d rh call'
    using that one assms(6) by (auto split: if_splits)
  show ?thesis unfolding body_inv_def
  proof (intro conjI allI impI ballI)
    fix u d rh call' assume u: "rc_pc s' u = T_Body d rh call'"
    show "rc_exec s' = Some d" "d \<notin> rc_cancelled s'" using now [OF u] inv(3,4) [OF assms(5)] assms(2,4) by simp_all
    show "at_work rh \<Longrightarrow> \<not> rc_connected s'" using now [OF u] assms(7) by simp
    show "u = v" if "rc_pc s' v = T_Body d' qh' call''" for v d' qh' call'' using now [OF u] now [OF that] by simp
  qed (use inv(1,2) assms(2-4) in auto)
qed

lemma body_inv_leave:
  assumes "body_inv s" "rc_exec s' = rc_exec s" "rc_next s' = rc_next s" "rc_cancelled s' = insert c (rc_cancelled s)"
    "rc_pc s t = T_Body c ph call" "rc_pc s' = (rc_pc s)(t := pc)" "\<And>c ph call. pc \<noteq> T_Body c ph call"
  shows "body_inv s'"
proof -
  note inv = body_invD [OF assms(1)]
  have "rc_pc s' u \<noteq> T_Body d rh call'" for u d rh call'
    using inv(6) [OF _ assms(5), of u] assms(6,7) by auto
  moreover have "c < rc_next s" using inv(2,3) assms(5) by blast
  ultimately show ?thesis using inv(1,2) assms(2-4) unfolding body_inv_def by auto
qed

lemma body_inv_enter:
  assumes "body_inv s" "\<not> rc_closed s" "rc_pc s t = T_Enter call"
  shows "body_inv (exec_enter t call s)"
proof (cases "\<forall>c. rc_exec s = Some c \<longrightarrow> c \<in> rc_cancelled s")
  case True
  note inv = body_invD [OF assms(1)]
  let ?s = "go_on t (T_Body (rc_next s) R_Disconnect call) (s\<lparr>rc_exec := Some (rc_next s), rc_next := rc_next s + 1\<rparr>)"
  have e: "exec_enter t call s = ?s"
    using True by (auto simp: exec_enter_def exec_done_def Let_def split: option.splits)
  have none: "rc_pc s u \<noteq> T_Body c ph call'" for u c ph call' using True inv(3,4) by blast
  have old: "rc_next s \<notin> rc_cancelled s" using inv(1) by blast
  have now: "u = t \<and> c = rc_next s \<and> ph = R_Disconnect" if "rc_pc ?s u = T_Body c ph call'" for u c ph call'
    using that none by (auto split: if_splits)
  have "body_inv ?s" unfolding body_inv_def
  proof (intro conjI allI impI ballI)
    fix u c ph call' assume u: "rc_pc ?s u = T_Body c ph call'"
    show "rc_exec ?s = Some c" "c \<notin> rc_cancelled ?s" using now [OF u] old by simp_all
    show "at_work ph \<Longrightarrow> \<not> rc_connected ?s" using now [OF u] by simp
    show "u = v" if "rc_pc ?s v = T_Body d qh call''" for v d qh call'' using now [OF u] now [OF that] by simp
  next
    show "c < rc_next ?s" if "c \<in> rc_cancelled ?s" for c using inv(1) [of c] that by simp
  qed simp
  with e show ?thesis by simp
next
  case False
  then obtain c where "exec_enter t call s = go_on t (T_Wait c call) s"
    using assms(2) by (auto simp: exec_enter_def exec_done_def Let_def)
  with assms(1) show ?thesis by (auto intro: body_inv_move [where t = t])
qed

lemma exec_enter_closed [simp]: "rc_closed (exec_enter t call s) = rc_closed s"
  by (simp add: exec_enter_def Let_def split: option.splits)

lemma body_inv_step:
  assumes "reconnect_step s s'" "\<not> rc_closed s'" "body_inv s"
  shows "body_inv s'"
  using assms(1)
proof cases
  case (enter t call)
  then show ?thesis using assms(2,3) body_inv_enter by simp
next
  case (wake t c call)
  then show ?thesis by (cases call) (auto simp: exec_return_def intro: body_inv_move [OF assms(3), where t = t])
next
  case (body t c ph call d)
  show ?thesis
  proof (cases "ph = R_Finish")
    case True
    then show ?thesis using body
      by (cases call) (auto simp: body_step_def exec_return_def intro: body_inv_leave [OF assms(3), where t = t and c = c])
  next
    case False
    have "at_work ph \<Longrightarrow> \<not> rc_connected s" using body_invD(5) [OF assms(3)] body by blast
    with False body show ?thesis
      by (cases ph) (auto simp: body_step_def intro!: body_inv_work [OF assms(3), where t = t and c = c and ph = ph] split: prod.splits option.splits)
  qed
next
  case close
  then show ?thesis using assms(2) by simp
qed (auto simp: Switch_store_def Reconnect_begin_def Reconnect_before_def Reconnect_after_def Let_def intro: body_inv_move [OF assms(3)])

section \<open>The streams\<close>

text \<open>The current stream goes to the node its parameters name.\<close>

fun dial_below :: "nat \<Rightarrow> rc_pc \<Rightarrow> bool" where
  "dial_below n (T_Body c (R_Dial j) call) = (j < n)"
| "dial_below n _ = True"

lemma dial_below_mono: "dial_below n pc \<Longrightarrow> n \<le> m \<Longrightarrow> dial_below m pc"
  by (induction n pc rule: dial_below.induct) auto

definition stream_inv :: "reconnecting \<Rightarrow> bool" where
  "stream_inv s \<longleftrightarrow> rc_calls s \<noteq> [] \<and> finite (dom (neighborNodes (rc_node s))) \<and>
     (\<forall>j peer. rc_stream s = Some (j, peer) \<longrightarrow>
        j < length (rc_calls s) \<and> (fst (rc_calls s ! j) \<noteq> ''*'' \<longrightarrow> peer = fst (rc_calls s ! j))) \<and>
     (\<forall>t. dial_below (length (rc_calls s)) (rc_pc s t))"

lemma stream_inv_cong:
  assumes "stream_inv s" "rc_calls s' = rc_calls s @ ps" "neighborNodes (rc_node s') = neighborNodes (rc_node s)"
    "rc_stream s' = rc_stream s" "rc_pc s' = (rc_pc s)(t := pc)" "dial_below (length (rc_calls s')) pc"
  shows "stream_inv s'"
proof -
  have longer: "rc_calls s' ! j = rc_calls s ! j" if "j < length (rc_calls s)" for j
    using that assms(2) by (simp add: nth_append)
  have "dial_below (length (rc_calls s')) (rc_pc s' u)" for u
    using assms(1,2,5,6) by (auto simp: stream_inv_def intro: dial_below_mono)
  then show ?thesis using assms(1-4) longer unfolding stream_inv_def by auto
qed

lemma stream_inv_dial:
  assumes "stream_inv s" "rc_pc s t = T_Body c (R_Dial j) call"
  shows "stream_inv (body_step t c (R_Dial j) call d s)"
proof -
  obtain r n where n: "NewClientStream d (rc_calls s ! j) (rc_node s) = (r, n)" by fastforce
  note fr = open_stream_frame [OF n [unfolded NewClientStream_def]]
  have "dial_below (length (rc_calls s)) (rc_pc s t)" and fin: "finite (dom (neighborNodes (rc_node s)))"
    using assms(1) unfolding stream_inv_def by blast+
  then have j: "j < length (rc_calls s)" by (simp add: assms(2))
  show ?thesis
  proof (cases r)
    case None
    then show ?thesis using fr
      by (intro stream_inv_cong [OF assms(1), where ps = "[]" and t = t and pc = "T_Body c R_Finish call"]) (simp_all add: body_step_def n)
  next
    case (Some peer)
    then have "fst (rc_calls s ! j) \<noteq> ''*'' \<Longrightarrow> peer = fst (rc_calls s ! j)"
      using open_stream_peer fin n by (metis NewClientStream_def)
    then show ?thesis using assms(1) fr j Some by (auto simp: body_step_def n stream_inv_def)
  qed
qed

lemma exec_enter_cases:
  obtains (run) "exec_enter t call s =
      go_on t (T_Body (rc_next s) R_Disconnect call) (s\<lparr>rc_exec := Some (rc_next s), rc_next := rc_next s + 1\<rparr>)"
      "\<And>c. rc_exec s = Some c \<Longrightarrow> exec_done s c"
    | (wait) c where "exec_enter t call s = go_on t (T_Wait c call) s" "rc_exec s = Some c" "\<not> exec_done s c"
  by (cases "rc_exec s") (auto simp: exec_enter_def Let_def split: if_splits)

definition return_pc :: "rc_call \<Rightarrow> rc_pc" where
  "return_pc call = (case call of C_Plain \<Rightarrow> T_Idle None | C_First before k \<Rightarrow> T_After before k | C_Again k \<Rightarrow> T_Idle (Some k))"

lemma exec_return_go: "exec_return t call s = go_on t (return_pc call) s"
  by (simp add: exec_return_def return_pc_def split: rc_call.splits)

lemma return_pc_no_body [simp]: "return_pc call \<noteq> T_Body c ph call'" "dial_below n (return_pc call)"
  by (simp_all add: return_pc_def split: rc_call.splits)


lemma stream_inv_step:
  assumes "reconnect_step s s'" "stream_inv s"
  shows "stream_inv s'"
  using assms(1)
proof cases
  case (enter t call)
  then show ?thesis
    by (cases rule: exec_enter_cases [of t call s]) (auto intro!: stream_inv_cong [OF assms(2), where t = t and ps = "[]"])
next
  case (wake t c call)
  then show ?thesis
    by (intro stream_inv_cong [OF assms(2), where t = t and ps = "[]"]) (auto simp: exec_return_go)
next
  case (body t c ph call d)
  show ?thesis
  proof (cases ph)
    case (R_Dial j)
    then show ?thesis using body stream_inv_dial [OF assms(2)] by simp
  next
    case R_Load
    then show ?thesis using body assms(2)
      by (intro stream_inv_cong [OF assms(2), where t = t and ps = "[]"]) (auto simp: body_step_def stream_inv_def)
  qed (use body in \<open>auto simp: body_step_def exec_return_go intro!: stream_inv_cong [OF assms(2), where t = t and ps = "[]"]\<close>)
next
  case (switch t r peerNID parameters)
  then show ?thesis
    by (intro stream_inv_cong [OF assms(2), where t = t]) (auto simp: Switch_store_def)
next
  case (again t r)
  then show ?thesis
    by (intro stream_inv_cong [OF assms(2), where t = t]) (auto simp: Reconnect_begin_def)
next
  case close
  then show ?thesis
    by (intro stream_inv_cong [OF assms(2), where t = 0 and ps = "[]" and pc = "rc_pc s 0"]) (use assms(2) in \<open>auto simp: stream_inv_def\<close>)
qed (auto simp: Reconnect_before_def Reconnect_after_def Let_def intro!: stream_inv_cong [OF assms(2), where ps = "[]"])

section \<open>What a call of Switch waits for\<close>

text \<open>
  The client is, or will be, connected only by streams that were made for parameters not older than
  the call at position \<open>k\<close>.
\<close>

definition made_for :: "nat \<Rightarrow> reconnecting \<Rightarrow> bool" where
  "made_for k s \<longleftrightarrow> (\<exists>j peer. rc_stream s = Some (j, peer) \<and> k \<le> j)"

fun dial_ok :: "nat \<Rightarrow> bool \<Rightarrow> rc_pc \<Rightarrow> bool" where
  "dial_ok k made (T_Body c (R_Dial j) call) = (k \<le> j)"
| "dial_ok k made (T_Body c R_Stored call) = made"
| "dial_ok k made _ = True"

definition fresh :: "nat \<Rightarrow> reconnecting \<Rightarrow> bool" where
  "fresh k s \<longleftrightarrow> k < length (rc_calls s) \<and> (rc_connected s \<longrightarrow> made_for k s) \<and> (\<forall>t. dial_ok k (made_for k s) (rc_pc s t))"

lemma dial_ok_return [simp]: "dial_ok k made (return_pc call)"
  by (simp add: return_pc_def split: rc_call.splits)

lemma dial_ok_made: "dial_ok k made pc \<Longrightarrow> dial_ok k True pc"
  by (induction k made pc rule: dial_ok.induct) auto

lemma fresh_cong:
  assumes "fresh k s" "rc_calls s' = rc_calls s @ ps" "rc_connected s' \<Longrightarrow> rc_connected s" "rc_stream s' = rc_stream s"
    "rc_pc s' = (rc_pc s)(t := pc)" "dial_ok k (made_for k s) pc"
  shows "fresh k s'"
proof -
  have "made_for k s' = made_for k s" using assms(4) by (simp add: made_for_def)
  then show ?thesis using assms(1-3,5,6) unfolding fresh_def by auto
qed

lemma fresh_body:
  assumes "fresh k s" "stream_inv s" "rc_pc s t = T_Body c ph call"
  shows "fresh k (body_step t c ph call d s)"
proof -
  have now: "dial_ok k (made_for k s) (T_Body c ph call)" "k < length (rc_calls s)"
    using assms(1,3) unfolding fresh_def by metis+
  note cong = fresh_cong [OF assms(1), where t = t and ps = "[]"]
  show ?thesis
  proof (cases ph)
    case (R_Dial j)
    obtain r n where n: "NewClientStream d (rc_calls s ! j) (rc_node s) = (r, n)" by fastforce
    show ?thesis
    proof (cases r)
      case None
      then show ?thesis by (intro cong [where pc = "T_Body c R_Finish call"]) (simp_all add: body_step_def R_Dial n)
    next
      case (Some peer)
      let ?s = "go_on t (T_Body c R_Stored call) (s\<lparr>rc_node := n, rc_stream := Some (j, peer)\<rparr>)"
      have e: "body_step t c ph call d s = ?s" by (simp add: body_step_def R_Dial n Some)
      have m: "made_for k ?s" using now(1) by (simp add: made_for_def R_Dial)
      have "dial_ok k (made_for k ?s) (rc_pc ?s u)" for u
        using m assms(1) dial_ok_made unfolding fresh_def by (cases "u = t") auto
      then show ?thesis using m now(2) unfolding e fresh_def by simp
    qed
  next
    case R_Stored
    then have "made_for k s" using now by simp
    moreover have "made_for k (body_step t c ph call d s) = made_for k s" by (simp add: body_step_def R_Stored made_for_def)
    ultimately show ?thesis using assms(1) unfolding fresh_def by (simp add: body_step_def R_Stored)
  next
    case R_Load
    with now(2) show ?thesis
      by (intro cong [where pc = "T_Body c (R_Dial (length (rc_calls s) - 1)) call"]) (simp_all add: body_step_def)
  qed (auto simp: body_step_def exec_return_go intro!: cong)
qed

lemma fresh_step:
  assumes "reconnect_step s s'" "stream_inv s" "fresh k s"
  shows "fresh k s'"
  using assms(1)
proof cases
  case (enter t call)
  then show ?thesis
    by (cases rule: exec_enter_cases [of t call s]) (auto intro!: fresh_cong [OF assms(3), where t = t and ps = "[]"])
next
  case (wake t c call)
  then show ?thesis
    by (intro fresh_cong [OF assms(3), where t = t and ps = "[]"]) (auto simp: exec_return_go)
next
  case (body t c ph call d)
  then show ?thesis using fresh_body [OF assms(3,2)] by simp
next
  case (switch t r peerNID parameters)
  then show ?thesis by (intro fresh_cong [OF assms(3), where t = t]) (auto simp: Switch_store_def)
next
  case (again t r)
  then show ?thesis by (intro fresh_cong [OF assms(3), where t = t]) (auto simp: Reconnect_begin_def)
next
  case close
  then show ?thesis using assms(3) by (simp add: fresh_def made_for_def)
qed (auto simp: Reconnect_before_def Reconnect_after_def Let_def intro!: fresh_cong [OF assms(3), where ps = "[]"])

text \<open>The one body that counts makes the client fresh for every call so far.\<close>

lemma count_fresh:
  assumes "body_inv s" "rc_pc s t = T_Body c R_Count call" "k < length (rc_calls s)"
  shows "fresh k (body_step t c R_Count call d s)"
proof -
  have "\<not> rc_connected s" using body_invD(5) [OF assms(1,2)] by simp
  moreover have "dial_ok k made (rc_pc s u)" if "u \<noteq> t" for u made
    using body_invD(6) [OF assms(1) _ assms(2), of u] that by (cases "rc_pc s u") auto
  ultimately show ?thesis using assms(3) by (simp add: fresh_def body_step_def)
qed

section \<open>The calls\<close>

text \<open>Bodies that have not counted yet, apart from the one of context \<open>x\<close>.\<close>

fun precount :: "rc_pc \<Rightarrow> bool" where
  "precount (T_Body c ph call) = (ph = R_Disconnect \<or> ph = R_Count)"
| "precount _ = True"

fun body_of :: "nat \<Rightarrow> rc_pc \<Rightarrow> bool" where
  "body_of x (T_Body c ph call) = (x = c)"
| "body_of x _ = False"

definition none_counted :: "nat option \<Rightarrow> reconnecting \<Rightarrow> bool" where
  "none_counted x s \<longleftrightarrow> (\<forall>u. precount (rc_pc s u) \<or> (\<exists>c. x = Some c \<and> body_of c (rc_pc s u)))"

definition will_count :: "nat \<Rightarrow> reconnecting \<Rightarrow> bool" where
  "will_count x s \<longleftrightarrow> (\<exists>u. body_of x (rc_pc s u) \<and> precount (rc_pc s u))"

text \<open>What holds of a call while its goroutine is at \<open>pc\<close>, unless the client is fresh for it.\<close>

fun call_at :: "rc_call \<Rightarrow> nat option" where
  "call_at C_Plain = None"
| "call_at (C_First b k) = Some k"
| "call_at (C_Again k) = Some k"

fun unread :: "reconnecting \<Rightarrow> rc_call \<Rightarrow> bool" where
  "unread s (C_First b k) = (rc_times s = b)"
| "unread s _ = True"

fun call_of :: "rc_pc \<Rightarrow> nat option" where
  "call_of (T_Idle r) = r"
| "call_of (T_Before k) = Some k"
| "call_of (T_Enter call) = call_at call"
| "call_of (T_Wait c call) = call_at call"
| "call_of (T_Body c ph call) = call_at call"
| "call_of (T_After b k) = Some k"

fun pending :: "reconnecting \<Rightarrow> rc_pc \<Rightarrow> bool" where
  "pending s (T_Idle r) = False"
| "pending s (T_Before k) = True"
| "pending s (T_Enter (C_Again k)) = none_counted None s"
| "pending s (T_Enter call) = unread s call"
| "pending s (T_Wait c (C_Again k)) = will_count c s"
| "pending s (T_Wait c call) = (unread s call \<and> none_counted (Some c) s)"
| "pending s (T_Body c ph call) = (unread s call \<and> (ph = R_Disconnect \<or> ph = R_Count))"
| "pending s (T_After b k) = (rc_times s = b \<and> none_counted None s)"

definition call_inv :: "reconnecting \<Rightarrow> rc_pc \<Rightarrow> bool" where
  "call_inv s pc \<longleftrightarrow> (\<forall>k. call_of pc = Some k \<longrightarrow> k < length (rc_calls s) \<and> (fresh k s \<or> pending s pc))"

text \<open>A step that does not count leaves the others as they are, a step that counts makes them fresh.\<close>

lemma call_inv_mono:
  assumes "call_inv s pc" "\<And>k. fresh k s \<Longrightarrow> fresh k s'" "rc_times s' = rc_times s" "length (rc_calls s) \<le> length (rc_calls s')"
    "\<And>x. none_counted x s \<Longrightarrow> none_counted x s'" "\<And>x. will_count x s \<Longrightarrow> will_count x s'"
  shows "call_inv s' pc"
proof -
  have "unread s call \<Longrightarrow> unread s' call" for call using assms(3) by (cases call) auto
  then have "pending s pc \<Longrightarrow> pending s' pc" using assms(3,5,6) by (induction s pc rule: pending.induct) auto
  then show ?thesis using assms(1,2,4) unfolding call_inv_def by (meson order_less_le_trans)
qed

lemma call_inv_fresh:
  assumes "call_inv s pc" "\<And>k. k < length (rc_calls s) \<Longrightarrow> fresh k s'" "length (rc_calls s) = length (rc_calls s')"
  shows "call_inv s' pc"
  using assms unfolding call_inv_def by auto

text \<open>The steps of a goroutine that does not count.\<close>

lemma counted_move:
  assumes "rc_pc s' = (rc_pc s)(t := pc)" "precount pc" "\<And>c. body_of c (rc_pc s t) \<Longrightarrow> precount (rc_pc s t) \<Longrightarrow> body_of c pc"
  shows "none_counted x s \<Longrightarrow> none_counted x s'" "will_count y s \<Longrightarrow> will_count y s'"
proof -
  show "none_counted x s \<Longrightarrow> none_counted x s'" using assms(1,2) unfolding none_counted_def by auto
  assume "will_count y s"
  then obtain u where "body_of y (rc_pc s u)" "precount (rc_pc s u)" unfolding will_count_def by blast
  then show "will_count y s'" using assms unfolding will_count_def by (intro exI [of _ u]) auto
qed

lemma counted_work:
  assumes "rc_pc s' = (rc_pc s)(t := T_Body c qh call)" "rc_pc s t = T_Body c ph call" "\<not> precount (rc_pc s t)"
  shows "none_counted x s \<Longrightarrow> none_counted x s'" "will_count y s \<Longrightarrow> will_count y s'"
proof -
  show "none_counted x s \<Longrightarrow> none_counted x s'" using assms unfolding none_counted_def by (metis body_of.simps(1) fun_upd_apply)
  assume "will_count y s"
  then obtain u where "body_of y (rc_pc s u)" "precount (rc_pc s u)" unfolding will_count_def by blast
  then show "will_count y s'" using assms unfolding will_count_def by (intro exI [of _ u]) auto
qed

section \<open>The invariant\<close>

text \<open>While a context is live, a goroutine runs its body.\<close>

definition exec_inv :: "reconnecting \<Rightarrow> bool" where
  "exec_inv s \<longleftrightarrow> (\<forall>c. rc_exec s = Some c \<longrightarrow> c \<in> rc_cancelled s \<or> (\<exists>u. body_of c (rc_pc s u)))"

lemma exec_inv_cong:
  assumes "exec_inv s" "rc_exec s' = rc_exec s" "rc_cancelled s \<subseteq> rc_cancelled s'" "rc_pc s' = (rc_pc s)(t := pc)"
    "\<And>c. body_of c (rc_pc s t) \<Longrightarrow> body_of c pc \<or> c \<in> rc_cancelled s'"
  shows "exec_inv s'"
  unfolding exec_inv_def
proof (intro allI impI)
  fix c assume "rc_exec s' = Some c"
  then consider "c \<in> rc_cancelled s" | u where "body_of c (rc_pc s u)"
    using assms(1,2) unfolding exec_inv_def by auto
  then show "c \<in> rc_cancelled s' \<or> (\<exists>u. body_of c (rc_pc s' u))"
  proof cases
    case (2 u)
    then show ?thesis using assms(4,5) by (cases "u = t") (auto intro: exI [of _ u])
  qed (use assms(3) in auto)
qed

definition reconnect_inv :: "reconnecting \<Rightarrow> bool" where
  "reconnect_inv s \<longleftrightarrow> stream_inv s \<and> (rc_closed s \<or> body_inv s \<and> exec_inv s \<and> (\<forall>u. call_inv s (rc_pc s u)))"

lemma others:
  assumes "reconnect_step s s'" "stream_inv s" "\<forall>u. call_inv s (rc_pc s u)"
    "rc_pc s' = (rc_pc s)(t := pc)" "call_inv s' pc" "rc_times s' = rc_times s" "length (rc_calls s) \<le> length (rc_calls s')"
    "\<And>x. none_counted x s \<Longrightarrow> none_counted x s'" "\<And>x. will_count x s \<Longrightarrow> will_count x s'"
  shows "call_inv s' (rc_pc s' u)"
  using assms(3-5) call_inv_mono [OF _ fresh_step [OF assms(1,2)] assms(6-9), of "rc_pc s u"] by (cases "u = t") auto

lemma call_inv_pc:
  assumes "call_inv s pc" "\<And>k. fresh k s \<Longrightarrow> fresh k s'" "length (rc_calls s) \<le> length (rc_calls s')"
    "call_of pc' = None \<or> call_of pc' = call_of pc" "pending s pc \<Longrightarrow> call_of pc \<noteq> None \<Longrightarrow> pending s' pc'"
  shows "call_inv s' pc'"
  using assms unfolding call_inv_def by (metis option.simps(3) order_less_le_trans)

lemma no_body_cancelled: "body_inv s \<Longrightarrow> c \<in> rc_cancelled s \<Longrightarrow> \<not> body_of c (rc_pc s u)"
  using body_invD(4) by (cases "rc_pc s u") auto

lemma reconnect_inv_enter:
  assumes "reconnect_step s (exec_enter t call s)" "stream_inv s" "\<not> rc_closed s" "body_inv s" "exec_inv s"
    "\<forall>u. call_inv s (rc_pc s u)" "rc_pc s t = T_Enter call"
  shows "exec_inv (exec_enter t call s) \<and> (\<forall>u. call_inv (exec_enter t call s) (rc_pc (exec_enter t call s) u))"
proof (cases rule: exec_enter_cases [of t call s])
  case run
  note fr = fresh_step [OF assms(1,2)]
  let ?s = "exec_enter t call s"
  have t: "call_inv s (T_Enter call)" using assms(6,7) by metis
  have "exec_inv ?s" by (auto simp: exec_inv_def run(1) intro!: exI [of _ t])
  moreover have "call_inv ?s (T_Body (rc_next s) R_Disconnect call)"
    by (rule call_inv_pc [OF t fr]) (auto simp: run(1), cases call, auto)
  moreover have "call_inv ?s (rc_pc ?s u)" if "call_inv ?s (T_Body (rc_next s) R_Disconnect call)" for u
    by (rule others [OF assms(1,2,6) _ that])
      (use counted_move [of ?s s t "T_Body (rc_next s) R_Disconnect call"] assms(7) in \<open>simp_all add: run(1)\<close>)
  ultimately show ?thesis by blast
next
  case (wait c)
  note fr = fresh_step [OF assms(1,2)]
  let ?s = "exec_enter t call s"
  have t: "call_inv s (T_Enter call)" using assms(6,7) by metis
  note moved = counted_move [of ?s s t "T_Wait c call"]
  have only: "none_counted (Some c) ?s"
    using body_invD(3) [OF assms(4)] wait(2) unfolding none_counted_def
    by (auto simp: wait(1)) (metis body_of.simps(1) option.inject precount.elims(3))
  obtain u where u: "body_of c (rc_pc s u)"
    using assms(5) wait(2,3) unfolding exec_inv_def exec_done_def by auto
  have ex: "will_count c s" if "none_counted None s" using that u unfolding none_counted_def will_count_def by auto
  have "exec_inv ?s" by (rule exec_inv_cong [OF assms(5), where t = t]) (simp_all add: wait(1) assms(7))
  moreover have "call_inv ?s (T_Wait c call)"
  proof (rule call_inv_pc [OF t fr])
    show "pending ?s (T_Wait c call)" if "pending s (T_Enter call)" "call_of (T_Enter call) \<noteq> None"
      using that only moved(2) [OF _ _ _ ex] assms(7) arg_cong [OF wait(1), of rc_times] arg_cong [OF wait(1), of rc_pc]
      by (cases call) simp_all
  qed (simp_all add: wait(1))
  moreover have "call_inv ?s (rc_pc ?s u)" if "call_inv ?s (T_Wait c call)" for u
    by (rule others [OF assms(1,2,6) _ that]) (use moved assms(7) in \<open>simp_all add: wait(1)\<close>)
  ultimately show ?thesis by blast
qed

lemma body_pc:
  assumes "ph \<noteq> R_Finish"
  shows "\<exists>qh. rc_pc (body_step t c ph call d s) = (rc_pc s)(t := T_Body c qh call) \<and> (qh = R_Count \<longleftrightarrow> ph = R_Disconnect)"
proof (cases ph)
  case (R_Dial k)
  obtain r n where "NewClientStream d (rc_calls s ! k) (rc_node s) = (r, n)" by fastforce
  then show ?thesis by (cases r) (auto simp: body_step_def R_Dial)
qed (use assms in \<open>auto simp: body_step_def\<close>)

lemma reconnect_inv_body:
  assumes "reconnect_step s (body_step t c ph call d s)" "stream_inv s" "body_inv s" "exec_inv s"
    "\<forall>u. call_inv s (rc_pc s u)" "rc_pc s t = T_Body c ph call"
  shows "exec_inv (body_step t c ph call d s) \<and> (\<forall>u. call_inv (body_step t c ph call d s) (rc_pc (body_step t c ph call d s) u))"
proof -
  let ?s = "body_step t c ph call d s"
  note fr = fresh_step [OF assms(1,2)]
  have t: "call_inv s (T_Body c ph call)" using assms(5,6) by metis
  have calls: "rc_calls ?s = rc_calls s"
    by (simp add: body_step_def exec_return_go split: rc_phase.splits prod.splits option.splits)
  have counts: "rc_times ?s = rc_times s" if "ph \<noteq> R_Count"
    using that by (simp add: body_step_def exec_return_go split: rc_phase.splits prod.splits option.splits)
  show ?thesis
  proof (cases "ph = R_Finish")
    case True
    have pc: "rc_pc ?s = (rc_pc s)(t := return_pc call)" by (simp add: True body_step_def exec_return_go)
    have "exec_inv ?s"
      by (rule exec_inv_cong [OF assms(4), where t = t]) (simp_all add: True body_step_def exec_return_go subset_insertI assms(6))
    moreover have "call_inv ?s (return_pc call)"
      by (rule call_inv_pc [OF t fr]) (use calls in \<open>cases call; simp add: True return_pc_def\<close>)+
    moreover have "call_inv ?s (rc_pc ?s u)" if "call_inv ?s (return_pc call)" for u
    proof (rule others [OF assms(1,2,5) pc that])
      have "precount (return_pc call)" by (cases call) (simp_all add: return_pc_def)
      then show "none_counted x s \<Longrightarrow> none_counted x ?s" "will_count y s \<Longrightarrow> will_count y ?s" for x y
        using counted_move [OF pc] by (simp_all add: assms(6) True)
    qed (use True calls counts in simp_all)
    ultimately show ?thesis by blast
  next
    case False
    then obtain qh where pc: "rc_pc ?s = (rc_pc s)(t := T_Body c qh call)" and qh: "qh = R_Count \<longleftrightarrow> ph = R_Disconnect"
      using body_pc by blast
    have "exec_inv ?s"
      by (rule exec_inv_cong [OF assms(4) _ _ pc])
        (use False assms(6) in \<open>auto simp: body_step_def split: rc_phase.splits prod.splits option.splits\<close>)
    moreover have "call_inv ?s (rc_pc ?s u)" for u
    proof (cases "ph = R_Count")
      case True
      have all: "fresh k ?s" if "k < length (rc_calls s)" for k
        using count_fresh [OF assms(3)] assms(6) that True by simp
      have "call_inv ?s (T_Body c qh call)" using t all calls by (auto simp: call_inv_def)
      moreover have "call_inv ?s (rc_pc s u)" by (rule call_inv_fresh [of s]) (use assms(5) all calls in simp_all)
      ultimately show ?thesis using fun_cong [OF pc, of u] by (cases "u = t") simp_all
    next
      case no: False
      have "call_inv ?s (T_Body c qh call)"
      proof (rule call_inv_pc [OF t fr])
        show "pending ?s (T_Body c qh call)" if "pending s (T_Body c ph call)"
          using that no qh counts [OF no] by (cases call) auto
      qed (simp_all add: calls)
      then show ?thesis
      proof (rule others [OF assms(1,2,5) pc])
        show "none_counted x s \<Longrightarrow> none_counted x ?s" "will_count y s \<Longrightarrow> will_count y ?s" for x y
        proof -
          have "(none_counted x s \<longrightarrow> none_counted x ?s) \<and> (will_count y s \<longrightarrow> will_count y ?s)"
          proof (cases "ph = R_Disconnect")
            case True
            then have "precount (T_Body c qh call)" using qh by simp
            moreover have "\<And>e. body_of e (rc_pc s t) \<Longrightarrow> precount (rc_pc s t) \<Longrightarrow> body_of e (T_Body c qh call)" by (simp add: assms(6))
            ultimately show ?thesis using counted_move [OF pc] by blast
          next
            case False
            then have "\<not> precount (rc_pc s t)" using no by (simp add: assms(6))
            from counted_work [OF pc assms(6) this] show ?thesis by blast
          qed
          then show "none_counted x s \<Longrightarrow> none_counted x ?s" "will_count y s \<Longrightarrow> will_count y ?s" by simp_all
        qed
      qed (simp_all add: calls counts [OF no])
    qed
    ultimately show ?thesis by blast
  qed
qed

lemma reconnect_inv_move:
  assumes "reconnect_step s s'" "stream_inv s" "exec_inv s" "\<forall>u. call_inv s (rc_pc s u)"
    "rc_pc s' = (rc_pc s)(t := pc)" "\<And>c. \<not> body_of c (rc_pc s t)" "\<And>c. \<not> body_of c pc"
    "rc_times s' = rc_times s" "length (rc_calls s) \<le> length (rc_calls s')" "rc_exec s' = rc_exec s" "rc_cancelled s' = rc_cancelled s"
    "call_inv s' pc"
  shows "exec_inv s' \<and> (\<forall>u. call_inv s' (rc_pc s' u))"
proof -
  have "precount pc" using assms(7) by (cases pc) auto
  then show ?thesis
    using others [OF assms(1,2,4,5,12,8,9)] counted_move [OF assms(5)] assms(6)
      exec_inv_cong [OF assms(3,10) _ assms(5)] assms(11) by blast
qed

lemma reconnect_inv_step:
  assumes "reconnect_step s s'" "reconnect_inv s"
  shows "reconnect_inv s'"
proof (cases "rc_closed s'")
  case True
  then show ?thesis using stream_inv_step [OF assms(1)] assms(2) by (simp add: reconnect_inv_def)
next
  case False
  have alive: "\<not> rc_closed s" using assms(1) False
    by cases (auto simp: Switch_store_def Reconnect_begin_def Reconnect_before_def Reconnect_after_def exec_return_go
        body_step_def Let_def split: rc_phase.splits prod.splits option.splits if_splits)
  then have inv: "stream_inv s" "body_inv s" "exec_inv s" "\<forall>u. call_inv s (rc_pc s u)"
    using assms(2) by (auto simp: reconnect_inv_def)
  note move = reconnect_inv_move [OF assms(1) inv(1,3,4)]
  have at: "rc_pc s t = pc \<Longrightarrow> call_inv s pc" for t pc using inv(4) by blast
  have "exec_inv s' \<and> (\<forall>u. call_inv s' (rc_pc s' u))"
    using assms(1)
  proof cases
    case (enter t call)
    then show ?thesis using reconnect_inv_enter [OF _ inv(1) alive inv(2-4)] assms(1) by simp
  next
    case (body t c ph call d)
    then show ?thesis using reconnect_inv_body [OF _ inv] assms(1) by simp
  next
    case (wake t c call)
    note t = at [OF wake(2)]
    have gone: "c \<in> rc_cancelled s" using wake(3) alive by (simp add: exec_done_def)
    have "\<not> body_of c (rc_pc s u)" for u by (rule no_body_cancelled [OF inv(2) gone])
    then have c: "\<not> will_count c s" "none_counted (Some c) s \<Longrightarrow> none_counted None s'"
      by (auto simp: will_count_def none_counted_def wake(1) exec_return_go return_pc_def split: rc_call.splits)
    have "call_inv s' (return_pc call)"
    proof (rule call_inv_pc [OF t fresh_step [OF assms(1) inv(1)]])
      show "pending s' (return_pc call)" if "pending s (T_Wait c call)" "call_of (T_Wait c call) \<noteq> None"
        using that c by (cases call) (simp_all add: return_pc_def wake(1) exec_return_go)
    qed (cases call; simp add: return_pc_def wake(1) exec_return_go)+
    then show ?thesis
      by (rule move [of t, rotated -1]) (cases call; simp add: wake exec_return_go return_pc_def)+
  next
    case (after t b k)
    note t = at [OF after(2)]
    let ?pc = "if b \<ge> rc_times s then T_Enter (C_Again k) else T_Idle (Some k)"
    have s': "s' = go_on t ?pc s" by (simp add: after(1) Reconnect_after_def)
    have "none_counted None s \<Longrightarrow> none_counted None s'" by (rule counted_move [where t = t and pc = ?pc]) (simp_all add: s' after(2))
    then have "call_inv s' ?pc"
      by (intro call_inv_pc [OF t fresh_step [OF assms(1) inv(1)]]) (auto simp: s')
    then show ?thesis by (rule move [of t, rotated -1]) (simp_all add: s' after(2))
  next
    case (switch t r peerNID parameters)
    have "call_inv s' (T_Before (length (rc_calls s)))" by (simp add: call_inv_def switch(1) Switch_store_def)
    then show ?thesis by (rule move [of t, rotated -1]) (simp_all add: switch Switch_store_def)
  next
    case (again t r)
    have "call_inv s' (T_Before (length (rc_calls s)))" by (simp add: call_inv_def again(1) Reconnect_begin_def)
    then show ?thesis by (rule move [of t, rotated -1]) (simp_all add: again Reconnect_begin_def)
  next
    case (plain t r)
    have "call_inv s' (T_Enter C_Plain)" by (simp add: call_inv_def)
    then show ?thesis by (rule move [of t, rotated -1]) (simp_all add: plain)
  next
    case (before t k)
    have "call_inv s' (T_Enter (C_First (rc_times s) k))"
      by (rule call_inv_pc [OF at [OF before(2)] fresh_step [OF assms(1) inv(1)]]) (simp_all add: before(1) Reconnect_before_def)
    then show ?thesis by (rule move [of t, rotated -1]) (simp_all add: before Reconnect_before_def)
  qed (use False in simp)
  then show ?thesis using stream_inv_step [OF assms(1) inv(1)] body_inv_step [OF assms(1) False inv(2)]
    by (simp add: reconnect_inv_def)
qed

lemma reconnect_inv_reachable:
  assumes "reconnecting_reachable n s" "finite (dom (neighborNodes n))"
  shows "reconnect_inv s"
  using assms(1)
proof (induction rule: reachable_invariant)
  case init
  show ?case using assms(2)
    by (auto simp: reconnect_inv_def stream_inv_def body_inv_def exec_inv_def call_inv_def NewSFUConnection_def NewClientStreamFactory_def)
next
  case (step s s')
  then show ?case using reconnect_inv_step by blast
qed

section \<open>Properties\<close>

text \<open>
  C17. After \<open>Switch\<close> has returned, a client that says it is connected has a stream that was made for the
  parameters of this call or of a later one, and it goes to the node they name: whatever the other
  goroutines do, also when \<open>Reconnect\<close> only waited for somebody else's reconnection that had begun
  with older parameters, and when the counter of the reconnections wraps around.
\<close>

theorem switch_reaches_node:
  assumes "reconnecting_reachable n s" "finite (dom (neighborNodes n))" "\<not> rc_closed s"
    and "rc_pc s t = T_Idle (Some k)" "rc_connected s"
  shows "\<exists>j peer. rc_stream s = Some (j, peer) \<and> k \<le> j \<and> j < length (rc_calls s) \<and>
    (fst (rc_calls s ! j) \<noteq> ''*'' \<longrightarrow> peer = fst (rc_calls s ! j))"
proof -
  have inv: "stream_inv s" "call_inv s (rc_pc s t)"
    using reconnect_inv_reachable [OF assms(1,2)] assms(3) by (simp_all add: reconnect_inv_def)
  have "fresh k s" using inv(2) by (simp add: assms(4) call_inv_def)
  then obtain j peer where "rc_stream s = Some (j, peer)" "k \<le> j"
    using assms(5) unfolding fresh_def made_for_def by blast
  with inv(1) show ?thesis unfolding stream_inv_def by auto
qed

text \<open>One goroutine switches to the node ''a''.\<close>

definition demo_dial :: dial where
  "demo_dial = \<lparr>d_ord = ascending, d_found = Some [\<lparr>DC = ''dc1'', DN_Service = ''rtc'', NID = ''a'', RPC = \<lparr>Protocol = ''nats'', RPC_Addr = '''', Params = Map.empty\<rparr>, ExtraInfo = Map.empty\<rparr>],
     d_ID = ''1'', d_signal = True\<rparr>"

lemma demo_stream: "\<exists>m. NewClientStream demo_dial (''a'', Map.empty) (NewNode ''c'') = (Some ''a'', m)"
  by (simp add: NewClientStream_def open_stream_def NewNatsRPCClient_def NewNatsRPCClientWithID_def demo_dial_def
      NewNode_def new_nrpc_client_def Let_def)

lemma demo_switched:
  "\<exists>s. reconnecting_reachable (NewNode ''c'') s \<and> rc_pc s 0 = T_Idle (Some 1) \<and> rc_connected s \<and> \<not> rc_closed s \<and>
     rc_calls s = [NewClientStreamFactory, (''a'', Map.empty)]"
proof -
  let ?p = "(''a'', Map.empty) :: factory_param" and ?c = "C_First 0 1"
  obtain m where m: "NewClientStream demo_dial ?p (NewNode ''c'') = (Some ''a'', m)" using demo_stream by blast
  define s0 where "s0 = NewSFUConnection (NewNode ''c'')"
  define s1 where "s1 = Switch_store 0 (fst ?p) (snd ?p) s0"
  define s2 where "s2 = Reconnect_before 0 1 s1"
  define s3 where "s3 = exec_enter 0 ?c s2"
  define s4 where "s4 = body_step 0 0 R_Disconnect ?c demo_dial s3"
  define s5 where "s5 = body_step 0 0 R_Count ?c demo_dial s4"
  define s6 where "s6 = body_step 0 0 R_Load ?c demo_dial s5"
  define s7 where "s7 = body_step 0 0 (R_Dial 1) ?c demo_dial s6"
  define s8 where "s8 = body_step 0 0 R_Stored ?c demo_dial s7"
  define s9 where "s9 = body_step 0 0 R_Finish ?c demo_dial s8"
  define s10 where "s10 = Reconnect_after 0 0 1 s9"
  note e0 = s0_def [unfolded NewSFUConnection_def]
  note e1 = s1_def [unfolded Switch_store_def] and e2 = s2_def [unfolded Reconnect_before_def]
  have e3: "s3 = go_on 0 (T_Body 0 R_Disconnect ?c) (s2\<lparr>rc_exec := Some 0, rc_next := 1\<rparr>)"
    by (simp add: s3_def exec_enter_def e2 e1 e0)
  note e = e0 e1 e2 e3 s4_def s5_def s6_def
  have e7: "s7 = go_on 0 (T_Body 0 R_Stored ?c) (s6\<lparr>rc_node := m, rc_stream := Some (1, ''a'')\<rparr>)"
    by (simp add: s7_def e body_step_def m)
  note f = e e7 s8_def s9_def s10_def
  have r: "reconnecting_reachable (NewNode ''c'') s0" unfolding s0_def by (rule reachable_refl)
  have r: "reconnecting_reachable (NewNode ''c'') s1" unfolding s1_def
    by (rule reachable_step [OF r], rule reconnect_step.switch [where r = None]) (simp add: f)
  have r: "reconnecting_reachable (NewNode ''c'') s2" unfolding s2_def
    by (rule reachable_step [OF r], rule reconnect_step.before) (simp add: f)
  have r: "reconnecting_reachable (NewNode ''c'') s3" unfolding s3_def
    by (rule reachable_step [OF r], rule reconnect_step.enter) (simp add: f)
  note work = reconnect_step.body [where d = demo_dial and t = 0 and c = 0 and call = ?c]
  have r: "reconnecting_reachable (NewNode ''c'') s4" unfolding s4_def by (rule reachable_step [OF r], rule work) (simp add: f)
  have r: "reconnecting_reachable (NewNode ''c'') s5" unfolding s5_def by (rule reachable_step [OF r], rule work) (simp add: f body_step_def)
  have r: "reconnecting_reachable (NewNode ''c'') s6" unfolding s6_def by (rule reachable_step [OF r], rule work) (simp add: f body_step_def)
  have r: "reconnecting_reachable (NewNode ''c'') s7" unfolding s7_def by (rule reachable_step [OF r], rule work) (simp add: f body_step_def)
  have r: "reconnecting_reachable (NewNode ''c'') s8" unfolding s8_def by (rule reachable_step [OF r], rule work) (simp add: f body_step_def)
  have r: "reconnecting_reachable (NewNode ''c'') s9" unfolding s9_def by (rule reachable_step [OF r], rule work) (simp add: f body_step_def)
  have r: "reconnecting_reachable (NewNode ''c'') s10" unfolding s10_def
    by (rule reachable_step [OF r], rule reconnect_step.after) (simp add: f body_step_def exec_return_def)
  show ?thesis
    by (rule exI [of _ s10]) (simp add: r, simp add: f body_step_def exec_return_def Reconnect_after_def Let_def)
qed

theorem switch_reaches_node_witness:
  "\<exists>s. reconnecting_reachable (NewNode ''c'') s \<and> rc_connected s \<and> rc_stream s = Some (1, ''a'')"
proof -
  obtain s where s: "reconnecting_reachable (NewNode ''c'') s" "rc_pc s 0 = T_Idle (Some 1)" "rc_connected s"
    "\<not> rc_closed s" "rc_calls s = [NewClientStreamFactory, (''a'', Map.empty)]"
    using demo_switched by blast
  have "finite (dom (neighborNodes (NewNode ''c'')))" by (simp add: NewNode_def)
  from switch_reaches_node [OF s(1) this s(4,2,3)] obtain j peer where
    j: "rc_stream s = Some (j, peer)" "1 \<le> j" "j < 2" "fst (rc_calls s ! j) \<noteq> ''*'' \<longrightarrow> peer = fst (rc_calls s ! j)"
    by (auto simp: s(5))
  then have "j = 1" by simp
  with j s show ?thesis by (intro exI [of _ s]) simp
qed

end
