(* ===== verification/Client_Exchange.thy ===== *)
theory Client_Exchange
  imports SFU_Client SFU_Service RTC_Peer
begin

text \<open>
  How the ends of an RTC stream understand each other: the candidates of \<open>pkg/sfu/newpc.go\<close>, the
  replies that the \<open>Signaller\<close> of \<open>pkg/sfu/send.go\<close> sends against the handlers of \<open>SFU_Client\<close>, and
  the joins of \<open>SFU_Client\<close> and \<open>RTC_Peer\<close> against the \<open>SFU_Service\<close>.
\<close>

section \<open>Candidates of a peer connection\<close>

text \<open>The nil that ends the candidates is dropped; the error of the send is only logged.\<close>

definition pc_OnICECandidate :: "'c pc_env \<Rightarrow> target \<Rightarrow> 'c option \<Rightarrow> 'c sfu_client \<Rightarrow> 'c sfu_client" where
  "pc_OnICECandidate E t candidate s =
     (case candidate of None \<Rightarrow> s | Some c \<Rightarrow> snd (Client_SendTrickle E c t s))"

section \<open>The Signaller\<close>

text \<open>
  A \<open>Signaller\<close> is the stream it sends on: the replies so far. \<open>sends\<close> tells which error a send
  returns.
\<close>

type_synonym sends = "rtc_reply list \<Rightarrow> string option"

definition sig_Send :: "sends \<Rightarrow> rtc_reply \<Rightarrow> rtc_reply list \<Rightarrow> string option \<times> rtc_reply list" where
  "sig_Send sends reply sig = (sends (sig @ [reply]), sig @ [reply])"

definition Sig_SendJoinError :: "sends \<Rightarrow> rtc_err option \<Rightarrow> rtc_reply list \<Rightarrow> string option \<times> rtc_reply list" where
  "Sig_SendJoinError sends err sig = sig_Send sends (Reply_Join False err None) sig"

text \<open>A session description is its type and its text.\<close>

definition Sig_SendJoinSuccess :: "sends \<Rightarrow> string \<times> string \<Rightarrow> rtc_reply list \<Rightarrow> string option \<times> rtc_reply list" where
  "Sig_SendJoinSuccess sends answer sig =
     sig_Send sends (Reply_Join True None
       (Some \<lparr>SD_Target = Target_PUBLISHER, SD_Type = fst answer, SD_Sdp = snd answer\<rparr>)) sig"

definition Sig_SendError :: "sends \<Rightarrow> error_code \<Rightarrow> string \<Rightarrow> rtc_reply list \<Rightarrow> string option \<times> rtc_reply list" where
  "Sig_SendError sends code reason sig = sig_Send sends (Reply_Error \<lparr>Err_Code = code, Err_Reason = reason\<rparr>) sig"

definition Sig_SendTrickle :: "('c \<Rightarrow> string + string) \<Rightarrow> sends \<Rightarrow> 'c \<Rightarrow> target \<Rightarrow> rtc_reply list
    \<Rightarrow> string option \<times> rtc_reply list" where
  "Sig_SendTrickle marsh sends candidate t sig =
     (case marsh candidate of
        Inl err \<Rightarrow> Sig_SendError sends InternalError (''unmarshal ice candidate error:  '' @ err) sig
      | Inr bytes \<Rightarrow> sig_Send sends (Reply_Trickle t bytes) sig)"

definition Sig_SendOffer :: "sends \<Rightarrow> string \<times> string \<Rightarrow> rtc_reply list \<Rightarrow> string option \<times> rtc_reply list" where
  "Sig_SendOffer sends desc sig =
     sig_Send sends (Reply_Description \<lparr>SD_Target = Target_SUBSCRIBER, SD_Type = fst desc, SD_Sdp = snd desc\<rparr>) sig"

text \<open>The reply that a call has sent.\<close>

definition sent_reply :: "string option \<times> rtc_reply list \<Rightarrow> rtc_reply" where
  "sent_reply res = last (snd res)"

lemma sent_reply_Send [simp]: "sent_reply (sig_Send sends reply sig) = reply"
  by (simp add: sent_reply_def sig_Send_def)

lemmas signaller_defs = Sig_SendJoinError_def Sig_SendJoinSuccess_def Sig_SendError_def Sig_SendTrickle_def Sig_SendOffer_def

lemma flag_update [simp]: "config_flag (config(name \<mapsto> ''true'')) name"
  by (simp add: config_flag_def)

text \<open>A candidate of a client, when the service can read what the client has written, reaches the peer as it was.\<close>

lemma client_candidate_reaches_peer:
  assumes "marshal_candidate E cand = Inr bytes" "e_unmarshal P bytes = Inr cand"
  shows "pc_log (pc_OnICECandidate E t (Some cand) c) = pc_log c @ [To_SFU (Request_Trickle t bytes)]"
    and "handle_trickle P t bytes ios = Some (r, ios') \<Longrightarrow> \<exists>more. ios' = ios @ P_Trickle cand t # more"
  using assms by (auto simp: pc_OnICECandidate_def Client_SendTrickle_def send_request_def pc_call_def Let_def
      handle_trickle_def must_send_def send_reply_def split: option.splits if_splits)

section \<open>Properties\<close>

text \<open>
  C27. What the server says is what the client does: an answer in a successful join and an offer are
  negotiated by the publisher and the subscriber with the same text, and ignored by the other; a
  candidate reaches the \<open>trickle\<close> of both as it was, when it can be marshalled and read back; a failed
  join, an error, and a candidate that cannot be marshalled make both clients reconnect and change
  nothing else. This is what the callback of the stream client does, once it has a handler.
\<close>

theorem signaller_is_understood:
  assumes "\<And>bytes. marsh cand = Inr bytes \<Longrightarrow> unmarshal_candidate E bytes = cand" and "handler s = Some pc"
  shows "let success = sent_reply (Sig_SendJoinSuccess sends (''answer'', sdp) sig);
             offer = sent_reply (Sig_SendOffer sends (''offer'', sdp) sig);
             trickle = sent_reply (Sig_SendTrickle marsh sends cand t sig);
             failed = sent_reply (Sig_SendJoinError sends err sig);
             error = sent_reply (Sig_SendError sends code reason sig);
             pub = (\<lambda>reply. newMsgHandler (Publisher_msgHandler E) reply s);
             sub = (\<lambda>reply. newMsgHandler (Subscriber_msgHandler E) reply s) in
    pub success = Some (case Publisher_negotiate E pc sdp s of (None, s1) \<Rightarrow> s1 | (Some _, s1) \<Rightarrow> refresh s1) \<and>
    sub success = Some s \<and> pub offer = Some s \<and>
    sub offer = Some (case Subscriber_negotiate E pc sdp s of (None, s1) \<Rightarrow> s1 | (Some _, s1) \<Rightarrow> refresh s1) \<and>
    (case marsh cand of
       Inr _ \<Rightarrow> pub trickle = Some (Publisher_trickle E pc cand t s) \<and> sub trickle = Some (Subscriber_trickle E pc cand t s)
     | Inl _ \<Rightarrow> pub trickle = Some (refresh s) \<and> sub trickle = Some (refresh s)) \<and>
    pub failed = Some (refresh s) \<and> sub failed = Some (refresh s) \<and>
    pub error = Some (refresh s) \<and> sub error = Some (refresh s)"
  using assms by (cases "marsh cand")
    (simp_all add: signaller_defs newMsgHandler_def Publisher_msgHandler_def Subscriber_msgHandler_def split: prod.split option.split)

definition exchange_env :: "string pc_env" where
  "exchange_env = \<lparr>new_pc = (\<lambda>_. True), set_remote_error = (\<lambda>_. None), current_remote = (\<lambda>_ _. True),
     create_answer = (\<lambda>_. Inr ''answer''), create_offer = (\<lambda>_. Inr ''offer''), set_local_error = (\<lambda>_. None),
     need_track_error = (\<lambda>_. None), send_result = (\<lambda>_. None), marshal_candidate = Inr,
     unmarshal_candidate = (\<lambda>text. text), err_text = (\<lambda>_. ''error'')\<rparr>"

theorem signaller_is_understood_witness:
  "\<exists>s. handler s = Some 0 \<and>
     newMsgHandler (Publisher_msgHandler exchange_env) (sent_reply (Sig_SendTrickle Inr (\<lambda>_. None) ''c'' Target_PUBLISHER [])) s =
       Some (Publisher_trickle exchange_env 0 ''c'' Target_PUBLISHER s) \<and>
     pc_log (Publisher_trickle exchange_env 0 ''c'' Target_PUBLISHER s) = [Add_Candidate 0 ''c''] \<and>
     newMsgHandler (Subscriber_msgHandler exchange_env) (sent_reply (Sig_SendError (\<lambda>_. None) InternalError ''x'' [])) s = Some (refresh s)"
proof -
  define s :: "string sfu_client" where "s = OnMsgRecv_handler 0 NewSFUClient"
  have h: "handler s = Some 0" by (simp add: s_def OnMsgRecv_handler_def)
  have "unmarshal_candidate exchange_env bytes = ''c''" if "(Inr ''c'' :: string + string) = Inr bytes" for bytes
    using that by (simp add: exchange_env_def)
  from signaller_is_understood [where marsh = Inr and cand = "''c''" and E = exchange_env and s = s and pc = 0, OF this h]
  have "newMsgHandler (Publisher_msgHandler exchange_env) (sent_reply (Sig_SendTrickle Inr (\<lambda>_. None) ''c'' Target_PUBLISHER [])) s =
       Some (Publisher_trickle exchange_env 0 ''c'' Target_PUBLISHER s)"
    "newMsgHandler (Subscriber_msgHandler exchange_env) (sent_reply (Sig_SendError (\<lambda>_. None) InternalError ''x'' [])) s = Some (refresh s)"
    by (simp_all add: Let_def)
  moreover have "pc_log (Publisher_trickle exchange_env 0 ''c'' Target_PUBLISHER s) = [Add_Candidate 0 ''c'']"
    by (simp add: s_def OnMsgRecv_handler_def Publisher_trickle_def trickle_for_def exchange_env_def NewSFUClient_def pc_call_def)
  ultimately show ?thesis using h by blast
qed

text \<open>
  C18. A service that tracks its sessions tells the two kinds of peers apart by their joins: for the join
  that a client sends it sends the ADD event of exactly this session and defers its removal, for the
  join of a forwarding it sends none.
\<close>

theorem joins_of_clients_are_tracked:
  assumes "TrackSession s"
  shows "(\<exists>request s1 config' desc.
      pc_log (snd (Client_SendJoin E sid usr config offer c)) = pc_log c @ [To_SFU request] \<and>
      take_message P g request s = Some s1 \<and> sc_pc (signals s1 g) = S_Adding sid usr config' desc \<and>
      svc_log (join_add g sid usr config' desc s1) = svc_log s @ [(g, session_added \<lparr>Session = sid, User = usr\<rparr>)] \<and>
      sc_deferred (signals (join_add g sid usr config' desc s1) g) = \<lparr>Session = sid, User = usr\<rparr> # sc_deferred (signals s g)) \<and>
    (\<exists>request s1 config' desc.
      io (snd (SendJoin F sid usr r)) = io r @ [Send request] \<and>
      take_message P g request s = Some s1 \<and> sc_pc (signals s1 g) = S_Joining sid usr config' desc \<and>
      svc_log s1 = svc_log s \<and> sc_deferred (signals s1 g) = sc_deferred (signals s g))"
proof
  let ?config = "config(''IsClient'' \<mapsto> ''true'')"
  let ?desc = "(case offer of Some sdp \<Rightarrow> Some \<lparr>SD_Target = Target_PUBLISHER, SD_Type = ''offer'', SD_Sdp = sdp\<rparr> | None \<Rightarrow> None)"
  have "take_message P g (Request_Join sid usr ?config ?desc) s =
      Some (upd_signal g (\<lambda>c. c\<lparr>sc_pc := S_Adding sid usr ?config ?desc\<rparr>) s)"
    using assms flag_update [of config "''IsClient''"] by (simp add: take_message_def Let_def)
  moreover have "pc_log (snd (Client_SendJoin E sid usr config offer c)) = pc_log c @ [To_SFU (Request_Join sid usr ?config ?desc)]"
    by (simp add: Client_SendJoin_def send_request_def pc_call_def Let_def)
  ultimately show "\<exists>request s1 config' desc.
      pc_log (snd (Client_SendJoin E sid usr config offer c)) = pc_log c @ [To_SFU request] \<and>
      take_message P g request s = Some s1 \<and> sc_pc (signals s1 g) = S_Adding sid usr config' desc \<and>
      svc_log (join_add g sid usr config' desc s1) = svc_log s @ [(g, session_added \<lparr>Session = sid, User = usr\<rparr>)] \<and>
      sc_deferred (signals (join_add g sid usr config' desc s1) g) = \<lparr>Session = sid, User = usr\<rparr> # sc_deferred (signals s g)"
    by (intro exI conjI) (assumption | simp add: upd_signal_def join_add_def addClient_def send_event_def Let_def)+
next
  have "take_message P g (Request_Join sid usr join_config None) s =
      Some (upd_signal g (\<lambda>c. c\<lparr>sc_pc := S_Joining sid usr join_config None\<rparr>) s)"
    by (simp add: take_message_def Let_def config_flag_def join_config_def)
  then show "\<exists>request s1 config' desc.
      io (snd (SendJoin F sid usr r)) = io r @ [Send request] \<and>
      take_message P g request s = Some s1 \<and> sc_pc (signals s1 g) = S_Joining sid usr config' desc \<and>
      svc_log s1 = svc_log s \<and> sc_deferred (signals s1 g) = sc_deferred (signals s g)"
    by (intro exI conjI) (assumption | simp add: upd_signal_def SendJoin_def stream_Send_def call_def Let_def)+
qed


theorem joins_of_clients_are_tracked_witness:
  "\<forall>P :: string peer_env. \<exists>request s1.
     pc_log (snd (Client_SendJoin exchange_env ''s'' ''u'' Map.empty None NewSFUClient)) = [To_SFU request] \<and>
     take_message P 0 request (NewSFUService True) = Some s1 \<and>
     (\<exists>config' desc. sc_pc (signals s1 0) = S_Adding ''s'' ''u'' config' desc)"
proof
  fix P :: "string peer_env"
  let ?s = "NewSFUService True :: string SFUService"
  have "TrackSession ?s" by (simp add: NewSFUService_def)
  from joins_of_clients_are_tracked [OF this, of exchange_env "''s''" "''u''" Map.empty None NewSFUClient P 0 demo_env "NewRTC ''r''"]
  show "\<exists>request s1. pc_log (snd (Client_SendJoin exchange_env ''s'' ''u'' Map.empty None NewSFUClient)) = [To_SFU request] \<and>
     take_message P 0 request ?s = Some s1 \<and> (\<exists>config' desc. sc_pc (signals s1 0) = S_Adding ''s'' ''u'' config' desc)"
    by (auto simp: NewSFUClient_def)
qed

end
