(* ===== verification/Commands.thy ===== *)
theory Commands
  imports Stupid_SFU SFU_Config
begin

text \<open>
  Configuration files (\<open>config/config.go\<close>) and the four commands (\<open>cmd\<close>): what they read, what they
  start and how they end. viper, the file system and TOML are arguments: what they answer is a function
  of the calls made so far. Flags are parsed by Go's library; their values are arguments.
\<close>

section \<open>Reading a configuration\<close>

datatype viper_io =
    Stat string
  | Set_Config_File string
  | Set_Config_Type string
  | Read_In_Config
  | Merge_Config string
  | Automatic_Env
  | Set_Env_Prefix string
  | Unmarshal

datatype config_error = Stat_failed | Read_failed | Unmarshal_failed | Decode_failed | Marshal_failed | Merge_failed

record viper_env =
  stat_ok :: "viper_io list \<Rightarrow> bool"
  read_ok :: "viper_io list \<Rightarrow> bool"
  merge_ok :: "viper_io list \<Rightarrow> bool"

text \<open>\<open>unmarsh\<close> tells whether \<open>Unmarshal\<close> succeeds, and what it leaves in the variable, also when it fails.\<close>

type_synonym 'c unmarshal = "viper_io list \<Rightarrow> 'c \<Rightarrow> bool \<times> 'c"

definition viper_Unmarshal :: "'c unmarshal \<Rightarrow> 'c \<Rightarrow> viper_io list \<Rightarrow> config_error option \<times> 'c \<times> viper_io list" where
  "viper_Unmarshal unmarsh rawVal v =
     (let v1 = v @ [Unmarshal] in
      case unmarsh v1 rawVal of (ok, val) \<Rightarrow> (if ok then None else Some Unmarshal_failed, val, v1))"

definition LoadFromFile :: "viper_env \<Rightarrow> 'c unmarshal \<Rightarrow> string \<Rightarrow> string \<Rightarrow> 'c \<Rightarrow> viper_io list
    \<Rightarrow> config_error option \<times> 'c \<times> viper_io list" where
  "LoadFromFile E unmarsh file ftype rawVal v =
     (let v1 = v @ [Stat file] in
      if \<not> stat_ok E v1 then (Some Stat_failed, rawVal, v1)
      else
        (let v2 = v1 @ [Set_Config_File file, Set_Config_Type ftype, Read_In_Config] in
         if \<not> read_ok E v2 then (Some Read_failed, rawVal, v2)
         else viper_Unmarshal unmarsh rawVal v2))"

definition LoadFromToml :: "viper_env \<Rightarrow> 'c unmarshal \<Rightarrow> string \<Rightarrow> 'c \<Rightarrow> viper_io list
    \<Rightarrow> config_error option \<times> 'c \<times> viper_io list" where
  "LoadFromToml E unmarsh file rawVal v = LoadFromFile E unmarsh file ''toml'' rawVal v"

definition Common_Load :: "viper_env \<Rightarrow> common_conf unmarshal \<Rightarrow> string \<Rightarrow> common_conf \<Rightarrow> viper_io list
    \<Rightarrow> config_error option \<times> common_conf \<times> viper_io list" where
  "Common_Load E unmarsh file c v = LoadFromToml E unmarsh file c v"

text \<open>An interface value that is nil, or holds a nil pointer, is deleted.\<close>

datatype 'v any_value = Any_Nil | Nil_Ptr | Any_Value 'v

definition clearNil :: "(string, 'v any_value) gomap \<Rightarrow> (string, 'v any_value) gomap" where
  "clearNil raw = (\<lambda>k. case raw k of Some (Any_Value x) \<Rightarrow> Some (Any_Value x) | _ \<Rightarrow> None)"

text \<open>\<open>decode\<close> is mapstructure's, \<open>to_toml\<close> the marshalling of the map.\<close>

definition MergeTomlFromEnv :: "viper_env \<Rightarrow> 'c unmarshal \<Rightarrow> ('c \<Rightarrow> (string, 'v any_value) gomap option)
    \<Rightarrow> ((string, 'v any_value) gomap \<Rightarrow> string option) \<Rightarrow> string \<Rightarrow> 'c \<Rightarrow> viper_io list
    \<Rightarrow> config_error option \<times> 'c \<times> viper_io list" where
  "MergeTomlFromEnv E unmarsh decode to_toml pre rawVal v =
     (case decode rawVal of
        None \<Rightarrow> (Some Decode_failed, rawVal, v)
      | Some m \<Rightarrow>
          (case to_toml (clearNil m) of
             None \<Rightarrow> (Some Marshal_failed, rawVal, v)
           | Some b \<Rightarrow>
               (let v1 = v @ [Set_Config_Type ''toml'', Merge_Config b] in
                if \<not> merge_ok E v1 then (Some Merge_failed, rawVal, v1)
                else viper_Unmarshal unmarsh rawVal (v1 @ [Automatic_Env, Set_Env_Prefix pre]))))"

text \<open>
  \<open>Load\<close> of an SFU (\<open>pkg/sfu/config.go\<close>): the file is read twice, for the common part and for ion-sfu's,
  whose port range is \<open>port_range\<close>; then the checks of \<open>SFU_Config\<close>. \<open>None\<close> is a panic.
\<close>

definition SFU_Load :: "viper_env \<Rightarrow> common_conf unmarshal \<Rightarrow> 'i unmarshal \<Rightarrow> ('i \<Rightarrow> port list) \<Rightarrow> string
    \<Rightarrow> common_conf \<times> 'i \<Rightarrow> viper_io list \<Rightarrow> (load_error option \<times> (common_conf \<times> 'i) \<times> viper_io list) option" where
  "SFU_Load E unmarsh unmarsh_ion port_range file c v =
     (case LoadFromToml E unmarsh file (fst c) v of
        (Some _, com, v1) \<Rightarrow> Some (Some Common_not_loaded, (com, snd c), v1)
      | (None, com, v1) \<Rightarrow>
          (case LoadFromToml E unmarsh_ion file (snd c) v1 of
             (Some _, ion, v2) \<Rightarrow> Some (Some Config_not_loaded, (com, ion), v2)
           | (None, ion, v2) \<Rightarrow>
               map_option (\<lambda>err. (err, (com, ion), v2)) (Config_Load True True (port_range ion))))"

section \<open>The commands\<close>

text \<open>How a process ends, and the node it had by then.\<close>

datatype 's process_end = Exited int "'s option" | Panicked | Returned "'s option"

text \<open>
  The frame of the commands for ISGLB, ISLB and SXU: help and a configuration that cannot be read show
  the help, which exits; a node that cannot be started exits; otherwise the node runs until a signal
  comes (\<open>run\<close> is all it does until then) and is closed. \<open>start\<close>, \<open>run\<close> and \<open>close\<close> are \<open>None\<close> when they
  panic; a panic of any goroutine of the running node ends the process, so \<open>run\<close> may panic for every node.
\<close>

definition command :: "bool \<Rightarrow> ('e option \<times> 'c) option \<Rightarrow> ('c \<Rightarrow> (bool \<times> 's) option) \<Rightarrow> ('s \<Rightarrow> 's option) \<Rightarrow> ('s \<Rightarrow> 's option)
    \<Rightarrow> 's process_end" where
  "command show_help loaded start run close =
     (if show_help then Exited (- 1) None
      else
        (case loaded of
           None \<Rightarrow> Panicked
         | Some (Some err, conf) \<Rightarrow> Exited (- 1) None
         | Some (None, conf) \<Rightarrow>
             (case start conf of
                None \<Rightarrow> Panicked
              | Some (False, s) \<Rightarrow> Exited (- 1) (Some s)
              | Some (True, s) \<Rightarrow> 
                  (case run s of
                     None \<Rightarrow> Panicked
                   | Some s1 \<Rightarrow> (case close s1 of None \<Rightarrow> Panicked | Some s2 \<Rightarrow> Returned (Some s2))))))"

text \<open>The value of a flag that may be missing.\<close>

definition flag :: "string option \<Rightarrow> string \<Rightarrow> string" where
  "flag given dflt = (case given of Some x \<Rightarrow> x | None \<Rightarrow> dflt)"

definition empty_conf :: common_conf where
  "empty_conf = \<lparr>Global_Dc = [], Log_Level = [], Nats_URL = []\<rparr>"

definition load_common :: "viper_env \<Rightarrow> common_conf unmarshal \<Rightarrow> string \<Rightarrow> (config_error option \<times> common_conf) option" where
  "load_common V unmarsh file = (case Common_Load V unmarsh file empty_conf [] of (err, conf, v) \<Rightarrow> Some (err, conf))"



definition load_sfu :: "viper_env \<Rightarrow> common_conf unmarshal \<Rightarrow> 'i unmarshal \<Rightarrow> ('i \<Rightarrow> port list) \<Rightarrow> 'i \<Rightarrow> string
    \<Rightarrow> (load_error option \<times> common_conf) option" where
  "load_sfu V unmarsh unmarsh_ion port_range ion0 file =
     map_option (\<lambda>(err, (com, ion), v). (err, com)) (SFU_Load V unmarsh unmarsh_ion port_range file (empty_conf, ion0) [])"

definition sxu_main :: "viper_env \<Rightarrow> common_conf unmarshal \<Rightarrow> 'i unmarshal \<Rightarrow> ('i \<Rightarrow> port list) \<Rightarrow> 'i \<Rightarrow> node_env \<Rightarrow> string
    \<Rightarrow> bool \<Rightarrow> string option \<Rightarrow> (sxu_node \<Rightarrow> sxu_node option) \<Rightarrow> sxu_node process_end" where
  "sxu_main V unmarsh unmarsh_ion port_range ion0 E rnd show_help c run =
     command show_help (load_sfu V unmarsh unmarsh_ion port_range ion0 (flag c ''cmd/sxu/sfu.toml''))
       (\<lambda>conf. SXU_Start E conf (SXU_New rnd (Some (DefaultToolBoxBuilder_Build [])))) run SXU_Close"



section \<open>Properties\<close>

lemma command_Panicked:
  "command show_help loaded start run close = Panicked \<longleftrightarrow> \<not> show_help \<and>
     (loaded = None \<or> (\<exists>conf. loaded = Some (None, conf) \<and>
        (start conf = None \<or> (\<exists>s. start conf = Some (True, s) \<and>
          (case run s of None \<Rightarrow> True | Some s1 \<Rightarrow> close s1 = None)))))"
  by (auto simp: command_def split: option.splits prod.splits bool.splits)

lemma command_Exited:
  "command show_help loaded start run close = Exited code r \<Longrightarrow> code = - 1 \<and>
     (case r of None \<Rightarrow> show_help \<or> (\<exists>err conf. loaded = Some (Some err, conf))
      | Some s \<Rightarrow> (\<exists>conf. loaded = Some (None, conf) \<and> start conf = Some (False, s)))"
  by (auto simp: command_def split: option.splits prod.splits bool.splits if_splits)

lemma command_Returned:
  "command show_help loaded start run close = Returned r \<Longrightarrow>
     \<exists>conf s s1 s2. loaded = Some (None, conf) \<and> start conf = Some (True, s) \<and> run s = Some s1 \<and> close s1 = Some s2 \<and>
       r = Some s2"
  by (auto simp: command_def split: option.splits prod.splits bool.splits if_splits)




text \<open>Loading the configuration of an SFU panics exactly when it has one port.\<close>

lemma load_sfu_panics:
  "load_sfu V unmarsh unmarsh_ion port_range ion0 file = None \<longleftrightarrow>
     (\<exists>com v1 ion v2. LoadFromToml V unmarsh file empty_conf [] = (None, com, v1) \<and>
        LoadFromToml V unmarsh_ion file ion0 v1 = (None, ion, v2) \<and> length (port_range ion) = 1)"
proof -
  have one: "Config_Load True True ports = None \<longleftrightarrow> length ports = 1" for ports
    by (cases ports; cases "tl ports") (auto simp: Config_Load_def)
  obtain e1 com v1 where l1: "LoadFromToml V unmarsh file empty_conf [] = (e1, com, v1)" by (metis prod_cases3)
  obtain e2 ion v2 where l2: "LoadFromToml V unmarsh_ion file ion0 v1 = (e2, ion, v2)" by (metis prod_cases3)
  show ?thesis by (cases e1; cases e2) (simp_all add: load_sfu_def SFU_Load_def l1 l2 one)
qed


text \<open>
  How the process of an SXU ends: it exits only to show its help, never with the error of a node that
  could not be started, since that start panics. It panics only for a configuration with one port,
  when NATS or the discovery cannot be reached, when a goroutine of the running node panics, or when the
  running node has lost its syncer or closed it before. When a signal ends it, its connections and its syncer are closed.
\<close>

theorem sxu_process_ends:
  "(case sxu_main V unmarsh unmarsh_ion port_range ion0 E rnd show_help c run of
      Exited code s \<Rightarrow> code = - 1 \<and> s = None
    | Panicked \<Rightarrow> (\<exists>conf. load_sfu V unmarsh unmarsh_ion port_range ion0 (flag c ''cmd/sxu/sfu.toml'') = Some (None, conf) \<and>
          (\<not> fst (Node_Start E (Nats_URL conf) (io Ion_SFU_New (new_node_life (''sxu-'' @ rnd)))) \<or>
           (\<exists>s. SXU_Start E conf (SXU_New rnd None) = Some (True, s) \<and>
              (case run s of
                 None \<Rightarrow> True
               | Some s1 \<Rightarrow> (case sx_syncer s1 of None \<Rightarrow> True | Some (y, t) \<Rightarrow> closed y))))) \<or>
        (\<exists>com v1 ion v2. LoadFromToml V unmarsh (flag c ''cmd/sxu/sfu.toml'') empty_conf [] = (None, com, v1) \<and>
           LoadFromToml V unmarsh_ion (flag c ''cmd/sxu/sfu.toml'') ion0 v1 = (None, ion, v2) \<and> length (port_range ion) = 1)
    | Returned s \<Rightarrow> (\<exists>t y box. s = Some t \<and> \<not> left_open (sx_node t) \<and> sx_syncer t = Some (y, box) \<and> closed y))"
proof -
  let ?load = "load_sfu V unmarsh unmarsh_ion port_range ion0 (flag c ''cmd/sxu/sfu.toml'')"
  let ?start = "\<lambda>conf. SXU_Start E conf (SXU_New rnd (Some (DefaultToolBoxBuilder_Build [])))"
  have new: "SXU_New rnd (Some (DefaultToolBoxBuilder_Build [])) = SXU_New rnd None"
    by (simp add: SXU_New_def SXU_NewWithID_def)
  have start: "?start conf \<noteq> Some (False, s)" "?start conf = None \<Longrightarrow>
      \<not> fst (Node_Start E (Nats_URL conf) (io Ion_SFU_New (new_node_life (''sxu-'' @ rnd))))" for conf s
    using sxu_starts_with_id [of E conf "''sxu-'' @ rnd"] unfolding new by (auto simp: SXU_New_def)
  note main = sxu_main_def [of V unmarsh unmarsh_ion port_range ion0 E rnd show_help c run]
  show ?thesis
  proof (cases "sxu_main V unmarsh unmarsh_ion port_range ion0 E rnd show_help c run")
    case (Exited code s)
    with command_Exited [OF Exited [unfolded main]] start(1) show ?thesis by (auto split: option.splits)
  next
    case Panicked
    from Panicked [unfolded main command_Panicked] consider "?load = None"
      | conf where "?load = Some (None, conf)" "?start conf = None"
      | conf s where "?load = Some (None, conf)" "?start conf = Some (True, s)"
          "case run s of None \<Rightarrow> True | Some s1 \<Rightarrow> SXU_Close s1 = None"
      by (elim conjE disjE exE) (assumption | metis)+
    then show ?thesis
    proof cases
      case 1
      then show ?thesis by (simp add: Panicked load_sfu_panics)
    next
      case 2
      then show ?thesis using start(2) by (auto simp: Panicked)
    next
      case (3 conf s)
      then have "case run s of None \<Rightarrow> True | Some s1 \<Rightarrow> (case sx_syncer s1 of None \<Rightarrow> True | Some (y, t) \<Rightarrow> closed y)"
        by (auto simp: SXU_Close_def Stop_def split: option.splits prod.splits if_splits)
      then show ?thesis using 3 by (auto simp: Panicked new)
    qed
  next
    case (Returned s)
    from command_Returned [OF Returned [unfolded main]] obtain s0 s' where s: "SXU_Close s0 = Some s'" "s = Some s'" by blast
    then obtain y t where "sx_syncer s' = Some (y, t)" "closed y" "sx_node s' = Node_Close (sx_node s0)"
      by (auto simp: SXU_Close_def Stop_def split: option.splits prod.splits if_splits)
    with s show ?thesis by (auto simp: Returned Node_Close_closes)
  qed
qed

text \<open>
  A configuration is read from the file that was named, as TOML, and only when it exists; when \<open>Load\<close>
  succeeds, viper's last answer is what the variable holds. Merging the environment hands TOML a map
  without nils.
\<close>

lemma LoadFromFile_ok:
  assumes "LoadFromFile E unmarsh file ftype rawVal v = (None, val, v')"
  shows "v' = v @ [Stat file, Set_Config_File file, Set_Config_Type ftype, Read_In_Config, Unmarshal] \<and>
    unmarsh v' rawVal = (True, val) \<and> stat_ok E (v @ [Stat file])"
  using assms by (auto simp: LoadFromFile_def viper_Unmarshal_def Let_def split: if_splits prod.splits)

lemma clearNil_no_nil: "clearNil m k \<noteq> Some Any_Nil \<and> clearNil m k \<noteq> Some Nil_Ptr \<and>
  (clearNil m k = Some (Any_Value x) \<longleftrightarrow> m k = Some (Any_Value x))"
  by (auto simp: clearNil_def split: option.splits any_value.splits)

definition demo_viper :: viper_env where
  "demo_viper = \<lparr>stat_ok = (\<lambda>_. True), read_ok = (\<lambda>_. True), merge_ok = (\<lambda>_. True)\<rparr>"

lemma demo_load [simp]: "load_common demo_viper (\<lambda>_ _. (True, demo_conf)) file = Some (None, demo_conf)"
  by (simp add: load_common_def Common_Load_def LoadFromToml_def LoadFromFile_def viper_Unmarshal_def demo_viper_def Let_def)

lemma demo_load_sfu [simp]:
  "load_sfu demo_viper (\<lambda>_ _. (True, demo_conf)) (\<lambda>_. Pair True) (\<lambda>_. []) () file = Some (None, demo_conf)"
  by (simp add: load_sfu_def SFU_Load_def LoadFromToml_def LoadFromFile_def viper_Unmarshal_def demo_viper_def Config_Load_def Let_def)


theorem sxu_process_ends_witness:
  "\<exists>t y box. sxu_main demo_viper (\<lambda>_ _. (True, demo_conf)) (\<lambda>_. Pair True) (\<lambda>_. []) () (demo_node_env True True) ''a'' False None Some =
      Returned (Some t) \<and> \<not> left_open (sx_node t) \<and> sx_syncer t = Some (y, box) \<and> closed y"
proof -
  let ?E = "demo_node_env True True" and ?u = "\<lambda>_ _. (True, demo_conf)"
  let ?main = "sxu_main demo_viper ?u (\<lambda>_. Pair True) (\<lambda>_. []) () ?E ''a'' False None Some"
  have up: "fst (Node_Start ?E url n)" for url n by (simp add: Node_Start_def demo_node_env_def Let_def)
  have new: "SXU_New ''a'' (Some (DefaultToolBoxBuilder_Build [])) = SXU_New ''a'' None"
    by (simp add: SXU_New_def SXU_NewWithID_def)
  obtain s y box where s: "SXU_Start ?E demo_conf (SXU_New ''a'' None) = Some (True, s)" "sx_syncer s = Some (y, box)" "\<not> closed y"
    using sxu_starts_with_id [of ?E demo_conf "''sxu-a''"] up
    by (auto simp: SXU_New_def NewSFUStatusSyncer_def split: option.splits)
  then obtain t where t: "SXU_Close s = Some t" by (simp add: SXU_Close_def Stop_def)
  have r: "?main = Returned (Some t)" by (simp add: sxu_main_def command_def new s(1) t)
  show ?thesis
    using sxu_process_ends [of demo_viper ?u "\<lambda>_. Pair True" "\<lambda>_. []" "()" None ?E "''a''" Some False]
    by (simp add: r)
qed

end
