(* ===== verification/Spec2Isabelle.thy ===== *)
theory Spec2Isabelle
  imports Control_Loop_Properties ISGLB_Properties Router_Properties Room_Service Exec_Locks Latest_Slot Stream_Client ISLB_Node Signaller
    SFU_Properties SFU_Forwarding SFU_Client_Properties SFU_Config Bridge_Properties Bridge_Peer_Properties Room_Client
    Node_Assembly Quality_Reports Random_Algorithm Stupid_SFU SFU_Switch Client_Exchange Commands
begin

text \<open>
  dion distributes the tracks of a video conference over many selective forwarding units (SFUs).
  Every SFU, extended to an SXU, reports its status over a stream to one ISGLB (a load balancer,
  \<open>pkg/isglb\<close>), which consults an algorithm (\<open>algorithms\<close>) and sends each SXU the status it should
  have: whose clients it serves, which tracks it pulls from other SFUs, which it processes. The
  syncer of an SXU (\<open>pkg/sxu/syncer\<close>) compares that with what it does and tells its routers
  (\<open>pkg/sxu/forward.go\<close>, \<open>proceed.go\<close>) what to start, stop and replace; a router keeps a watch dog
  (\<open>util/watchdog.go\<close>, \<open>blockeddoor.go\<close>) per track, whose door does the work: for a forwarded track
  a \<open>Signaller\<close> that runs an \<open>RTC\<close> to the other SFU. Clients of a room send health calls to the room
  service (\<open>pkg/sxu/room\<close>), whose expiring set (\<open>util/timer.go\<close>) turns silence into REMOVE events for
  the syncer. ISLB nodes (\<open>pkg/islb\<close>) find each other and share connections.

  \<^bold>\<open>The theories, and what each models.\<close>

  Foundations. \<open>Dion_Base\<close> holds the generic lemmas (maps written key by key, last match, reachable
  states) and the type of Go maps: a map is a function, and where Go visits a map in an order of its
  own, that order is an argument of the model, any permutation. \<open>Dion_Messages\<close> holds the messages
  (\<open>proto/isglb.pb.go\<close>, \<open>proto/room.pb.go\<close>) as records; a nil pointer is \<open>None\<close>, a dereference of
  nil is a panic, and a function that may panic returns an option.

  Sets. \<open>Disorder_Set\<close> is \<open>util/set.go\<close>, every operation, over any item with a key, a comparison
  and a clone; \<open>Set_Delta\<close> gives the meaning of the reports of \<open>Update\<close>; \<open>Proto_Items\<close> has the item
  types of \<open>util/pbimpl.go\<close>, \<open>nodeimpl.go\<close>, \<open>stringimpl.go\<close> and interprets the locales on them;
  \<open>Set_Map\<close> is \<open>util/setmap.go\<close>, refined to a relation. \<open>Set_Properties\<close> states what they give.

  ISGLB. \<open>Algorithms\<close> is \<open>algorithms/interfaces.go\<close> and the empty and stupid algorithms;
  \<open>ISGLB_Service\<close> is \<open>SyncSFU\<close> and \<open>routineSFUStatusRecv\<close> as a step relation \<open>isglb_step\<close> with one
  step per message and per batch; \<open>ISGLB_Properties\<close> proves over all reachable states that the
  latest statuses and the routing relation agree, that only changes are sent, to a connection that
  serves the node, that departed connections are forgotten, and that the stupid algorithm settles.
  \<open>ISGLB_Sender\<close> is \<open>routineSFUStatusSend\<close>: the goroutine that takes the statuses of a connection, and per
  node a channel of one place with a goroutine that sends; it shows that only older statuses are dropped.

  Syncer and routers. \<open>Syncer\<close> is \<open>syncer.go\<close>: the three sets, the main loop and the session
  fetcher as a step relation \<open>syncer_step\<close> that logs every call of the router and every status sent;
  \<open>Syncer_Properties\<close> shows that a router that does what it is told routes exactly what the syncer
  reports, and that no change of the clients is lost. \<open>Routers\<close> is \<open>forward.go\<close> and \<open>proceed.go\<close>;
  \<open>Syncer_Routers\<close> states the contract between syncer and router as a locale and interprets it for
  both; \<open>Router_Properties\<close> composes the syncer with each router.

  The whole control loop. \<open>Syncer_Mirror\<close> says when a syncer holds what a status names. \<open>Control_Loop\<close> puts one
  ISGLB and an SXU behind every connection into one step relation \<open>cluster_step\<close>, whose steps are those
  of \<open>isglb_step\<close> and \<open>syncer_step\<close>, and states what it asks of an algorithm as the locale
  \<open>control_algorithm\<close>, interpreted for the empty and the stupid algorithm. \<open>Control_Loop_Invariant\<close>
  proves the invariants of the loop, \<open>Control_Loop_Rest\<close> by a measure that the loop can come to rest, and
  \<open>Control_Loop_Properties\<close> that an SXU then routes what the algorithm wants, and that nothing panics.
  The loop is a closed system: the statuses are those of the syncers and of the ISGLB (a status of another
  client may lack a node, and panics the ISGLB: \<open>isglb_status_panics\<close>). It assumes that connections stay and
  that the statuses of one SXU arrive in the order in which it made them; the code starts a goroutine per
  status (\<open>syncer.go\<close> 193) and does not see to that order. That nothing panics and that the loop can come to
  rest holds for any texts of the messages and any node ids. That an SXU at rest routes what the algorithm
  wants needs two hypotheses: the SXUs have different node ids (\<open>distinct_nodes\<close>), and the text of a status
  shows its tracks (\<open>tracks_readable\<close>), because the ISGLB compares statuses by their texts
  (\<open>SFUStatusItem.Compare\<close>): \<open>String\<close> writes the text format, from which prototext reads a message back.

  Watch dogs. \<open>Watch_Dog\<close> and \<open>Blocked_Door\<close> are the goroutines of \<open>util/watchdog.go\<close> and
  \<open>util/blockeddoor.go\<close>, with the protocol of a door as an automaton that accepts their calls;
  \<open>Dog_Table\<close> is a map from keys to running watch dogs, as the proceed router and the bridge have it;
  \<open>Latest_Slot\<close> is the one place channel with which \<open>Update\<close> hands over the newest parameter.
  \<open>RTC_Messages\<close> has ion's RTC messages, \<open>RTC_Peer\<close> is \<open>pkg/sxu/rtc\<close>, \<open>Signaller\<close> is \<open>pkg/sxu/signaller/signaller.go\<close>: \<open>BLock\<close> statement by
  statement, with \<open>Update\<close> and \<open>Remove\<close> interleaved; a run works on the track it was called with and joins
  its two sessions, and an \<open>Update\<close> during the run can be lost.

  Bridges. \<open>Bridge\<close> is \<open>pkg/sxu/bridge/bridge.go\<close> and the watch dog that owns a bridge, as one step
  relation \<open>bridge_step\<close>; \<open>Bridge_Properties\<close> shows that the entrances follow the track and that the watch dog of each runs, on the
  session it was made for, that none survives its bridge, and that every update rebuilds the bridge.
  \<open>Bridge_Peer\<close> is the publisher and the entrances inside it (\<open>common.go\<close>, \<open>bridgepub.go\<close>,
  \<open>bridgesub.go\<close>, \<open>entrance.go\<close>, \<open>engine.go\<close>), statement by statement: the goroutine that negotiates and the
  callback of the peer connection share the list of ICE candidates without a lock, and
  \<open>Bridge_Peer_Properties\<close> shows what holds while they do not overlap, and a candidate that is lost when they do.

  SFU. \<open>SFU_Service\<close> is \<open>pkg/sfu/service.go\<close> and \<open>tracker.go\<close>: for any number of connections the two
  goroutines of \<open>Signal\<close>, the callbacks of the peer and the deferred clean-up as the relation \<open>sfu_step\<close>;
  \<open>SFU_Properties\<close> shows that session events are balanced, how the syncer's clients follow them, and
  when a client is lost; \<open>SFU_Forwarding\<close> connects it with the requests of \<open>RTC_Peer\<close>. \<open>SFU_Client\<close> is
  the publisher and the subscriber of \<open>pkg/sfu\<close>, \<open>SFU_Client_Properties\<close> their candidates and
  connections, \<open>SFU_Config\<close> the check of the configuration. \<open>SFU_Switch\<close> is how a client gets its stream
  (\<open>pkg/sfu/client.go\<close>, \<open>pkg/isglb/client.go\<close>): \<open>Switch\<close> and \<open>Reconnect\<close> of any number of goroutines, every
  atomic access a step, and that a returned \<open>Switch\<close> leaves no stream to an older node; \<open>Client_Exchange\<close>
  puts the ends of a stream together: \<open>Signaller\<close> against client, joins against service.

  Concurrency helpers. \<open>Exec_Locks\<close> is \<open>util/lock.go\<close> for any number of goroutines,
  \<open>Expire_Set_Map\<close> is \<open>util/timer.go\<close> with its runner, timers and channels, \<open>Room_Service\<close> is
  \<open>pkg/sxu/room/service.go\<close> on top of it, \<open>Room_Client\<close> is
  \<open>pkg/sxu/room/client.go\<close> with its loop, its health goroutines and its reconnections, \<open>Stream_Client\<close> is \<open>util/client.go\<close> and the sending half of
  \<open>pkg/isglb/client.go\<close>.

  Nodes. \<open>ISLB_Node\<close> is \<open>pkg/islb/node.go\<close> and \<open>registry.go\<close>, \<open>pkg/sxu/connpool.go\<close> and the client
  selector of \<open>pkg/sxu/room\<close>. \<open>Node_Assembly\<close> is how the nodes are made, started and closed
  (\<open>pkg/isglb/isglb.go\<close>, \<open>pkg/islb/islb.go\<close>, \<open>pkg/sfu/sfu.go\<close>, \<open>pkg/sxu/sxu.go\<close>) and the tool box of an
  SXU (\<open>pkg/sxu/interfaces.go\<close>), with what is left open when a start fails. \<open>Quality_Reports\<close> is the
  path of the quality reports (\<open>pkg/sxu/transmissionreporter.go\<close>, \<open>pkg/sxu/syncer/reporter.go\<close>). \<open>Random_Algorithm\<close> is
  \<open>algorithms/impl/random\<close>: generators as state monads over a stream of numbers, and an algorithm that
  keeps, returns and changes statuses in place, over a heap. \<open>FFmpeg_Processor\<close> is the processor of
  \<open>algorithms/impl/ffmpeg\<close> with the helpers of \<open>util/std.go\<close>: the goroutines of a track as a step
  relation, apart from what happens outside (ffmpeg, the peer), whose runs have at most nine steps. \<open>Stupid_SFU\<close> is \<open>pkg/stupid\<close>, and fits the stupid algorithm.
  \<open>Commands\<close> is \<open>config/config.go\<close> and the four processes of \<open>cmd\<close>, and what is left open when they end;
  what happens while a service runs is an argument that may be a panic.

  \<^bold>\<open>How concurrency is modelled.\<close> A goroutine that shares state is a program counter in the state, and
  every statement that another goroutine can see is a step of an inductive relation; the theorems
  speak of all reachable states, so of all interleavings. Channels are lists with the capacity of the
  code; timers may fire at any moment, so no bound on time is assumed. A panic is a step to \<open>None\<close>.

  \<^bold>\<open>Bounds and fuel.\<close> Loops over lists and maps are structural. A retry loop runs on the list of
  answers the environment gives it; running out of answers is \<open>None\<close>, and the theorems state what
  holds when the loop returns. The reconnect counter is a \<open>32 word\<close>.

  \<^bold>\<open>Parameters.\<close> Code outside the repository is an argument: the text of a message
  (\<open>proto.Message.String\<close>) is a function \<open>render\<close>, the streams, the peers of ion-sfu and JSON are an
  environment that answers every call, NATS discovery is a list of nodes.

  In \<open>SFU_Service\<close> a join is two steps, of a gRPC status only the code is kept; \<open>Stop\<close> of a syncer
  closes its three channels in one step.

  \<^bold>\<open>Not modelled.\<close> Generated accessors and gRPC stubs; the parsing of flags; logging and printing; the
  registration of pion's interceptors (\<open>pkg/sfu/interceptor.go\<close>); the codecs, ICE servers and setting
  engines with which pion's peer connections are made; interfaces and stubs without code of their own.
\<close>

end
